(* ===== verification/Prelude.thy ===== *)
theory Prelude
  imports Main "HOL-Library.Word" "HOL-Library.AList"
begin

text \<open>
  Shared vocabulary of the development.

  \<^item> Bytes and machine integers: a wire byte is an \<open>8 word\<close>, a \<open>u16\<close>/\<open>u32\<close>/\<open>u64\<close> field is a word
    of that width, \<open>usize\<close> is \<open>nat\<close> (with \<open>usize_max\<close> written out where the code saturates).
  \<^item> Fallible code returns \<open>'a result\<close>, a sum with the error on the left. An error is the message
    of the \<open>ensure!\<close>/\<open>bail!\<close> that produced it, without the interpolated values (\<open>Err\<close>), or the
    reason of a panic (\<open>Panic\<close>), such as an index out of range.
  \<^item> Big-endian integers (\<open>to_be_bytes\<close>, \<open>from_be_bytes\<close>, \<open>BufMut::put_u16\<close> and its kin) and
    slices of byte strings, with the two round trips.
  \<^item> Hash maps are association lists with distinct keys; the list order stands for the
    iteration order, about which the code assumes nothing.
\<close>

section \<open>Types\<close>

type_synonym byte = "8 word"
type_synonym bytes = "byte list"
type_synonym u8 = "8 word"
type_synonym u16 = "16 word"
type_synonym u32 = "32 word"
type_synonym u64 = "64 word"

text \<open>\<open>Instant\<close> and \<open>Duration\<close> are nanosecond counts; \<open>saturating_duration_since\<close> is then
  subtraction on \<open>nat\<close>, which stops at zero as the source's does.\<close>

type_synonym instant = nat
type_synonym duration = nat

datatype error = Err string | Panic string

type_synonym 'a result = "error + 'a"

section \<open>Results\<close>

named_theorems result_iff \<open>when a fallible computation succeeds\<close>

definition ensure :: "bool \<Rightarrow> string \<Rightarrow> 'a result \<Rightarrow> 'a result" where
  "ensure b msg k = (if b then k else Inl (Err msg))"

definition bindR :: "'a result \<Rightarrow> ('a \<Rightarrow> 'b result) \<Rightarrow> 'b result" where
  "bindR m f = (case m of Inl e \<Rightarrow> Inl e | Inr x \<Rightarrow> f x)"

fun mapR :: "('a \<Rightarrow> 'b result) \<Rightarrow> 'a list \<Rightarrow> 'b list result" where
  "mapR f [] = Inr []"
| "mapR f (x # xs) = bindR (f x) (\<lambda>y. bindR (mapR f xs) (\<lambda>ys. Inr (y # ys)))"

fun allR :: "('a \<Rightarrow> unit result) \<Rightarrow> 'a list \<Rightarrow> unit result" where
  "allR f [] = Inr ()"
| "allR f (x # xs) = bindR (f x) (\<lambda>_. allR f xs)"

definition is_ok :: "'a result \<Rightarrow> bool" where
  "is_ok r = (case r of Inl _ \<Rightarrow> False | Inr _ \<Rightarrow> True)"

lemma ensure_simps [simp]:
  "ensure True msg k = k"
  "ensure False msg k = Inl (Err msg)"
  by (simp_all add: ensure_def)

lemma bindR_simps [simp]:
  "bindR (Inl e) f = Inl e"
  "bindR (Inr x) f = f x"
  by (simp_all add: bindR_def)

lemma is_ok_simps [simp]:
  "is_ok (Inr x)"
  "\<not> is_ok (Inl e)"
  by (simp_all add: is_ok_def)

lemma is_ok_iff: "is_ok r \<longleftrightarrow> (\<exists>x. r = Inr x)"
  by (cases r) auto

lemma ensure_Inr_iff [result_iff]: "ensure b msg k = Inr x \<longleftrightarrow> b \<and> k = Inr x"
  by (simp add: ensure_def)

lemma bindR_Inr_iff [result_iff]: "bindR m f = Inr y \<longleftrightarrow> (\<exists>x. m = Inr x \<and> f x = Inr y)"
  by (cases m) auto

lemma ensure_ok_iff [result_iff]: "is_ok (ensure b msg k) \<longleftrightarrow> b \<and> is_ok k"
  by (simp add: ensure_def)

lemma bindR_ok_iff [result_iff]: "is_ok (bindR m f) \<longleftrightarrow> (\<exists>x. m = Inr x \<and> is_ok (f x))"
  by (cases m) auto

lemma allR_Inr_iff [result_iff]: "allR f xs = Inr u \<longleftrightarrow> (\<forall>x\<in>set xs. f x = Inr ())"
  by (induction xs) (auto simp: bindR_Inr_iff)

lemma bindR_cong [fundef_cong]:
  "m = m' \<Longrightarrow> (\<And>x. m' = Inr x \<Longrightarrow> f x = f' x) \<Longrightarrow> bindR m f = bindR m' f'"
  by (cases m') auto

lemma ensure_cong [fundef_cong]:
  "b = b' \<Longrightarrow> (b' \<Longrightarrow> k = k') \<Longrightarrow> ensure b msg k = ensure b' msg k'"
  by (simp add: ensure_def)

lemma mapR_length: "mapR f xs = Inr ys \<Longrightarrow> length ys = length xs"
  by (induction xs arbitrary: ys) (auto simp: result_iff)

lemma mapR_list_all2: "mapR f xs = Inr ys \<Longrightarrow> list_all2 (\<lambda>x y. f x = Inr y) xs ys"
  by (induction xs arbitrary: ys) (auto simp: result_iff)

lemma list_all2_mapR: "list_all2 (\<lambda>x y. f x = Inr y) xs ys \<Longrightarrow> mapR f xs = Inr ys"
  by (induction rule: list_all2_induct) auto

lemma mapR_Inr_iff: "mapR f xs = Inr ys \<longleftrightarrow> list_all2 (\<lambda>x y. f x = Inr y) xs ys"
  using mapR_list_all2 list_all2_mapR by blast

section \<open>Saturating and checked arithmetic\<close>

definition usize_max :: nat where
  "usize_max = 2 ^ 64 - 1"

definition sat_add :: "nat \<Rightarrow> nat \<Rightarrow> nat" where
  "sat_add a b = min (a + b) usize_max"

definition checked_add :: "nat \<Rightarrow> nat \<Rightarrow> nat option" where
  "checked_add a b = (if a + b \<le> usize_max then Some (a + b) else None)"

definition div_ceil :: "nat \<Rightarrow> nat \<Rightarrow> nat" where
  "div_ceil a b = (a + b - 1) div b"

definition u32_max :: nat where
  "u32_max = 2 ^ 32 - 1"

definition u16_max :: nat where
  "u16_max = 65535"

definition u8_sat_add :: "u8 \<Rightarrow> u8 \<Rightarrow> u8" where
  "u8_sat_add a b = (if unat a + unat b \<le> 255 then a + b else 255)"

lemma sat_add_le_iff: "m < usize_max \<Longrightarrow> sat_add a b \<le> m \<longleftrightarrow> a + b \<le> m"
  by (auto simp: sat_add_def min_def)

lemma sat_add_gt_iff: "m < usize_max \<Longrightarrow> m < sat_add a b \<longleftrightarrow> m < a + b"
  by (auto simp: sat_add_def min_def)

lemma sat_add_exact: "a + b \<le> usize_max \<Longrightarrow> sat_add a b = a + b"
  by (simp add: sat_add_def)

lemma sat_add_zero [simp]: "a \<le> usize_max \<Longrightarrow> sat_add a 0 = a"
  by (simp add: sat_add_def)

lemma sat_add_le_usize [simp]: "sat_add a b \<le> usize_max"
  by (simp add: sat_add_def)

lemma u16_le_usize: "n \<le> u16_max \<Longrightarrow> n < usize_max"
  by (simp add: u16_max_def usize_max_def)

section \<open>Slices\<close>

text \<open>\<open>slice i j xs\<close> is \<open>xs[i..j]\<close>; every use in the source has \<open>i \<le> j \<le> xs.len()\<close>
  established before it.\<close>

definition slice :: "nat \<Rightarrow> nat \<Rightarrow> 'a list \<Rightarrow> 'a list" where
  "slice i j xs = take (j - i) (drop i xs)"

lemma slice_length [simp]: "j \<le> length xs \<Longrightarrow> length (slice i j xs) = j - i"
  by (simp add: slice_def)

lemma slice_append_left: "j \<le> length xs \<Longrightarrow> slice i j (xs @ ys) = slice i j xs"
  by (simp add: slice_def)

lemma slice_append_right: "length xs \<le> i \<Longrightarrow> slice i j (xs @ ys) = slice (i - length xs) (j - length xs) ys"
  by (simp add: slice_def)

lemma slice_full: "length xs \<le> j \<Longrightarrow> slice 0 j xs = xs"
  by (simp add: slice_def)

lemma slice_join: "i \<le> j \<Longrightarrow> j \<le> k \<Longrightarrow> slice i j xs @ slice j k xs = slice i k xs"
proof -
  assume "i \<le> j" "j \<le> k"
  then have "k - i = (j - i) + (k - j)" and "j = (j - i) + i" by simp_all
  then have "slice i k xs = take (j - i) (drop i xs) @ take (k - j) (drop (j - i) (drop i xs))"
    unfolding slice_def by (simp only: take_add)
  moreover have "drop (j - i) (drop i xs) = drop j xs"
    using \<open>i \<le> j\<close> by simp
  ultimately show ?thesis by (simp add: slice_def)
qed

lemma slice_drop: "slice i (length xs) xs = drop i xs"
  by (simp add: slice_def)

lemma slice_nth: "i + n < j \<Longrightarrow> j \<le> length xs \<Longrightarrow> slice i j xs ! n = xs ! (i + n)"
  by (simp add: slice_def)

lemma slice_one: "i < length xs \<Longrightarrow> slice i (Suc i) xs = [xs ! i]"
  by (simp add: slice_def take_Suc_conv_app_nth)

lemma slice_shift: "slice (c + i) (c + j) bs = slice i j (drop c bs)"
  by (simp add: slice_def add.commute)

section \<open>Big-endian integers\<close>

fun be_of_nat :: "nat \<Rightarrow> nat \<Rightarrow> bytes" where
  "be_of_nat 0 x = []"
| "be_of_nat (Suc n) x = word_of_nat (x div 256 ^ n) # be_of_nat n x"

definition nat_of_be :: "bytes \<Rightarrow> nat" where
  "nat_of_be bs = foldl (\<lambda>acc b. acc * 256 + unat b) 0 bs"

definition put_u8 :: "u8 \<Rightarrow> bytes" where
  "put_u8 w = [w]"

definition put_u16 :: "u16 \<Rightarrow> bytes" where
  "put_u16 w = be_of_nat 2 (unat w)"

definition put_u32 :: "u32 \<Rightarrow> bytes" where
  "put_u32 w = be_of_nat 4 (unat w)"

definition put_u64 :: "u64 \<Rightarrow> bytes" where
  "put_u64 w = be_of_nat 8 (unat w)"

definition get_u16 :: "bytes \<Rightarrow> u16" where
  "get_u16 bs = word_of_nat (nat_of_be bs)"

definition get_u32 :: "bytes \<Rightarrow> u32" where
  "get_u32 bs = word_of_nat (nat_of_be bs)"

definition get_u64 :: "bytes \<Rightarrow> u64" where
  "get_u64 bs = word_of_nat (nat_of_be bs)"

lemma unat_less_length: "unat w < 2 ^ LENGTH('a)"
  for w :: "'a::len word"
  by (rule unsigned_less)

lemma be_of_nat_length [simp]: "length (be_of_nat n x) = n"
  by (induction n) auto

lemma put_length [simp]:
  "length (put_u8 a) = 1" "length (put_u16 b) = 2" "length (put_u32 c) = 4" "length (put_u64 d) = 8"
  by (simp_all add: put_u8_def put_u16_def put_u32_def put_u64_def)

lemma foldl_be: "foldl (\<lambda>acc b. acc * 256 + unat b) a bs = a * 256 ^ length bs + nat_of_be bs"
  for bs :: bytes
proof (induction bs arbitrary: a)
  case Nil
  then show ?case by (simp add: nat_of_be_def)
next
  case (Cons b bs)
  have "nat_of_be (b # bs) = unat b * 256 ^ length bs + nat_of_be bs"
    using Cons.IH [of "unat b"] by (simp add: nat_of_be_def)
  then show ?case by (simp only: foldl_Cons Cons.IH) (simp add: algebra_simps)
qed

lemma nat_of_be_Nil [simp]: "nat_of_be [] = 0"
  by (simp add: nat_of_be_def)

lemma nat_of_be_Cons [simp]: "nat_of_be (b # bs) = unat b * 256 ^ length bs + nat_of_be bs"
  using foldl_be [of "unat b" bs] by (simp add: nat_of_be_def)

lemma unat_byte_of_nat: "unat (word_of_nat n :: byte) = n mod 256"
  by (simp add: unsigned_of_nat take_bit_eq_mod)

lemma nat_of_be_of_nat: "nat_of_be (be_of_nat n x) = x mod 256 ^ n"
proof (induction n)
  case 0
  then show ?case by simp
next
  case (Suc n)
  have "x mod 256 ^ Suc n = 256 ^ n * (x div 256 ^ n mod 256) + x mod 256 ^ n"
    by (simp add: mod_mult2_eq power_Suc2 del: power_Suc)
  then show ?case by (simp add: Suc unat_byte_of_nat)
qed

lemma nat_of_be_less: "nat_of_be bs < 256 ^ length bs"
proof (induction bs)
  case Nil
  then show ?case by simp
next
  case (Cons b bs)
  have "unat b < 256" using unat_less_length [of b] by simp
  then have "unat b \<le> 255" by simp
  then have "unat b * 256 ^ length bs \<le> 255 * 256 ^ length bs" by (rule mult_le_mono1)
  then have "unat b * 256 ^ length bs + nat_of_be bs < 256 * 256 ^ length bs"
    using Cons by linarith
  then show ?case by simp
qed

lemma be_of_nat_add: "be_of_nat n (a * 256 ^ n + x) = be_of_nat n x"
proof (induction n arbitrary: a)
  case 0
  then show ?case by simp
next
  case (Suc n)
  have "(a * 256 ^ Suc n + x) div 256 ^ n = a * 256 + x div 256 ^ n"
    by (simp only: power_Suc mult.assoc [symmetric]) (simp add: div_add1_eq)
  moreover have "(word_of_nat (a * 256 + x div 256 ^ n) :: byte) = word_of_nat (x div 256 ^ n)"
    by (rule word_unat_eq_iff [THEN iffD2])
      (simp only: unat_byte_of_nat mod_mult_self3 mod_mult_self1)
  ultimately show ?case
    using Suc [of "a * 256"] by (simp add: mult.assoc mult.left_commute)
qed

lemma be_of_nat_of_be: "be_of_nat (length bs) (nat_of_be bs) = bs"
proof (induction bs)
  case Nil
  then show ?case by simp
next
  case (Cons b bs)
  have "(unat b * 256 ^ length bs + nat_of_be bs) div 256 ^ length bs = unat b"
    using nat_of_be_less [of bs] by simp
  then show ?case by (simp add: Cons be_of_nat_add)
qed

lemma get_put_u16 [simp]: "get_u16 (put_u16 w) = w"
  using unat_less_length [of w] by (simp add: get_u16_def put_u16_def nat_of_be_of_nat)

lemma get_put_u32 [simp]: "get_u32 (put_u32 w) = w"
  using unat_less_length [of w] by (simp add: get_u32_def put_u32_def nat_of_be_of_nat)

lemma get_put_u64 [simp]: "get_u64 (put_u64 w) = w"
  using unat_less_length [of w] by (simp add: get_u64_def put_u64_def nat_of_be_of_nat)

lemma put_get_u16: "length bs = 2 \<Longrightarrow> put_u16 (get_u16 bs) = bs"
  using nat_of_be_less [of bs] be_of_nat_of_be [of bs]
  by (simp add: get_u16_def put_u16_def unsigned_of_nat take_bit_eq_mod)

lemma put_get_u32: "length bs = 4 \<Longrightarrow> put_u32 (get_u32 bs) = bs"
  using nat_of_be_less [of bs] be_of_nat_of_be [of bs]
  by (simp add: get_u32_def put_u32_def unsigned_of_nat take_bit_eq_mod)

lemma put_get_u64: "length bs = 8 \<Longrightarrow> put_u64 (get_u64 bs) = bs"
  using nat_of_be_less [of bs] be_of_nat_of_be [of bs]
  by (simp add: get_u64_def put_u64_def unsigned_of_nat take_bit_eq_mod)

lemma unat_u16_of_nat: "n \<le> u16_max \<Longrightarrow> unat (word_of_nat n :: u16) = n"
  by (simp add: u16_max_def unsigned_of_nat take_bit_eq_mod)

lemma unat_u16_le [simp]: "unat (w :: u16) \<le> u16_max"
  using unat_less_length [of w] by (simp add: u16_max_def)

lemma unat_u32_of_nat: "n \<le> u32_max \<Longrightarrow> unat (word_of_nat n :: u32) = n"
  by (simp add: u32_max_def unsigned_of_nat take_bit_eq_mod)

lemma unat_u8_le: "unat (w :: u8) \<le> 255"
  using unat_less_length [of w] by simp

section \<open>Evaluation on the wire\<close>

named_theorems wire_eval \<open>evaluation of integers on the wire\<close>

lemma be_of_nat_eval:
  "be_of_nat 2 x = [word_of_nat (x div 256), word_of_nat x]"
  "be_of_nat 4 x = [word_of_nat (x div 16777216), word_of_nat (x div 65536), word_of_nat (x div 256),
     word_of_nat x]"
  "be_of_nat 8 x = [word_of_nat (x div 72057594037927936), word_of_nat (x div 281474976710656),
     word_of_nat (x div 1099511627776), word_of_nat (x div 4294967296), word_of_nat (x div 16777216),
     word_of_nat (x div 65536), word_of_nat (x div 256), word_of_nat x]"
proof -
  have "(2::nat) = Suc (Suc 0)" "(4::nat) = Suc (Suc (Suc (Suc 0)))"
    "(8::nat) = Suc (Suc (Suc (Suc (Suc (Suc (Suc (Suc 0)))))))" by simp_all
  then show "be_of_nat 2 x = [word_of_nat (x div 256), word_of_nat x]"
    "be_of_nat 4 x = [word_of_nat (x div 16777216), word_of_nat (x div 65536), word_of_nat (x div 256),
     word_of_nat x]"
    "be_of_nat 8 x = [word_of_nat (x div 72057594037927936), word_of_nat (x div 281474976710656),
     word_of_nat (x div 1099511627776), word_of_nat (x div 4294967296), word_of_nat (x div 16777216),
     word_of_nat (x div 65536), word_of_nat (x div 256), word_of_nat x]"
    by (simp_all only: be_of_nat.simps) simp_all
qed

lemmas wire_evals [wire_eval] =
  put_u8_def put_u16_def put_u32_def put_u64_def get_u16_def get_u32_def get_u64_def be_of_nat_eval
  slice_def usize_max_def u16_max_def u32_max_def checked_add_def

lemma checked_add_Inr_iff [result_iff]:
  "(case checked_add a b of None \<Rightarrow> Inl e | Some c \<Rightarrow> f c) = Inr x \<longleftrightarrow> a + b \<le> usize_max \<and> f (a + b) = Inr x"
  by (simp add: checked_add_def)

lemma unat_small_u16: "n \<le> 64 \<Longrightarrow> unat (word_of_nat n :: u16) = n"
  by (rule unat_u16_of_nat) (simp add: u16_max_def)

lemmas slice_layout = slice_append_left slice_append_right slice_full

lemma put_zero: "put_u32 0 = [0, 0, 0, 0]" "put_u16 0 = [0, 0]"
  by (simp_all add: put_u32_def put_u16_def be_of_nat_eval)

end
