(* ===== verification/Interfaces.thy ===== *)
theory Interfaces
  imports Prelude
begin

text \<open>
  The contracts the components rely on, each a locale whose laws are discharged for the
  model's own operations in the theory of the component that provides them.

  \<^item> \<open>wire_format\<close>: an encoder and a decoder where decoding an encoding gives the value back.
    \<open>canonical_format\<close> extends it: every accepted byte string is the encoding of its value.
  \<^item> \<open>invariant_system\<close>: a step function over operations that keeps an invariant and whose
    answers are good in every state that has it; so is every state and answer of a run.
  \<^item> \<open>id_set\<close>: a duplicate filter (membership test and insert reporting novelty) that
    represents a finite set.
\<close>

locale wire_format =
  fixes enc :: "'a \<Rightarrow> bytes result"
    and dec :: "bytes \<Rightarrow> 'a result"
  assumes dec_enc: "enc x = Inr b \<Longrightarrow> dec b = Inr x"
begin

lemma enc_inject: "enc x = Inr b \<Longrightarrow> enc y = Inr b \<Longrightarrow> x = y"
  using dec_enc [of x b] dec_enc [of y b] by simp

lemma enc_list_dec: "mapR enc xs = Inr bs \<Longrightarrow> mapR dec bs = Inr xs"
  by (auto simp: mapR_Inr_iff list_all2_conv_all_nth dec_enc)

end

locale canonical_format = wire_format +
  assumes enc_dec: "dec b = Inr x \<Longrightarrow> enc x = Inr b"
begin

lemma dec_iff_enc: "dec b = Inr x \<longleftrightarrow> enc x = Inr b"
  using dec_enc enc_dec by blast

lemma dec_inject: "dec b = Inr x \<Longrightarrow> dec c = Inr x \<Longrightarrow> b = c"
  using enc_dec [of b x] enc_dec [of c x] by simp

lemma dec_ok_iff: "is_ok (dec b) \<longleftrightarrow> (\<exists>x. enc x = Inr b)"
  by (simp add: is_ok_iff dec_iff_enc)

end

text \<open>A run of operations on a state, collecting the answers.\<close>

fun run_ops :: "('o \<Rightarrow> 's \<Rightarrow> 's \<times> 'r) \<Rightarrow> 'o list \<Rightarrow> 's \<Rightarrow> 's \<times> 'r list" where
  "run_ops step [] s = (s, [])"
| "run_ops step (x # xs) s =
     (case step x s of (s', r) \<Rightarrow> case run_ops step xs s' of (s'', rs) \<Rightarrow> (s'', r # rs))"

locale invariant_system =
  fixes inv :: "'s \<Rightarrow> bool"
    and step :: "'o \<Rightarrow> 's \<Rightarrow> 's \<times> 'r"
    and admissible :: "'o \<Rightarrow> bool"
    and good :: "'o \<Rightarrow> 'r \<Rightarrow> bool"
  assumes inv_step: "inv s \<Longrightarrow> admissible x \<Longrightarrow> step x s = (s', r) \<Longrightarrow> inv s'"
    and good_step: "inv s \<Longrightarrow> admissible x \<Longrightarrow> step x s = (s', r) \<Longrightarrow> good x r"
begin

lemma run_inv:
  "inv s \<Longrightarrow> list_all admissible xs \<Longrightarrow> run_ops step xs s = (s', rs) \<Longrightarrow> inv s' \<and> list_all2 good xs rs"
proof (induction xs arbitrary: s rs)
  case (Cons x xs)
  obtain s1 r rs' where st: "step x s = (s1, r)" and rest: "run_ops step xs s1 = (s', rs')" "rs = r # rs'"
    using Cons.prems(3) by (auto split: prod.splits)
  have adm: "admissible x" "list_all admissible xs" using Cons.prems(2) by simp_all
  have "inv s1" "good x r" using inv_step good_step Cons.prems(1) adm(1) st by blast+
  with Cons.IH [OF _ adm(2) rest(1)] rest(2) show ?case by simp
qed simp

end

locale id_set =
  fixes contains :: "'s \<Rightarrow> 'k \<Rightarrow> bool"
    and insert_id :: "'k \<Rightarrow> 's \<Rightarrow> 's \<times> bool"
    and ids :: "'s \<Rightarrow> 'k set"
    and valid :: "'s \<Rightarrow> bool"
    and domain :: "'s \<Rightarrow> 'k set"
  assumes contains_iff: "valid s \<Longrightarrow> k \<in> domain s \<Longrightarrow> contains s k \<longleftrightarrow> k \<in> ids s"
    and ids_insert: "valid s \<Longrightarrow> k \<in> domain s \<Longrightarrow> ids (fst (insert_id k s)) = insert k (ids s)"
    and novel_insert: "valid s \<Longrightarrow> k \<in> domain s \<Longrightarrow> snd (insert_id k s) \<longleftrightarrow> k \<notin> ids s"
    and valid_insert: "valid s \<Longrightarrow> k \<in> domain s \<Longrightarrow> valid (fst (insert_id k s))"
    and domain_insert: "valid s \<Longrightarrow> k \<in> domain s \<Longrightarrow> domain (fst (insert_id k s)) = domain s"
begin

lemma contains_after_insert:
  "valid s \<Longrightarrow> k \<in> domain s \<Longrightarrow> j \<in> domain s \<Longrightarrow>
     contains (fst (insert_id k s)) j \<longleftrightarrow> j = k \<or> contains s j"
  by (simp add: contains_iff valid_insert domain_insert ids_insert)

lemma insert_twice_not_novel:
  "valid s \<Longrightarrow> k \<in> domain s \<Longrightarrow> \<not> snd (insert_id k (fst (insert_id k s)))"
  by (simp add: novel_insert valid_insert domain_insert ids_insert)

lemma insert_many:
  "valid s \<Longrightarrow> set ks \<subseteq> domain s \<Longrightarrow>
     valid (fold (\<lambda>k t. fst (insert_id k t)) ks s) \<and>
     domain (fold (\<lambda>k t. fst (insert_id k t)) ks s) = domain s \<and>
     ids (fold (\<lambda>k t. fst (insert_id k t)) ks s) = set ks \<union> ids s"
  by (induction ks arbitrary: s) (auto simp: valid_insert domain_insert ids_insert)

end

end
