(* ===== verification/Cell.thy ===== *)
theory Cell
  imports Interfaces
begin

text \<open>
  The Cell, the unit of scheduling, protection and forwarding (\<open>src/src/protocol/v2/cell.rs\<close>):
  its data, validation, the contiguous and the split encoder, the full decoder, the routing-shim
  decoder used by transit, and the in-place hop advance. The lemmas show that encoding and
  decoding are mutually inverse, that the fast paths agree with the slow ones and that
  forwarding changes exactly the two hop-accounting bytes.
\<close>

unbundle bit_operations_syntax

section \<open>Constants and data\<close>

definition MAGIC :: bytes where
  "MAGIC = [0x49, 0x43, 0x56, 0x32]"

definition MAJOR :: u8 where
  "MAJOR = 2"

definition HEADER_LEN :: nat where "HEADER_LEN = 36"
definition SEGMENT_HEADER_LEN :: nat where "SEGMENT_HEADER_LEN = 16"
definition MAX_CELL_BYTES :: nat where "MAX_CELL_BYTES = 65535"
definition MAX_RECORD_BYTES :: nat where "MAX_RECORD_BYTES = 65535"
definition MAX_SEGMENTS_PER_CELL :: nat where "MAX_SEGMENTS_PER_CELL = 64"
definition MAX_METADATA_BYTES :: nat where "MAX_METADATA_BYTES = 256"
definition OVERLAY_HOP_LIMIT_OFFSET :: nat where "OVERLAY_HOP_LIMIT_OFFSET = 34"
definition OVERLAY_HOPS_OFFSET :: nat where "OVERLAY_HOPS_OFFSET = 35"

definition FLAG_TRAIN_START :: u8 where "FLAG_TRAIN_START = 1"
definition FLAG_TRAIN_END :: u8 where "FLAG_TRAIN_END = 2"
definition KNOWN_FLAGS :: u8 where "KNOWN_FLAGS = FLAG_TRAIN_START OR FLAG_TRAIN_END"

lemmas cell_consts =
  MAGIC_def MAJOR_def HEADER_LEN_def SEGMENT_HEADER_LEN_def MAX_CELL_BYTES_def
  MAX_RECORD_BYTES_def MAX_SEGMENTS_PER_CELL_def MAX_METADATA_BYTES_def
  OVERLAY_HOP_LIMIT_OFFSET_def OVERLAY_HOPS_OFFSET_def

datatype cell_kind = Data | FecParity

datatype traffic_class = Latency | Bulk

datatype segment_kind = Full | Start | Continue | End

fun cell_kind_wire :: "cell_kind \<Rightarrow> u8" where
  "cell_kind_wire Data = 1"
| "cell_kind_wire FecParity = 2"

definition cell_kind_from_wire :: "u8 \<Rightarrow> cell_kind result" where
  "cell_kind_from_wire v =
     (if v = 1 then Inr Data
      else if v = 2 then Inr FecParity
      else Inl (Err ''unknown V2 cell kind''))"

fun traffic_class_wire :: "traffic_class \<Rightarrow> u8" where
  "traffic_class_wire Latency = 1"
| "traffic_class_wire Bulk = 2"

definition traffic_class_from_wire :: "u8 \<Rightarrow> traffic_class result" where
  "traffic_class_from_wire v =
     (if v = 1 then Inr Latency
      else if v = 2 then Inr Bulk
      else Inl (Err ''unknown V2 traffic class''))"

fun segment_kind_wire :: "segment_kind \<Rightarrow> u8" where
  "segment_kind_wire Full = 1"
| "segment_kind_wire Start = 2"
| "segment_kind_wire Continue = 3"
| "segment_kind_wire End = 4"

definition segment_kind_from_wire :: "u8 \<Rightarrow> segment_kind result" where
  "segment_kind_from_wire v =
     (if v = 1 then Inr Full
      else if v = 2 then Inr Start
      else if v = 3 then Inr Continue
      else if v = 4 then Inr End
      else Inl (Err ''unknown V2 record segment kind''))"

record record_segment =
  seg_kind :: segment_kind
  seg_flags :: u8
  seg_record_id :: u16
  seg_total_len :: u32
  seg_offset :: u32
  seg_metadata :: bytes
  seg_data :: bytes

datatype cell_body = Records "record_segment list" | Parity bytes

record cell_v2 =
  cell_class :: traffic_class
  cell_flags :: u8
  cell_session_epoch :: u32
  cell_route_label :: u32
  cell_train_id :: u64
  cell_sequence :: u16
  cell_stripe_id :: u32
  cell_overlay_hop_limit :: u8
  cell_overlay_hops :: u8
  cell_body :: cell_body

record route_header =
  hdr_kind :: cell_kind
  hdr_class :: traffic_class
  hdr_session_epoch :: u32
  hdr_route_label :: u32
  hdr_train_id :: u64
  hdr_cell_sequence :: u16
  hdr_stripe_id :: u32
  hdr_segment_count :: u16
  hdr_payload_len :: u16
  hdr_overlay_hop_limit :: u8
  hdr_overlay_hops :: u8

section \<open>Validation\<close>

definition segment_end :: "record_segment \<Rightarrow> nat" where
  "segment_end s = unat (seg_offset s) + length (seg_data s)"

fun validate_segment_kind :: "segment_kind \<Rightarrow> record_segment \<Rightarrow> unit result" where
  "validate_segment_kind Full s =
     ensure (seg_offset s = 0) ''full V2 record has non-zero offset'' (
     ensure (segment_end s = unat (seg_total_len s))
       ''full V2 record does not contain the complete payload'' (Inr ()))"
| "validate_segment_kind Start s =
     ensure (seg_offset s = 0) ''start V2 segment has non-zero offset'' (
     ensure (segment_end s < unat (seg_total_len s)) ''start V2 segment completes record'' (Inr ()))"
| "validate_segment_kind Continue s =
     ensure (0 < seg_offset s) ''continuation V2 segment has zero offset'' (
     ensure (segment_end s < unat (seg_total_len s)) ''continuation V2 segment completes record'' (
     ensure (seg_metadata s = []) ''continuation V2 segment carries metadata'' (Inr ())))"
| "validate_segment_kind End s =
     ensure (0 < seg_offset s) ''end V2 segment has zero offset'' (
     ensure (segment_end s = unat (seg_total_len s)) ''end V2 segment is not final'' (
     ensure (seg_metadata s = []) ''end V2 segment carries metadata'' (Inr ())))"

definition validate_segment :: "record_segment \<Rightarrow> unit result" where
  "validate_segment s =
     ensure (seg_flags s = 0) ''unsupported V2 record flags'' (
     ensure (seg_record_id s \<noteq> 0) ''V2 record id zero is reserved'' (
     ensure (1 \<le> unat (seg_total_len s) \<and> unat (seg_total_len s) \<le> MAX_RECORD_BYTES)
       ''invalid V2 record length'' (
     ensure (seg_data s \<noteq> []) ''empty V2 record segment'' (
     ensure (length (seg_data s) \<le> u16_max) ''V2 record segment data is too large'' (
     ensure (length (seg_metadata s) \<le> MAX_METADATA_BYTES) ''V2 record metadata is too large'' (
     ensure (segment_end s \<le> u32_max) ''V2 record segment offset overflow'' (
     ensure (segment_end s \<le> unat (seg_total_len s)) ''V2 record segment exceeds record'' (
     validate_segment_kind (seg_kind s) s))))))))"

definition validate_cell_header :: "cell_v2 \<Rightarrow> unit result" where
  "validate_cell_header c =
     ensure (cell_flags c AND NOT KNOWN_FLAGS = 0) ''unsupported V2 cell flags'' (
     ensure (cell_session_epoch c \<noteq> 0) ''V2 session epoch zero is reserved'' (
     ensure (cell_route_label c \<noteq> 0) ''V2 route label zero is reserved'' (
     ensure (cell_train_id c \<noteq> 0) ''V2 train id zero is reserved'' (
     ensure (cell_overlay_hop_limit c \<noteq> 0) ''V2 overlay hop limit is exhausted'' (
     ensure (unat (cell_overlay_hop_limit c) + unat (cell_overlay_hops c) \<le> 255)
       ''invalid V2 overlay hop accounting'' (Inr ()))))))"

definition validate_cell :: "cell_v2 \<Rightarrow> unit result" where
  "validate_cell c =
     bindR (validate_cell_header c) (\<lambda>_.
     case cell_body c of
       Records segments \<Rightarrow>
         ensure (segments \<noteq> []) ''V2 data cell has no records'' (
         ensure (length segments \<le> MAX_SEGMENTS_PER_CELL) ''too many V2 record segments'' (
         allR validate_segment segments))
     | Parity parity \<Rightarrow>
         ensure (parity \<noteq> []) ''empty V2 parity cell'' (
         ensure (cell_stripe_id c \<noteq> 0) ''V2 parity cell has no stripe id'' (
         ensure (cell_flags c = 0) ''V2 parity cell has train boundary flags'' (Inr ()))))"

section \<open>Encoding\<close>

fun body_kind :: "cell_body \<Rightarrow> cell_kind" where
  "body_kind (Records _) = Data"
| "body_kind (Parity _) = FecParity"

definition kind_of :: "cell_v2 \<Rightarrow> cell_kind" where
  "kind_of c = body_kind (cell_body c)"

fun segments_payload_len :: "nat \<Rightarrow> record_segment list \<Rightarrow> nat result" where
  "segments_payload_len acc [] = Inr acc"
| "segments_payload_len acc (s # ss) =
     (case checked_add acc SEGMENT_HEADER_LEN of
        None \<Rightarrow> Inl (Err ''V2 cell length overflow'')
      | Some a \<Rightarrow> (case checked_add a (length (seg_metadata s)) of
          None \<Rightarrow> Inl (Err ''V2 cell length overflow'')
        | Some b \<Rightarrow> (case checked_add b (length (seg_data s)) of
            None \<Rightarrow> Inl (Err ''V2 cell length overflow'')
          | Some d \<Rightarrow> segments_payload_len d ss)))"

definition checked_route_header :: "cell_v2 \<Rightarrow> nat \<Rightarrow> route_header result" where
  "checked_route_header c maximum =
     bindR (validate_cell c) (\<lambda>_.
     ensure (HEADER_LEN + 1 \<le> maximum \<and> maximum \<le> MAX_CELL_BYTES) ''invalid V2 cell maximum'' (
     bindR (case cell_body c of
              Records segments \<Rightarrow>
                bindR (segments_payload_len 0 segments) (\<lambda>n. Inr (length segments, n))
            | Parity parity \<Rightarrow> Inr (0, length parity)) (\<lambda>(segment_count, payload_len).
     ensure (payload_len \<le> u16_max) ''V2 cell payload is too large'' (
     ensure (HEADER_LEN + payload_len \<le> maximum) ''V2 cell exceeds negotiated datagram maximum'' (
     Inr \<lparr> hdr_kind = kind_of c, hdr_class = cell_class c,
           hdr_session_epoch = cell_session_epoch c, hdr_route_label = cell_route_label c,
           hdr_train_id = cell_train_id c, hdr_cell_sequence = cell_sequence c,
           hdr_stripe_id = cell_stripe_id c, hdr_segment_count = word_of_nat segment_count,
           hdr_payload_len = word_of_nat payload_len,
           hdr_overlay_hop_limit = cell_overlay_hop_limit c,
           hdr_overlay_hops = cell_overlay_hops c \<rparr>)))))"

definition encode_header :: "u8 \<Rightarrow> route_header \<Rightarrow> bytes" where
  "encode_header flags h =
     MAGIC @ put_u8 MAJOR @ put_u8 (cell_kind_wire (hdr_kind h)) @
     put_u8 (traffic_class_wire (hdr_class h)) @ put_u8 flags @
     put_u32 (hdr_session_epoch h) @ put_u32 (hdr_route_label h) @ put_u64 (hdr_train_id h) @
     put_u16 (hdr_cell_sequence h) @ put_u32 (hdr_stripe_id h) @ put_u16 (hdr_segment_count h) @
     put_u16 (hdr_payload_len h) @ put_u8 (hdr_overlay_hop_limit h) @ put_u8 (hdr_overlay_hops h)"

definition encode_segment_header :: "record_segment \<Rightarrow> bytes" where
  "encode_segment_header s =
     put_u8 (segment_kind_wire (seg_kind s)) @ put_u8 (seg_flags s) @
     put_u16 (seg_record_id s) @ put_u32 (seg_total_len s) @ put_u32 (seg_offset s) @
     put_u16 (word_of_nat (length (seg_data s))) @ put_u16 (word_of_nat (length (seg_metadata s)))"

definition encode_segment :: "record_segment \<Rightarrow> bytes" where
  "encode_segment s = encode_segment_header s @ seg_metadata s @ seg_data s"

fun encode_body :: "cell_body \<Rightarrow> bytes" where
  "encode_body (Records segments) = concat (map encode_segment segments)"
| "encode_body (Parity parity) = parity"

definition encode_contiguous :: "cell_v2 \<Rightarrow> route_header \<Rightarrow> bytes" where
  "encode_contiguous c h = encode_header (cell_flags c) h @ encode_body (cell_body c)"

definition encode_into :: "nat \<Rightarrow> cell_v2 \<Rightarrow> bytes result" where
  "encode_into maximum c =
     bindR (checked_route_header c maximum) (\<lambda>h. Inr (encode_contiguous c h))"

definition encode_datagram_parts :: "nat \<Rightarrow> cell_v2 \<Rightarrow> (bytes \<times> bytes option \<times> route_header) result" where
  "encode_datagram_parts maximum c =
     bindR (checked_route_header c maximum) (\<lambda>h.
       case cell_body c of
         Records [segment] \<Rightarrow>
           Inr (encode_header (cell_flags c) h @ encode_segment_header segment @ seg_metadata segment,
                Some (seg_data segment), h)
       | _ \<Rightarrow> Inr (encode_contiguous c h, None, h))"

section \<open>Decoding\<close>

definition decode_route_header :: "bytes \<Rightarrow> route_header result" where
  "decode_route_header bs =
     ensure (HEADER_LEN + 1 \<le> length bs \<and> length bs \<le> MAX_CELL_BYTES) ''invalid V2 cell length'' (
     ensure (slice 0 4 bs = MAGIC) ''invalid V2 cell magic'' (
     ensure (bs ! 4 = MAJOR) ''unsupported V2 cell major'' (
     bindR (cell_kind_from_wire (bs ! 5)) (\<lambda>kind.
     bindR (traffic_class_from_wire (bs ! 6)) (\<lambda>cls.
     ensure (bs ! 7 AND NOT KNOWN_FLAGS = 0) ''unsupported V2 cell flags'' (
     let session_epoch = get_u32 (slice 8 12 bs);
         route_label = get_u32 (slice 12 16 bs);
         train_id = get_u64 (slice 16 24 bs);
         cell_seq = get_u16 (slice 24 26 bs);
         stripe_id = get_u32 (slice 26 30 bs);
         segment_count = get_u16 (slice 30 32 bs);
         payload_len = get_u16 (slice 32 34 bs);
         hop_limit = bs ! OVERLAY_HOP_LIMIT_OFFSET;
         hops = bs ! OVERLAY_HOPS_OFFSET in
     ensure (session_epoch \<noteq> 0) ''V2 session epoch zero is reserved'' (
     ensure (route_label \<noteq> 0) ''V2 route label zero is reserved'' (
     ensure (train_id \<noteq> 0) ''V2 train id zero is reserved'' (
     ensure (hop_limit \<noteq> 0) ''V2 overlay hop limit is exhausted'' (
     ensure (unat hop_limit + unat hops \<le> 255) ''invalid V2 overlay hop accounting'' (
     ensure (HEADER_LEN + unat payload_len = length bs) ''invalid V2 cell payload length'' (
     ensure (unat segment_count \<le> MAX_SEGMENTS_PER_CELL) ''too many V2 record segments'' (
     bindR (case kind of
              Data \<Rightarrow> ensure (segment_count \<noteq> 0) ''V2 data cell has no records'' (Inr ())
            | FecParity \<Rightarrow>
                ensure (segment_count = 0) ''V2 parity cell contains record headers'' (Inr ())) (\<lambda>_.
     Inr \<lparr> hdr_kind = kind, hdr_class = cls, hdr_session_epoch = session_epoch,
           hdr_route_label = route_label, hdr_train_id = train_id, hdr_cell_sequence = cell_seq,
           hdr_stripe_id = stripe_id, hdr_segment_count = segment_count,
           hdr_payload_len = payload_len, hdr_overlay_hop_limit = hop_limit,
           hdr_overlay_hops = hops \<rparr>))))))))))))))"

definition decode_segment_at :: "bytes \<Rightarrow> nat \<Rightarrow> (record_segment \<times> nat) result" where
  "decode_segment_at bs cursor =
     ensure (cursor + SEGMENT_HEADER_LEN \<le> length bs) ''truncated V2 record segment header'' (
     bindR (segment_kind_from_wire (bs ! cursor)) (\<lambda>kind.
     let flags = bs ! (cursor + 1);
         rid = get_u16 (slice (cursor + 2) (cursor + 4) bs);
         total_len = get_u32 (slice (cursor + 4) (cursor + 8) bs);
         off = get_u32 (slice (cursor + 8) (cursor + 12) bs);
         data_len = unat (get_u16 (slice (cursor + 12) (cursor + 14) bs));
         metadata_len = unat (get_u16 (slice (cursor + 14) (cursor + 16) bs)) in
     ensure (metadata_len \<le> MAX_METADATA_BYTES) ''V2 record metadata is too large'' (
     let start = cursor + SEGMENT_HEADER_LEN in
     case checked_add start metadata_len of
       None \<Rightarrow> Inl (Err ''V2 metadata length overflow'')
     | Some metadata_end \<Rightarrow> (case checked_add metadata_end data_len of
         None \<Rightarrow> Inl (Err ''V2 data length overflow'')
       | Some data_end \<Rightarrow>
           ensure (data_end \<le> length bs) ''truncated V2 record segment'' (
           let segment = \<lparr> seg_kind = kind, seg_flags = flags, seg_record_id = rid,
                 seg_total_len = total_len, seg_offset = off,
                 seg_metadata = (if metadata_len = 0 then [] else slice start metadata_end bs),
                 seg_data = slice metadata_end data_end bs \<rparr> in
           bindR (validate_segment segment) (\<lambda>_. Inr (segment, data_end)))))))"

fun decode_segments :: "bytes \<Rightarrow> nat \<Rightarrow> nat \<Rightarrow> (record_segment list \<times> nat) result" where
  "decode_segments bs 0 cursor = Inr ([], cursor)"
| "decode_segments bs (Suc n) cursor =
     bindR (decode_segment_at bs cursor) (\<lambda>(s, next).
     bindR (decode_segments bs n next) (\<lambda>(ss, last). Inr (s # ss, last)))"

definition decode_with_header :: "bytes \<Rightarrow> route_header \<Rightarrow> cell_v2 result" where
  "decode_with_header bs h =
     (let segment_count = unat (hdr_segment_count h) in
      bindR (case hdr_kind h of
               Data \<Rightarrow>
                 ensure (0 < segment_count) ''V2 data cell has no records'' (
                 bindR (decode_segments bs segment_count HEADER_LEN) (\<lambda>(ss, cursor).
                 ensure (cursor = length bs) ''trailing V2 cell payload bytes'' (Inr (Records ss))))
             | FecParity \<Rightarrow>
                 ensure (segment_count = 0) ''V2 parity cell contains record headers'' (
                 Inr (Parity (slice HEADER_LEN (length bs) bs)))) (\<lambda>body.
      let c = \<lparr> cell_class = hdr_class h, cell_flags = bs ! 7,
                cell_session_epoch = hdr_session_epoch h, cell_route_label = hdr_route_label h,
                cell_train_id = hdr_train_id h, cell_sequence = hdr_cell_sequence h,
                cell_stripe_id = hdr_stripe_id h,
                cell_overlay_hop_limit = hdr_overlay_hop_limit h,
                cell_overlay_hops = hdr_overlay_hops h, cell_body = body \<rparr> in
      case body of
        Parity parity \<Rightarrow>
          ensure (parity \<noteq> []) ''empty V2 parity cell'' (
          ensure (cell_stripe_id c \<noteq> 0) ''V2 parity cell has no stripe id'' (
          ensure (cell_flags c = 0) ''V2 parity cell has train boundary flags'' (Inr c)))
      | Records _ \<Rightarrow> Inr c))"

definition decode_cell :: "bytes \<Rightarrow> cell_v2 result" where
  "decode_cell bs = bindR (decode_route_header bs) (decode_with_header bs)"

section \<open>Forwarding\<close>

definition ingress_hop_limit :: "route_header \<Rightarrow> u8" where
  "ingress_hop_limit h = u8_sat_add (hdr_overlay_hop_limit h) (hdr_overlay_hops h)"

text \<open>The in-place and the copying branch of \<open>advance_overlay_hop\<close> produce the same bytes;
  only the \<open>copied\<close> statistic tells them apart, and it is not part of the model.\<close>

definition advance_overlay_hop :: "bytes \<Rightarrow> (bytes \<times> route_header) result" where
  "advance_overlay_hop bs =
     bindR (decode_route_header bs) (\<lambda>h.
     ensure (1 < hdr_overlay_hop_limit h) ''V2 overlay hop limit expired'' (
     let limit = hdr_overlay_hop_limit h - 1 in
     ensure (unat (hdr_overlay_hops h) + 1 \<le> 255) ''V2 overlay hop count overflow'' (
     let hops = hdr_overlay_hops h + 1 in
     Inr (bs[OVERLAY_HOP_LIMIT_OFFSET := limit, OVERLAY_HOPS_OFFSET := hops],
          h\<lparr> hdr_overlay_hop_limit := limit, hdr_overlay_hops := hops \<rparr>))))"

section \<open>The routing shim: encoding and decoding agree\<close>

lemma cell_kind_from_wire_iff [result_iff]: "cell_kind_from_wire v = Inr k \<longleftrightarrow> v = cell_kind_wire k"
  by (cases k) (auto simp: cell_kind_from_wire_def)

lemma traffic_class_from_wire_iff [result_iff]: "traffic_class_from_wire v = Inr k \<longleftrightarrow> v = traffic_class_wire k"
  by (cases k) (auto simp: traffic_class_from_wire_def)

lemma segment_kind_from_wire_iff [result_iff]: "segment_kind_from_wire v = Inr k \<longleftrightarrow> v = segment_kind_wire k"
  by (cases k) (auto simp: segment_kind_from_wire_def)

lemma wire_inject [simp]:
  "cell_kind_wire k = cell_kind_wire k' \<longleftrightarrow> k = k'"
  "traffic_class_wire t = traffic_class_wire t' \<longleftrightarrow> t = t'"
  "segment_kind_wire s = segment_kind_wire s' \<longleftrightarrow> s = s'"
  by ((cases k; cases k'), simp_all) ((cases t; cases t'), simp_all, (cases s; cases s'), simp_all)

lemma encode_header_length [simp]: "length (encode_header f h) = 36"
  by (simp add: encode_header_def MAGIC_def)

lemma encode_segment_header_length [simp]: "length (encode_segment_header s) = 16"
  by (simp add: encode_segment_header_def)

lemma encode_header_fields:
  "slice 0 4 (encode_header f h @ r) = MAGIC"
  "(encode_header f h @ r) ! 4 = MAJOR"
  "(encode_header f h @ r) ! 5 = cell_kind_wire (hdr_kind h)"
  "(encode_header f h @ r) ! 6 = traffic_class_wire (hdr_class h)"
  "(encode_header f h @ r) ! 7 = f"
  "slice 8 12 (encode_header f h @ r) = put_u32 (hdr_session_epoch h)"
  "slice 12 16 (encode_header f h @ r) = put_u32 (hdr_route_label h)"
  "slice 16 24 (encode_header f h @ r) = put_u64 (hdr_train_id h)"
  "slice 24 26 (encode_header f h @ r) = put_u16 (hdr_cell_sequence h)"
  "slice 26 30 (encode_header f h @ r) = put_u32 (hdr_stripe_id h)"
  "slice 30 32 (encode_header f h @ r) = put_u16 (hdr_segment_count h)"
  "slice 32 34 (encode_header f h @ r) = put_u16 (hdr_payload_len h)"
  "(encode_header f h @ r) ! 34 = hdr_overlay_hop_limit h"
  "(encode_header f h @ r) ! 35 = hdr_overlay_hops h"
  by (simp_all add: encode_header_def MAGIC_def slice_def nth_append put_u8_def)

definition header_valid :: "u8 \<Rightarrow> route_header \<Rightarrow> bool" where
  "header_valid f h \<longleftrightarrow>
     f AND NOT KNOWN_FLAGS = 0 \<and> hdr_session_epoch h \<noteq> 0 \<and> hdr_route_label h \<noteq> 0 \<and>
     hdr_train_id h \<noteq> 0 \<and> hdr_overlay_hop_limit h \<noteq> 0 \<and>
     unat (hdr_overlay_hop_limit h) + unat (hdr_overlay_hops h) \<le> 255 \<and>
     unat (hdr_segment_count h) \<le> MAX_SEGMENTS_PER_CELL \<and>
     (hdr_kind h = Data \<longleftrightarrow> hdr_segment_count h \<noteq> 0)"

lemma kind_count_check [result_iff]:
  "(case k of Data \<Rightarrow> ensure a m (Inr ()) | FecParity \<Rightarrow> ensure b m' (Inr ())) = Inr u \<longleftrightarrow>
     (if k = Data then a else b)"
  by (cases k) (auto simp: result_iff)

lemma decode_encode_header:
  assumes "header_valid f h" "HEADER_LEN + 1 \<le> 36 + length r" "36 + length r \<le> MAX_CELL_BYTES"
    and "unat (hdr_payload_len h) = length r"
  shows "decode_route_header (encode_header f h @ r) = Inr h"
  using assms
  by (auto simp: decode_route_header_def header_valid_def encode_header_fields result_iff
      OVERLAY_HOP_LIMIT_OFFSET_def OVERLAY_HOPS_OFFSET_def HEADER_LEN_def Let_def
      split: if_splits)

lemma header_rejoin:
  assumes "36 \<le> length bs"
  shows "slice 0 4 bs @ [bs ! 4] @ [bs ! 5] @ [bs ! 6] @ [bs ! 7] @ slice 8 12 bs @ slice 12 16 bs @
    slice 16 24 bs @ slice 24 26 bs @ slice 26 30 bs @ slice 30 32 bs @ slice 32 34 bs @
    [bs ! 34] @ [bs ! 35] = take 36 bs"
proof -
  have "[bs ! 4] = slice 4 5 bs" "[bs ! 5] = slice 5 6 bs" "[bs ! 6] = slice 6 7 bs" "[bs ! 7] = slice 7 8 bs"
    "[bs ! 34] = slice 34 35 bs" "[bs ! 35] = slice 35 36 bs"
    using assms slice_one [of 4 bs] slice_one [of 5 bs] slice_one [of 6 bs] slice_one [of 7 bs]
      slice_one [of 34 bs] slice_one [of 35 bs] by simp_all
  then show ?thesis by (simp add: slice_join) (simp add: slice_def)
qed

lemma decode_route_headerD:
  assumes "decode_route_header bs = Inr h"
  shows "header_valid (bs ! 7) h" "HEADER_LEN + 1 \<le> length bs" "length bs \<le> MAX_CELL_BYTES"
    "HEADER_LEN + unat (hdr_payload_len h) = length bs"
    "bs = encode_header (bs ! 7) h @ drop 36 bs"
proof -
  note d = assms [unfolded decode_route_header_def Let_def result_iff OVERLAY_HOP_LIMIT_OFFSET_def
      OVERLAY_HOPS_OFFSET_def]
  show len: "HEADER_LEN + 1 \<le> length bs" "length bs \<le> MAX_CELL_BYTES" using d by blast+
  then have l36: "36 \<le> length bs" by (simp add: HEADER_LEN_def)
  show "header_valid (bs ! 7) h" "HEADER_LEN + unat (hdr_payload_len h) = length bs"
    using d by (auto simp: header_valid_def split: if_splits)
  have "encode_header (bs ! 7) h = take 36 bs"
    using d l36 by (auto simp: encode_header_def put_u8_def put_get_u16 put_get_u32 put_get_u64
        header_rejoin [OF l36, symmetric])
  then show "bs = encode_header (bs ! 7) h @ drop 36 bs" by simp
qed

section \<open>Record segments\<close>

lemma segment_header_fields:
  "(encode_segment_header s @ r) ! 0 = segment_kind_wire (seg_kind s)"
  "(encode_segment_header s @ r) ! 1 = seg_flags s"
  "slice 2 4 (encode_segment_header s @ r) = put_u16 (seg_record_id s)"
  "slice 4 8 (encode_segment_header s @ r) = put_u32 (seg_total_len s)"
  "slice 8 12 (encode_segment_header s @ r) = put_u32 (seg_offset s)"
  "slice 12 14 (encode_segment_header s @ r) = put_u16 (word_of_nat (length (seg_data s)))"
  "slice 14 16 (encode_segment_header s @ r) = put_u16 (word_of_nat (length (seg_metadata s)))"
  by (simp_all add: encode_segment_header_def slice_def nth_append put_u8_def)

lemma encode_segment_length [simp]:
  "length (encode_segment s) = 16 + length (seg_metadata s) + length (seg_data s)"
  by (simp add: encode_segment_def)

lemma validate_segmentD:
  assumes "validate_segment s = Inr u"
  shows "seg_flags s = 0" "seg_data s \<noteq> []" "length (seg_data s) \<le> u16_max"
    "length (seg_metadata s) \<le> MAX_METADATA_BYTES" "segment_end s \<le> unat (seg_total_len s)"
    "unat (seg_total_len s) \<le> MAX_RECORD_BYTES" "seg_record_id s \<noteq> 0"
    "validate_segment_kind (seg_kind s) s = Inr ()" "1 \<le> unat (seg_total_len s)"
  using assms by (auto simp: validate_segment_def result_iff)

lemma decode_segment_at_complete:
  assumes v: "validate_segment s = Inr ()" and d: "drop cursor bs = encode_segment s @ r"
    and len: "length bs \<le> usize_max"
  shows "decode_segment_at bs cursor =
    Inr (s, cursor + 16 + length (seg_metadata s) + length (seg_data s))"
proof -
  let ?m = "length (seg_metadata s)" and ?n = "length (seg_data s)"
  let ?h = "encode_segment_header s @ seg_metadata s @ seg_data s @ r"
  have dh: "drop cursor bs = ?h" using d by (simp add: encode_segment_def)
  have "length (drop cursor bs) = 16 + ?m + ?n + length r" using d by simp
  moreover have c: "cursor \<le> length bs"
    using calculation by (cases "cursor \<le> length bs") auto
  ultimately have tot: "length bs = cursor + 16 + ?m + ?n + length r" by simp
  have nth: "bs ! cursor = ?h ! 0" "bs ! (cursor + 1) = ?h ! 1"
    unfolding dh [symmetric] using c tot by (simp_all add: nth_drop)
  have sl: "slice (cursor + i) (cursor + j) bs = slice i j ?h" for i j
    by (simp add: slice_shift dh)
  have m: "unat (word_of_nat ?m :: u16) = ?m" "?m \<le> MAX_METADATA_BYTES"
    and n: "unat (word_of_nat ?n :: u16) = ?n"
    using validate_segmentD [OF v] by (auto simp: u16_max_def MAX_METADATA_BYTES_def intro!: unat_u16_of_nat)
  have meta: "slice (cursor + 16) (cursor + 16 + ?m) bs = seg_metadata s"
    and data: "slice (cursor + 16 + ?m) (cursor + 16 + ?m + ?n) bs = seg_data s"
    unfolding add.assoc sl by (simp_all add: slice_def)
  have whole: "\<lparr> seg_kind = seg_kind s, seg_flags = seg_flags s, seg_record_id = seg_record_id s,
      seg_total_len = seg_total_len s, seg_offset = seg_offset s,
      seg_metadata = seg_metadata s, seg_data = seg_data s \<rparr> = s"
    by simp
  have mt: "(if seg_metadata s = [] then [] else slice (cursor + 16) (cursor + 16 + ?m) bs) = seg_metadata s"
    using meta by simp
  show ?thesis
    unfolding decode_segment_at_def Let_def result_iff SEGMENT_HEADER_LEN_def nth
      sl [of 2 4] sl [of 4 8] sl [of 8 12] sl [of 12 14] sl [of 14 16]
      segment_header_fields get_put_u16 get_put_u32 m(1) n
    using m n c tot len v by (simp add: mt data result_iff whole split del: if_split)
qed

lemma decode_segment_atD:
  assumes "decode_segment_at bs cursor = Inr (s, next)"
  shows "validate_segment s = Inr ()" "drop cursor bs = encode_segment s @ drop next bs"
    "next = cursor + 16 + length (seg_metadata s) + length (seg_data s)" "next \<le> length bs"
proof -
  define m where "m = unat (get_u16 (slice (cursor + 14) (cursor + 16) bs))"
  define n where "n = unat (get_u16 (slice (cursor + 12) (cursor + 14) bs))"
  note a = assms [unfolded decode_segment_at_def Let_def result_iff SEGMENT_HEADER_LEN_def,
      folded m_def n_def, unfolded sum.inject prod.inject]
  from a obtain kd where c: "cursor + 16 \<le> length bs" and k: "bs ! cursor = segment_kind_wire kd"
    and le: "cursor + 16 + m + n \<le> length bs" and nx': "cursor + 16 + m + n = next"
    and s': "\<lparr> seg_kind = kd, seg_flags = bs ! (cursor + 1),
       seg_record_id = get_u16 (slice (cursor + 2) (cursor + 4) bs),
       seg_total_len = get_u32 (slice (cursor + 4) (cursor + 8) bs),
       seg_offset = get_u32 (slice (cursor + 8) (cursor + 12) bs),
       seg_metadata = (if m = 0 then [] else slice (cursor + 16) (cursor + 16 + m) bs),
       seg_data = slice (cursor + 16 + m) (cursor + 16 + m + n) bs \<rparr> = s"
    by blast
  note s = s' [symmetric] and nx = nx' [symmetric] le [unfolded nx']
  have v: "validate_segment s = Inr ()" using a by auto
  show "validate_segment s = Inr ()" "next \<le> length bs" by (fact v nx)+
  have md: "seg_metadata s = slice (cursor + 16) (cursor + 16 + m) bs"
    by (simp add: s slice_def)
  have dt: "seg_data s = slice (cursor + 16 + m) (cursor + 16 + m + n) bs" by (simp add: s)
  have lm: "length (seg_metadata s) = m" and ln: "length (seg_data s) = n"
    using nx c by (simp_all add: md dt)
  then show "next = cursor + 16 + length (seg_metadata s) + length (seg_data s)" using nx by simp
  have "encode_segment_header s =
      [bs ! cursor] @ [bs ! (cursor + 1)] @ slice (cursor + 2) (cursor + 4) bs @
      slice (cursor + 4) (cursor + 8) bs @ slice (cursor + 8) (cursor + 12) bs @
      slice (cursor + 12) (cursor + 14) bs @ slice (cursor + 14) (cursor + 16) bs"
  proof -
    have "word_of_nat m = get_u16 (slice (cursor + 14) (cursor + 16) bs)"
      "word_of_nat n = get_u16 (slice (cursor + 12) (cursor + 14) bs)"
      by (simp_all add: m_def n_def)
    then show ?thesis
      using c unfolding encode_segment_header_def lm ln
      by (simp add: s put_u8_def k put_get_u16 put_get_u32)
  qed
  also have "\<dots> = slice cursor (cursor + 16) bs"
  proof -
    have "[bs ! cursor] = slice cursor (cursor + 1) bs" "[bs ! (cursor + 1)] = slice (cursor + 1) (cursor + 2) bs"
      using c slice_one [of cursor bs] slice_one [of "cursor + 1" bs] by simp_all
    then show ?thesis by (simp only:) (simp add: slice_join)
  qed
  finally have "encode_segment s = slice cursor (cursor + 16) bs @
      slice (cursor + 16) (cursor + 16 + m) bs @ slice (cursor + 16 + m) next bs"
    unfolding encode_segment_def by (simp add: md dt nx)
  also have "\<dots> = slice cursor next bs" using nx by (simp add: slice_join)
  finally show "drop cursor bs = encode_segment s @ drop next bs"
    using nx slice_join [of cursor "next" "length bs" bs] by (simp add: slice_drop)
qed

lemma decode_segments_complete:
  assumes "\<forall>s\<in>set ss. validate_segment s = Inr ()"
    and "drop cursor bs = concat (map encode_segment ss) @ r" and "length bs \<le> usize_max"
  shows "decode_segments bs (length ss) cursor =
    Inr (ss, cursor + length (concat (map encode_segment ss)))"
  using assms
proof (induction ss arbitrary: cursor)
  case Nil
  then show ?case by simp
next
  case (Cons s ss)
  let ?n = "cursor + 16 + length (seg_metadata s) + length (seg_data s)"
  have d: "drop cursor bs = encode_segment s @ (concat (map encode_segment ss) @ r)"
    using Cons.prems(2) by simp
  have at: "decode_segment_at bs cursor = Inr (s, ?n)"
    using Cons.prems(1,3) by (intro decode_segment_at_complete [OF _ d]) auto
  have "drop ?n bs = drop (length (encode_segment s)) (drop cursor bs)"
    by (simp add: add.commute add.left_commute)
  then have "drop ?n bs = concat (map encode_segment ss) @ r" using d by simp
  then have "decode_segments bs (length ss) ?n = Inr (ss, ?n + length (concat (map encode_segment ss)))"
    using Cons.prems(1,3) by (intro Cons.IH) auto
  with at show ?case by simp
qed

lemma decode_segmentsD:
  assumes "decode_segments bs n cursor = Inr (ss, fin)"
  shows "length ss = n \<and> (\<forall>s\<in>set ss. validate_segment s = Inr ()) \<and>
    drop cursor bs = concat (map encode_segment ss) @ drop fin bs \<and>
    (cursor \<le> length bs \<longrightarrow> fin \<le> length bs)"
  using assms
proof (induction n arbitrary: cursor ss)
  case 0
  then show ?case by simp
next
  case (Suc n)
  from Suc.prems obtain s nx ss' where at: "decode_segment_at bs cursor = Inr (s, nx)"
    and rest: "decode_segments bs n nx = Inr (ss', fin)" and ss: "ss = s # ss'"
    by (auto simp: result_iff)
  show ?case
    using Suc.IH [OF rest] decode_segment_atD [OF at] ss by auto
qed

lemma segments_payload_len_Inr_iff [result_iff]:
  "segments_payload_len a ss = Inr n \<longleftrightarrow>
     n = a + length (concat (map encode_segment ss)) \<and> (ss \<noteq> [] \<longrightarrow> n \<le> usize_max)"
proof (induction ss arbitrary: a)
  case Nil
  then show ?case by auto
next
  case (Cons s ss)
  let ?d = "a + 16 + length (seg_metadata s) + length (seg_data s)"
  have step: "segments_payload_len a (s # ss) = Inr n \<longleftrightarrow>
      ?d \<le> usize_max \<and> segments_payload_len ?d ss = Inr n"
    by (simp only: segments_payload_len.simps checked_add_Inr_iff SEGMENT_HEADER_LEN_def) linarith
  show ?case
    unfolding step Cons.IH by (cases "ss = []") auto
qed

definition header_of :: "cell_v2 \<Rightarrow> route_header" where
  "header_of c = \<lparr> hdr_kind = kind_of c, hdr_class = cell_class c,
     hdr_session_epoch = cell_session_epoch c, hdr_route_label = cell_route_label c,
     hdr_train_id = cell_train_id c, hdr_cell_sequence = cell_sequence c,
     hdr_stripe_id = cell_stripe_id c,
     hdr_segment_count = word_of_nat (case cell_body c of Records ss \<Rightarrow> length ss | Parity _ \<Rightarrow> 0),
     hdr_payload_len = word_of_nat (length (encode_body (cell_body c))),
     hdr_overlay_hop_limit = cell_overlay_hop_limit c, hdr_overlay_hops = cell_overlay_hops c \<rparr>"

lemma checked_route_header_Inr_iff:
  "checked_route_header c maximum = Inr h \<longleftrightarrow>
     validate_cell c = Inr () \<and> maximum \<le> MAX_CELL_BYTES \<and>
     HEADER_LEN + length (encode_body (cell_body c)) \<le> maximum \<and> h = header_of c"
proof (cases "cell_body c")
  case (Records ss)
  have "validate_cell c = Inr () \<Longrightarrow> 36 + length (concat (map encode_segment ss)) \<le> m \<Longrightarrow> 37 \<le> m" for m
    using Records by (cases ss) (auto simp: validate_cell_def result_iff)
  with Records show ?thesis
    by (auto simp: checked_route_header_def result_iff header_of_def cell_consts u16_max_def usize_max_def)
next
  case (Parity p)
  have "validate_cell c = Inr () \<Longrightarrow> 36 + length p \<le> m \<Longrightarrow> 37 \<le> m" for m
    using Parity by (cases p) (auto simp: validate_cell_def result_iff)
  with Parity show ?thesis
    by (auto simp: checked_route_header_def result_iff header_of_def cell_consts u16_max_def)
qed

lemma encode_into_Inr_iff:
  "encode_into maximum c = Inr bs \<longleftrightarrow>
     validate_cell c = Inr () \<and> maximum \<le> MAX_CELL_BYTES \<and> length bs \<le> maximum \<and>
     bs = encode_header (cell_flags c) (header_of c) @ encode_body (cell_body c)"
  by (auto simp: encode_into_def result_iff checked_route_header_Inr_iff encode_contiguous_def HEADER_LEN_def)

lemma header_of_valid:
  assumes "validate_cell c = Inr ()"
  shows "header_valid (cell_flags c) (header_of c)"
proof (cases "cell_body c")
  case (Records ss)
  with assms have n: "ss \<noteq> []" "length ss \<le> 64"
    by (auto simp: validate_cell_def result_iff MAX_SEGMENTS_PER_CELL_def)
  then have "(word_of_nat (length ss) :: u16) \<noteq> 0"
    using unat_small_u16 [of "length ss"] by (auto simp del: unsigned_of_nat)
  with Records n assms show ?thesis
    by (simp add: validate_cell_def validate_cell_header_def result_iff header_valid_def header_of_def
        kind_of_def MAX_SEGMENTS_PER_CELL_def unat_small_u16)
next
  case (Parity p)
  with assms show ?thesis
    by (auto simp: validate_cell_def validate_cell_header_def result_iff header_valid_def header_of_def
        kind_of_def)
qed

lemma body_length_bounds:
  assumes "validate_cell c = Inr ()"
  shows "0 < length (encode_body (cell_body c))"
proof (cases "cell_body c")
  case (Records ss)
  with assms show ?thesis by (cases ss) (auto simp: validate_cell_def result_iff encode_segment_def)
next
  case (Parity p)
  with assms show ?thesis by (simp add: validate_cell_def result_iff)
qed

lemma decode_header_of:
  assumes v: "validate_cell c = Inr ()"
    and bs: "bs = encode_header (cell_flags c) (header_of c) @ encode_body (cell_body c)"
    and len: "length bs \<le> MAX_CELL_BYTES"
  shows "decode_route_header bs = Inr (header_of c)"
  unfolding bs
proof (rule decode_encode_header [OF header_of_valid [OF v]])
  show "HEADER_LEN + 1 \<le> 36 + length (encode_body (cell_body c))"
    using body_length_bounds [OF v] by (simp add: HEADER_LEN_def Suc_le_eq)
  show "36 + length (encode_body (cell_body c)) \<le> MAX_CELL_BYTES"
    using len by (simp add: bs)
  then show "unat (hdr_payload_len (header_of c)) = length (encode_body (cell_body c))"
    by (simp add: header_of_def MAX_CELL_BYTES_def u16_max_def unat_u16_of_nat del: unsigned_of_nat)
qed

lemma decode_with_header_of:
  assumes v: "validate_cell c = Inr ()"
    and bs: "bs = encode_header (cell_flags c) (header_of c) @ encode_body (cell_body c)"
    and len: "length bs \<le> MAX_CELL_BYTES"
  shows "decode_with_header bs (header_of c) = Inr c"
proof (cases "cell_body c")
  case (Records ss)
  with v have n: "ss \<noteq> []" "length ss \<le> 64" "\<forall>s\<in>set ss. validate_segment s = Inr ()"
    by (auto simp: validate_cell_def result_iff MAX_SEGMENTS_PER_CELL_def)
  have "drop HEADER_LEN bs = concat (map encode_segment ss) @ []"
    using bs Records by (simp add: HEADER_LEN_def)
  then have "decode_segments bs (length ss) HEADER_LEN =
      Inr (ss, HEADER_LEN + length (concat (map encode_segment ss)))"
    using n len by (intro decode_segments_complete) (auto simp: MAX_CELL_BYTES_def usize_max_def)
  moreover have "length bs = HEADER_LEN + length (concat (map encode_segment ss))"
    using bs Records by (simp add: HEADER_LEN_def)
  moreover have "bs ! 7 = cell_flags c" by (simp add: bs encode_header_fields)
  ultimately show ?thesis
    using n Records
    by (simp add: decode_with_header_def header_of_def kind_of_def unat_small_u16 result_iff)
next
  case (Parity p)
  have "slice HEADER_LEN (length bs) bs = p" using bs Parity by (simp add: HEADER_LEN_def slice_def)
  moreover have "bs ! 7 = cell_flags c" by (simp add: bs encode_header_fields)
  ultimately show ?thesis
    using v Parity by (simp add: decode_with_header_def header_of_def kind_of_def validate_cell_def result_iff)
qed

lemma decode_cell_complete:
  assumes "validate_cell c = Inr ()" "bs = encode_header (cell_flags c) (header_of c) @ encode_body (cell_body c)"
    "length bs \<le> MAX_CELL_BYTES"
  shows "decode_cell bs = Inr c"
  using decode_header_of [OF assms] decode_with_header_of [OF assms] by (simp add: decode_cell_def)

lemma decode_with_headerD:
  assumes h: "decode_route_header bs = Inr h" and d: "decode_with_header bs h = Inr c"
  shows "validate_cell c = Inr () \<and> header_of c = h \<and> cell_flags c = bs ! 7 \<and>
    encode_body (cell_body c) = drop 36 bs"
proof -
  note H = decode_route_headerD [OF h]
  have len: "36 \<le> length bs" using H(2) by (simp add: HEADER_LEN_def)
  have "length bs - 36 = unat (hdr_payload_len h)" using H(4) by (simp add: HEADER_LEN_def)
  then have pl: "word_of_nat (length bs - 36) = hdr_payload_len h" by simp
  let ?c = "\<lambda>body. \<lparr> cell_class = hdr_class h, cell_flags = bs ! 7,
                cell_session_epoch = hdr_session_epoch h, cell_route_label = hdr_route_label h,
                cell_train_id = hdr_train_id h, cell_sequence = hdr_cell_sequence h,
                cell_stripe_id = hdr_stripe_id h,
                cell_overlay_hop_limit = hdr_overlay_hop_limit h,
                cell_overlay_hops = hdr_overlay_hops h, cell_body = body \<rparr>"
  have hv: "validate_cell_header (?c body) = Inr ()" for body
    using H(1) by (simp add: validate_cell_header_def header_valid_def result_iff)
  show ?thesis
  proof (cases "hdr_kind h")
    case Data
    from d obtain ss where ss: "decode_segments bs (unat (hdr_segment_count h)) HEADER_LEN = Inr (ss, length bs)"
      and c: "c = ?c (Records ss)" and n0: "0 < unat (hdr_segment_count h)"
      using Data by (auto simp: decode_with_header_def Let_def result_iff)
    note D = decode_segmentsD [OF ss]
    have cnt: "word_of_nat (length ss) = hdr_segment_count h" using D by simp
    have "cell_body c = Records ss" "length ss \<le> MAX_SEGMENTS_PER_CELL" "ss \<noteq> []"
      using D H(1) n0 by (auto simp: c header_valid_def)
    moreover have "concat (map encode_segment ss) = drop 36 bs" using D by (simp add: HEADER_LEN_def)
    moreover have "length (concat (map encode_segment ss)) = length bs - 36" using calculation by simp
    ultimately show ?thesis
      using D hv [of "Records ss"] pl cnt
      by (simp add: validate_cell_def result_iff c header_of_def kind_of_def Data del: length_concat)
  next
    case FecParity
    from d have c: "c = ?c (Parity (drop 36 bs))" "drop 36 bs \<noteq> []" "hdr_stripe_id h \<noteq> 0" "bs ! 7 = 0"
      "hdr_segment_count h = 0"
      using FecParity
      by (auto simp: decode_with_header_def Let_def result_iff HEADER_LEN_def slice_drop unat_eq_0)
    with FecParity hv [of "Parity (drop 36 bs)"] pl show ?thesis
      by (simp add: validate_cell_def result_iff header_of_def kind_of_def)
  qed
qed

lemma decode_cell_Inr_iff:
  "decode_cell bs = Inr c \<longleftrightarrow>
     validate_cell c = Inr () \<and> length bs \<le> MAX_CELL_BYTES \<and>
     bs = encode_header (cell_flags c) (header_of c) @ encode_body (cell_body c)"
proof
  assume "decode_cell bs = Inr c"
  then obtain h where h: "decode_route_header bs = Inr h" and d: "decode_with_header bs h = Inr c"
    by (auto simp: decode_cell_def result_iff)
  from decode_with_headerD [OF h d] decode_route_headerD [OF h]
  show "validate_cell c = Inr () \<and> length bs \<le> MAX_CELL_BYTES \<and>
     bs = encode_header (cell_flags c) (header_of c) @ encode_body (cell_body c)" by auto
qed (use decode_cell_complete in blast)

interpretation cell_wire_max: wire_format "encode_into maximum" decode_cell for maximum
  by unfold_locales (auto simp: encode_into_Inr_iff decode_cell_Inr_iff)

interpretation cell_wire: canonical_format "encode_into MAX_CELL_BYTES" decode_cell
  by unfold_locales (auto simp: encode_into_Inr_iff decode_cell_Inr_iff)

section \<open>Forwarding lemmas\<close>

lemma advance_overlay_hop_encoded:
  assumes v: "header_valid f h" and lim: "1 < unat (hdr_overlay_hop_limit h)"
    and len: "HEADER_LEN + 1 \<le> 36 + length r" "36 + length r \<le> MAX_CELL_BYTES"
    and pl: "unat (hdr_payload_len h) = length r"
  defines "h' \<equiv> h\<lparr> hdr_overlay_hop_limit := hdr_overlay_hop_limit h - 1,
                     hdr_overlay_hops := hdr_overlay_hops h + 1 \<rparr>"
  shows "advance_overlay_hop (encode_header f h @ r) = Inr (encode_header f h' @ r, h')"
    and "header_valid f h'"
    and "unat (hdr_overlay_hop_limit h') = unat (hdr_overlay_hop_limit h) - 1"
    and "unat (hdr_overlay_hops h') = unat (hdr_overlay_hops h) + 1"
proof -
  have sum: "unat (hdr_overlay_hop_limit h) + unat (hdr_overlay_hops h) \<le> 255"
    using v by (simp add: header_valid_def)
  have ne: "hdr_overlay_hop_limit h \<noteq> 0" using lim by auto
  show l: "unat (hdr_overlay_hop_limit h') = unat (hdr_overlay_hop_limit h) - 1"
    using ne by (simp add: h'_def unat_minus_one)
  show k: "unat (hdr_overlay_hops h') = unat (hdr_overlay_hops h) + 1"
    using sum lim by (simp add: h'_def unat_word_ariths)
  have "hdr_overlay_hop_limit h' \<noteq> 0" using l lim by auto
  then show "header_valid f h'" using v l k sum lim by (simp add: header_valid_def h'_def)
  have upd: "(encode_header f h @ r)[34 := a, 35 := b] =
      encode_header f (h\<lparr> hdr_overlay_hop_limit := a, hdr_overlay_hops := b \<rparr>) @ r" for a b
    by (simp add: encode_header_def MAGIC_def put_u8_def list_update_append)
  have "1 < hdr_overlay_hop_limit h" using lim by (simp add: word_less_nat_alt)
  with sum lim show "advance_overlay_hop (encode_header f h @ r) = Inr (encode_header f h' @ r, h')"
    using decode_encode_header [OF v len pl]
    by (simp add: advance_overlay_hop_def OVERLAY_HOP_LIMIT_OFFSET_def OVERLAY_HOPS_OFFSET_def Let_def
        upd h'_def)
qed
lemma advance_overlay_hopE:
  assumes "decode_route_header bs = Inr h" and "1 < unat (hdr_overlay_hop_limit h)"
  obtains bs' h' where "advance_overlay_hop bs = Inr (bs', h')"
    "h' = h\<lparr> hdr_overlay_hop_limit := hdr_overlay_hop_limit h - 1,
             hdr_overlay_hops := hdr_overlay_hops h + 1 \<rparr>"
    "bs' = encode_header (bs ! 7) h' @ drop 36 bs"
    "decode_route_header bs' = Inr h'"
    "unat (hdr_overlay_hop_limit h') = unat (hdr_overlay_hop_limit h) - 1"
    "unat (hdr_overlay_hops h') = unat (hdr_overlay_hops h) + 1"
proof -
  note H = decode_route_headerD [OF assms(1)]
  have r: "HEADER_LEN + 1 \<le> 36 + length (drop 36 bs)" "36 + length (drop 36 bs) \<le> MAX_CELL_BYTES"
    "unat (hdr_payload_len h) = length (drop 36 bs)"
    using H(2,3,4) by (auto simp: HEADER_LEN_def)
  note A = advance_overlay_hop_encoded [OF H(1) assms(2) r]
  let ?h = "h\<lparr> hdr_overlay_hop_limit := hdr_overlay_hop_limit h - 1,
                hdr_overlay_hops := hdr_overlay_hops h + 1 \<rparr>"
  have "decode_route_header (encode_header (bs ! 7) ?h @ drop 36 bs) = Inr ?h"
    using r by (intro decode_encode_header A(2)) auto
  then show thesis by (rule that [OF A(1) [folded H(5)] refl refl _ A(3,4)])
qed

lemma advance_overlay_hop_expired:
  assumes "decode_route_header bs = Inr h" and "unat (hdr_overlay_hop_limit h) = 1"
  shows "advance_overlay_hop bs = Inl (Err ''V2 overlay hop limit expired'')"
  using assms by (simp add: advance_overlay_hop_def word_less_nat_alt)

lemma advance_overlay_hop_Inr:
  assumes "advance_overlay_hop bs = Inr (bs', h')"
  obtains h where "decode_route_header bs = Inr h" "1 < unat (hdr_overlay_hop_limit h)"
    "h' = h\<lparr> hdr_overlay_hop_limit := hdr_overlay_hop_limit h - 1,
             hdr_overlay_hops := hdr_overlay_hops h + 1 \<rparr>"
    "bs' = encode_header (bs ! 7) h' @ drop 36 bs" "decode_route_header bs' = Inr h'"
proof -
  from assms obtain h where h: "decode_route_header bs = Inr h" and l: "1 < unat (hdr_overlay_hop_limit h)"
    by (auto simp: advance_overlay_hop_def result_iff word_less_nat_alt Let_def)
  obtain b k where "advance_overlay_hop bs = Inr (b, k)"
    "k = h\<lparr> hdr_overlay_hop_limit := hdr_overlay_hop_limit h - 1,
             hdr_overlay_hops := hdr_overlay_hops h + 1 \<rparr>"
    "b = encode_header (bs ! 7) k @ drop 36 bs" "decode_route_header b = Inr k"
    using advance_overlay_hopE [OF h l] by blast
  with assms show thesis by (intro that [OF h l]) auto
qed

lemma advance_overlay_hop_counts:
  assumes "advance_overlay_hop bs = Inr (bs', h')" "decode_route_header bs = Inr h"
  shows "unat (hdr_overlay_hop_limit h') + 1 = unat (hdr_overlay_hop_limit h)"
    "unat (hdr_overlay_hops h') = unat (hdr_overlay_hops h) + 1"
proof -
  have lim: "1 < unat (hdr_overlay_hop_limit h)"
    using assms by (auto simp: advance_overlay_hop_def result_iff word_less_nat_alt Let_def)
  obtain b k where "advance_overlay_hop bs = Inr (b, k)"
    "unat (hdr_overlay_hop_limit k) = unat (hdr_overlay_hop_limit h) - 1"
    "unat (hdr_overlay_hops k) = unat (hdr_overlay_hops h) + 1"
    using assms(2) lim by (rule advance_overlay_hopE)
  with assms(1) lim show "unat (hdr_overlay_hop_limit h') + 1 = unat (hdr_overlay_hop_limit h)"
    "unat (hdr_overlay_hops h') = unat (hdr_overlay_hops h) + 1" by simp_all
qed

lemma advance_overlay_hop_cell:
  assumes "advance_overlay_hop bs = Inr (bs', h')" "decode_cell bs = Inr c"
  shows "decode_cell bs' = Inr (c\<lparr> cell_overlay_hop_limit := hdr_overlay_hop_limit h', cell_overlay_hops := hdr_overlay_hops h' \<rparr>)"
proof -
  let ?c = "c\<lparr> cell_overlay_hop_limit := hdr_overlay_hop_limit h', cell_overlay_hops := hdr_overlay_hops h' \<rparr>"
  obtain h where h: "decode_route_header bs = Inr h" and lim: "1 < unat (hdr_overlay_hop_limit h)"
    and h': "h' = h\<lparr> hdr_overlay_hop_limit := hdr_overlay_hop_limit h - 1,
             hdr_overlay_hops := hdr_overlay_hops h + 1 \<rparr>"
    and bs': "bs' = encode_header (bs ! 7) h' @ drop 36 bs" and d': "decode_route_header bs' = Inr h'"
    using assms(1) by (rule advance_overlay_hop_Inr)
  note H' = decode_route_headerD [OF d']
  have "decode_with_header bs h = Inr c" using assms(2) h by (simp add: decode_cell_def)
  note D = decode_with_headerD [OF h this]
  have ho: "header_of ?c = h'" using D by (auto simp: h' header_of_def kind_of_def)
  have "bs' ! 7 = bs ! 7" by (simp add: bs' encode_header_fields)
  with H'(1) D have "validate_cell_header ?c = Inr ()"
    by (auto simp: validate_cell_header_def result_iff header_valid_def header_of_def h')
  with D have "validate_cell ?c = Inr ()"
    by (cases "cell_body c") (simp_all add: validate_cell_def result_iff)
  with ho show ?thesis
    using D H'(3) by (simp add: decode_cell_Inr_iff bs')
qed

fun advance_hops :: "nat \<Rightarrow> bytes \<Rightarrow> bytes result" where
  "advance_hops 0 bs = Inr bs"
| "advance_hops (Suc n) bs = bindR (advance_overlay_hop bs) (\<lambda>(bs', _). advance_hops n bs')"

text \<open>What \<open>DatagramPayload::split\<close> puts on the wire: the head followed by the tail.\<close>

definition join_parts :: "bytes \<Rightarrow> bytes option \<Rightarrow> bytes" where
  "join_parts head tail = head @ (case tail of None \<Rightarrow> [] | Some t \<Rightarrow> t)"

section \<open>Properties\<close>

lemmas cell_eval =
  encode_into_def checked_route_header_def validate_cell_def validate_cell_header_def
  validate_segment_def segment_end_def kind_of_def encode_contiguous_def encode_header_def
  encode_segment_def encode_segment_header_def decode_cell_def decode_route_header_def
  decode_with_header_def decode_segment_at_def cell_kind_from_wire_def traffic_class_from_wire_def
  segment_kind_from_wire_def KNOWN_FLAGS_def FLAG_TRAIN_START_def FLAG_TRAIN_END_def cell_consts

text \<open>A concrete one-segment Cell, for the witnesses.\<close>

definition demo_cell :: cell_v2 where
  "demo_cell = \<lparr> cell_class = Bulk, cell_flags = 3, cell_session_epoch = 7, cell_route_label = 9,
     cell_train_id = 11, cell_sequence = 0, cell_stripe_id = 0, cell_overlay_hop_limit = 3,
     cell_overlay_hops = 1,
     cell_body = Records [\<lparr> seg_kind = Full, seg_flags = 0, seg_record_id = 1, seg_total_len = 3,
       seg_offset = 0, seg_metadata = [0xAA], seg_data = [1, 2, 3] \<rparr>] \<rparr>"

definition demo_bytes :: bytes where
  "demo_bytes = [0x49, 0x43, 0x56, 0x32, 2, 1, 2, 3, 0, 0, 0, 7, 0, 0, 0, 9, 0, 0, 0, 0, 0, 0, 0, 11,
     0, 0, 0, 0, 0, 0, 0, 1, 0, 20, 3, 1,
     1, 0, 0, 1, 0, 0, 0, 3, 0, 0, 0, 0, 0, 3, 0, 1, 0xAA, 1, 2, 3]"

lemma demo_encodes: "encode_into 1200 demo_cell = Inr demo_bytes"
  by (simp add: demo_cell_def demo_bytes_def cell_eval wire_eval)

lemma demo_decodes: "decode_cell demo_bytes = Inr demo_cell"
  by (rule cell_wire_max.dec_enc [OF demo_encodes])

text \<open>C3. Decoding the wire form of a Cell gives the Cell back, and the wire form respects the
  negotiated datagram maximum: \<open>CellV2::decode\<close> inverts \<open>CellV2::encode\<close>.\<close>

theorem cell_decode_encode:
  assumes "encode_into maximum c = Inr bs"
  shows "decode_cell bs = Inr c \<and> length bs \<le> maximum"
  using cell_wire_max.dec_enc [OF assms] assms by (auto simp: encode_into_Inr_iff)

theorem cell_decode_encode_witness:
  "decode_cell demo_bytes = Inr demo_cell \<and> length demo_bytes \<le> 1200"
  using cell_decode_encode [OF demo_encodes] .

text \<open>C4. The wire form is canonical: a byte string the decoder accepts is exactly what the encoder
  writes for the decoded Cell, for every maximum it fits; no two datagrams carry the same Cell.\<close>

theorem cell_encode_decode:
  assumes "decode_cell bs = Inr c" and "length bs \<le> maximum" and "maximum \<le> MAX_CELL_BYTES"
  shows "encode_into maximum c = Inr bs"
  using cell_wire.enc_dec [OF assms(1)] assms by (simp add: encode_into_Inr_iff)

theorem cell_encode_decode_witness: "encode_into 1200 demo_cell = Inr demo_bytes"
  by (rule cell_encode_decode [OF demo_decodes]) (simp_all add: demo_bytes_def MAX_CELL_BYTES_def)

text \<open>C5. The zero-copy split encoder of the scheduler is the contiguous encoder cut in two: on every
  Cell and maximum, head and tail joined are the contiguous encoding, with the same errors, and the
  header it hands over is the one the receiver parses.\<close>

theorem encode_datagram_parts_eq:
  "encode_into maximum c = map_sum id (\<lambda>(head, tail, _). join_parts head tail) (encode_datagram_parts maximum c) \<and>
   (case encode_datagram_parts maximum c of
      Inl _ \<Rightarrow> True
    | Inr (head, tail, h) \<Rightarrow> decode_route_header (join_parts head tail) = Inr h)"
proof (cases "checked_route_header c maximum")
  case (Inl e)
  then show ?thesis by (simp add: encode_into_def encode_datagram_parts_def)
next
  case (Inr h)
  then have v: "validate_cell c = Inr ()" and h: "h = header_of c"
    and l: "length (encode_contiguous c h) \<le> MAX_CELL_BYTES"
    by (auto simp: checked_route_header_Inr_iff encode_contiguous_def HEADER_LEN_def)
  have "decode_route_header (encode_contiguous c h) = Inr h"
    using decode_header_of [OF v, of "encode_contiguous c h"] l h by (simp add: encode_contiguous_def)
  with Inr show ?thesis
    by (auto simp: encode_into_def encode_datagram_parts_def encode_contiguous_def encode_segment_def
        join_parts_def split: cell_body.split list.split)
qed

text \<open>C6. A transit hop changes the two hop-accounting bytes and nothing else: the forwarded datagram
  has the same length, the same bytes outside offsets 34 and 35, the same ingress hop limit, a routing
  shim that parses to the returned header, and it decodes to the received Cell with only its hop
  fields changed.\<close>

theorem advance_overlay_hop_frame:
  assumes "advance_overlay_hop bs = Inr (bs', h')"
  shows "length bs' = length bs \<and> (\<forall>i. i \<noteq> 34 \<longrightarrow> i \<noteq> 35 \<longrightarrow> bs' ! i = bs ! i) \<and>
    decode_route_header bs' = Inr h' \<and>
    (\<exists>h. decode_route_header bs = Inr h \<and> ingress_hop_limit h' = ingress_hop_limit h \<and>
       unat (hdr_overlay_hop_limit h') + 1 = unat (hdr_overlay_hop_limit h)) \<and>
    (\<forall>c. decode_cell bs = Inr c \<longrightarrow>
       decode_cell bs' = Inr (c\<lparr> cell_overlay_hop_limit := hdr_overlay_hop_limit h',
                                 cell_overlay_hops := hdr_overlay_hops h' \<rparr>))"
proof -
  have upd: "bs' = bs[34 := hdr_overlay_hop_limit h', 35 := hdr_overlay_hops h']"
    using assms by (auto simp: advance_overlay_hop_def result_iff Let_def OVERLAY_HOP_LIMIT_OFFSET_def
        OVERLAY_HOPS_OFFSET_def)
  then have "length bs' = length bs" "\<forall>i. i \<noteq> 34 \<longrightarrow> i \<noteq> 35 \<longrightarrow> bs' ! i = bs ! i"
    by simp_all
  moreover obtain h where h: "decode_route_header bs = Inr h" "decode_route_header bs' = Inr h'" and lim: "1 < unat (hdr_overlay_hop_limit h)"
    using assms by (rule advance_overlay_hop_Inr)
  moreover have lims: "unat (hdr_overlay_hop_limit h') + 1 = unat (hdr_overlay_hop_limit h)"
    "unat (hdr_overlay_hops h') = unat (hdr_overlay_hops h) + 1"
    using advance_overlay_hop_counts [OF assms h(1)] by simp_all
  moreover have "ingress_hop_limit h' = ingress_hop_limit h"
    using lims by (simp add: ingress_hop_limit_def u8_sat_add_def word_unat_eq_iff unat_word_ariths)
  ultimately show ?thesis using advance_overlay_hop_cell [OF assms] by blast
qed

theorem advance_overlay_hop_frame_witness:
  "decode_cell (demo_bytes[34 := 2, 35 := 2]) =
     Inr (demo_cell\<lparr> cell_overlay_hop_limit := 2, cell_overlay_hops := 2 \<rparr>)"
proof -
  obtain h' where a: "advance_overlay_hop demo_bytes = Inr (demo_bytes[34 := 2, 35 := 2], h')"
    "hdr_overlay_hop_limit h' = 2" "hdr_overlay_hops h' = 2"
  proof -
    let ?h = "\<lparr> hdr_kind = Data, hdr_class = Bulk, hdr_session_epoch = 7, hdr_route_label = 9,
      hdr_train_id = 11, hdr_cell_sequence = 0, hdr_stripe_id = 0, hdr_segment_count = 1,
      hdr_payload_len = 20, hdr_overlay_hop_limit = 2, hdr_overlay_hops = 2 \<rparr>"
    have "advance_overlay_hop demo_bytes = Inr (demo_bytes[34 := 2, 35 := 2], ?h)"
      by (simp add: advance_overlay_hop_def demo_bytes_def cell_eval wire_eval)
    then show thesis by (rule that) simp_all
  qed
  show ?thesis using advance_overlay_hop_frame [OF a(1)] demo_decodes a(2,3) by auto
qed

text \<open>C7. The hop limit bounds forwarding exactly: a datagram admitted with hop limit \<open>L\<close> is forwarded
  successfully \<open>L - 1\<close> times, keeping its length, and the next transit reports expiry; the hop-counter
  overflow error cannot occur.\<close>

theorem advance_hops_limit:
  assumes "decode_route_header bs = Inr h"
  shows "(n < unat (hdr_overlay_hop_limit h) \<longrightarrow>
           (\<exists>bs' h'. advance_hops n bs = Inr bs' \<and> decode_route_header bs' = Inr h' \<and>
              unat (hdr_overlay_hop_limit h') = unat (hdr_overlay_hop_limit h) - n \<and>
              unat (hdr_overlay_hops h') = unat (hdr_overlay_hops h) + n \<and> length bs' = length bs)) \<and>
         (unat (hdr_overlay_hop_limit h) \<le> n \<longrightarrow>
           advance_hops n bs = Inl (Err ''V2 overlay hop limit expired''))"
  using assms
proof (induction n arbitrary: bs h)
  case 0
  have "hdr_overlay_hop_limit h \<noteq> 0" using decode_route_headerD(1) [OF 0] by (simp add: header_valid_def)
  then show ?case using 0 by (auto simp: unat_eq_0 Suc_le_eq)
next
  case (Suc n)
  have nz: "hdr_overlay_hop_limit h \<noteq> 0" using decode_route_headerD(1) [OF Suc.prems] by (simp add: header_valid_def)
  show ?case
  proof (cases "1 < unat (hdr_overlay_hop_limit h)")
    case False
    moreover have "unat (hdr_overlay_hop_limit h) \<noteq> 0" using nz by (simp add: unat_eq_0)
    ultimately have "unat (hdr_overlay_hop_limit h) = 1" by simp
    then show ?thesis using advance_overlay_hop_expired [OF Suc.prems] by simp
  next
    case True
    obtain bs' h' where A: "advance_overlay_hop bs = Inr (bs', h')" "decode_route_header bs' = Inr h'"
      "bs' = encode_header (bs ! 7) h' @ drop 36 bs"
      "unat (hdr_overlay_hop_limit h') = unat (hdr_overlay_hop_limit h) - 1"
      "unat (hdr_overlay_hops h') = unat (hdr_overlay_hops h) + 1"
      using Suc.prems True by (rule advance_overlay_hopE)
    have "length bs' = length bs"
      using A(3) decode_route_headerD(2) [OF Suc.prems] by (simp add: HEADER_LEN_def)
    with Suc.IH [OF A(2)] A True show ?thesis by (auto simp del: unsigned_of_nat)
  qed
qed

theorem advance_hops_limit_witness:
  "(\<exists>bs'. advance_hops 2 demo_bytes = Inr bs') \<and>
   advance_hops 3 demo_bytes = Inl (Err ''V2 overlay hop limit expired'')"
proof -
  let ?h = "\<lparr> hdr_kind = Data, hdr_class = Bulk, hdr_session_epoch = 7, hdr_route_label = 9,
      hdr_train_id = 11, hdr_cell_sequence = 0, hdr_stripe_id = 0, hdr_segment_count = 1,
      hdr_payload_len = 20, hdr_overlay_hop_limit = 3, hdr_overlay_hops = 1 \<rparr> :: route_header"
  have "decode_route_header demo_bytes = Inr ?h" by (simp add: demo_bytes_def cell_eval wire_eval)
  from advance_hops_limit [OF this, of 2] advance_hops_limit [OF this, of 3] show ?thesis by auto
qed

end
