(* ===== verification/Train.thy ===== *)
theory Train
  imports Cell
begin

text \<open>
  The packet-train builder (\<open>src/src/protocol/v2/train.rs\<close>): records are packed in order into
  Cells of one train, split where a Cell is full. The pool that recycles descriptor vectors hands
  out empty vectors only and does not influence the train, so it is not part of the model; the
  \<open>reserve\<close> calls are capacity hints.

  The lemmas show what the receiver needs: every Cell of a train encodes within the negotiated
  datagram size, the sequence numbers and boundary flags delimit the train, the segments of a
  record tile its data from offset zero, and for valid input the only error is the cell limit.
\<close>

section \<open>Data\<close>

record train_record =
  tr_record_id :: u16
  tr_metadata :: bytes
  tr_data :: bytes

record train_context =
  ctx_class :: traffic_class
  ctx_session_epoch :: u32
  ctx_route_label :: u32
  ctx_overlay_hop_limit :: u8
  ctx_train_id :: u64
  ctx_maximum_datagram_size :: nat
  ctx_maximum_cells :: nat

record train_build_stats =
  ts_records :: nat
  ts_record_bytes :: nat
  ts_metadata_bytes :: nat
  ts_split_records :: nat
  ts_cells :: nat
  ts_full_payload_cells :: nat
  ts_cell_payload_bytes :: nat
  ts_cell_wire_bytes :: nat
  ts_unused_payload_capacity :: nat
  ts_fec_stripes :: nat
  ts_fec_protected_data_cells :: nat
  ts_fec_parity_cells :: nat
  ts_fec_encode_copy_bytes :: nat
  ts_fec_unprotected_tail_cells :: nat

record packet_train =
  pt_cells :: "cell_v2 list"
  pt_stats :: train_build_stats

definition train_build_stats_default :: train_build_stats where
  "train_build_stats_default =
     \<lparr> ts_records = 0, ts_record_bytes = 0, ts_metadata_bytes = 0, ts_split_records = 0,
       ts_cells = 0, ts_full_payload_cells = 0, ts_cell_payload_bytes = 0, ts_cell_wire_bytes = 0,
       ts_unused_payload_capacity = 0, ts_fec_stripes = 0, ts_fec_protected_data_cells = 0,
       ts_fec_parity_cells = 0, ts_fec_encode_copy_bytes = 0, ts_fec_unprotected_tail_cells = 0 \<rparr>"

text \<open>The mutable locals of \<open>build_packet_train_pooled\<close>. The hash set of record ids, allocated
  when a second record arrives, is an optional list.\<close>

record builder =
  b_first_record_id :: "u16 option"
  b_ids :: "u16 list option"
  b_cells :: "cell_v2 list"
  b_current :: "record_segment list"
  b_used :: nat
  b_stats :: train_build_stats

definition builder_init :: builder where
  "builder_init =
     \<lparr> b_first_record_id = None, b_ids = None, b_cells = [], b_current = [], b_used = 0,
       b_stats = train_build_stats_default \<rparr>"

section \<open>Operations\<close>

definition validate_context :: "train_context \<Rightarrow> unit result" where
  "validate_context ctx =
     ensure (HEADER_LEN + SEGMENT_HEADER_LEN + 1 \<le> ctx_maximum_datagram_size ctx \<and>
             ctx_maximum_datagram_size ctx \<le> MAX_CELL_BYTES)
       ''invalid V2 packet train datagram limit'' (
     ensure (1 \<le> ctx_maximum_cells ctx \<and> ctx_maximum_cells ctx \<le> u16_max)
       ''invalid V2 packet train cell limit'' (
     ensure (ctx_session_epoch ctx \<noteq> 0) ''V2 session epoch zero is reserved'' (
     ensure (ctx_route_label ctx \<noteq> 0) ''V2 route label zero is reserved'' (
     ensure (ctx_overlay_hop_limit ctx \<noteq> 0) ''V2 overlay hop limit is exhausted'' (
     ensure (ctx_train_id ctx \<noteq> 0) ''V2 train id zero is reserved'' (Inr ()))))))"

definition validate_record :: "nat \<Rightarrow> train_record \<Rightarrow> unit result" where
  "validate_record cap r =
     ensure (tr_record_id r \<noteq> 0) ''V2 record id zero is reserved'' (
     ensure (tr_data r \<noteq> [] \<and> length (tr_data r) \<le> MAX_RECORD_BYTES)
       ''invalid V2 packet train record length'' (
     ensure (length (tr_metadata r) \<le> MAX_METADATA_BYTES)
       ''V2 packet train metadata is too large'' (
     ensure (SEGMENT_HEADER_LEN + length (tr_metadata r) < cap)
       ''V2 packet train metadata leaves no payload capacity'' (Inr ()))))"

definition data_cell :: "train_context \<Rightarrow> nat \<Rightarrow> record_segment list \<Rightarrow> cell_v2" where
  "data_cell ctx i segments =
     \<lparr> cell_class = ctx_class ctx, cell_flags = 0,
       cell_session_epoch = ctx_session_epoch ctx, cell_route_label = ctx_route_label ctx,
       cell_train_id = ctx_train_id ctx, cell_sequence = word_of_nat i, cell_stripe_id = 0,
       cell_overlay_hop_limit = ctx_overlay_hop_limit ctx, cell_overlay_hops = 0,
       cell_body = Records segments \<rparr>"

definition finish_cell :: "train_context \<Rightarrow> nat \<Rightarrow> builder \<Rightarrow> builder result" where
  "finish_cell ctx cap b =
     ensure (b_current b \<noteq> []) ''cannot finish an empty V2 data cell'' (
     ensure (length (b_cells b) < ctx_maximum_cells ctx)
       ''V2 packet train exceeds negotiated cell limit'' (
     ensure (b_used b \<le> cap) ''V2 packet train cell overflow'' (
     let st = b_stats b;
         st = st\<lparr> ts_cells := ts_cells st + 1,
                  ts_full_payload_cells :=
                    sat_add (ts_full_payload_cells st) (if b_used b = cap then 1 else 0),
                  ts_cell_payload_bytes := sat_add (ts_cell_payload_bytes st) (b_used b),
                  ts_cell_wire_bytes := sat_add (ts_cell_wire_bytes st) (HEADER_LEN + b_used b),
                  ts_unused_payload_capacity :=
                    sat_add (ts_unused_payload_capacity st) (cap - b_used b) \<rparr> in
     ensure (length (b_cells b) \<le> u16_max) ''V2 packet train sequence overflow'' (
     Inr (b\<lparr> b_cells := b_cells b @ [data_cell ctx (length (b_cells b)) (b_current b)],
             b_current := [], b_used := 0, b_stats := st \<rparr>)))))"

definition segment_kind_of :: "nat \<Rightarrow> nat \<Rightarrow> nat \<Rightarrow> segment_kind" where
  "segment_kind_of off fin len =
     (if off = 0 then (if fin = len then Full else Start)
      else (if fin = len then End else Continue))"

definition record_piece :: "train_record \<Rightarrow> nat \<Rightarrow> nat \<Rightarrow> record_segment" where
  "record_piece r off fin =
     \<lparr> seg_kind = segment_kind_of off fin (length (tr_data r)), seg_flags = 0,
       seg_record_id = tr_record_id r, seg_total_len = word_of_nat (length (tr_data r)),
       seg_offset = word_of_nat off, seg_metadata = (if off = 0 then tr_metadata r else []),
       seg_data = slice off fin (tr_data r) \<rparr>"

text \<open>One round of the \<open>while offset < record.data.len()\<close> loop: the new builder and offset.\<close>

definition emit_segment :: "train_context \<Rightarrow> nat \<Rightarrow> train_record \<Rightarrow> nat \<Rightarrow> builder \<Rightarrow> (builder \<times> nat) result" where
  "emit_segment ctx cap r off b =
     bindR (if length (b_current b) = MAX_SEGMENTS_PER_CELL then finish_cell ctx cap b else Inr b) (\<lambda>b.
     let metadata_len = (if off = 0 then length (tr_metadata r) else 0);
         fixed = SEGMENT_HEADER_LEN + metadata_len in
     bindR (if cap - b_used b \<le> fixed then finish_cell ctx cap b else Inr b) (\<lambda>b.
     let available = cap - b_used b - fixed;
         remaining = length (tr_data r) - off;
         n = min available remaining in
     ensure (0 < n) ''V2 train builder made no record progress'' (
     let fin = off + n;
         b = b\<lparr> b_current := b_current b @ [record_piece r off fin], b_used := b_used b + (fixed + n) \<rparr> in
     bindR (if b_used b = cap then finish_cell ctx cap b else Inr b) (\<lambda>b. Inr (b, fin)))))"

lemma emit_segment_progress:
  "emit_segment ctx cap r off b = Inr (b', off') \<Longrightarrow> off < off'"
  by (auto simp: emit_segment_def Let_def result_iff)

function emit_segments :: "train_context \<Rightarrow> nat \<Rightarrow> train_record \<Rightarrow> nat \<Rightarrow> nat \<Rightarrow> builder \<Rightarrow> (builder \<times> nat) result" where
  "emit_segments ctx cap r off count b =
     (if off < length (tr_data r) then
        bindR (emit_segment ctx cap r off b) (\<lambda>(b', off').
          emit_segments ctx cap r off' (count + 1) b')
      else Inr (b, count))"
  by pat_completeness auto
termination
  by (relation "measure (\<lambda>(ctx, cap, r, off, count, b). length (tr_data r) - off)")
     (auto dest: emit_segment_progress)

declare emit_segments.simps [simp del]

definition register_record_id :: "u16 \<Rightarrow> builder \<Rightarrow> builder result" where
  "register_record_id rid b =
     (case b_first_record_id b of
        Some first \<Rightarrow>
          let ids = (case b_ids b of None \<Rightarrow> [first] | Some ids \<Rightarrow> ids) in
          ensure (rid \<notin> set ids) ''duplicate record id in V2 packet train'' (
          Inr (b\<lparr> b_ids := Some (rid # ids) \<rparr>))
      | None \<Rightarrow> Inr (b\<lparr> b_first_record_id := Some rid \<rparr>))"

definition count_record :: "train_record \<Rightarrow> builder \<Rightarrow> builder" where
  "count_record r b =
     (let st = b_stats b in
      b\<lparr> b_stats := st\<lparr> ts_records := ts_records st + 1,
           ts_record_bytes := sat_add (ts_record_bytes st) (length (tr_data r)),
           ts_metadata_bytes := sat_add (ts_metadata_bytes st) (length (tr_metadata r)) \<rparr> \<rparr>)"

definition count_split :: "nat \<Rightarrow> builder \<Rightarrow> builder" where
  "count_split segment_count b =
     (if 1 < segment_count
      then b\<lparr> b_stats := (b_stats b)\<lparr> ts_split_records := ts_split_records (b_stats b) + 1 \<rparr> \<rparr>
      else b)"

definition add_record :: "train_context \<Rightarrow> nat \<Rightarrow> train_record \<Rightarrow> builder \<Rightarrow> builder result" where
  "add_record ctx cap r b =
     bindR (validate_record cap r) (\<lambda>_.
     bindR (register_record_id (tr_record_id r) b) (\<lambda>b.
     bindR (emit_segments ctx cap r 0 0 (count_record r b)) (\<lambda>(b, segment_count).
     Inr (count_split segment_count b))))"

fun add_records :: "train_context \<Rightarrow> nat \<Rightarrow> train_record list \<Rightarrow> builder \<Rightarrow> builder result" where
  "add_records ctx cap [] b = Inr b"
| "add_records ctx cap (r # rs) b = bindR (add_record ctx cap r b) (add_records ctx cap rs)"

definition mark_start :: "cell_v2 list \<Rightarrow> cell_v2 list" where
  "mark_start cells = cells[0 := (cells ! 0)\<lparr> cell_flags := cell_flags (cells ! 0) OR FLAG_TRAIN_START \<rparr>]"

definition mark_end :: "cell_v2 list \<Rightarrow> cell_v2 list" where
  "mark_end cells = (let i = length cells - 1 in
     cells[i := (cells ! i)\<lparr> cell_flags := cell_flags (cells ! i) OR FLAG_TRAIN_END \<rparr>])"

definition build_packet_train :: "train_context \<Rightarrow> train_record list \<Rightarrow> packet_train result" where
  "build_packet_train ctx records =
     bindR (validate_context ctx) (\<lambda>_.
     let cap = ctx_maximum_datagram_size ctx - HEADER_LEN in
     ensure (records \<noteq> []) ''cannot build an empty V2 packet train'' (
     bindR (add_records ctx cap records builder_init) (\<lambda>b.
     bindR (if b_current b \<noteq> [] then finish_cell ctx cap b else Inr b) (\<lambda>b.
     ensure (b_cells b \<noteq> []) ''V2 packet train produced no cells'' (
     Inr \<lparr> pt_cells = mark_end (mark_start (b_cells b)), pt_stats = b_stats b \<rparr>)))))"

section \<open>What a train is\<close>

definition cell_segments :: "cell_v2 \<Rightarrow> record_segment list" where
  "cell_segments c = (case cell_body c of Records ss \<Rightarrow> ss | Parity _ \<Rightarrow> [])"

definition train_segments :: "cell_v2 list \<Rightarrow> record_segment list" where
  "train_segments cells = concat (map cell_segments cells)"

definition segments_len :: "record_segment list \<Rightarrow> nat" where
  "segments_len ss = length (concat (map encode_segment ss))"

fun tiles :: "train_record \<Rightarrow> nat \<Rightarrow> record_segment list \<Rightarrow> bool" where
  "tiles r off [] \<longleftrightarrow> off = length (tr_data r)"
| "tiles r off (s # ss) \<longleftrightarrow>
     (let fin = off + length (seg_data s) in
      off < fin \<and> fin \<le> length (tr_data r) \<and> s = record_piece r off fin \<and> tiles r fin ss)"

lemma segments_len_simps [simp]:
  "segments_len [] = 0"
  "segments_len (s # ss) = 16 + length (seg_metadata s) + length (seg_data s) + segments_len ss"
  "segments_len (ss @ ts) = segments_len ss + segments_len ts"
  by (simp_all add: segments_len_def)

lemma train_segments_simps [simp]:
  "train_segments [] = []"
  "train_segments (c # cs) = cell_segments c @ train_segments cs"
  "train_segments (cs @ ds) = train_segments cs @ train_segments ds"
  by (simp_all add: train_segments_def)

lemma cell_segments_data_cell [simp]: "cell_segments (data_cell ctx i ss) = ss"
  by (simp add: cell_segments_def data_cell_def)

text \<open>A result that is either good or the one error a valid train can meet.\<close>

definition cell_limit_error :: error where
  "cell_limit_error = Err ''V2 packet train exceeds negotiated cell limit''"

definition or_limit :: "('a \<Rightarrow> bool) \<Rightarrow> 'a result \<Rightarrow> bool" where
  "or_limit P m = (case m of Inl e \<Rightarrow> e = cell_limit_error | Inr x \<Rightarrow> P x)"

lemma or_limit_Inr [simp]: "or_limit P (Inr x) = P x"
  by (simp add: or_limit_def)

lemma or_limit_bind:
  "or_limit P m \<Longrightarrow> (\<And>x. P x \<Longrightarrow> or_limit Q (f x)) \<Longrightarrow> or_limit Q (bindR m f)"
  by (cases m) (simp_all add: or_limit_def)

lemma or_limit_mono: "or_limit P m \<Longrightarrow> (\<And>x. P x \<Longrightarrow> Q x) \<Longrightarrow> or_limit Q m"
  by (cases m) (simp_all add: or_limit_def)

section \<open>The builder invariant\<close>

definition segments_ok :: "nat \<Rightarrow> record_segment list \<Rightarrow> bool" where
  "segments_ok cap ss \<longleftrightarrow>
     length ss \<le> MAX_SEGMENTS_PER_CELL \<and> segments_len ss \<le> cap \<and>
     list_all (\<lambda>s. validate_segment s = Inr ()) ss"

definition cells_ok :: "train_context \<Rightarrow> nat \<Rightarrow> cell_v2 list \<Rightarrow> bool" where
  "cells_ok ctx cap cells \<longleftrightarrow>
     length cells \<le> ctx_maximum_cells ctx \<and>
     (\<forall>i<length cells. \<exists>ss. cells ! i = data_cell ctx i ss \<and> ss \<noteq> [] \<and> segments_ok cap ss)"

definition payload_total :: "cell_v2 list \<Rightarrow> nat" where
  "payload_total cells = segments_len (train_segments cells)"

definition stats_ok :: "nat \<Rightarrow> builder \<Rightarrow> bool" where
  "stats_ok cap b \<longleftrightarrow>
     (let st = b_stats b; n = length (b_cells b) in
      ts_cells st = n \<and> ts_cell_payload_bytes st = payload_total (b_cells b) \<and>
      ts_cell_wire_bytes st = n * HEADER_LEN + payload_total (b_cells b) \<and>
      payload_total (b_cells b) + ts_unused_payload_capacity st = n * cap \<and>
      ts_full_payload_cells st =
        length (filter (\<lambda>c. segments_len (cell_segments c) = cap) (b_cells b)))"

definition builder_ok :: "train_context \<Rightarrow> nat \<Rightarrow> builder \<Rightarrow> bool" where
  "builder_ok ctx cap b \<longleftrightarrow>
     cells_ok ctx cap (b_cells b) \<and> segments_ok cap (b_current b) \<and>
     b_used b = segments_len (b_current b) \<and> stats_ok cap b \<and>
     (b_first_record_id b = None \<longrightarrow> b_ids b = None)"

definition emitted :: "builder \<Rightarrow> record_segment list" where
  "emitted b = train_segments (b_cells b) @ b_current b"

definition seen_ids :: "builder \<Rightarrow> u16 set" where
  "seen_ids b = (case b_first_record_id b of None \<Rightarrow> {}
     | Some first \<Rightarrow> (case b_ids b of None \<Rightarrow> {first} | Some ids \<Rightarrow> set ids))"

lemma seen_ids_cong:
  "b_first_record_id b = b_first_record_id b' \<Longrightarrow> b_ids b = b_ids b' \<Longrightarrow> seen_ids b = seen_ids b'"
  unfolding seen_ids_def by (simp only:)

text \<open>What finishing a Cell leaves alone.\<close>

definition same_records :: "builder \<Rightarrow> builder \<Rightarrow> bool" where
  "same_records b b' \<longleftrightarrow>
     b_first_record_id b' = b_first_record_id b \<and> b_ids b' = b_ids b \<and>
     ts_records (b_stats b') = ts_records (b_stats b) \<and>
     ts_record_bytes (b_stats b') = ts_record_bytes (b_stats b) \<and>
     ts_metadata_bytes (b_stats b') = ts_metadata_bytes (b_stats b) \<and>
     ts_split_records (b_stats b') = ts_split_records (b_stats b)"

lemma same_records_refl [simp]: "same_records b b"
  by (simp add: same_records_def)

lemma same_records_trans: "same_records a b \<Longrightarrow> same_records b c \<Longrightarrow> same_records a c"
  by (simp add: same_records_def)

lemma cells_ok_payload:
  assumes "cells_ok ctx cap cells"
  shows "payload_total cells \<le> length cells * cap"
proof -
  have "i < length cells \<Longrightarrow> segments_len (cell_segments (cells ! i)) \<le> cap" for i
    using assms by (fastforce simp: cells_ok_def segments_ok_def)
  then have "list_all (\<lambda>c. segments_len (cell_segments c) \<le> cap) cells"
    by (simp add: list_all_length)
  then show ?thesis
    unfolding payload_total_def by (induction cells) auto
qed

lemma cells_ok_snoc:
  assumes "cells_ok ctx cap cells" "length cells < ctx_maximum_cells ctx" "ss \<noteq> []" "segments_ok cap ss"
  shows "cells_ok ctx cap (cells @ [data_cell ctx (length cells) ss])"
  using assms by (auto simp: cells_ok_def nth_append less_Suc_eq)

lemma finish_cell_spec:
  assumes ok: "builder_ok ctx cap b" and ne: "b_current b \<noteq> []"
    and ctx: "ctx_maximum_cells ctx \<le> u16_max" and cap: "cap \<le> MAX_CELL_BYTES"
  shows "or_limit (\<lambda>b'. builder_ok ctx cap b' \<and> b_current b' = [] \<and> b_used b' = 0 \<and>
           emitted b' = emitted b \<and> same_records b b') (finish_cell ctx cap b)"
proof (cases "length (b_cells b) < ctx_maximum_cells ctx")
  case False
  with ne show ?thesis by (simp add: finish_cell_def or_limit_def cell_limit_error_def)
next
  case True
  have c: "cells_ok ctx cap (b_cells b)" and s: "segments_ok cap (b_current b)"
    and u: "b_used b = segments_len (b_current b)" and st: "stats_ok cap b"
    using ok by (simp_all add: builder_ok_def)
  have used: "b_used b \<le> cap" using s u by (simp add: segments_ok_def)
  have n: "length (b_cells b) \<le> 65535" using True ctx by (simp add: u16_max_def)
  have "length (b_cells b) * cap \<le> 65535 * 65535"
    using n cap by (intro mult_le_mono) (simp_all add: MAX_CELL_BYTES_def)
  then have small: "payload_total (b_cells b) \<le> 4294836225" "length (b_cells b) * cap \<le> 4294836225"
    using cells_ok_payload [OF c] by simp_all
  have full: "length (filter P (b_cells b)) \<le> 65535" for P
    by (rule order_trans [OF length_filter_le n])
  have "stats_ok cap (b\<lparr> b_cells := b_cells b @ [data_cell ctx (length (b_cells b)) (b_current b)],
     b_current := [], b_used := 0,
     b_stats := (b_stats b)\<lparr> ts_cells := ts_cells (b_stats b) + 1,
                  ts_full_payload_cells :=
                    sat_add (ts_full_payload_cells (b_stats b)) (if b_used b = cap then 1 else 0),
                  ts_cell_payload_bytes := sat_add (ts_cell_payload_bytes (b_stats b)) (b_used b),
                  ts_cell_wire_bytes := sat_add (ts_cell_wire_bytes (b_stats b)) (HEADER_LEN + b_used b),
                  ts_unused_payload_capacity :=
                    sat_add (ts_unused_payload_capacity (b_stats b)) (cap - b_used b) \<rparr> \<rparr>)"
    using st small n used cap full [of "\<lambda>c. segments_len (cell_segments c) = cap"]
    by (auto simp: stats_ok_def Let_def payload_total_def u sat_add_def usize_max_def HEADER_LEN_def
        MAX_CELL_BYTES_def min_def)
  with True ne used n c s ok show ?thesis
    by (simp add: finish_cell_def builder_ok_def segments_ok_def cells_ok_snoc emitted_def
        same_records_def u16_max_def Let_def)
qed


lemma record_piece_sel [simp]:
  "seg_kind (record_piece r off fin) = segment_kind_of off fin (length (tr_data r))"
  "seg_flags (record_piece r off fin) = 0"
  "seg_record_id (record_piece r off fin) = tr_record_id r"
  "seg_total_len (record_piece r off fin) = word_of_nat (length (tr_data r))"
  "seg_offset (record_piece r off fin) = word_of_nat off"
  "seg_metadata (record_piece r off fin) = (if off = 0 then tr_metadata r else [])"
  "seg_data (record_piece r off fin) = slice off fin (tr_data r)"
  by (simp_all add: record_piece_def)

lemma record_piece_valid:
  assumes r: "validate_record cap r = Inr ()" and "off < fin" "fin \<le> length (tr_data r)"
  shows "validate_segment (record_piece r off fin) = Inr ()"
proof -
  have len: "length (tr_data r) \<le> 65535" and rid: "tr_record_id r \<noteq> 0"
    and md: "length (tr_metadata r) \<le> MAX_METADATA_BYTES"
    using r by (simp_all add: validate_record_def result_iff MAX_RECORD_BYTES_def)
  have w: "unat (word_of_nat (length (tr_data r)) :: u32) = length (tr_data r)"
    "unat (word_of_nat off :: u32) = off"
    using assms len by (simp_all add: unat_u32_of_nat u32_max_def)
  have zero: "(word_of_nat off :: u32) = 0 \<longleftrightarrow> off = 0"
    using w(2) by (simp only: unat_eq_zero [symmetric])
  have gt: "0 < off \<Longrightarrow> (0 :: u32) < word_of_nat off"
    using zero by (simp add: word_gt_0)
  have e: "segment_end (record_piece r off fin) = fin"
    using assms by (simp add: segment_end_def w)
  have d: "slice off fin (tr_data r) \<noteq> []"
    using assms by (simp add: slice_def)
  have "validate_segment_kind (segment_kind_of off fin (length (tr_data r))) (record_piece r off fin) = Inr ()"
    using assms(2,3) gt e w
    by (cases "off = 0"; cases "fin = length (tr_data r)") (simp_all add: segment_kind_of_def)
  with assms len rid md d e w show ?thesis
    by (auto simp: validate_segment_def result_iff MAX_RECORD_BYTES_def u16_max_def u32_max_def)
qed

text \<open>The facts about a context and a record that every step relies on.\<close>

definition emit_pre :: "train_context \<Rightarrow> nat \<Rightarrow> train_record \<Rightarrow> bool" where
  "emit_pre ctx cap r \<longleftrightarrow>
     ctx_maximum_cells ctx \<le> u16_max \<and> cap \<le> MAX_CELL_BYTES \<and> validate_record cap r = Inr ()"

definition emit_inv :: "train_context \<Rightarrow> nat \<Rightarrow> builder \<Rightarrow> record_segment list \<Rightarrow> builder \<Rightarrow> bool" where
  "emit_inv ctx cap b0 new b \<longleftrightarrow>
     builder_ok ctx cap b \<and> b_used b < cap \<and> emitted b = emitted b0 @ new \<and> same_records b0 b"

lemma emit_inv_finish:
  assumes "emit_pre ctx cap r" "builder_ok ctx cap b" "emitted b = emitted b0 @ new" "same_records b0 b"
    and "b_current b \<noteq> []"
  shows "or_limit (\<lambda>b'. emit_inv ctx cap b0 new b' \<and> b_current b' = [] \<and> b_used b' = 0)
           (finish_cell ctx cap b)"
proof -
  have "0 < cap" and ctx: "ctx_maximum_cells ctx \<le> u16_max" and cap: "cap \<le> MAX_CELL_BYTES"
    using assms(1) by (auto simp: emit_pre_def validate_record_def result_iff)
  show ?thesis
    by (rule or_limit_mono [OF finish_cell_spec [OF assms(2,5) ctx cap]])
      (use assms \<open>0 < cap\<close> in \<open>auto simp: emit_inv_def intro: same_records_trans\<close>)
qed

lemma emit_segment_spec:
  assumes pre: "emit_pre ctx cap r" and inv: "emit_inv ctx cap b0 new b" and off: "off < length (tr_data r)"
  shows "or_limit (\<lambda>(b', off'). off < off' \<and> off' \<le> length (tr_data r) \<and>
           emit_inv ctx cap b0 (new @ [record_piece r off off']) b') (emit_segment ctx cap r off b)"
proof -
  define fixed where "fixed = SEGMENT_HEADER_LEN + (if off = 0 then length (tr_metadata r) else 0)"
  have fixed: "fixed < cap"
    using pre by (auto simp: emit_pre_def validate_record_def result_iff fixed_def)
  have room: "or_limit (\<lambda>b'. emit_inv ctx cap b0 new b' \<and> length (b_current b') < MAX_SEGMENTS_PER_CELL)
      (if length (b_current b) = MAX_SEGMENTS_PER_CELL then finish_cell ctx cap b else Inr b)"
  proof (cases "length (b_current b) = MAX_SEGMENTS_PER_CELL")
    case True
    then have "b_current b \<noteq> []" by (auto simp: MAX_SEGMENTS_PER_CELL_def)
    then have "or_limit (\<lambda>b'. emit_inv ctx cap b0 new b' \<and> b_current b' = [] \<and> b_used b' = 0)
        (finish_cell ctx cap b)"
      using inv by (intro emit_inv_finish [OF pre]) (auto simp: emit_inv_def)
    with True show ?thesis
      by (auto elim!: or_limit_mono simp: MAX_SEGMENTS_PER_CELL_def)
  next
    case False
    with inv show ?thesis
      by (auto simp: emit_inv_def builder_ok_def segments_ok_def)
  qed
  have space: "or_limit (\<lambda>b'. emit_inv ctx cap b0 new b' \<and> length (b_current b') < MAX_SEGMENTS_PER_CELL \<and>
        fixed < cap - b_used b') (if cap - b_used b1 \<le> fixed then finish_cell ctx cap b1 else Inr b1)"
    if b1: "emit_inv ctx cap b0 new b1 \<and> length (b_current b1) < MAX_SEGMENTS_PER_CELL" for b1
  proof (cases "cap - b_used b1 \<le> fixed")
    case True
    then have "b_current b1 \<noteq> []" using b1 fixed by (auto simp: emit_inv_def builder_ok_def)
    then have "or_limit (\<lambda>b'. emit_inv ctx cap b0 new b' \<and> b_current b' = [] \<and> b_used b' = 0)
        (finish_cell ctx cap b1)"
      using b1 by (intro emit_inv_finish [OF pre]) (auto simp: emit_inv_def)
    with True fixed show ?thesis
      by (auto elim!: or_limit_mono simp: MAX_SEGMENTS_PER_CELL_def)
  next
    case False
    with b1 show ?thesis by auto
  qed
  have push: "or_limit (\<lambda>b'. emit_inv ctx cap b0 (new @ [record_piece r off (off + n)]) b')
      (if b_used b3 = cap then finish_cell ctx cap b3 else Inr b3)"
    if b2: "emit_inv ctx cap b0 new b2" "length (b_current b2) < MAX_SEGMENTS_PER_CELL"
      and n: "n = min (cap - b_used b2 - fixed) (length (tr_data r) - off)" "fixed < cap - b_used b2"
      and b3: "b3 = b2\<lparr> b_current := b_current b2 @ [record_piece r off (off + n)],
                 b_used := b_used b2 + (fixed + n) \<rparr>" for b2 n b3
  proof -
    have n': "0 < n" "off + n \<le> length (tr_data r)" "b_used b2 + fixed + n \<le> cap"
      using n off by auto
    have v: "validate_segment (record_piece r off (off + n)) = Inr ()"
      using pre n' by (intro record_piece_valid [of cap]) (auto simp: emit_pre_def)
    have l: "segments_len [record_piece r off (off + n)] = fixed + n"
      using n' by (simp add: record_piece_def fixed_def SEGMENT_HEADER_LEN_def)
    have "builder_ok ctx cap b3"
      using b2 v l n' unfolding b3 by (auto simp: emit_inv_def builder_ok_def segments_ok_def stats_ok_def)
    moreover have "emitted b3 = emitted b0 @ new @ [record_piece r off (off + n)]" "same_records b0 b3"
      using b2 by (auto simp: emit_inv_def b3 emitted_def same_records_def)
    moreover have "b_used b3 \<le> cap" "b_current b3 \<noteq> []" using n' b3 by simp_all
    ultimately show ?thesis
      using or_limit_mono [OF emit_inv_finish [OF pre, of b3 b0 "new @ [record_piece r off (off + n)]"]]
      by (cases "b_used b3 = cap") (simp_all add: emit_inv_def)
  qed
  show ?thesis
    unfolding emit_segment_def Let_def fixed_def [symmetric]
  proof (rule or_limit_bind [OF room], rule or_limit_bind [OF space], assumption, goal_cases)
    case (1 b1 b2)
    define n where "n = min (cap - b_used b2 - fixed) (length (tr_data r) - off)"
    have n: "0 < n" "off + n \<le> length (tr_data r)" using 1 off by (auto simp: n_def)
    have b2: "emit_inv ctx cap b0 new b2" "length (b_current b2) < MAX_SEGMENTS_PER_CELL"
      "fixed < cap - b_used b2" using 1 by blast+
    show ?case
      unfolding n_def [symmetric]
      by (simp only: n(1) ensure_simps,
          rule or_limit_bind [OF push [OF b2(1,2) n_def b2(3) refl]], simp add: n)
  qed
qed


lemma emit_segments_spec:
  assumes pre: "emit_pre ctx cap r" and inv: "emit_inv ctx cap b0 new b" and "off \<le> length (tr_data r)"
  shows "or_limit (\<lambda>(b', count'). \<exists>ps. tiles r off ps \<and> count' = count + length ps \<and>
           emit_inv ctx cap b0 (new @ ps) b') (emit_segments ctx cap r off count b)"
  using inv assms(3)
proof (induction "length (tr_data r) - off" arbitrary: off count b new rule: less_induct)
  case less
  show ?case
  proof (cases "off < length (tr_data r)")
    case False
    with less.prems show ?thesis
      by (subst emit_segments.simps) (auto intro: exI [of _ "[]"])
  next
    case True
    note step = emit_segment_spec [OF pre less.prems(1) True]
    have rest: "or_limit (\<lambda>(b2, count'). \<exists>ps. tiles r off ps \<and> count' = count + length ps \<and>
           emit_inv ctx cap b0 (new @ ps) b2) (emit_segments ctx cap r off' (Suc count) b')"
      if h: "off < off'" "off' \<le> length (tr_data r)"
        "emit_inv ctx cap b0 (new @ [record_piece r off off']) b'" for b' off'
    proof (rule or_limit_mono [OF less.hyps [OF _ h(3,2)]])
      show "length (tr_data r) - off' < length (tr_data r) - off" using h True by simp
    next
      fix x
      assume "case x of (b2, count') \<Rightarrow> \<exists>ps. tiles r off' ps \<and> count' = Suc count + length ps \<and>
        emit_inv ctx cap b0 ((new @ [record_piece r off off']) @ ps) b2"
      then obtain b2 ps where "x = (b2, Suc count + length ps)" "tiles r off' ps"
        "emit_inv ctx cap b0 (new @ record_piece r off off' # ps) b2" by auto
      with h show "case x of (b2, count') \<Rightarrow> \<exists>ps. tiles r off ps \<and> count' = count + length ps \<and>
        emit_inv ctx cap b0 (new @ ps) b2"
        by (auto simp: Let_def intro!: exI [of _ "record_piece r off off' # ps"])
    qed
    show ?thesis
      using True by (subst emit_segments.simps) (auto intro!: or_limit_bind [OF step] rest)
  qed
qed

lemma register_record_id_spec:
  assumes "b_first_record_id b = None \<longrightarrow> b_ids b = None"
  shows "rid \<in> seen_ids b \<Longrightarrow>
      register_record_id rid b = Inl (Err ''duplicate record id in V2 packet train'')"
    and "rid \<notin> seen_ids b \<Longrightarrow> \<exists>b'. register_record_id rid b = Inr b' \<and>
      seen_ids b' = insert rid (seen_ids b) \<and> b_first_record_id b' \<noteq> None \<and>
      b_cells b' = b_cells b \<and> b_current b' = b_current b \<and> b_used b' = b_used b \<and> b_stats b' = b_stats b"
  using assms
  by (cases "b_first_record_id b"; cases "b_ids b"; auto simp: register_record_id_def seen_ids_def Let_def)+

lemma tiles_data: "tiles r off ps \<Longrightarrow> concat (map seg_data ps) = drop off (tr_data r)"
proof (induction r off ps rule: tiles.induct)
  case (1 r off)
  then show ?case by simp
next
  case (2 r off s ss)
  then have "concat (map seg_data ss) = drop (off + length (seg_data s)) (tr_data r)"
    by (simp add: Let_def)
  moreover have "seg_data s = slice off (off + length (seg_data s)) (tr_data r)"
    using 2(2) by (metis record_piece_sel(7) tiles.simps(2))
  moreover have "drop off (tr_data r) = slice off (length (tr_data r)) (tr_data r)"
    by (simp add: slice_drop)
  ultimately show ?case
    using 2(2) slice_join [of off "off + length (seg_data s)" "length (tr_data r)" "tr_data r"]
    by (simp add: Let_def slice_drop)
qed

lemma tiles_len:
  "tiles r off ps \<Longrightarrow> off < length (tr_data r) \<Longrightarrow>
     segments_len ps = 16 * length ps + (if off = 0 then length (tr_metadata r) else 0) +
       (length (tr_data r) - off)"
proof (induction r off ps rule: tiles.induct)
  case (1 r off)
  then show ?case by simp
next
  case (2 r off s ss)
  let ?fin = "off + length (seg_data s)"
  have t: "tiles r ?fin ss" "off < ?fin" "?fin \<le> length (tr_data r)" "s = record_piece r off ?fin"
    using 2(2) by (simp_all add: Let_def)
  have md: "seg_metadata s = (if off = 0 then tr_metadata r else [])"
    by (subst t(4)) simp
  show ?case
  proof (cases "?fin < length (tr_data r)")
    case True
    then have "segments_len ss = 16 * length ss + (length (tr_data r) - ?fin)"
      using 2(1) t by (simp add: Let_def)
    with t(2,3) md show ?thesis by auto
  next
    case False
    then have "ss = []" using t by (cases ss) (auto simp: Let_def)
    with t(2,3) False md show ?thesis by auto
  qed
qed

definition train_inv :: "train_context \<Rightarrow> nat \<Rightarrow> train_record list \<Rightarrow> builder \<Rightarrow> bool" where
  "train_inv ctx cap rs b \<longleftrightarrow>
     builder_ok ctx cap b \<and> b_used b < cap \<and> seen_ids b = set (map tr_record_id rs) \<and>
     ts_records (b_stats b) = length rs \<and>
     ts_record_bytes (b_stats b) = sum_list (map (\<lambda>r. length (tr_data r)) rs) \<and>
     ts_metadata_bytes (b_stats b) = sum_list (map (\<lambda>r. length (tr_metadata r)) rs) \<and>
     (\<forall>r\<in>set rs. validate_record cap r = Inr ()) \<and>
     (\<exists>pss. list_all2 (\<lambda>r ps. tiles r 0 ps) rs pss \<and> emitted b = concat pss \<and>
        ts_split_records (b_stats b) = length (filter (\<lambda>ps. 1 < length ps) pss))"

lemma emitted_len:
  assumes "builder_ok ctx cap b" "ctx_maximum_cells ctx \<le> u16_max" "cap \<le> MAX_CELL_BYTES"
  shows "segments_len (emitted b) \<le> 4294901760"
proof -
  have c: "cells_ok ctx cap (b_cells b)" and u: "segments_len (b_current b) \<le> cap"
    using assms by (simp_all add: builder_ok_def segments_ok_def)
  have "length (b_cells b) * cap \<le> 65535 * 65535"
    using c assms by (intro mult_le_mono) (auto simp: cells_ok_def MAX_CELL_BYTES_def u16_max_def)
  with cells_ok_payload [OF c] u assms(3) show ?thesis
    by (simp add: emitted_def payload_total_def MAX_CELL_BYTES_def)
qed

lemma segments_len_concat_tiles:
  assumes "list_all2 (\<lambda>r ps. tiles r 0 ps) rs pss" "\<forall>r\<in>set rs. validate_record cap r = Inr ()"
  shows "segments_len (concat pss) = 16 * length (concat pss) +
    sum_list (map (\<lambda>r. length (tr_data r)) rs) + sum_list (map (\<lambda>r. length (tr_metadata r)) rs)"
  using assms
proof (induction rule: list_all2_induct)
  case Nil
  then show ?case by simp
next
  case (Cons r rs ps pss)
  then have "tr_data r \<noteq> []" by (simp add: validate_record_def result_iff)
  then have "segments_len ps = 16 * length ps + length (tr_metadata r) + length (tr_data r)"
    using tiles_len [OF Cons(1)] by simp
  with Cons show ?case by simp
qed

lemma add_record_spec:
  assumes inv: "train_inv ctx cap rs b" and pre: "emit_pre ctx cap r"
    and new: "tr_record_id r \<notin> set (map tr_record_id rs)"
  shows "or_limit (train_inv ctx cap (rs @ [r])) (add_record ctx cap r b)"
proof -
  have ok: "builder_ok ctx cap b" and v: "validate_record cap r = Inr ()"
    and small: "ctx_maximum_cells ctx \<le> u16_max" "cap \<le> MAX_CELL_BYTES"
    using inv pre by (simp_all add: train_inv_def emit_pre_def)
  obtain pss where pss: "list_all2 (\<lambda>r ps. tiles r 0 ps) rs pss" "emitted b = concat pss"
    "ts_split_records (b_stats b) = length (filter (\<lambda>ps. 1 < length ps) pss)"
    using inv by (auto simp: train_inv_def)
  have valid: "\<forall>r\<in>set rs. validate_record cap r = Inr ()" using inv by (simp add: train_inv_def)
  have "tr_record_id r \<notin> seen_ids b" and "b_first_record_id b = None \<longrightarrow> b_ids b = None"
    using new inv ok by (simp_all add: train_inv_def builder_ok_def)
  then obtain b1 where b1: "register_record_id (tr_record_id r) b = Inr b1"
    "seen_ids b1 = insert (tr_record_id r) (seen_ids b)" "b_first_record_id b1 \<noteq> None"
    "b_cells b1 = b_cells b" "b_current b1 = b_current b" "b_used b1 = b_used b" "b_stats b1 = b_stats b"
    using register_record_id_spec(2) [of b "tr_record_id r"] by metis
  define b2 where "b2 = count_record r b1"
  have sum: "ts_record_bytes (b_stats b) + ts_metadata_bytes (b_stats b) \<le> 4294901760"
    using segments_len_concat_tiles [OF pss(1) valid] emitted_len [OF ok small] pss(2) inv
    by (simp add: train_inv_def)
  have len: "length (tr_data r) \<le> 65535" "length (tr_metadata r) \<le> 256"
    using v by (simp_all add: validate_record_def result_iff MAX_RECORD_BYTES_def MAX_METADATA_BYTES_def)
  have b2: "builder_ok ctx cap b2" "b_used b2 < cap" "emitted b2 = emitted b"
    "ts_records (b_stats b2) = ts_records (b_stats b) + 1"
    "ts_record_bytes (b_stats b2) = ts_record_bytes (b_stats b) + length (tr_data r)"
    "ts_metadata_bytes (b_stats b2) = ts_metadata_bytes (b_stats b) + length (tr_metadata r)"
    "ts_split_records (b_stats b2) = ts_split_records (b_stats b)"
    using inv ok b1 sum len
    by (auto simp: b2_def count_record_def Let_def train_inv_def builder_ok_def stats_ok_def
        emitted_def sat_add_def usize_max_def)
  have seen: "seen_ids b2 = insert (tr_record_id r) (seen_ids b)"
    unfolding b1(2) [symmetric] by (rule seen_ids_cong) (simp_all add: b2_def count_record_def Let_def)
  have start: "emit_inv ctx cap b2 [] b2" using b2 by (simp add: emit_inv_def)
  have split: "train_inv ctx cap (rs @ [r]) (count_split (length ps) b3)"
    if "tiles r 0 ps" and "emit_inv ctx cap b2 ps b3" for ps b3
  proof -
    have "builder_ok ctx cap (count_split (length ps) b3)" "b_used (count_split (length ps) b3) < cap"
      using that by (auto simp: emit_inv_def count_split_def builder_ok_def stats_ok_def Let_def)
    moreover have "seen_ids (count_split (length ps) b3) = seen_ids b2"
      using that by (intro seen_ids_cong) (auto simp: emit_inv_def count_split_def same_records_def)
    moreover have "emitted (count_split (length ps) b3) = concat (pss @ [ps])"
      using that b2(3) pss by (auto simp: emit_inv_def count_split_def emitted_def)
    moreover have "list_all2 (\<lambda>r ps. tiles r 0 ps) (rs @ [r]) (pss @ [ps])"
      using pss that by (simp add: list_all2_appendI)
    moreover have "ts_split_records (b_stats (count_split (length ps) b3)) =
        length (filter (\<lambda>ps. 1 < length ps) (pss @ [ps]))"
      using that b2(7) pss(3) by (auto simp: emit_inv_def count_split_def same_records_def)
    moreover have "ts_records (b_stats (count_split (length ps) b3)) = ts_records (b_stats b2)"
      "ts_record_bytes (b_stats (count_split (length ps) b3)) = ts_record_bytes (b_stats b2)"
      "ts_metadata_bytes (b_stats (count_split (length ps) b3)) = ts_metadata_bytes (b_stats b2)"
      using that by (auto simp: emit_inv_def count_split_def same_records_def)
    ultimately show ?thesis
      using b2(4-6) seen inv v unfolding train_inv_def by (auto intro!: exI [of _ "pss @ [ps]"])
  qed
  have "or_limit (train_inv ctx cap (rs @ [r]))
      (bindR (emit_segments ctx cap r 0 0 b2) (\<lambda>(b3, n). Inr (count_split n b3)))"
    by (rule or_limit_bind [OF emit_segments_spec [OF pre start]]) (auto intro: split)
  with v b1(1) show ?thesis
    by (simp add: add_record_def b2_def)
qed

lemma add_records_spec:
  assumes "train_inv ctx cap pre b" "list_all (emit_pre ctx cap) rs"
    "distinct (map tr_record_id (pre @ rs))"
  shows "or_limit (train_inv ctx cap (pre @ rs)) (add_records ctx cap rs b)"
  using assms
proof (induction rs arbitrary: pre b)
  case Nil
  then show ?case by simp
next
  case (Cons r rs)
  have "or_limit (train_inv ctx cap (pre @ [r])) (add_record ctx cap r b)"
    using Cons.prems by (intro add_record_spec) auto
  moreover have "train_inv ctx cap (pre @ [r]) b' \<Longrightarrow>
      or_limit (train_inv ctx cap (pre @ r # rs)) (add_records ctx cap rs b')" for b'
    using Cons.IH [of "pre @ [r]" b'] Cons.prems by simp
  ultimately show ?case by (auto intro: or_limit_bind)
qed

lemma add_record_InrD:
  assumes inv: "train_inv ctx cap rs b" and r: "add_record ctx cap r b = Inr b'"
  shows "validate_record cap r = Inr () \<and> tr_record_id r \<notin> set (map tr_record_id rs)"
proof -
  have "\<exists>b1. register_record_id (tr_record_id r) b = Inr b1" and "validate_record cap r = Inr ()"
    using r by (auto simp: add_record_def result_iff)
  moreover have "seen_ids b = set (map tr_record_id rs)" "b_first_record_id b = None \<longrightarrow> b_ids b = None"
    using inv by (simp_all add: train_inv_def builder_ok_def)
  ultimately show ?thesis
    using register_record_id_spec(1) by fastforce
qed

lemma add_records_InrD:
  assumes "train_inv ctx cap pre b" "add_records ctx cap rs b = Inr b'"
    "ctx_maximum_cells ctx \<le> u16_max" "cap \<le> MAX_CELL_BYTES" "distinct (map tr_record_id pre)"
  shows "train_inv ctx cap (pre @ rs) b' \<and> distinct (map tr_record_id (pre @ rs))"
  using assms
proof (induction rs arbitrary: pre b)
  case Nil
  then show ?case by simp
next
  case (Cons r rs)
  from Cons.prems(2) obtain b1 where b1: "add_record ctx cap r b = Inr b1" "add_records ctx cap rs b1 = Inr b'"
    by (auto simp: result_iff)
  note v = add_record_InrD [OF Cons.prems(1) b1(1)]
  have "or_limit (train_inv ctx cap (pre @ [r])) (add_record ctx cap r b)"
    using Cons.prems v by (intro add_record_spec) (auto simp: emit_pre_def)
  with b1 v Cons.prems Cons.IH [of "pre @ [r]" b1] show ?case by simp
qed

lemma train_inv_init: "0 < cap \<Longrightarrow> train_inv ctx cap [] builder_init"
  by (simp add: train_inv_def builder_ok_def builder_init_def train_build_stats_default_def cells_ok_def
      segments_ok_def stats_ok_def payload_total_def seen_ids_def emitted_def)

lemma finish_last_spec:
  assumes inv: "train_inv ctx cap rs b" and ctx: "ctx_maximum_cells ctx \<le> u16_max" "cap \<le> MAX_CELL_BYTES"
  shows "or_limit (\<lambda>b'. train_inv ctx cap rs b' \<and> b_current b' = [])
           (if b_current b \<noteq> [] then finish_cell ctx cap b else Inr b)"
proof (cases "b_current b = []")
  case True
  with inv show ?thesis by simp
next
  case False
  have move: "train_inv ctx cap rs b'"
    if "builder_ok ctx cap b'" "b_used b' = 0" "emitted b' = emitted b" "same_records b b'" for b'
  proof -
    have "seen_ids b' = seen_ids b"
      using that by (intro seen_ids_cong) (simp_all add: same_records_def)
    with inv that show ?thesis by (auto simp: train_inv_def same_records_def)
  qed
  have "builder_ok ctx cap b" using inv by (simp add: train_inv_def)
  from finish_cell_spec [OF this False ctx] False move show ?thesis
    by (auto elim!: or_limit_mono)
qed

lemma validate_contextD:
  assumes "validate_context ctx = Inr u"
  shows "ctx_maximum_cells ctx \<le> u16_max" "ctx_maximum_datagram_size ctx - HEADER_LEN \<le> MAX_CELL_BYTES"
    "16 < ctx_maximum_datagram_size ctx - HEADER_LEN" "ctx_maximum_datagram_size ctx \<le> MAX_CELL_BYTES"
    "ctx_session_epoch ctx \<noteq> 0" "ctx_route_label ctx \<noteq> 0" "ctx_overlay_hop_limit ctx \<noteq> 0"
    "ctx_train_id ctx \<noteq> 0"
  using assms by (auto simp: validate_context_def result_iff HEADER_LEN_def SEGMENT_HEADER_LEN_def)

text \<open>What the builder leaves behind when it succeeds, and that it can only meet the cell limit.\<close>

lemma build_packet_train_InrD:
  assumes "build_packet_train ctx rs = Inr pt"
  obtains b where "validate_context ctx = Inr ()"
    "train_inv ctx (ctx_maximum_datagram_size ctx - HEADER_LEN) rs b" "b_current b = []" "b_cells b \<noteq> []"
    "distinct (map tr_record_id rs)" "rs \<noteq> []"
    "pt = \<lparr> pt_cells = mark_end (mark_start (b_cells b)), pt_stats = b_stats b \<rparr>"
proof -
  let ?cap = "ctx_maximum_datagram_size ctx - HEADER_LEN"
  from assms obtain b0 b where v: "validate_context ctx = Inr ()" and "rs \<noteq> []"
    and b0: "add_records ctx ?cap rs builder_init = Inr b0"
    and b: "(if b_current b0 \<noteq> [] then finish_cell ctx ?cap b0 else Inr b0) = Inr b"
    and pt: "b_cells b \<noteq> []" "pt = \<lparr> pt_cells = mark_end (mark_start (b_cells b)), pt_stats = b_stats b \<rparr>"
    by (auto simp: build_packet_train_def Let_def result_iff)
  note v' = validate_contextD [OF v]
  have "train_inv ctx ?cap [] builder_init" using v'(3) by (intro train_inv_init) simp
  from add_records_InrD [OF this b0 v'(1,2)] have inv: "train_inv ctx ?cap rs b0" "distinct (map tr_record_id rs)"
    by simp_all
  from finish_last_spec [OF inv(1) v'(1,2)] b have "train_inv ctx ?cap rs b" "b_current b = []"
    by (simp_all split: if_splits)
  with v inv pt \<open>rs \<noteq> []\<close> show ?thesis by (intro that)
qed

lemma build_packet_train_or_limit:
  assumes v: "validate_context ctx = Inr ()" and ne: "rs \<noteq> []"
    and rs: "\<forall>r\<in>set rs. validate_record (ctx_maximum_datagram_size ctx - HEADER_LEN) r = Inr ()"
    and d: "distinct (map tr_record_id rs)"
  shows "or_limit (\<lambda>_. True) (build_packet_train ctx rs)"
proof -
  let ?cap = "ctx_maximum_datagram_size ctx - HEADER_LEN"
  note v' = validate_contextD [OF v]
  have init: "train_inv ctx ?cap [] builder_init" using v'(3) by (intro train_inv_init) simp
  have "or_limit (train_inv ctx ?cap rs) (add_records ctx ?cap rs builder_init)"
    using add_records_spec [OF init, of rs] rs d v' by (simp add: list_all_iff emit_pre_def)
  moreover have "b_cells b \<noteq> []" if b: "train_inv ctx ?cap rs b" "b_current b = []" for b
  proof
    assume "b_cells b = []"
    then have e: "emitted b = []" using b by (simp add: emitted_def)
    obtain pss where pss: "list_all2 (\<lambda>r ps. tiles r 0 ps) rs pss" "emitted b = concat pss"
      using b by (auto simp: train_inv_def)
    obtain r rs' where "rs = r # rs'" using ne by (cases rs) auto
    with pss e rs show False
      by (auto simp: list_all2_Cons1 validate_record_def result_iff)
  qed
  ultimately show ?thesis
    using ne v
    by (auto simp: build_packet_train_def Let_def
        intro!: or_limit_bind [of "train_inv ctx ?cap rs"]
          or_limit_bind [OF finish_last_spec [OF _ v'(1,2)], of rs])
qed

lemma mark_nth:
  assumes "i < length cells"
  shows "mark_end (mark_start cells) ! i =
     (cells ! i)\<lparr> cell_flags := cell_flags (cells ! i) OR (if i = 0 then FLAG_TRAIN_START else 0)
                                OR (if Suc i = length cells then FLAG_TRAIN_END else 0) \<rparr>"
  using assms by (auto simp: mark_end_def mark_start_def Let_def nth_list_update or.assoc)

lemma mark_length [simp]: "length (mark_end (mark_start cells)) = length cells"
  by (simp add: mark_end_def mark_start_def Let_def)

lemma mark_segments [simp]: "train_segments (mark_end (mark_start cells)) = train_segments cells"
proof -
  have "map cell_segments (mark_end (mark_start cells)) = map cell_segments cells"
    by (rule nth_equalityI) (simp_all add: mark_nth cell_segments_def)
  then show ?thesis by (simp add: train_segments_def)
qed

lemma tiles_record_id: "tiles r off ps \<Longrightarrow> s \<in> set ps \<Longrightarrow> seg_record_id s = tr_record_id r"
  by (induction r off ps rule: tiles.induct) (auto simp: Let_def, metis record_piece_sel(3))

lemma tiles_metadata:
  "tiles r off ps \<Longrightarrow> off < length (tr_data r) \<Longrightarrow>
     concat (map seg_metadata ps) = (if off = 0 then tr_metadata r else [])"
proof (induction r off ps rule: tiles.induct)
  case (1 r off)
  then show ?case by simp
next
  case (2 r off s ss)
  let ?fin = "off + length (seg_data s)"
  have t: "tiles r ?fin ss" "off < ?fin" "?fin \<le> length (tr_data r)" "s = record_piece r off ?fin"
    using 2(2) by (simp_all add: Let_def)
  have md: "seg_metadata s = (if off = 0 then tr_metadata r else [])"
    by (subst t(4)) simp
  show ?case
  proof (cases "?fin < length (tr_data r)")
    case True
    with 2(1) t have "concat (map seg_metadata ss) = []" by (simp add: Let_def)
    then show ?thesis using md by simp
  next
    case False
    then have "ss = []" using t by (cases ss) (auto simp: Let_def)
    with md show ?thesis by simp
  qed
qed

definition record_segments :: "u16 \<Rightarrow> record_segment list \<Rightarrow> record_segment list" where
  "record_segments rid ss = filter (\<lambda>s. seg_record_id s = rid) ss"

lemma tiles_record_ids:
  "list_all2 (\<lambda>r ps. tiles r 0 ps) rs pss \<Longrightarrow> s \<in> set (concat pss) \<Longrightarrow>
     seg_record_id s \<in> tr_record_id ` set rs"
  by (induction rule: list_all2_induct) (auto dest: tiles_record_id)

lemma record_segments_concat:
  "list_all2 (\<lambda>r ps. tiles r 0 ps) rs pss \<Longrightarrow> distinct (map tr_record_id rs) \<Longrightarrow>
     map (\<lambda>r. record_segments (tr_record_id r) (concat pss)) rs = pss"
proof (induction rule: list_all2_induct)
  case Nil
  then show ?case by simp
next
  case (Cons r rs ps pss)
  have other: "record_segments (tr_record_id r) (concat pss) = []"
    unfolding record_segments_def filter_empty_conv
  proof
    fix s
    assume "s \<in> set (concat pss)"
    from tiles_record_ids [OF Cons(2) this] Cons.prems show "seg_record_id s \<noteq> tr_record_id r" by auto
  qed
  have own: "record_segments rid ps = (if rid = tr_record_id r then ps else [])" for rid
    using tiles_record_id [OF Cons(1)] by (auto simp: record_segments_def filter_id_conv filter_empty_conv)
  have app: "record_segments rid (concat (ps # pss)) = record_segments rid ps @ record_segments rid (concat pss)"
    for rid by (simp add: record_segments_def)
  have neq: "tr_record_id q \<noteq> tr_record_id r" if "q \<in> set rs" for q
    using imageI [OF that, of tr_record_id] Cons.prems by auto
  have "map (\<lambda>q. record_segments (tr_record_id q) (concat (ps # pss))) rs =
      map (\<lambda>q. record_segments (tr_record_id q) (concat pss)) rs"
    by (intro map_cong) (auto simp: app own neq simp del: concat.simps)
  with Cons own [of "tr_record_id r"] other show ?case by (simp add: app del: concat.simps)
qed

lemma record_segments_tiles:
  assumes "list_all2 (\<lambda>r ps. tiles r 0 ps) rs pss" "distinct (map tr_record_id rs)" "r \<in> set rs"
  shows "tiles r 0 (record_segments (tr_record_id r) (concat pss))"
proof -
  obtain i where i: "i < length rs" "rs ! i = r" using assms(3) by (auto simp: in_set_conv_nth)
  have "pss ! i = record_segments (tr_record_id r) (concat pss)"
    using i record_segments_concat [OF assms(1,2)] by (metis nth_map)
  with assms(1) i show ?thesis by (auto dest: list_all2_nthD)
qed

lemma data_cell_encodes:
  assumes ctx: "validate_context ctx = Inr ()" and ss: "ss \<noteq> []" "segments_ok cap ss"
    and cap: "cap = ctx_maximum_datagram_size ctx - HEADER_LEN" and f: "f AND NOT KNOWN_FLAGS = 0"
  shows "encode_into (ctx_maximum_datagram_size ctx) ((data_cell ctx i ss)\<lparr> cell_flags := f \<rparr>) =
      Inr (encode_header f (header_of ((data_cell ctx i ss)\<lparr> cell_flags := f \<rparr>)) @ encode_body (Records ss))"
proof -
  note v = validate_contextD [OF ctx]
  have "validate_cell ((data_cell ctx i ss)\<lparr> cell_flags := f \<rparr>) = Inr ()"
    using v ss f unat_u8_le [of "ctx_overlay_hop_limit ctx"]
    by (auto simp: validate_cell_def validate_cell_header_def data_cell_def result_iff segments_ok_def list_all_iff)
  moreover have "36 + length (encode_body (Records ss)) \<le> ctx_maximum_datagram_size ctx"
    using ss cap v(3) by (auto simp: segments_ok_def segments_len_def HEADER_LEN_def)
  ultimately show ?thesis
    using v(4) by (simp add: encode_into_Inr_iff data_cell_def)
qed

text \<open>The Cells of a built train.\<close>

lemma built_cells:
  assumes "build_packet_train ctx rs = Inr pt"
  shows "validate_context ctx = Inr ()" "pt_cells pt \<noteq> []" "length (pt_cells pt) \<le> ctx_maximum_cells ctx"
    "i < length (pt_cells pt) \<Longrightarrow> \<exists>ss f. pt_cells pt ! i = (data_cell ctx i ss)\<lparr> cell_flags := f \<rparr> \<and>
       f = (if i = 0 then FLAG_TRAIN_START else 0) OR (if Suc i = length (pt_cells pt) then FLAG_TRAIN_END else 0) \<and>
       f AND NOT KNOWN_FLAGS = 0 \<and> ss \<noteq> [] \<and> segments_ok (ctx_maximum_datagram_size ctx - HEADER_LEN) ss"
proof -
  let ?cap = "ctx_maximum_datagram_size ctx - HEADER_LEN"
  obtain b where ctx: "validate_context ctx = Inr ()" and inv: "train_inv ctx ?cap rs b"
    and b: "b_cells b \<noteq> []"
    and pt: "pt = \<lparr> pt_cells = mark_end (mark_start (b_cells b)), pt_stats = b_stats b \<rparr>"
    using assms by (rule build_packet_train_InrD)
  have cells: "cells_ok ctx ?cap (b_cells b)" using inv by (simp add: train_inv_def builder_ok_def)
  show "validate_context ctx = Inr ()" by (rule ctx)
  have "length (pt_cells pt) = length (b_cells b)" by (simp add: pt)
  with b show "pt_cells pt \<noteq> []" by auto
  show "length (pt_cells pt) \<le> ctx_maximum_cells ctx" using cells by (simp add: pt cells_ok_def)
  define f where "f = (if i = 0 then FLAG_TRAIN_START else 0) OR
    (if Suc i = length (b_cells b) then FLAG_TRAIN_END else 0)"
  assume "i < length (pt_cells pt)"
  then have i: "i < length (b_cells b)" by (simp add: pt)
  obtain ss where ss: "b_cells b ! i = data_cell ctx i ss" "ss \<noteq> []" "segments_ok ?cap ss"
    using cells i by (auto simp: cells_ok_def)
  have "f AND NOT KNOWN_FLAGS = 0"
    by (simp add: f_def KNOWN_FLAGS_def FLAG_TRAIN_START_def FLAG_TRAIN_END_def)
  moreover have "pt_cells pt ! i = (data_cell ctx i ss)\<lparr> cell_flags := f \<rparr>"
    using i ss(1) by (simp add: pt mark_nth f_def data_cell_def)
  ultimately show "\<exists>ss f. pt_cells pt ! i = (data_cell ctx i ss)\<lparr> cell_flags := f \<rparr> \<and>
       f = (if i = 0 then FLAG_TRAIN_START else 0) OR (if Suc i = length (pt_cells pt) then FLAG_TRAIN_END else 0) \<and>
       f AND NOT KNOWN_FLAGS = 0 \<and> ss \<noteq> [] \<and> segments_ok ?cap ss"
    using ss by (auto simp: pt f_def)
qed

text \<open>The segments of a built train, record by record.\<close>

lemma built_segments:
  assumes "build_packet_train ctx rs = Inr pt"
  obtains pss where "list_all2 (\<lambda>r ps. tiles r 0 ps) rs pss" "train_segments (pt_cells pt) = concat pss"
    "distinct (map tr_record_id rs)"
    "\<forall>r\<in>set rs. validate_record (ctx_maximum_datagram_size ctx - HEADER_LEN) r = Inr ()"
proof -
  obtain b where inv: "train_inv ctx (ctx_maximum_datagram_size ctx - HEADER_LEN) rs b" and b: "b_current b = []"
    and d: "distinct (map tr_record_id rs)"
    and pt: "pt = \<lparr> pt_cells = mark_end (mark_start (b_cells b)), pt_stats = b_stats b \<rparr>"
    using assms by (rule build_packet_train_InrD)
  obtain pss where "list_all2 (\<lambda>r ps. tiles r 0 ps) rs pss" "emitted b = concat pss"
    using inv by (auto simp: train_inv_def)
  with b d inv show ?thesis by (intro that) (simp_all add: pt emitted_def train_inv_def)
qed

section \<open>Properties\<close>

text \<open>A train of two records in 80-byte datagrams: the first is split over two Cells, the second
  shares the second Cell with its tail.\<close>

definition demo_context :: train_context where
  "demo_context = \<lparr> ctx_class = Bulk, ctx_session_epoch = 7, ctx_route_label = 9, ctx_overlay_hop_limit = 4,
     ctx_train_id = 5, ctx_maximum_datagram_size = 80, ctx_maximum_cells = 8 \<rparr>"

definition demo_records :: "train_record list" where
  "demo_records = [\<lparr> tr_record_id = 1, tr_metadata = [170], tr_data = replicate 30 5 \<rparr>,
     \<lparr> tr_record_id = 2, tr_metadata = [], tr_data = [1, 2, 3] \<rparr>]"

definition demo_train_cells :: "cell_v2 list" where
  "demo_train_cells =
     [(data_cell demo_context 0 [record_piece (demo_records ! 0) 0 27])\<lparr> cell_flags := 1 \<rparr>,
      (data_cell demo_context 1 [record_piece (demo_records ! 0) 27 30, record_piece (demo_records ! 1) 0 3])
        \<lparr> cell_flags := 2 \<rparr>]"

lemma demo_train:
  "\<exists>st. build_packet_train demo_context demo_records = Inr \<lparr> pt_cells = demo_train_cells, pt_stats = st \<rparr>"
  by (simp add: build_packet_train_def demo_context_def demo_records_def demo_train_cells_def
      validate_context_def validate_record_def add_record_def register_record_id_def count_record_def
      count_split_def emit_segments.simps emit_segment_def finish_cell_def builder_init_def
      train_build_stats_default_def mark_start_def mark_end_def cell_consts u16_max_def data_cell_def
      FLAG_TRAIN_START_def FLAG_TRAIN_END_def Let_def numeral_3_eq_3)


text \<open>C8. Every Cell of a built train encodes within the negotiated datagram size; the Cells are
  numbered from zero in order, at most \<open>maximum_cells\<close> of them, all with the addressing of the
  context, and exactly the first and the last carry the boundary flags.\<close>

theorem packet_train_cells:
  assumes "build_packet_train ctx rs = Inr pt"
  shows "pt_cells pt \<noteq> [] \<and> length (pt_cells pt) \<le> ctx_maximum_cells ctx \<and>
    (\<forall>i<length (pt_cells pt). let c = pt_cells pt ! i in
       is_ok (encode_into (ctx_maximum_datagram_size ctx) c) \<and> kind_of c = Data \<and>
       unat (cell_sequence c) = i \<and> cell_train_id c = ctx_train_id ctx \<and>
       cell_session_epoch c = ctx_session_epoch ctx \<and> cell_route_label c = ctx_route_label ctx \<and>
       cell_class c = ctx_class ctx \<and> cell_overlay_hop_limit c = ctx_overlay_hop_limit ctx \<and>
       cell_flags c = (if i = 0 then FLAG_TRAIN_START else 0) OR
                      (if Suc i = length (pt_cells pt) then FLAG_TRAIN_END else 0))"
proof -
  note b = built_cells [OF assms]
  have each: "let c = pt_cells pt ! i in
       is_ok (encode_into (ctx_maximum_datagram_size ctx) c) \<and> kind_of c = Data \<and>
       unat (cell_sequence c) = i \<and> cell_train_id c = ctx_train_id ctx \<and>
       cell_session_epoch c = ctx_session_epoch ctx \<and> cell_route_label c = ctx_route_label ctx \<and>
       cell_class c = ctx_class ctx \<and> cell_overlay_hop_limit c = ctx_overlay_hop_limit ctx \<and>
       cell_flags c = (if i = 0 then FLAG_TRAIN_START else 0) OR
                      (if Suc i = length (pt_cells pt) then FLAG_TRAIN_END else 0)"
    if i: "i < length (pt_cells pt)" for i
  proof -
    obtain ss f where c: "pt_cells pt ! i = (data_cell ctx i ss)\<lparr> cell_flags := f \<rparr>"
      and f: "f = (if i = 0 then FLAG_TRAIN_START else 0) OR (if Suc i = length (pt_cells pt) then FLAG_TRAIN_END else 0)"
        "f AND NOT KNOWN_FLAGS = 0"
      and ss: "ss \<noteq> []" "segments_ok (ctx_maximum_datagram_size ctx - HEADER_LEN) ss"
      using b(4) [OF i] by blast
    have "i \<le> u16_max" using i b(3) validate_contextD(1) [OF b(1)] by simp
    then show ?thesis
      unfolding c Let_def data_cell_encodes [OF b(1) ss refl f(2)]
      by (simp add: f(1) data_cell_def kind_of_def unat_u16_of_nat)
  qed
  show ?thesis using b(2,3) each by blast
qed

theorem packet_train_cells_witness:
  "length demo_train_cells \<le> 8 \<and> is_ok (encode_into 80 (demo_train_cells ! 1)) \<and>
   cell_flags (demo_train_cells ! 1) = FLAG_TRAIN_END"
proof -
  obtain st where "build_packet_train demo_context demo_records = Inr \<lparr> pt_cells = demo_train_cells, pt_stats = st \<rparr>"
    using demo_train by blast
  from packet_train_cells [OF this] show ?thesis
    by (auto simp: demo_train_cells_def demo_context_def Let_def FLAG_TRAIN_END_def)
qed

text \<open>C9. Nothing is lost, added or reordered: for every record, the segments of the train that
  carry its id, in Cell order, tile it from offset zero to its end; their payloads concatenate to the
  record's data and the metadata travels exactly once. Success implies the ids are distinct, and the
  segments of the train are those of the records in order.\<close>

theorem packet_train_content:
  assumes "build_packet_train ctx rs = Inr pt"
  shows "distinct (map tr_record_id rs) \<and>
    (\<forall>r\<in>set rs. let ss = record_segments (tr_record_id r) (train_segments (pt_cells pt)) in
       tiles r 0 ss \<and> concat (map seg_data ss) = tr_data r \<and> concat (map seg_metadata ss) = tr_metadata r) \<and>
    concat (map seg_data (train_segments (pt_cells pt))) = concat (map tr_data rs)"
proof -
  obtain pss where pss: "list_all2 (\<lambda>r ps. tiles r 0 ps) rs pss"
    and segs: "train_segments (pt_cells pt) = concat pss" and d: "distinct (map tr_record_id rs)"
    and valid: "\<forall>r\<in>set rs. validate_record (ctx_maximum_datagram_size ctx - HEADER_LEN) r = Inr ()"
    using assms by (rule built_segments)
  have "tiles r 0 (record_segments (tr_record_id r) (concat pss)) \<and>
      concat (map seg_data (record_segments (tr_record_id r) (concat pss))) = tr_data r \<and>
      concat (map seg_metadata (record_segments (tr_record_id r) (concat pss))) = tr_metadata r"
    if r: "r \<in> set rs" for r
  proof -
    have "tr_data r \<noteq> []"
      using valid r by (auto simp: validate_record_def result_iff)
    moreover note t = record_segments_tiles [OF pss d r]
    ultimately show ?thesis
      using t tiles_data [OF t] tiles_metadata [OF t] by simp
  qed
  moreover have "concat (map seg_data (concat pss)) = concat (map tr_data rs)"
    using pss by (induction rule: list_all2_induct) (auto simp: tiles_data)
  ultimately show ?thesis
    using d by (simp add: segs Let_def)
qed

theorem packet_train_content_witness:
  "let ss = record_segments 1 (train_segments demo_train_cells) in
     length ss = 2 \<and> concat (map seg_data ss) = replicate 30 5 \<and> concat (map seg_metadata ss) = [170]"
proof -
  obtain st where "build_packet_train demo_context demo_records = Inr \<lparr> pt_cells = demo_train_cells, pt_stats = st \<rparr>"
    using demo_train by blast
  from packet_train_content [OF this] have "let ss = record_segments 1 (train_segments demo_train_cells) in
     concat (map seg_data ss) = replicate 30 5 \<and> concat (map seg_metadata ss) = [170]"
    by (simp add: demo_records_def Let_def)
  moreover have "length (record_segments 1 (train_segments demo_train_cells)) = 2"
    by (simp add: record_segments_def demo_train_cells_def cell_segments_def data_cell_def demo_records_def)
  ultimately show ?thesis by (simp add: Let_def)
qed


text \<open>C10. The builder accepts exactly the well-formed input that fits the cell limit: on a valid
  context and a non-empty list of valid records with distinct ids it either builds the train or
  reports the cell limit (the overflow, empty-cell and no-progress errors are unreachable), and on any
  other input it fails.\<close>

theorem packet_train_total:
  "let ok = (validate_context ctx = Inr () \<and> rs \<noteq> [] \<and> distinct (map tr_record_id rs) \<and>
      list_all (\<lambda>r. validate_record (ctx_maximum_datagram_size ctx - HEADER_LEN) r = Inr ()) rs) in
   if ok then is_ok (build_packet_train ctx rs) \<or>
              build_packet_train ctx rs = Inl (Err ''V2 packet train exceeds negotiated cell limit'')
   else \<not> is_ok (build_packet_train ctx rs)"
proof -
  define ok where "ok \<longleftrightarrow> validate_context ctx = Inr () \<and> rs \<noteq> [] \<and> distinct (map tr_record_id rs) \<and>
      list_all (\<lambda>r. validate_record (ctx_maximum_datagram_size ctx - HEADER_LEN) r = Inr ()) rs"
  have "or_limit (\<lambda>_. True) (build_packet_train ctx rs)" if ok
    using that by (intro build_packet_train_or_limit) (auto simp: ok_def list_all_iff)
  moreover have ok if "build_packet_train ctx rs = Inr pt" for pt
    using that by (rule build_packet_train_InrD) (auto simp: ok_def train_inv_def list_all_iff)
  ultimately show ?thesis
    unfolding ok_def [symmetric] Let_def
    by (cases "build_packet_train ctx rs") (auto simp: or_limit_def cell_limit_error_def)
qed

text \<open>The statistics of a built train are exact (no saturating addition ever saturates): Cells,
  wire bytes, payload bytes and unused capacity, and the number of records that were split.\<close>

lemma packet_train_stats:
  assumes "build_packet_train ctx rs = Inr pt"
  shows "let st = pt_stats pt; cells = pt_cells pt; cap = ctx_maximum_datagram_size ctx - HEADER_LEN in
    ts_records st = length rs \<and> ts_cells st = length cells \<and>
    ts_record_bytes st = sum_list (map (\<lambda>r. length (tr_data r)) rs) \<and>
    ts_metadata_bytes st = sum_list (map (\<lambda>r. length (tr_metadata r)) rs) \<and>
    ts_cell_wire_bytes st = sum_list (map (\<lambda>c. HEADER_LEN + length (encode_body (cell_body c))) cells) \<and>
    ts_cell_payload_bytes st + ts_unused_payload_capacity st = length cells * cap \<and>
    ts_cell_payload_bytes st = SEGMENT_HEADER_LEN * length (train_segments cells) +
      ts_record_bytes st + ts_metadata_bytes st \<and>
    ts_split_records st = length (filter (\<lambda>r.
      1 < length (record_segments (tr_record_id r) (train_segments cells))) rs)"
proof -
  let ?cap = "ctx_maximum_datagram_size ctx - HEADER_LEN"
  obtain b where inv: "train_inv ctx ?cap rs b" and b: "b_current b = []"
    and d: "distinct (map tr_record_id rs)"
    and pt: "pt = \<lparr> pt_cells = mark_end (mark_start (b_cells b)), pt_stats = b_stats b \<rparr>"
    using assms by (rule build_packet_train_InrD)
  obtain pss where pss: "list_all2 (\<lambda>r ps. tiles r 0 ps) rs pss" "emitted b = concat pss"
    "ts_split_records (b_stats b) = length (filter (\<lambda>ps. 1 < length ps) pss)"
    using inv by (auto simp: train_inv_def)
  have segs: "train_segments (b_cells b) = concat pss" using pss(2) b by (simp add: emitted_def)
  have valid: "\<forall>r\<in>set rs. validate_record ?cap r = Inr ()" using inv by (simp add: train_inv_def)
  have st: "stats_ok ?cap b" and cells: "cells_ok ctx ?cap (b_cells b)"
    using inv by (simp_all add: train_inv_def builder_ok_def)
  have body: "length (encode_body (cell_body (mark_end (mark_start (b_cells b)) ! i))) =
      segments_len (cell_segments (b_cells b ! i))" if "i < length (b_cells b)" for i
    using cells that by (auto simp: cells_ok_def mark_nth data_cell_def cell_segments_def segments_len_def)
  have "map (\<lambda>c. HEADER_LEN + length (encode_body (cell_body c))) (mark_end (mark_start (b_cells b))) =
      map (\<lambda>c. HEADER_LEN + segments_len (cell_segments c)) (b_cells b)"
    by (rule nth_equalityI) (simp_all add: body)
  moreover have "sum_list (map (\<lambda>c. HEADER_LEN + segments_len (cell_segments c)) cs) =
      length cs * HEADER_LEN + payload_total cs" for cs
    by (induction cs) (simp_all add: payload_total_def)
  moreover have "length (filter (\<lambda>r. 1 < length (record_segments (tr_record_id r) (concat pss))) rs) =
      length (filter (\<lambda>ps. 1 < length ps) pss)"
  proof -
    have "filter (\<lambda>ps. 1 < length ps) pss =
        filter (\<lambda>ps. 1 < length ps) (map (\<lambda>r. record_segments (tr_record_id r) (concat pss)) rs)"
      by (simp only: record_segments_concat [OF pss(1) d])
    then show ?thesis by (simp add: filter_map comp_def)
  qed
  ultimately show ?thesis
    using st inv pss(3) segments_len_concat_tiles [OF pss(1) valid]
    by (simp add: pt Let_def train_inv_def stats_ok_def segs payload_total_def SEGMENT_HEADER_LEN_def)
qed

lemma packet_train_stats_witness:
  "\<exists>pt. build_packet_train demo_context demo_records = Inr pt \<and> pt_cells pt = demo_train_cells \<and>
     ts_split_records (pt_stats pt) = 1 \<and> ts_record_bytes (pt_stats pt) = 33 \<and>
     ts_cell_wire_bytes (pt_stats pt) = 154"
proof -
  obtain st where t: "build_packet_train demo_context demo_records = Inr \<lparr> pt_cells = demo_train_cells, pt_stats = st \<rparr>"
    using demo_train by blast
  from packet_train_stats [OF t] t show ?thesis
    by (simp add: demo_records_def demo_train_cells_def Let_def data_cell_def record_segments_def
        train_segments_def cell_segments_def HEADER_LEN_def)
qed

end
