(* ===== verification/Vec.thy ===== *)
theory Vec
  imports Prelude
begin

text \<open>
  Sorted vectors as the sources use them: \<open>slice::binary_search\<close>, \<open>binary_search_by_key\<close> and
  \<open>partition_point\<close> with \<open>Vec::insert\<close> and \<open>Vec::remove\<close> at the index they return. On a sorted
  vector without repetitions the search returns the only index there is, so it is modelled by
  the partition point. A vector of key/value pairs sorted by key implements a finite map.
\<close>

section \<open>Searching, inserting and removing\<close>

definition partition_point :: "('a \<Rightarrow> bool) \<Rightarrow> 'a list \<Rightarrow> nat" where
  "partition_point P xs = length (takeWhile P xs)"

text \<open>\<open>Inr i\<close>: found at \<open>i\<close>; \<open>Inl i\<close>: absent, to be inserted at \<open>i\<close>.\<close>

definition binary_search :: "'k::linorder list \<Rightarrow> 'k \<Rightarrow> nat + nat" where
  "binary_search ks k =
     (let i = partition_point (\<lambda>x. x < k) ks in if i < length ks \<and> ks ! i = k then Inr i else Inl i)"

definition binary_search_by_key :: "('k::linorder \<times> 'v) list \<Rightarrow> 'k \<Rightarrow> nat + nat" where
  "binary_search_by_key xs k = binary_search (map fst xs) k"

definition insert_at :: "nat \<Rightarrow> 'a \<Rightarrow> 'a list \<Rightarrow> 'a list" where
  "insert_at i x xs = take i xs @ x # drop i xs"

definition remove_at :: "nat \<Rightarrow> 'a list \<Rightarrow> 'a list" where
  "remove_at i xs = take i xs @ drop (Suc i) xs"

abbreviation strictly_sorted :: "'k::linorder list \<Rightarrow> bool" where
  "strictly_sorted \<equiv> sorted_wrt (<)"

lemma partition_point_le: "partition_point P xs \<le> length xs"
  by (simp add: partition_point_def length_takeWhile_le)

lemma partition_point_below: "j < partition_point P xs \<Longrightarrow> P (xs ! j)"
  using nth_mem [of j "takeWhile P xs"]
  by (auto simp: partition_point_def takeWhile_nth dest: set_takeWhileD)

lemma partition_point_at: "partition_point P xs < length xs \<Longrightarrow> \<not> P (xs ! partition_point P xs)"
  by (simp add: partition_point_def nth_length_takeWhile)

lemma partition_point_above:
  assumes "strictly_sorted ks" "partition_point (\<lambda>x. x < k) ks \<le> j" "j < length ks"
  shows "k \<le> ks ! j"
proof -
  let ?i = "partition_point (\<lambda>x. x < k) ks"
  have "k \<le> ks ! ?i" using partition_point_at [of "\<lambda>x. x < k" ks] assms by (simp add: not_less)
  also have "ks ! ?i \<le> ks ! j"
    using assms sorted_wrt_nth_less [OF assms(1), of ?i j] by (cases "?i = j") auto
  finally show ?thesis .
qed

lemma binary_search_Inr: "binary_search ks k = Inr i \<Longrightarrow> i < length ks \<and> ks ! i = k"
  by (auto simp: binary_search_def Let_def split: if_splits)

lemma binary_search_Inl:
  assumes "binary_search ks k = Inl i"
  shows "i = partition_point (\<lambda>x. x < k) ks" "i \<le> length ks" "i < length ks \<longrightarrow> ks ! i \<noteq> k"
  using assms partition_point_le by (auto simp: binary_search_def Let_def split: if_splits)

lemma binary_search_absent:
  assumes "strictly_sorted ks" "binary_search ks k = Inl i" "i \<le> j" "j < length ks"
  shows "k < ks ! j"
proof -
  have i: "i = partition_point (\<lambda>x. x < k) ks" "ks ! i \<noteq> k"
    using binary_search_Inl [OF assms(2)] assms by simp_all
  have "k < ks ! i"
    using partition_point_above [of ks k i] assms i by simp
  also have "ks ! i \<le> ks ! j"
    using assms sorted_wrt_nth_less [OF assms(1), of i j] by (cases "i = j") auto
  finally show ?thesis .
qed

lemma binary_search_Inl_notin:
  assumes "strictly_sorted ks" "binary_search ks k = Inl i"
  shows "k \<notin> set ks"
proof
  assume "k \<in> set ks"
  then obtain j where j: "j < length ks" "ks ! j = k" by (auto simp: in_set_conv_nth)
  show False
  proof (cases "i \<le> j")
    case True
    with binary_search_absent [OF assms True] j show False by simp
  next
    case False
    with binary_search_Inl(1) [OF assms(2)] partition_point_below [of j "\<lambda>x. x < k" ks] j show False by simp
  qed
qed

lemma binary_search_Inr_iff:
  "strictly_sorted ks \<Longrightarrow> (\<exists>i. binary_search ks k = Inr i) \<longleftrightarrow> k \<in> set ks"
  by (cases "binary_search ks k") (auto dest: binary_search_Inl_notin binary_search_Inr)

section \<open>Sorted vectors\<close>

lemma set_insert_at [simp]: "set (insert_at i x xs) = insert x (set xs)"
proof -
  have "set xs = set (take i xs) \<union> set (drop i xs)"
    by (metis append_take_drop_id set_append)
  then show ?thesis by (auto simp: insert_at_def)
qed

lemma length_insert_at [simp]: "length (insert_at i x xs) = Suc (length xs)"
  by (simp add: insert_at_def)

lemma map_insert_at [simp]: "map f (insert_at i x xs) = insert_at i (f x) (map f xs)"
  by (simp add: insert_at_def take_map drop_map)

lemma map_remove_at [simp]: "map f (remove_at i xs) = remove_at i (map f xs)"
  by (simp add: remove_at_def take_map drop_map)

lemma strictly_sorted_insert_at:
  assumes "strictly_sorted ks" "\<And>j. j < i \<Longrightarrow> j < length ks \<Longrightarrow> ks ! j < k"
    and "\<And>j. i \<le> j \<Longrightarrow> j < length ks \<Longrightarrow> k < ks ! j"
  shows "strictly_sorted (insert_at i k ks)"
proof -
  have "strictly_sorted (take i ks @ drop i ks)" using assms(1) by simp
  then have "strictly_sorted (take i ks)" "strictly_sorted (drop i ks)"
    "\<forall>x\<in>set (take i ks). \<forall>y\<in>set (drop i ks). x < y"
    unfolding sorted_wrt_append by blast+
  moreover have "\<forall>x\<in>set (take i ks). x < k" using assms(2) by (auto simp: in_set_conv_nth)
  moreover have "\<forall>y\<in>set (drop i ks). k < y"
    using assms(3) by (auto simp: in_set_conv_nth)
  ultimately show ?thesis by (auto simp: insert_at_def sorted_wrt_append)
qed

lemma strictly_sorted_search_insert:
  assumes "strictly_sorted ks" "binary_search ks k = Inl i"
  shows "strictly_sorted (insert_at i k ks)"
proof (rule strictly_sorted_insert_at [OF assms(1)])
  show "j < i \<Longrightarrow> j < length ks \<Longrightarrow> ks ! j < k" for j
    using binary_search_Inl(1) [OF assms(2)] partition_point_below [of j "\<lambda>x. x < k" ks] by simp
qed (rule binary_search_absent [OF assms])

lemma strictly_sorted_remove_at: "strictly_sorted ks \<Longrightarrow> strictly_sorted (remove_at i ks)"
proof -
  assume "strictly_sorted ks"
  then have "strictly_sorted (take (Suc i) ks @ drop (Suc i) ks)" by simp
  then have s: "strictly_sorted (take (Suc i) ks)" "strictly_sorted (drop (Suc i) ks)"
    and c: "\<forall>x\<in>set (take (Suc i) ks). \<forall>y\<in>set (drop (Suc i) ks). x < y"
    unfolding sorted_wrt_append by blast+
  have "take i ks = take i (take (Suc i) ks)" by simp
  then have "strictly_sorted (take i ks)" "set (take i ks) \<subseteq> set (take (Suc i) ks)"
    using s(1) sorted_wrt_take by (metis, metis set_take_subset)
  with s(2) c show ?thesis by (auto simp: remove_at_def sorted_wrt_append)
qed

lemma strictly_sorted_distinct: "strictly_sorted ks \<Longrightarrow> distinct ks"
  by (simp add: strict_sorted_iff)

section \<open>Key/value vectors as maps\<close>

lemma nth_split: "i < length xs \<Longrightarrow> xs = take i xs @ xs ! i # drop (Suc i) xs"
  by (simp add: id_take_nth_drop [symmetric])

lemma map_of_split:
  assumes "distinct (map fst xs)" "i < length xs"
  shows "map_of (take i xs) (fst (xs ! i)) = None" "map_of (drop (Suc i) xs) (fst (xs ! i)) = None"
proof -
  have "distinct (map fst (take i xs @ xs ! i # drop (Suc i) xs))"
    using assms by (simp add: id_take_nth_drop [symmetric])
  then show "map_of (take i xs) (fst (xs ! i)) = None" "map_of (drop (Suc i) xs) (fst (xs ! i)) = None"
    by (auto simp: map_of_eq_None_iff)
qed

lemma map_of_found:
  assumes "strictly_sorted (map fst xs)" "binary_search_by_key xs k = Inr i"
  shows "i < length xs" "fst (xs ! i) = k" "map_of xs k = Some (snd (xs ! i))"
proof -
  show i: "i < length xs" and k: "fst (xs ! i) = k"
    using binary_search_Inr [OF assms(2) [unfolded binary_search_by_key_def]] by auto
  have "(k, snd (xs ! i)) \<in> set xs" using i k nth_mem [OF i] by (metis prod.collapse)
  then show "map_of xs k = Some (snd (xs ! i))"
    using strictly_sorted_distinct [OF assms(1)] by simp
qed

lemma map_of_absent:
  assumes "strictly_sorted (map fst xs)" "binary_search_by_key xs k = Inl i"
  shows "map_of xs k = None" "i \<le> length xs"
  using binary_search_Inl_notin [OF assms(1)] assms(2) binary_search_Inl(2) [of "map fst xs" k i]
  by (auto simp: binary_search_by_key_def map_of_eq_None_iff)

lemma map_of_insert_at:
  assumes "map_of xs k = None"
  shows "map_of (insert_at i (k, v) xs) = (map_of xs)(k \<mapsto> v)"
proof -
  have "xs = take i xs @ drop i xs" by simp
  then have e: "map_of xs = map_of (drop i xs) ++ map_of (take i xs)"
    by (metis map_of_append)
  have "map_of (take i xs) k = None"
    using assms by (auto simp: map_of_eq_None_iff dest: in_set_takeD)
  then show ?thesis
    unfolding e by (auto simp: insert_at_def map_add_def fun_eq_iff split: option.splits)
qed

lemma map_of_update_at:
  assumes "distinct (map fst xs)" "i < length xs" "fst (xs ! i) = k"
  shows "map_of (xs[i := (k, v)]) = (map_of xs)(k \<mapsto> v)"
proof -
  note n = map_of_split [OF assms(1,2), unfolded assms(3)]
  have "map_of xs = map_of (take i xs @ xs ! i # drop (Suc i) xs)"
    using nth_split [OF assms(2)] by simp
  with n assms(2,3) show ?thesis
    by (cases "xs ! i") (auto simp: upd_conv_take_nth_drop map_add_def fun_eq_iff split: option.splits)
qed

lemma map_of_remove_at:
  assumes "distinct (map fst xs)" "i < length xs" "fst (xs ! i) = k"
  shows "map_of (remove_at i xs) = (map_of xs)(k := None)"
proof -
  note n = map_of_split [OF assms(1,2), unfolded assms(3)]
  have "map_of xs = map_of (take i xs @ xs ! i # drop (Suc i) xs)"
    using nth_split [OF assms(2)] by simp
  with n assms(2,3) show ?thesis
    by (cases "xs ! i") (auto simp: remove_at_def map_add_def fun_eq_iff split: option.splits)
qed

lemma map_fst_update_at: "i < length xs \<Longrightarrow> fst (xs ! i) = k \<Longrightarrow> map fst (xs[i := (k, v)]) = map fst xs"
  by (simp add: map_update list_update_same_conv)

lemma sum_list_insert_at: "sum_list (insert_at i x xs) = x + sum_list (xs :: nat list)"
proof -
  have "sum_list xs = sum_list (take i xs @ drop i xs)" by simp
  then show ?thesis unfolding insert_at_def by (simp only: sum_list_append sum_list.Cons)
qed

lemma sum_list_remove_at: "i < length xs \<Longrightarrow> sum_list (remove_at i xs) + xs ! i = sum_list (xs :: nat list)"
proof -
  assume "i < length xs"
  then have "sum_list xs = sum_list (take i xs @ xs ! i # drop (Suc i) xs)"
    by (simp add: id_take_nth_drop [symmetric])
  then show ?thesis unfolding remove_at_def by (simp only: sum_list_append sum_list.Cons)
qed

lemma sum_list_update_at:
  "i < length xs \<Longrightarrow> sum_list (xs[i := v]) + xs ! i = sum_list (xs :: nat list) + v"
proof -
  assume "i < length xs"
  then have "sum_list xs = sum_list (take i xs @ xs ! i # drop (Suc i) xs)"
    by (simp add: id_take_nth_drop [symmetric])
  with \<open>i < length xs\<close> show ?thesis by (simp add: upd_conv_take_nth_drop)
qed

end
