(* ===== verification/Reassembly.thy ===== *)
theory Reassembly
  imports Train Vec
begin

text \<open>
  Reassembly of one packet train (\<open>src/src/protocol/v2/reassembly.rs\<close>): the state of a partial
  record, the set of completed record ids with its small and large representation, the bitmap of
  seen Cells, and \<open>TrainReassembler::accept_reusing\<close>. A call that fails leaves its partial
  updates behind, as the \<open>&mut self\<close> method does, so the operations return the state together
  with the result.
\<close>

section \<open>Limits, keys and outputs\<close>

definition COMPLETED_RECORD_SMALL_LIMIT :: nat where "COMPLETED_RECORD_SMALL_LIMIT = 32"

record reassembly_limits =
  rl_maximum_cells :: nat
  rl_maximum_active_records :: nat
  rl_maximum_buffered_bytes :: nat

definition validate_limits :: "reassembly_limits \<Rightarrow> unit result" where
  "validate_limits l =
     ensure (1 \<le> rl_maximum_cells l \<and> rl_maximum_cells l \<le> u16_max)
       ''invalid V2 reassembly cell limit'' (
     ensure (1 \<le> rl_maximum_active_records l \<and> rl_maximum_active_records l \<le> u16_max)
       ''invalid V2 reassembly record limit'' (
     ensure (MAX_RECORD_BYTES \<le> rl_maximum_buffered_bytes l)
       ''V2 reassembly byte limit is too small'' (Inr ())))"

record train_key =
  tk_class :: traffic_class
  tk_session_epoch :: u32
  tk_route_label :: u32
  tk_train_id :: u64

definition cell_train_key :: "cell_v2 \<Rightarrow> train_key" where
  "cell_train_key c = \<lparr> tk_class = cell_class c, tk_session_epoch = cell_session_epoch c,
     tk_route_label = cell_route_label c, tk_train_id = cell_train_id c \<rparr>"

record completed_record =
  cr_train :: train_key
  cr_record_id :: u16
  cr_metadata :: bytes
  cr_total_len :: nat
  cr_fragments :: "bytes list"

definition coalesce :: "completed_record \<Rightarrow> bytes" where
  "coalesce r = (if length (cr_fragments r) = 1 then cr_fragments r ! 0
                 else foldl (\<lambda>out fragment. out @ fragment) [] (cr_fragments r))"

record fec_receive_stats =
  fr_parity_received :: nat
  fr_recovered_cells :: nat
  fr_wasted_parity :: nat
  fr_expired_stripes :: nat
  fr_decode_copy_bytes :: nat
  fr_recovery_latency_micros :: nat

definition fec_receive_stats_default :: fec_receive_stats where
  "fec_receive_stats_default = \<lparr> fr_parity_received = 0, fr_recovered_cells = 0, fr_wasted_parity = 0,
     fr_expired_stripes = 0, fr_decode_copy_bytes = 0, fr_recovery_latency_micros = 0 \<rparr>"

definition fec_stats_merge :: "fec_receive_stats \<Rightarrow> fec_receive_stats \<Rightarrow> fec_receive_stats" where
  "fec_stats_merge a b = \<lparr>
     fr_parity_received = sat_add (fr_parity_received a) (fr_parity_received b),
     fr_recovered_cells = sat_add (fr_recovered_cells a) (fr_recovered_cells b),
     fr_wasted_parity = sat_add (fr_wasted_parity a) (fr_wasted_parity b),
     fr_expired_stripes = sat_add (fr_expired_stripes a) (fr_expired_stripes b),
     fr_decode_copy_bytes = sat_add (fr_decode_copy_bytes a) (fr_decode_copy_bytes b),
     fr_recovery_latency_micros =
       sat_add (fr_recovery_latency_micros a) (fr_recovery_latency_micros b) \<rparr>"

record reassembly_output =
  ro_records :: "completed_record list"
  ro_duplicate_cell :: bool
  ro_train_complete :: bool
  ro_pressure_evicted_trains :: nat
  ro_reassembly_expired_trains :: nat
  ro_reorder_cells :: nat
  ro_missing_cells :: nat
  ro_fec :: fec_receive_stats

definition output_merge :: "reassembly_output \<Rightarrow> reassembly_output \<Rightarrow> reassembly_output" where
  "output_merge a b = \<lparr>
     ro_records = ro_records a @ ro_records b,
     ro_duplicate_cell = (ro_duplicate_cell a \<or> ro_duplicate_cell b),
     ro_train_complete = (ro_train_complete a \<or> ro_train_complete b),
     ro_pressure_evicted_trains =
       sat_add (ro_pressure_evicted_trains a) (ro_pressure_evicted_trains b),
     ro_reassembly_expired_trains =
       sat_add (ro_reassembly_expired_trains a) (ro_reassembly_expired_trains b),
     ro_reorder_cells = sat_add (ro_reorder_cells a) (ro_reorder_cells b),
     ro_missing_cells = sat_add (ro_missing_cells a) (ro_missing_cells b),
     ro_fec = fec_stats_merge (ro_fec a) (ro_fec b) \<rparr>"

section \<open>Partial records\<close>

record record_state =
  rs_total_len :: nat
  rs_metadata :: "bytes option"
  rs_offsets :: "nat list"
  rs_fragments :: "bytes list"
  rs_data_bytes :: nat
  rs_buffered_bytes :: nat

definition record_state_new :: "nat \<Rightarrow> record_state" where
  "record_state_new total_len = \<lparr> rs_total_len = total_len, rs_metadata = None, rs_offsets = [],
     rs_fragments = [], rs_data_bytes = 0, rs_buffered_bytes = 0 \<rparr>"

definition additional_bytes :: "record_state \<Rightarrow> record_segment \<Rightarrow> nat" where
  "additional_bytes st s =
     length (seg_data s) + (if rs_metadata st = None then length (seg_metadata s) else 0)"

definition record_store :: "record_segment \<Rightarrow> nat \<Rightarrow> record_state \<Rightarrow> record_state" where
  "record_store s i st =
     st\<lparr> rs_data_bytes := rs_data_bytes st + length (seg_data s),
         rs_buffered_bytes := rs_buffered_bytes st + length (seg_data s),
         rs_offsets := insert_at i (unat (seg_offset s)) (rs_offsets st),
         rs_fragments := insert_at i (seg_data s) (rs_fragments st) \<rparr>"

definition record_insert :: "record_state \<Rightarrow> record_segment \<Rightarrow> record_state result" where
  "record_insert st s =
     ensure (rs_total_len st = unat (seg_total_len s)) ''V2 record total length changed'' (
     let off = unat (seg_offset s);
         fin = off + length (seg_data s);
         i = partition_point (\<lambda>existing. existing < off) (rs_offsets st) in
     ensure (0 < i \<longrightarrow> rs_offsets st ! (i - 1) + length (rs_fragments st ! (i - 1)) \<le> off)
       ''overlapping V2 record segment'' (
     ensure (i < length (rs_offsets st) \<longrightarrow> fin \<le> rs_offsets st ! i)
       ''overlapping V2 record segment'' (
     if seg_kind s = Full \<or> seg_kind s = Start then
       (case rs_metadata st of
          Some existing \<Rightarrow>
            ensure (existing = seg_metadata s) ''V2 record metadata changed'' (
            Inr (record_store s i st))
        | None \<Rightarrow>
            Inr (record_store s i
              (st\<lparr> rs_buffered_bytes := rs_buffered_bytes st + length (seg_metadata s),
                   rs_metadata := Some (seg_metadata s) \<rparr>)))
     else Inr (record_store s i st))))"

definition record_complete :: "record_state \<Rightarrow> bool" where
  "record_complete st \<longleftrightarrow> rs_metadata st \<noteq> None \<and> rs_data_bytes st = rs_total_len st"

definition record_finish :: "train_key \<Rightarrow> u16 \<Rightarrow> record_state \<Rightarrow> completed_record" where
  "record_finish key rid st = \<lparr> cr_train = key, cr_record_id = rid, cr_metadata = the (rs_metadata st),
     cr_total_len = rs_total_len st, cr_fragments = rs_fragments st \<rparr>"

section \<open>Completed record ids\<close>

text \<open>The hash set of the large representation is a finite set.\<close>

datatype completed_record_ids = Small "u16 list" | Large "u16 set"

definition completed_new :: completed_record_ids where
  "completed_new = Small []"

fun completed_contains :: "completed_record_ids \<Rightarrow> u16 \<Rightarrow> bool" where
  "completed_contains (Small vs) v = (case binary_search vs v of Inr _ \<Rightarrow> True | Inl _ \<Rightarrow> False)"
| "completed_contains (Large vs) v = (v \<in> vs)"

fun completed_insert :: "u16 \<Rightarrow> completed_record_ids \<Rightarrow> completed_record_ids \<times> bool" where
  "completed_insert v (Small vs) =
     (case binary_search vs v of
        Inr _ \<Rightarrow> (Small vs, False)
      | Inl i \<Rightarrow>
          if length vs < COMPLETED_RECORD_SMALL_LIMIT then (Small (insert_at i v vs), True)
          else (let large = set vs in (Large (insert v large), v \<notin> large)))"
| "completed_insert v (Large vs) = (Large (insert v vs), v \<notin> vs)"

section \<open>One train\<close>

record train_reassembler =
  ra_limits :: reassembly_limits
  ra_key :: "train_key option"
  ra_seen_cells :: "u64 list"
  ra_seen_cell_count :: nat
  ra_max_seen_sequence :: "u16 option"
  ra_completed_records :: completed_record_ids
  ra_records :: "(u16 \<times> record_state) list"
  ra_end_sequence :: "u16 option"
  ra_saw_start :: bool
  ra_closure_observed :: bool
  ra_buffered_bytes :: nat

definition reassembler_new :: "reassembly_limits \<Rightarrow> train_reassembler result" where
  "reassembler_new l =
     bindR (validate_limits l) (\<lambda>_.
     Inr \<lparr> ra_limits = l, ra_key = None,
           ra_seen_cells = replicate (div_ceil (rl_maximum_cells l) 64) 0,
           ra_seen_cell_count = 0, ra_max_seen_sequence = None,
           ra_completed_records = completed_new, ra_records = [], ra_end_sequence = None,
           ra_saw_start = False, ra_closure_observed = False, ra_buffered_bytes = 0 \<rparr>)"

definition is_complete :: "train_reassembler \<Rightarrow> bool" where
  "is_complete t =
     (case ra_end_sequence t of
        None \<Rightarrow> False
      | Some fin \<Rightarrow> ra_saw_start t \<and> ra_records t = [] \<and> ra_seen_cell_count t = unat fin + 1)"

definition seen_bit :: "u16 \<Rightarrow> u64" where
  "seen_bit q = push_bit (unat q mod 64) 1"

definition cell_seen :: "train_reassembler \<Rightarrow> u16 \<Rightarrow> bool" where
  "cell_seen t q =
     (let w = unat q div 64 in
      w < length (ra_seen_cells t) \<and> ra_seen_cells t ! w AND seen_bit q \<noteq> 0)"

text \<open>The index is in range: \<open>accept\<close> has checked the sequence against the limit.\<close>

definition mark_cell_seen :: "u16 \<Rightarrow> train_reassembler \<Rightarrow> train_reassembler \<times> bool" where
  "mark_cell_seen q t =
     (let w = unat q div 64;
          unseen = (ra_seen_cells t ! w AND seen_bit q = 0) in
      if unseen
      then (t\<lparr> ra_seen_cells := (ra_seen_cells t)[w := ra_seen_cells t ! w OR seen_bit q],
               ra_seen_cell_count := ra_seen_cell_count t + 1 \<rparr>, True)
      else (t, False))"

definition accept_partial :: "train_key \<Rightarrow> record_segment \<Rightarrow> nat \<Rightarrow> train_reassembler \<Rightarrow>
    train_reassembler \<times> completed_record option result" where
  "accept_partial key s i t =
     (let rid = seg_record_id s;
          st = snd (ra_records t ! i);
          additional = additional_bytes st s in
      if sat_add (ra_buffered_bytes t) additional \<le> rl_maximum_buffered_bytes (ra_limits t) then
        (case record_insert st s of
           Inl e \<Rightarrow> (t, Inl e)
         | Inr st' \<Rightarrow>
             let t = t\<lparr> ra_records := (ra_records t)[i := (rid, st')],
                        ra_buffered_bytes := ra_buffered_bytes t + additional \<rparr> in
             if record_complete st' then
               (t\<lparr> ra_records := remove_at i (ra_records t),
                   ra_buffered_bytes := ra_buffered_bytes t - rs_buffered_bytes st',
                   ra_completed_records := fst (completed_insert rid (ra_completed_records t)) \<rparr>,
                Inr (Some (record_finish key rid st')))
             else (t, Inr None))
      else (t, Inl (Err ''V2 reassembly byte budget exceeded'')))"

definition accept_segment :: "train_key \<Rightarrow> record_segment \<Rightarrow> train_reassembler \<Rightarrow>
    train_reassembler \<times> completed_record option result" where
  "accept_segment key s t =
     (let rid = seg_record_id s in
      if completed_contains (ra_completed_records t) rid
      then (t, Inl (Err ''V2 record id reused after completion''))
      else if seg_kind s = Full then
        (case binary_search_by_key (ra_records t) rid of
           Inr _ \<Rightarrow> (t, Inl (Err ''V2 full record collides with partial record''))
         | Inl _ \<Rightarrow>
             (t\<lparr> ra_completed_records := fst (completed_insert rid (ra_completed_records t)) \<rparr>,
              Inr (Some \<lparr> cr_train = key, cr_record_id = rid, cr_metadata = seg_metadata s,
                          cr_total_len = unat (seg_total_len s), cr_fragments = [seg_data s] \<rparr>)))
      else
        (case binary_search_by_key (ra_records t) rid of
           Inr i \<Rightarrow> accept_partial key s i t
         | Inl i \<Rightarrow>
             if length (ra_records t) < rl_maximum_active_records (ra_limits t)
             then accept_partial key s i
               (t\<lparr> ra_records :=
                     insert_at i (rid, record_state_new (unat (seg_total_len s))) (ra_records t) \<rparr>)
             else (t, Inl (Err ''too many active V2 records''))))"

fun accept_segments :: "train_key \<Rightarrow> record_segment list \<Rightarrow> completed_record list \<Rightarrow> train_reassembler \<Rightarrow>
    train_reassembler \<times> completed_record list result" where
  "accept_segments key [] completed t = (t, Inr completed)"
| "accept_segments key (s # ss) completed t =
     (case accept_segment key s t of
        (t', Inl e) \<Rightarrow> (t', Inl e)
      | (t', Inr None) \<Rightarrow> accept_segments key ss completed t'
      | (t', Inr (Some r)) \<Rightarrow> accept_segments key ss (completed @ [r]) t')"

definition reassembly_output_of :: "completed_record list \<Rightarrow> bool \<Rightarrow> bool \<Rightarrow> nat \<Rightarrow> nat \<Rightarrow> reassembly_output" where
  "reassembly_output_of records duplicate complete reorder missing =
     \<lparr> ro_records = records, ro_duplicate_cell = duplicate, ro_train_complete = complete,
       ro_pressure_evicted_trains = 0, ro_reassembly_expired_trains = 0,
       ro_reorder_cells = reorder, ro_missing_cells = missing, ro_fec = fec_receive_stats_default \<rparr>"

definition record_sequence :: "u16 \<Rightarrow> train_reassembler \<Rightarrow> train_reassembler" where
  "record_sequence q t = t\<lparr> ra_max_seen_sequence :=
     Some (case ra_max_seen_sequence t of None \<Rightarrow> q | Some m \<Rightarrow> max m q) \<rparr>"

text \<open>The train-boundary flags: the new state, or the error with the state at that point.\<close>

definition accept_flags :: "cell_v2 \<Rightarrow> train_reassembler \<Rightarrow> train_reassembler \<times> unit result" where
  "accept_flags c t =
     (if cell_flags c AND FLAG_TRAIN_START \<noteq> 0 \<and> cell_sequence c \<noteq> 0
      then (t, Inl (Err ''V2 train start is not cell zero''))
      else let t = (if cell_flags c AND FLAG_TRAIN_START \<noteq> 0 then t\<lparr> ra_saw_start := True \<rparr> else t) in
        if cell_flags c AND FLAG_TRAIN_END \<noteq> 0 then
          (case ra_end_sequence t of
             Some q \<Rightarrow> (t, ensure (q = cell_sequence c) ''V2 train has conflicting end cells'' (Inr ()))
           | None \<Rightarrow> (t\<lparr> ra_end_sequence := Some (cell_sequence c) \<rparr>, Inr ()))
        else (t, Inr ()))"

definition observe_closure :: "train_reassembler \<Rightarrow> train_reassembler \<times> nat" where
  "observe_closure t =
     (if \<not> ra_closure_observed t \<and> ra_saw_start t then
        (case ra_end_sequence t of
           Some fin \<Rightarrow> (t\<lparr> ra_closure_observed := True \<rparr>, (unat fin + 1) - ra_seen_cell_count t)
         | None \<Rightarrow> (t, 0))
      else (t, 0))"

definition accept_body :: "train_key \<Rightarrow> cell_v2 \<Rightarrow> nat \<Rightarrow> train_reassembler \<Rightarrow>
    train_reassembler \<times> reassembly_output result" where
  "accept_body key c reordered t =
     (case accept_flags c t of
        (t, Inl e) \<Rightarrow> (t, Inl e)
      | (t, Inr _) \<Rightarrow>
          (case observe_closure t of (t, missing) \<Rightarrow>
             (case cell_body c of
                Parity _ \<Rightarrow>
                  (t, Inl (Err ''V2 parity cell must pass through FEC recovery before reassembly''))
              | Records segments \<Rightarrow>
                  (case accept_segments key segments [] t of
                     (t, Inl e) \<Rightarrow> (t, Inl e)
                   | (t, Inr completed) \<Rightarrow>
                       (t, Inr (reassembly_output_of completed False (is_complete t) reordered missing))))))"

definition accept_cell :: "cell_v2 \<Rightarrow> train_reassembler \<Rightarrow> train_reassembler \<times> reassembly_output result" where
  "accept_cell c t =
     (let key = cell_train_key c; q = cell_sequence c in
      if ra_key t \<noteq> None \<and> ra_key t \<noteq> Some key
      then (t, Inl (Err ''V2 cell belongs to another train''))
      else let t = t\<lparr> ra_key := Some key \<rparr> in
      if \<not> unat q < rl_maximum_cells (ra_limits t)
      then (t, Inl (Err ''V2 cell sequence exceeds reassembly limit''))
      else
        let reordered = (case ra_max_seen_sequence t of None \<Rightarrow> 0 | Some m \<Rightarrow> if q < m then 1 else 0) in
        (case mark_cell_seen q t of
           (t, False) \<Rightarrow> (t, Inr (reassembly_output_of [] True (is_complete t) 0 0))
         | (t, True) \<Rightarrow> accept_body key c reordered (record_sequence q t)))"

section \<open>Duplicate filters refine sets\<close>

fun completed_ids :: "completed_record_ids \<Rightarrow> u16 set" where
  "completed_ids (Small vs) = set vs"
| "completed_ids (Large vs) = vs"

fun completed_valid :: "completed_record_ids \<Rightarrow> bool" where
  "completed_valid (Small vs) \<longleftrightarrow> strictly_sorted vs \<and> length vs \<le> COMPLETED_RECORD_SMALL_LIMIT"
| "completed_valid (Large vs) \<longleftrightarrow> True"

lemma completed_contains_iff: "completed_valid c \<Longrightarrow> completed_contains c v \<longleftrightarrow> v \<in> completed_ids c"
  by (cases c) (auto simp: binary_search_Inr_iff [symmetric] split: sum.splits)

lemma completed_insert_spec:
  assumes "completed_valid c"
  shows "completed_valid (fst (completed_insert v c))"
    "completed_ids (fst (completed_insert v c)) = insert v (completed_ids c)"
    "snd (completed_insert v c) \<longleftrightarrow> v \<notin> completed_ids c"
proof -
  have "completed_valid (fst (completed_insert v c)) \<and>
    completed_ids (fst (completed_insert v c)) = insert v (completed_ids c) \<and>
    (snd (completed_insert v c) \<longleftrightarrow> v \<notin> completed_ids c)"
  proof (cases c)
    case (Small vs)
    with assms have s: "strictly_sorted vs" by simp
    show ?thesis
    proof (cases "binary_search vs v")
      case (Inl i)
      with Small assms binary_search_Inl_notin [OF s Inl] strictly_sorted_search_insert [OF s Inl]
      show ?thesis by (auto simp: Let_def)
    next
      case (Inr i)
      with Small assms binary_search_Inr [OF Inr] show ?thesis by (auto simp: insert_absorb)
    qed
  qed simp
  then show "completed_valid (fst (completed_insert v c))"
    "completed_ids (fst (completed_insert v c)) = insert v (completed_ids c)"
    "snd (completed_insert v c) \<longleftrightarrow> v \<notin> completed_ids c" by blast+
qed

interpretation completed: id_set completed_contains completed_insert completed_ids completed_valid "\<lambda>_. UNIV"
  by unfold_locales (simp_all add: completed_contains_iff completed_insert_spec)

text \<open>The bitmap: its bits below the Cell limit are the sequences seen, and the counter counts them.\<close>

definition seen_set :: "train_reassembler \<Rightarrow> u16 set" where
  "seen_set t = {q. unat q < rl_maximum_cells (ra_limits t) \<and> bit (ra_seen_cells t ! (unat q div 64)) (unat q mod 64)}"

definition seen_domain :: "train_reassembler \<Rightarrow> u16 set" where
  "seen_domain t = {q. unat q < rl_maximum_cells (ra_limits t)}"

definition seen_valid :: "train_reassembler \<Rightarrow> bool" where
  "seen_valid t \<longleftrightarrow>
     length (ra_seen_cells t) = div_ceil (rl_maximum_cells (ra_limits t)) 64 \<and>
     ra_seen_cell_count t = card (seen_set t)"

lemma seen_word_in_range: "q < m \<Longrightarrow> q div 64 < div_ceil m 64"
  unfolding div_ceil_def by (simp add: less_eq_div_iff_mult_less_eq Suc_le_eq [symmetric] del: Suc_le_eq)

lemma div_mod_eq_iff: "a = b \<longleftrightarrow> a div 64 = b div 64 \<and> a mod 64 = b mod 64"
  for a b :: nat
  by (metis div_mult_mod_eq)

lemma and_seen_bit: "w AND seen_bit q \<noteq> 0 \<longleftrightarrow> bit w (unat q mod 64)"
  unfolding seen_bit_def push_bit_eq_mult mult_1 by (simp only: and_exp_eq_0_iff_not_bit not_not)

lemma cell_seen_iff:
  assumes "seen_valid t" "q \<in> seen_domain t"
  shows "cell_seen t q \<longleftrightarrow> q \<in> seen_set t"
  using assms seen_word_in_range [of "unat q" "rl_maximum_cells (ra_limits t)"]
  by (simp add: cell_seen_def seen_set_def seen_domain_def seen_valid_def Let_def and_seen_bit)

lemma finite_seen_set [simp]: "finite (seen_set t)"
  by (rule finite_subset [OF subset_UNIV]) simp

lemma bit_or_seen_bit: "n < 64 \<Longrightarrow> bit (w OR seen_bit q) n \<longleftrightarrow> bit w n \<or> n = unat q mod 64"
  by (auto simp: seen_bit_def bit_simps)

lemma mark_cell_seen_spec:
  assumes v: "seen_valid t" and q: "q \<in> seen_domain t"
  shows "seen_set (fst (mark_cell_seen q t)) = insert q (seen_set t)"
    "snd (mark_cell_seen q t) \<longleftrightarrow> q \<notin> seen_set t"
    "seen_valid (fst (mark_cell_seen q t))"
    "ra_limits (fst (mark_cell_seen q t)) = ra_limits t"
proof -
  let ?w = "unat q div 64"
  let ?m = "rl_maximum_cells (ra_limits t)"
  have w: "?w < length (ra_seen_cells t)"
    using v q seen_word_in_range [of "unat q" ?m] by (simp add: seen_valid_def seen_domain_def)
  show new: "snd (mark_cell_seen q t) \<longleftrightarrow> q \<notin> seen_set t"
    using q and_seen_bit [of "ra_seen_cells t ! ?w" q]
    by (auto simp: mark_cell_seen_def Let_def seen_set_def seen_domain_def)
  show "ra_limits (fst (mark_cell_seen q t)) = ra_limits t"
    by (simp add: mark_cell_seen_def Let_def)
  have split: "unat p = unat q \<longleftrightarrow> unat p div 64 = ?w \<and> unat p mod 64 = unat q mod 64" for p :: u16
    by (rule div_mod_eq_iff)
  show set: "seen_set (fst (mark_cell_seen q t)) = insert q (seen_set t)"
  proof (cases "q \<in> seen_set t")
    case True
    then show ?thesis
      using new by (auto simp: mark_cell_seen_def Let_def split: if_splits)
  next
    case False
    then have mark: "fst (mark_cell_seen q t) =
        t\<lparr> ra_seen_cells := (ra_seen_cells t)[?w := ra_seen_cells t ! ?w OR seen_bit q],
           ra_seen_cell_count := ra_seen_cell_count t + 1 \<rparr>"
      using new by (auto simp: mark_cell_seen_def Let_def split: if_splits)
    have "p \<in> seen_set (fst (mark_cell_seen q t)) \<longleftrightarrow> p = q \<or> p \<in> seen_set t" for p
    proof (cases "unat p div 64 = ?w")
      case True
      with w q split [of p] show ?thesis
        by (simp add: mark seen_set_def seen_domain_def bit_or_seen_bit word_unat_eq_iff)
          (metis (no_types))
    next
      case False
      then show ?thesis by (auto simp: mark seen_set_def)
    qed
    then show ?thesis by blast
  qed
  show "seen_valid (fst (mark_cell_seen q t))"
    using v new set unfolding seen_valid_def
    by (cases "q \<in> seen_set t") (auto simp: mark_cell_seen_def Let_def insert_absorb split: if_splits)
qed

interpretation bitmap: id_set cell_seen mark_cell_seen seen_set seen_valid seen_domain
  by unfold_locales (simp_all add: cell_seen_iff mark_cell_seen_spec, simp add: seen_domain_def mark_cell_seen_spec)

section \<open>Partial records have no holes when their bytes add up\<close>

text \<open>\<open>chain lo hi os fs\<close>: the fragments \<open>fs\<close>, placed at the offsets \<open>os\<close>, are non-empty, in
  order, do not overlap and lie between \<open>lo\<close> and \<open>hi\<close>.\<close>

fun chain :: "nat \<Rightarrow> nat \<Rightarrow> nat list \<Rightarrow> bytes list \<Rightarrow> bool" where
  "chain lo hi [] [] \<longleftrightarrow> lo \<le> hi"
| "chain lo hi (p # ps) (f # fs) \<longleftrightarrow> lo \<le> p \<and> f \<noteq> [] \<and> chain (p + length f) hi ps fs"
| "chain lo hi _ _ \<longleftrightarrow> False"

definition frag_bytes :: "bytes list \<Rightarrow> nat" where
  "frag_bytes fs = sum_list (map length fs)"

lemma frag_bytes_simps [simp]:
  "frag_bytes [] = 0" "frag_bytes (f # fs) = length f + frag_bytes fs"
  by (simp_all add: frag_bytes_def)

lemma frag_bytes_insert_at: "frag_bytes (insert_at i f fs) = length f + frag_bytes fs"
  by (simp add: frag_bytes_def sum_list_insert_at)

lemma chain_length: "chain lo hi ps fs \<Longrightarrow> length ps = length fs"
  by (induction lo hi ps fs rule: chain.induct) auto

lemma chain_bytes: "chain lo hi ps fs \<Longrightarrow> lo + frag_bytes fs \<le> hi"
  by (induction lo hi ps fs rule: chain.induct) auto

lemma partition_point_Cons: "partition_point P (x # xs) = (if P x then Suc (partition_point P xs) else 0)"
  by (simp add: partition_point_def)

lemma insert_at_simps [simp]:
  "insert_at 0 x xs = x # xs" "insert_at (Suc i) x (y # ys) = y # insert_at i x ys"
  by (simp_all add: insert_at_def)

lemma chain_insert:
  assumes "chain lo hi ps fs" "lo \<le> p" "p + length f \<le> hi" "f \<noteq> []"
    and "i = partition_point (\<lambda>x. x < p) ps"
    and "0 < i \<longrightarrow> ps ! (i - 1) + length (fs ! (i - 1)) \<le> p"
    and "i < length ps \<longrightarrow> p + length f \<le> ps ! i"
  shows "chain lo hi (insert_at i p ps) (insert_at i f fs)"
  using assms
proof (induction lo hi ps fs arbitrary: i rule: chain.induct)
  case (1 lo hi)
  then show ?case by (simp add: partition_point_def)
next
  case (2 lo hi q qs g gs)
  show ?case
  proof (cases "q < p")
    case False
    with 2 show ?thesis by (simp add: partition_point_Cons)
  next
    case True
    define j where "j = partition_point (\<lambda>x. x < p) qs"
    have i: "i = Suc j" using 2(6) True by (simp add: partition_point_Cons j_def)
    have prev: "(q # qs) ! j + length ((g # gs) ! j) \<le> p" using 2(7) i by simp
    have succ: "j < length qs \<longrightarrow> p + length f \<le> qs ! j" using 2(8) i by simp
    have below: "q + length g \<le> p"
    proof (cases j)
      case 0
      with prev show ?thesis by simp
    next
      case (Suc n)
      then obtain r rs where "qs = r # rs" by (cases qs) (auto simp: partition_point_def j_def)
      with Suc 2(2) show ?thesis
        by (cases gs) (auto simp: j_def partition_point_Cons split: if_splits)
    qed
    have "0 < j \<longrightarrow> qs ! (j - 1) + length (gs ! (j - 1)) \<le> p"
      using prev by (cases j) simp_all
    then have "chain (q + length g) hi (insert_at j p qs) (insert_at j f gs)"
      using 2(2,4,5) below succ by (intro 2(1)) (simp_all add: j_def)
    with 2(2) i show ?thesis by simp
  qed
qed simp_all

definition agrees :: "bytes \<Rightarrow> nat list \<Rightarrow> bytes list \<Rightarrow> bool" where
  "agrees d ps fs \<longleftrightarrow> list_all2 (\<lambda>p f. f = slice p (p + length f) d) ps fs"

lemma agrees_insert_at:
  "agrees d ps fs \<Longrightarrow> f = slice p (p + length f) d \<Longrightarrow> agrees d (insert_at i p ps) (insert_at i f fs)"
  unfolding agrees_def insert_at_def
  by (intro list_all2_appendI list_all2_Cons [THEN iffD2] conjI list_all2_takeI list_all2_dropI)

lemma chain_full:
  "chain lo hi ps fs \<Longrightarrow> lo + frag_bytes fs = hi \<Longrightarrow> agrees d ps fs \<Longrightarrow> concat fs = slice lo hi d"
proof (induction lo hi ps fs rule: chain.induct)
  case (1 lo hi)
  then show ?case by (simp add: slice_def)
next
  case (2 lo hi p ps f fs)
  have c: "chain (p + length f) hi ps fs" and p: "lo \<le> p" using 2(2) by simp_all
  have "p = lo" "p + length f + frag_bytes fs = hi" using chain_bytes [OF c] p 2(3) by simp_all
  moreover have "agrees d ps fs" and f: "f = slice p (p + length f) d" using 2(4) by (simp_all add: agrees_def)
  ultimately have "concat fs = slice (p + length f) hi d" using 2(1) c by blast
  moreover have "slice p (p + length f) d @ slice (p + length f) hi d = slice p hi d"
    using \<open>p + length f + frag_bytes fs = hi\<close> by (intro slice_join) simp_all
  ultimately show ?case using f \<open>p = lo\<close> by simp
qed simp_all

definition record_ok :: "record_state \<Rightarrow> bool" where
  "record_ok st \<longleftrightarrow>
     chain 0 (rs_total_len st) (rs_offsets st) (rs_fragments st) \<and>
     rs_data_bytes st = frag_bytes (rs_fragments st) \<and>
     rs_buffered_bytes st = rs_data_bytes st + (case rs_metadata st of None \<Rightarrow> 0 | Some m \<Rightarrow> length m)"

lemma record_ok_new: "record_ok (record_state_new n)"
  by (simp add: record_ok_def record_state_new_def)

definition opens_record :: "record_segment \<Rightarrow> bool" where
  "opens_record s \<longleftrightarrow> seg_kind s = Full \<or> seg_kind s = Start"

lemma record_insert_InrD:
  assumes "record_insert st s = Inr st'"
  defines "i \<equiv> partition_point (\<lambda>x. x < unat (seg_offset s)) (rs_offsets st)"
  shows "rs_total_len st = unat (seg_total_len s)" "rs_total_len st' = rs_total_len st"
    "rs_offsets st' = insert_at i (unat (seg_offset s)) (rs_offsets st)"
    "rs_fragments st' = insert_at i (seg_data s) (rs_fragments st)"
    "rs_data_bytes st' = rs_data_bytes st + length (seg_data s)"
    "rs_metadata st' = (if opens_record s then Some (seg_metadata s) else rs_metadata st)"
    "rs_buffered_bytes st' = rs_buffered_bytes st + length (seg_data s) +
       (if opens_record s \<and> rs_metadata st = None then length (seg_metadata s) else 0)"
    "0 < i \<longrightarrow> rs_offsets st ! (i - 1) + length (rs_fragments st ! (i - 1)) \<le> unat (seg_offset s)"
    "i < length (rs_offsets st) \<longrightarrow> unat (seg_offset s) + length (seg_data s) \<le> rs_offsets st ! i"
    "opens_record s \<Longrightarrow> rs_metadata st = None \<or> rs_metadata st = Some (seg_metadata s)"
  using assms(1) unfolding i_def opens_record_def
  by (auto simp: record_insert_def Let_def result_iff record_store_def split: if_splits option.splits)

lemma opens_record_metadata: "validate_segment s = Inr u \<Longrightarrow> \<not> opens_record s \<Longrightarrow> seg_metadata s = []"
  by (drule validate_segmentD(8)) (cases "seg_kind s"; simp add: result_iff opens_record_def)

lemma record_insert_ok:
  assumes ok: "record_ok st" and v: "validate_segment s = Inr ()" and ins: "record_insert st s = Inr st'"
  shows "record_ok st'" "rs_buffered_bytes st' = rs_buffered_bytes st + additional_bytes st s"
proof -
  note d = record_insert_InrD [OF ins]
  have "unat (seg_offset s) + length (seg_data s) \<le> rs_total_len st"
    using validate_segmentD(5) [OF v] d(1) by (simp add: segment_end_def)
  then have "chain 0 (rs_total_len st') (rs_offsets st') (rs_fragments st')"
    using ok validate_segmentD(2) [OF v] unfolding d(2-4)
    by (intro chain_insert [OF _ _ _ _ refl d(8,9)]) (simp_all add: record_ok_def)
  moreover have "rs_data_bytes st' = frag_bytes (rs_fragments st')"
    using ok d(4,5) by (simp add: record_ok_def frag_bytes_insert_at)
  moreover have "rs_buffered_bytes st' = rs_data_bytes st' + (case rs_metadata st' of None \<Rightarrow> 0 | Some m \<Rightarrow> length m)"
    using ok d(5,6,7,10) by (cases "opens_record s"; cases "rs_metadata st") (auto simp: record_ok_def)
  ultimately show "record_ok st'" by (simp add: record_ok_def)
  show "rs_buffered_bytes st' = rs_buffered_bytes st + additional_bytes st s"
    using d(7) opens_record_metadata [OF v] by (auto simp: additional_bytes_def)
qed

lemma coalesce_eq: "coalesce r = concat (cr_fragments r)"
proof -
  have fold: "foldl (\<lambda>out f. out @ f) acc fs = acc @ concat fs" for acc :: bytes and fs
    by (induction fs arbitrary: acc) simp_all
  show ?thesis
    unfolding coalesce_def fold by (cases "cr_fragments r") auto
qed

section \<open>The reassembler invariant\<close>

definition records_bytes :: "(u16 \<times> record_state) list \<Rightarrow> nat" where
  "records_bytes rs = sum_list (map (rs_buffered_bytes \<circ> snd) rs)"

definition ra_ok :: "train_reassembler \<Rightarrow> bool" where
  "ra_ok t \<longleftrightarrow>
     validate_limits (ra_limits t) = Inr () \<and> rl_maximum_buffered_bytes (ra_limits t) < usize_max \<and>
     seen_valid t \<and> completed_valid (ra_completed_records t) \<and>
     strictly_sorted (map fst (ra_records t)) \<and>
     length (ra_records t) \<le> rl_maximum_active_records (ra_limits t) \<and>
     (\<forall>(rid, st)\<in>set (ra_records t). record_ok st \<and> \<not> record_complete st \<and>
        rid \<notin> completed_ids (ra_completed_records t)) \<and>
     ra_buffered_bytes t = records_bytes (ra_records t) \<and>
     ra_buffered_bytes t \<le> rl_maximum_buffered_bytes (ra_limits t)"

text \<open>A property of every partial record.\<close>

definition entries :: "(u16 \<Rightarrow> record_state \<Rightarrow> bool) \<Rightarrow> train_reassembler \<Rightarrow> bool" where
  "entries Q t \<longleftrightarrow> (\<forall>(rid, st)\<in>set (ra_records t). Q rid st)"

text \<open>The fields that accepting segments leaves alone.\<close>

definition same_train :: "train_reassembler \<Rightarrow> train_reassembler \<Rightarrow> bool" where
  "same_train t t' \<longleftrightarrow>
     ra_limits t' = ra_limits t \<and> ra_key t' = ra_key t \<and> ra_seen_cells t' = ra_seen_cells t \<and>
     ra_seen_cell_count t' = ra_seen_cell_count t \<and> ra_max_seen_sequence t' = ra_max_seen_sequence t \<and>
     ra_end_sequence t' = ra_end_sequence t \<and> ra_saw_start t' = ra_saw_start t \<and>
     ra_closure_observed t' = ra_closure_observed t"

lemma same_train_refl [simp]: "same_train t t"
  by (simp add: same_train_def)

lemma same_train_trans: "same_train a b \<Longrightarrow> same_train b c \<Longrightarrow> same_train a c"
  by (simp add: same_train_def)

lemma seen_cong:
  "same_train t t' \<Longrightarrow> seen_set t' = seen_set t" "same_train t t' \<Longrightarrow> seen_valid t' = seen_valid t"
  by (simp_all add: same_train_def seen_set_def seen_valid_def)

lemma records_bytes_update:
  "i < length rs \<Longrightarrow> records_bytes (rs[i := (k, st)]) + rs_buffered_bytes (snd (rs ! i)) =
     records_bytes rs + rs_buffered_bytes st"
  using sum_list_update_at [of i "map (rs_buffered_bytes \<circ> snd) rs" "rs_buffered_bytes st"]
  by (simp add: records_bytes_def map_update)

lemma records_bytes_insert: "records_bytes (insert_at i (k, st) rs) = rs_buffered_bytes st + records_bytes rs"
  by (simp add: records_bytes_def sum_list_insert_at)

lemma records_bytes_remove:
  "i < length rs \<Longrightarrow> records_bytes (remove_at i rs) + rs_buffered_bytes (snd (rs ! i)) = records_bytes rs"
  using sum_list_remove_at [of i "map (rs_buffered_bytes \<circ> snd) rs"]
  by (simp add: records_bytes_def)

text \<open>What accepting one segment may do, whether it succeeds or fails.\<close>

definition segment_post :: "(u16 \<Rightarrow> record_state \<Rightarrow> bool) \<Rightarrow> train_key \<Rightarrow> record_segment \<Rightarrow> train_reassembler \<Rightarrow>
    train_reassembler \<Rightarrow> completed_record option result \<Rightarrow> bool" where
  "segment_post Q key s t t' res \<longleftrightarrow>
     ra_ok t' \<and> entries Q t' \<and> same_train t t' \<and>
     ra_buffered_bytes t' \<le> ra_buffered_bytes t + (length (seg_metadata s) + length (seg_data s)) \<and>
     (case res of
        Inr (Some r) \<Rightarrow>
          cr_record_id r = seg_record_id s \<and> cr_train r = key \<and>
          cr_record_id r \<notin> completed_ids (ra_completed_records t) \<and>
          completed_ids (ra_completed_records t') = insert (cr_record_id r) (completed_ids (ra_completed_records t)) \<and>
          (seg_kind s = Full \<and> r = \<lparr> cr_train = key, cr_record_id = seg_record_id s,
             cr_metadata = seg_metadata s, cr_total_len = unat (seg_total_len s),
             cr_fragments = [seg_data s] \<rparr> \<or>
           (\<exists>st. Q (seg_record_id s) st \<and> record_ok st \<and> record_complete st \<and>
              r = record_finish key (seg_record_id s) st))
      | _ \<Rightarrow> ra_completed_records t' = ra_completed_records t)"

lemma set_remove_at: "set (remove_at i xs) \<subseteq> set xs"
  by (auto simp: remove_at_def dest: in_set_takeD in_set_dropD)

lemma length_remove_at: "length (remove_at i xs) \<le> length xs"
  by (simp add: remove_at_def)

lemma remove_at_key:
  assumes "distinct (map fst xs)" "i < length xs" "fst (xs ! i) = k"
  shows "(k, v) \<notin> set (remove_at i xs)"
proof -
  have "map_of (remove_at i xs) k = None" using map_of_remove_at [OF assms] by simp
  then show ?thesis by (auto dest: weak_map_of_SomeI)
qed

lemma remove_at_update [simp]: "remove_at i (xs[i := v]) = remove_at i xs"
  by (simp add: remove_at_def)

lemma accept_partial_post:
  assumes ok: "ra_ok t" and Q: "entries Q t" and v: "validate_segment s = Inr ()"
    and i: "i < length (ra_records t)" "fst (ra_records t ! i) = seg_record_id s"
    and ins: "\<And>st st'. Q (seg_record_id s) st \<Longrightarrow> record_ok st \<Longrightarrow> record_insert st s = Inr st' \<Longrightarrow>
       Q (seg_record_id s) st'"
    and acc: "accept_partial key s i t = (t', res)"
  shows "segment_post Q key s t t' res"
proof -
  define st where "st = snd (ra_records t ! i)"
  have mem: "(seg_record_id s, st) \<in> set (ra_records t)"
    using i nth_mem [OF i(1)] by (auto simp: st_def prod_eq_iff dest!: sym [of "fst _"])
  have st: "record_ok st" "Q (seg_record_id s) st" and fresh: "seg_record_id s \<notin> completed_ids (ra_completed_records t)"
    using ok Q mem by (auto simp: ra_ok_def entries_def)
  have sorted: "strictly_sorted (map fst (ra_records t))" using ok by (simp add: ra_ok_def)
  let ?add = "additional_bytes st s"
  show ?thesis
  proof (cases "sat_add (ra_buffered_bytes t) ?add \<le> rl_maximum_buffered_bytes (ra_limits t)")
    case False
    with acc ok Q show ?thesis
      by (auto simp: accept_partial_def Let_def st_def [symmetric] segment_post_def)
  next
    case budget: True
    then have small: "ra_buffered_bytes t + ?add \<le> rl_maximum_buffered_bytes (ra_limits t)"
      using ok by (simp add: ra_ok_def sat_add_le_iff)
    show ?thesis
    proof (cases "record_insert st s")
      case (Inl e)
      with acc ok Q budget show ?thesis
        by (auto simp: accept_partial_def Let_def st_def [symmetric] segment_post_def)
    next
      case (Inr st')
      note ok' = record_insert_ok [OF st(1) v Inr]
      have Q': "Q (seg_record_id s) st'" by (rule ins [OF st(2,1) Inr])
      have add: "?add \<le> length (seg_metadata s) + length (seg_data s)"
        by (simp add: additional_bytes_def)
      define rs where "rs = (ra_records t)[i := (seg_record_id s, st')]"
      have rs: "map fst rs = map fst (ra_records t)" "length rs = length (ra_records t)" "i < length rs"
        "set rs \<subseteq> insert (seg_record_id s, st') (set (ra_records t))" "rs ! i = (seg_record_id s, st')"
        using i by (simp_all add: rs_def map_fst_update_at set_update_subset_insert)
      have bytes: "records_bytes rs = ra_buffered_bytes t + ?add"
        using records_bytes_update [OF i(1), of "seg_record_id s" st'] ok ok'(2)
        by (simp add: rs_def st_def [symmetric] ra_ok_def)
      show ?thesis
      proof (cases "record_complete st'")
        case False
        with Inr budget acc have t': "t' = t\<lparr> ra_records := rs, ra_buffered_bytes := ra_buffered_bytes t + ?add \<rparr>"
          and res: "res = Inr None"
          by (auto simp: accept_partial_def Let_def st_def [symmetric] rs_def)
        have "ra_ok t'" using ok rs fresh ok'(1) False bytes small
          by (auto simp: t' ra_ok_def seen_valid_def seen_set_def)
        moreover have "entries Q t'" using Q rs(4) Q' by (auto simp: t' entries_def)
        ultimately show ?thesis using add by (simp add: segment_post_def res t' same_train_def)
      next
        case True
        define c where "c = fst (completed_insert (seg_record_id s) (ra_completed_records t))"
        from True Inr budget acc have t': "t' = t\<lparr> ra_records := remove_at i rs,
            ra_buffered_bytes := ra_buffered_bytes t + ?add - rs_buffered_bytes st',
            ra_completed_records := c \<rparr>"
          and res: "res = Inr (Some (record_finish key (seg_record_id s) st'))"
          by (auto simp: accept_partial_def Let_def st_def [symmetric] rs_def c_def)
        have c: "completed_valid c" "completed_ids c = insert (seg_record_id s) (completed_ids (ra_completed_records t))"
          using ok completed_insert_spec by (simp_all add: c_def ra_ok_def)
        have d: "distinct (map fst (ra_records t))" by (rule strictly_sorted_distinct [OF sorted])
        have bytes': "records_bytes (remove_at i rs) = ra_buffered_bytes t + ?add - rs_buffered_bytes st'"
          using records_bytes_remove [OF rs(3)] bytes by (simp add: rs(5))
        have mem': "(rid, st2) \<in> set (ra_records t)" "rid \<noteq> seg_record_id s" if "(rid, st2) \<in> set (remove_at i rs)" for rid st2
          using that set_remove_at [of i "ra_records t"] remove_at_key [OF d i] by (auto simp: rs_def)
        have "\<forall>(rid, st2)\<in>set (remove_at i rs). record_ok st2 \<and> \<not> record_complete st2 \<and> rid \<notin> completed_ids c"
          using ok mem' by (force simp: ra_ok_def c(2))
        moreover have "length (remove_at i rs) \<le> rl_maximum_active_records (ra_limits t)"
          using ok length_remove_at [of i "ra_records t"] by (simp add: ra_ok_def rs_def)
        ultimately have "ra_ok t'"
          using ok small c(1) bytes' strictly_sorted_remove_at [OF sorted, of i]
          by (simp add: t' ra_ok_def seen_valid_def seen_set_def rs(1))
        moreover have "entries Q t'" using Q mem'(1) by (auto simp: t' entries_def)
        ultimately show ?thesis
          using add Q' ok'(1) True fresh c
          by (auto simp: segment_post_def res t' same_train_def record_finish_def)
      qed
    qed
  qed
qed

definition closed_under :: "(u16 \<Rightarrow> record_state \<Rightarrow> bool) \<Rightarrow> record_segment \<Rightarrow> bool" where
  "closed_under Q s \<longleftrightarrow>
     Q (seg_record_id s) (record_state_new (unat (seg_total_len s))) \<and>
     (\<forall>st st'. Q (seg_record_id s) st \<longrightarrow> record_ok st \<longrightarrow> record_insert st s = Inr st' \<longrightarrow>
        Q (seg_record_id s) st')"

lemma nth_insert_at: "i \<le> length xs \<Longrightarrow> insert_at i x xs ! i = x"
  by (simp add: insert_at_def nth_append)

lemma record_new_incomplete: "\<not> record_complete (record_state_new n)"
  by (simp add: record_complete_def record_state_new_def)

lemma ra_ok_insert_new:
  assumes "ra_ok t" "binary_search_by_key (ra_records t) rid = Inl i"
    "length (ra_records t) < rl_maximum_active_records (ra_limits t)"
    "rid \<notin> completed_ids (ra_completed_records t)"
  shows "ra_ok (t\<lparr> ra_records := insert_at i (rid, record_state_new n) (ra_records t) \<rparr>)"
  using assms strictly_sorted_search_insert [of "map fst (ra_records t)" rid i]
  by (auto simp: ra_ok_def seen_valid_def seen_set_def binary_search_by_key_def records_bytes_insert
      record_ok_new record_new_incomplete) (simp_all add: record_state_new_def)

lemma accept_segment_post:
  assumes ok: "ra_ok t" and Q: "entries Q t" and v: "validate_segment s = Inr ()" and cl: "closed_under Q s"
    and acc: "accept_segment key s t = (t', res)"
  shows "segment_post Q key s t t' res"
proof (cases "completed_contains (ra_completed_records t) (seg_record_id s)")
  case True
  with acc ok Q show ?thesis by (auto simp: accept_segment_def segment_post_def)
next
  case False
  have fresh: "seg_record_id s \<notin> completed_ids (ra_completed_records t)"
    using False ok completed_contains_iff by (simp add: ra_ok_def)
  show ?thesis
  proof (cases "binary_search_by_key (ra_records t) (seg_record_id s)")
    case (Inr i)
    have i: "i < length (ra_records t)" "fst (ra_records t ! i) = seg_record_id s"
      using ok map_of_found [OF _ Inr] by (simp_all add: ra_ok_def)
    show ?thesis
    proof (cases "seg_kind s = Full")
      case True
      with acc ok Q Inr False show ?thesis by (auto simp: accept_segment_def segment_post_def)
    next
      case kind: False
      have "accept_partial key s i t = (t', res)"
        using acc False kind Inr by (simp add: accept_segment_def)
      then show ?thesis
        using cl by (intro accept_partial_post [OF ok Q v i]) (auto simp: closed_under_def)
    qed
  next
    case (Inl i)
    have absent: "map_of (ra_records t) (seg_record_id s) = None" "i \<le> length (ra_records t)"
      using ok map_of_absent [OF _ Inl] by (simp_all add: ra_ok_def)
    show ?thesis
    proof (cases "seg_kind s = Full")
      case True
      define c where "c = fst (completed_insert (seg_record_id s) (ra_completed_records t))"
      have c: "completed_valid c" "completed_ids c = insert (seg_record_id s) (completed_ids (ra_completed_records t))"
        using ok completed_insert_spec by (simp_all add: c_def ra_ok_def)
      have t': "t' = t\<lparr> ra_completed_records := c \<rparr>"
        and res: "res = Inr (Some \<lparr> cr_train = key, cr_record_id = seg_record_id s, cr_metadata = seg_metadata s,
                     cr_total_len = unat (seg_total_len s), cr_fragments = [seg_data s] \<rparr>)"
        using acc False True Inl by (auto simp: accept_segment_def c_def Let_def)
      have "ra_ok t'"
        using ok c absent(1)
        by (auto simp: t' ra_ok_def seen_valid_def seen_set_def map_of_eq_None_iff)
          (metis fst_conv image_eqI)
      with Q c True fresh show ?thesis
        by (simp add: segment_post_def res same_train_def t' entries_def)
    next
      case kind: False
      show ?thesis
      proof (cases "length (ra_records t) < rl_maximum_active_records (ra_limits t)")
        case room: False
        with acc ok Q Inl False kind show ?thesis by (auto simp: accept_segment_def segment_post_def)
      next
        case room: True
        define t1 where "t1 = t\<lparr> ra_records :=
          insert_at i (seg_record_id s, record_state_new (unat (seg_total_len s))) (ra_records t) \<rparr>"
        have ok1: "ra_ok t1" unfolding t1_def by (rule ra_ok_insert_new [OF ok Inl room fresh])
        have Q1: "entries Q t1" using Q cl by (auto simp: t1_def entries_def closed_under_def)
        have i1: "i < length (ra_records t1)" "fst (ra_records t1 ! i) = seg_record_id s"
          using absent(2) by (simp_all add: t1_def nth_insert_at)
        have "accept_partial key s i t1 = (t', res)"
          using acc False kind Inl room by (simp add: accept_segment_def t1_def)
        then have "segment_post Q key s t1 t' res"
          using cl by (intro accept_partial_post [OF ok1 Q1 v i1]) (auto simp: closed_under_def)
        moreover have "same_train t t1" "ra_buffered_bytes t1 = ra_buffered_bytes t"
          "ra_completed_records t1 = ra_completed_records t" by (simp_all add: t1_def same_train_def)
        ultimately show ?thesis
          unfolding segment_post_def using same_train_trans by (auto split: sum.splits option.splits)
      qed
    qed
  qed
qed

text \<open>\<open>yields R Q key s\<close>: whatever record the segment completes satisfies \<open>R\<close>.\<close>

definition yields :: "(completed_record \<Rightarrow> bool) \<Rightarrow> (u16 \<Rightarrow> record_state \<Rightarrow> bool) \<Rightarrow> train_key \<Rightarrow> record_segment \<Rightarrow> bool" where
  "yields R Q key s \<longleftrightarrow>
     (seg_kind s = Full \<longrightarrow> R \<lparr> cr_train = key, cr_record_id = seg_record_id s, cr_metadata = seg_metadata s,
        cr_total_len = unat (seg_total_len s), cr_fragments = [seg_data s] \<rparr>) \<and>
     (\<forall>st. Q (seg_record_id s) st \<longrightarrow> record_ok st \<longrightarrow> record_complete st \<longrightarrow>
        R (record_finish key (seg_record_id s) st))"

definition segments_bytes :: "record_segment list \<Rightarrow> nat" where
  "segments_bytes ss = sum_list (map (\<lambda>s. length (seg_metadata s) + length (seg_data s)) ss)"

definition segment_good :: "(completed_record \<Rightarrow> bool) \<Rightarrow> (u16 \<Rightarrow> record_state \<Rightarrow> bool) \<Rightarrow> train_key \<Rightarrow> record_segment \<Rightarrow> bool" where
  "segment_good R Q key s \<longleftrightarrow> validate_segment s = Inr () \<and> closed_under Q s \<and> yields R Q key s"

definition accept_post :: "(completed_record \<Rightarrow> bool) \<Rightarrow> (u16 \<Rightarrow> record_state \<Rightarrow> bool) \<Rightarrow> nat \<Rightarrow>
    train_reassembler \<Rightarrow> train_reassembler \<Rightarrow> completed_record list option \<Rightarrow> bool" where
  "accept_post R Q n t t' out \<longleftrightarrow>
     ra_ok t' \<and> entries Q t' \<and> ra_limits t' = ra_limits t \<and>
     ra_buffered_bytes t' \<le> ra_buffered_bytes t + n \<and>
     completed_ids (ra_completed_records t) \<subseteq> completed_ids (ra_completed_records t') \<and>
     (case out of None \<Rightarrow> True | Some rs \<Rightarrow>
        list_all R rs \<and> distinct (map cr_record_id rs) \<and>
        set (map cr_record_id rs) \<inter> completed_ids (ra_completed_records t) = {} \<and>
        completed_ids (ra_completed_records t') =
          completed_ids (ra_completed_records t) \<union> set (map cr_record_id rs))"

lemma segment_post_accept:
  assumes post: "segment_post Q key s t t' res" and y: "yields R Q key s"
  shows "accept_post R Q (length (seg_metadata s) + length (seg_data s)) t t'
     (case res of Inl _ \<Rightarrow> None | Inr None \<Rightarrow> Some [] | Inr (Some r) \<Rightarrow> Some [r])"
proof -
  have "R r" if "res = Inr (Some r)" for r
    using post y that by (auto simp: segment_post_def yields_def)
  with post show ?thesis
    by (auto simp: segment_post_def accept_post_def same_train_def split: sum.splits option.splits)
qed

lemma accept_post_trans:
  assumes "accept_post R Q m t t1 (Some rs)" "accept_post R Q n t1 t2 out"
  shows "accept_post R Q (m + n) t t2 (map_option (\<lambda>xs. rs @ xs) out)"
  using assms by (cases out) (auto simp: accept_post_def)

lemma accept_segments_post:
  assumes "ra_ok t" "entries Q t" "\<forall>s\<in>set ss. segment_good R Q key s"
    and "accept_segments key ss completed t = (t', res)"
  shows "same_train t t' \<and> (case res of
      Inl _ \<Rightarrow> accept_post R Q (segments_bytes ss) t t' None
    | Inr rs \<Rightarrow> \<exists>new. rs = completed @ new \<and> accept_post R Q (segments_bytes ss) t t' (Some new))"
  using assms
proof (induction ss arbitrary: t completed)
  case Nil
  then show ?case by (auto simp: accept_post_def segments_bytes_def)
next
  case (Cons s ss)
  obtain t1 res1 where step: "accept_segment key s t = (t1, res1)" by (cases "accept_segment key s t")
  have good: "validate_segment s = Inr ()" "closed_under Q s" "yields R Q key s"
    using Cons.prems(3) by (simp_all add: segment_good_def)
  note post = accept_segment_post [OF Cons.prems(1,2) good(1,2) step]
  note acc = segment_post_accept [OF post good(3)]
  have same: "same_train t t1" "ra_ok t1" "entries Q t1" using post by (simp_all add: segment_post_def)
  have bytes: "segments_bytes (s # ss) = (length (seg_metadata s) + length (seg_data s)) + segments_bytes ss"
    by (simp add: segments_bytes_def)
  show ?case
  proof (cases res1)
    case (Inl e)
    with Cons.prems(4) step acc same show ?thesis
      by (auto simp: accept_post_def bytes)
  next
    case (Inr r)
    define rs where "rs = (case r of None \<Rightarrow> [] | Some x \<Rightarrow> [x])"
    have rest: "accept_segments key ss (completed @ rs) t1 = (t', res)"
      using Cons.prems(4) step Inr by (cases r) (simp_all add: rs_def)
    have acc1: "accept_post R Q (length (seg_metadata s) + length (seg_data s)) t t1 (Some rs)"
      using acc Inr by (cases r) (simp_all add: rs_def)
    have IH: "same_train t1 t' \<and> (case res of
      Inl _ \<Rightarrow> accept_post R Q (segments_bytes ss) t1 t' None
    | Inr out \<Rightarrow> \<exists>new. out = (completed @ rs) @ new \<and> accept_post R Q (segments_bytes ss) t1 t' (Some new))"
      using Cons.IH [OF same(2,3) _ rest] Cons.prems(3) by simp
    show ?thesis
    proof (cases res)
      case (Inl e)
      with IH accept_post_trans [OF acc1, of "segments_bytes ss" t' None] same(1) show ?thesis
        by (auto simp: bytes intro: same_train_trans)
    next
      case (Inr out)
      with IH obtain new where "out = (completed @ rs) @ new" "accept_post R Q (segments_bytes ss) t1 t' (Some new)"
        by auto
      with Inr IH accept_post_trans [OF acc1, of "segments_bytes ss" t' "Some new"] same(1) show ?thesis
        by (auto simp: bytes intro: same_train_trans intro!: exI [of _ "rs @ new"])
    qed
  qed
qed

text \<open>The bookkeeping of a Cell (key, highest sequence, boundary flags, closure) touches none of the
  fields the invariant is about.\<close>

definition same_core :: "train_reassembler \<Rightarrow> train_reassembler \<Rightarrow> bool" where
  "same_core t t' \<longleftrightarrow>
     ra_limits t' = ra_limits t \<and> ra_seen_cells t' = ra_seen_cells t \<and>
     ra_seen_cell_count t' = ra_seen_cell_count t \<and> ra_completed_records t' = ra_completed_records t \<and>
     ra_records t' = ra_records t \<and> ra_buffered_bytes t' = ra_buffered_bytes t"

lemma same_core_refl [simp]: "same_core t t"
  by (simp add: same_core_def)

lemma same_core_trans: "same_core a b \<Longrightarrow> same_core b c \<Longrightarrow> same_core a c"
  by (simp add: same_core_def)

lemma same_core_ok:
  "same_core t t' \<Longrightarrow> ra_ok t' = ra_ok t" "same_core t t' \<Longrightarrow> entries Q t' = entries Q t"
  "same_core t t' \<Longrightarrow> seen_set t' = seen_set t"
  by (simp_all add: same_core_def ra_ok_def entries_def seen_valid_def seen_set_def)

lemma same_core_record_sequence: "same_core t (record_sequence q t)"
  by (simp add: same_core_def record_sequence_def)

lemma same_core_accept_flags: "accept_flags c t = (t', r) \<Longrightarrow> same_core t t'"
  by (auto simp: same_core_def accept_flags_def Let_def split: if_splits option.splits)

lemma same_core_observe_closure: "observe_closure t = (t', n) \<Longrightarrow> same_core t t'"
  by (auto simp: same_core_def observe_closure_def split: if_splits option.splits)

lemma accept_flags_key: "accept_flags c t = (t', r) \<Longrightarrow> ra_key t' = ra_key t"
  by (auto simp: accept_flags_def Let_def split: if_splits option.splits)

lemma observe_closure_key: "observe_closure t = (t', n) \<Longrightarrow> ra_key t' = ra_key t"
  by (auto simp: observe_closure_def split: if_splits option.splits)

lemma accept_post_core: "same_core t t1 \<Longrightarrow> accept_post R Q n t1 t2 out \<Longrightarrow> accept_post R Q n t t2 out"
  by (cases out) (simp_all add: accept_post_def same_core_def)

lemma accept_post_refl: "ra_ok t \<Longrightarrow> entries Q t \<Longrightarrow> same_core t t' \<Longrightarrow> accept_post R Q n t t' None"
  "ra_ok t \<Longrightarrow> entries Q t \<Longrightarrow> same_core t t' \<Longrightarrow> accept_post R Q n t t' (Some [])"
  by (auto simp: accept_post_def same_core_ok) (simp_all add: same_core_def)

lemma mark_cell_seen_sel [simp]:
  "ra_limits (fst (mark_cell_seen q t)) = ra_limits t" "ra_key (fst (mark_cell_seen q t)) = ra_key t"
  "ra_completed_records (fst (mark_cell_seen q t)) = ra_completed_records t"
  "ra_records (fst (mark_cell_seen q t)) = ra_records t"
  "ra_buffered_bytes (fst (mark_cell_seen q t)) = ra_buffered_bytes t"
  "ra_end_sequence (fst (mark_cell_seen q t)) = ra_end_sequence t"
  "ra_saw_start (fst (mark_cell_seen q t)) = ra_saw_start t"
  by (simp_all add: mark_cell_seen_def Let_def)

lemma ra_ok_mark:
  assumes "ra_ok t" "unat q < rl_maximum_cells (ra_limits t)"
  shows "ra_ok (fst (mark_cell_seen q t))" "entries Q (fst (mark_cell_seen q t)) = entries Q t"
    "accept_post R Q n (fst (mark_cell_seen q t)) t2 out = accept_post R Q n t t2 out"
proof -
  have "seen_valid (fst (mark_cell_seen q t))"
    using assms by (intro mark_cell_seen_spec) (simp_all add: ra_ok_def seen_domain_def)
  with assms(1) show "ra_ok (fst (mark_cell_seen q t))"
    by (simp add: ra_ok_def)
  show "entries Q (fst (mark_cell_seen q t)) = entries Q t"
    by (simp add: entries_def)
  show "accept_post R Q n (fst (mark_cell_seen q t)) t2 out = accept_post R Q n t t2 out"
    by (cases out) (simp_all add: accept_post_def)
qed

definition out_records :: "reassembly_output result \<Rightarrow> completed_record list option" where
  "out_records res = (case res of Inl _ \<Rightarrow> None | Inr out \<Rightarrow> Some (ro_records out))"

lemma out_records_simps [simp]:
  "out_records (Inl e) = None" "out_records (Inr out) = Some (ro_records out)"
  by (simp_all add: out_records_def)

lemma accept_body_post:
  assumes ok: "ra_ok t" "entries Q t" and good: "\<forall>s\<in>set (cell_segments c). segment_good R Q key s"
    and acc: "accept_body key c n t = (t', res)"
  shows "accept_post R Q (segments_bytes (cell_segments c)) t t' (out_records res) \<and>
    seen_set t' = seen_set t \<and> ra_key t' = ra_key t"
proof -
  obtain t1 r1 where f: "accept_flags c t = (t1, r1)" by (cases "accept_flags c t")
  obtain t2 missing where o: "observe_closure t1 = (t2, missing)" by (cases "observe_closure t1")
  have core: "same_core t t1" "same_core t t2"
    using same_core_accept_flags [OF f] same_core_observe_closure [OF o] by (auto intro: same_core_trans)
  have ok1: "ra_ok t1" "entries Q t1" and ok2: "ra_ok t2" "entries Q t2"
    using ok core same_core_ok by auto
  have key: "ra_key t1 = ra_key t" "ra_key t2 = ra_key t"
    using accept_flags_key [OF f] observe_closure_key [OF o] by simp_all
  show ?thesis
  proof (cases r1)
    case (Inl e)
    with acc f ok core key show ?thesis
      by (auto simp: accept_body_def same_core_ok intro: accept_post_refl)
  next
    case (Inr u)
    show ?thesis
    proof (cases "cell_body c")
      case (Parity p)
      with acc f o Inr ok core key show ?thesis
        by (auto simp: accept_body_def same_core_ok intro: accept_post_refl)
    next
      case (Records ss)
      obtain t3 r3 where a: "accept_segments key ss [] t2 = (t3, r3)" by (cases "accept_segments key ss [] t2")
      have "\<forall>s\<in>set ss. segment_good R Q key s" using good Records by (simp add: cell_segments_def)
      note post = accept_segments_post [OF ok2 this a]
      have seen: "seen_set t3 = seen_set t" "ra_key t3 = ra_key t"
        using post seen_cong(1) [of t2 t3] core(2) same_core_ok(3) key(2) by (auto simp: same_train_def)
      show ?thesis
      proof (cases r3)
        case (Inl e)
        with acc f o Inr Records a post core(2) seen show ?thesis
          by (auto simp: accept_body_def cell_segments_def intro: accept_post_core)
      next
        case r3: (Inr out)
        with acc f o Inr Records a have r: "t' = t3" "res = Inr (reassembly_output_of out False (is_complete t3) n missing)"
          by (auto simp: accept_body_def)
        have "accept_post R Q (segments_bytes ss) t2 t3 (Some out)" using post r3 by auto
        with core(2) seen Records show ?thesis
          by (auto simp: r cell_segments_def reassembly_output_of_def intro: accept_post_core)
      qed
    qed
  qed
qed

lemma accept_cell_post:
  assumes ok: "ra_ok t" "entries Q t"
    and good: "\<forall>s\<in>set (cell_segments c). segment_good R Q (cell_train_key c) s"
    and acc: "accept_cell c t = (t', res)"
  shows "accept_post R Q (if cell_seen t (cell_sequence c) then 0 else segments_bytes (cell_segments c))
    t t' (out_records res)"
proof -
  define t0 where "t0 = t\<lparr> ra_key := Some (cell_train_key c) \<rparr>"
  have core: "same_core t t0" and lim: "ra_limits t0 = ra_limits t" by (simp_all add: t0_def same_core_def)
  show ?thesis
  proof (cases "ra_key t \<noteq> None \<and> ra_key t \<noteq> Some (cell_train_key c) \<or>
      \<not> unat (cell_sequence c) < rl_maximum_cells (ra_limits t)")
    case True
    then have "same_core t t'" "\<exists>e. res = Inl e"
      using acc core by (auto simp: accept_cell_def t0_def [symmetric] Let_def lim split: if_splits)
    then show ?thesis using ok accept_post_refl(1) by auto
  next
    case False
    then have q: "unat (cell_sequence c) < rl_maximum_cells (ra_limits t)"
      "unat (cell_sequence c) < rl_maximum_cells (ra_limits t0)" by (auto simp: lim)
    have ok0: "ra_ok t0" "entries Q t0" using ok core same_core_ok by auto
    define t1 where "t1 = fst (mark_cell_seen (cell_sequence c) t0)"
    have seen: "snd (mark_cell_seen (cell_sequence c) t0) \<longleftrightarrow> \<not> cell_seen t (cell_sequence c)"
      using ok0 q ok core
      by (simp add: mark_cell_seen_spec cell_seen_iff ra_ok_def seen_domain_def same_core_ok)
    have ok1: "ra_ok t1" "entries Q t1" using ra_ok_mark [OF ok0(1) q(2)] ok0 by (simp_all add: t1_def)
    show ?thesis
    proof (cases "cell_seen t (cell_sequence c)")
      case True
      with seen have "mark_cell_seen (cell_sequence c) t0 = (t0, False)"
        by (auto simp: mark_cell_seen_def Let_def split: if_splits)
      with acc False have "t' = t0" "out_records res = Some []"
        by (auto simp: accept_cell_def t0_def [symmetric] Let_def lim reassembly_output_of_def)
      with accept_post_refl(2) [OF ok core] show ?thesis by simp
    next
      case new: False
      then have m: "mark_cell_seen (cell_sequence c) t0 = (t1, True)"
        using seen by (simp add: t1_def prod_eq_iff)
      define t2 where "t2 = record_sequence (cell_sequence c) t1"
      have core2: "same_core t1 t2" by (simp add: t2_def same_core_record_sequence)
      then have ok2: "ra_ok t2" "entries Q t2" using ok1 same_core_ok by auto
      obtain n where "accept_body (cell_train_key c) c n t2 = (t', res)"
        using acc False m by (auto simp: accept_cell_def t0_def [symmetric] Let_def t2_def lim)
      from accept_body_post [OF ok2 good this] core2
      have "accept_post R Q (segments_bytes (cell_segments c)) t1 t' (out_records res)"
        by (auto intro: accept_post_core)
      then have "accept_post R Q (segments_bytes (cell_segments c)) t0 t' (out_records res)"
        unfolding t1_def ra_ok_mark(3) [OF ok0(1) q(2)] .
      with new core show ?thesis by (auto intro: accept_post_core)
    qed
  qed
qed

lemma segment_good_trivial: "validate_segment s = Inr () \<Longrightarrow> segment_good (\<lambda>_. True) (\<lambda>_ _. True) key s"
  by (simp add: segment_good_def closed_under_def yields_def)

lemma reassembler_new_ok:
  assumes "reassembler_new l = Inr t" "rl_maximum_buffered_bytes l < usize_max"
  shows "ra_ok t" "ra_records t = []" "completed_ids (ra_completed_records t) = {}" "seen_set t = {}"
    "ra_limits t = l" "ra_key t = None" "ra_end_sequence t = None" "\<not> ra_saw_start t"
proof -
  have l: "validate_limits l = Inr ()" and t: "t = \<lparr> ra_limits = l, ra_key = None,
           ra_seen_cells = replicate (div_ceil (rl_maximum_cells l) 64) 0,
           ra_seen_cell_count = 0, ra_max_seen_sequence = None,
           ra_completed_records = completed_new, ra_records = [], ra_end_sequence = None,
           ra_saw_start = False, ra_closure_observed = False, ra_buffered_bytes = 0 \<rparr>"
    using assms(1) by (auto simp: reassembler_new_def result_iff)
  show s: "seen_set t = {}" by (auto simp: t seen_set_def nth_replicate seen_word_in_range)
  show "ra_ok t"
    using l assms(2) s by (simp add: ra_ok_def seen_valid_def) (simp add: t completed_new_def records_bytes_def)
  show "ra_records t = []" "completed_ids (ra_completed_records t) = {}" "ra_limits t = l" "ra_key t = None"
    "ra_end_sequence t = None" "\<not> ra_saw_start t" by (simp_all add: t completed_new_def)
qed

section \<open>Integrity: what is delivered is what was sent\<close>

fun accept_all :: "cell_v2 list \<Rightarrow> train_reassembler \<Rightarrow> train_reassembler \<times> reassembly_output result list" where
  "accept_all [] t = (t, [])"
| "accept_all (c # cs) t =
     (case accept_cell c t of (t1, res) \<Rightarrow> case accept_all cs t1 of (t2, rest) \<Rightarrow> (t2, res # rest))"

definition delivered :: "reassembly_output result list \<Rightarrow> completed_record list" where
  "delivered outs = concat (map (\<lambda>res. case res of Inl _ \<Rightarrow> [] | Inr out \<Rightarrow> ro_records out) outs)"

lemma delivered_simps [simp]:
  "delivered [] = []"
  "delivered (res # outs) = (case out_records res of None \<Rightarrow> [] | Some rs \<Rightarrow> rs) @ delivered outs"
  by (auto simp: delivered_def out_records_def split: sum.splits)

text \<open>A segment cut from the record whose data and metadata are \<open>D\<close> and \<open>M\<close> of its id.\<close>

definition cut_from :: "(u16 \<Rightarrow> bytes) \<Rightarrow> (u16 \<Rightarrow> bytes) \<Rightarrow> record_segment \<Rightarrow> bool" where
  "cut_from D M s \<longleftrightarrow>
     (let d = D (seg_record_id s); off = unat (seg_offset s) in
      unat (seg_total_len s) = length d \<and> seg_data s = slice off (off + length (seg_data s)) d \<and>
      (off = 0 \<longrightarrow> seg_metadata s = M (seg_record_id s)))"

definition is_record :: "(u16 \<Rightarrow> bytes) \<Rightarrow> (u16 \<Rightarrow> bytes) \<Rightarrow> completed_record \<Rightarrow> bool" where
  "is_record D M r \<longleftrightarrow>
     coalesce r = D (cr_record_id r) \<and> cr_metadata r = M (cr_record_id r) \<and>
     cr_total_len r = length (D (cr_record_id r))"

definition consistent :: "(u16 \<Rightarrow> bytes) \<Rightarrow> (u16 \<Rightarrow> bytes) \<Rightarrow> u16 \<Rightarrow> record_state \<Rightarrow> bool" where
  "consistent D M rid st \<longleftrightarrow>
     rs_total_len st = length (D rid) \<and> agrees (D rid) (rs_offsets st) (rs_fragments st) \<and>
     (rs_metadata st = None \<or> rs_metadata st = Some (M rid))"

lemma opens_record_offset: "validate_segment s = Inr u \<Longrightarrow> opens_record s \<Longrightarrow> seg_offset s = 0"
  by (drule validate_segmentD(8)) (cases "seg_kind s"; simp add: result_iff opens_record_def)

lemma full_segment_end: "validate_segment s = Inr u \<Longrightarrow> seg_kind s = Full \<Longrightarrow>
    seg_offset s = 0 \<and> length (seg_data s) = unat (seg_total_len s)"
  by (drule validate_segmentD(8)) (auto simp: result_iff segment_end_def)

lemma cut_from_good:
  assumes v: "validate_segment s = Inr ()" and cut: "cut_from D M s"
  shows "segment_good (is_record D M) (consistent D M) key s"
proof -
  let ?d = "D (seg_record_id s)"
  have "consistent D M (seg_record_id s) (record_state_new (unat (seg_total_len s)))"
    using cut by (simp add: consistent_def record_state_new_def cut_from_def Let_def agrees_def)
  moreover have "consistent D M (seg_record_id s) st'"
    if c: "consistent D M (seg_record_id s) st" and ins: "record_insert st s = Inr st'" for st st'
  proof -
    note d = record_insert_InrD [OF ins]
    have "seg_data s = slice (unat (seg_offset s)) (unat (seg_offset s) + length (seg_data s)) ?d"
      using cut unfolding cut_from_def Let_def by blast
    then have "agrees ?d (rs_offsets st') (rs_fragments st')"
      using c unfolding d(3,4) by (intro agrees_insert_at) (simp_all add: consistent_def)
    moreover have "opens_record s \<Longrightarrow> seg_metadata s = M (seg_record_id s)"
      using cut opens_record_offset [OF v] by (simp add: cut_from_def Let_def)
    ultimately show ?thesis using c d(2,6) by (simp add: consistent_def)
  qed
  ultimately have cl: "closed_under (consistent D M) s" by (simp add: closed_under_def)
  have full: "seg_data s = ?d" "seg_metadata s = M (seg_record_id s)" if "seg_kind s = Full"
  proof -
    have z: "unat (seg_offset s) = 0" "length (seg_data s) = length ?d"
      using full_segment_end [OF v that] cut by (simp_all add: cut_from_def Let_def)
    have "seg_data s = slice (unat (seg_offset s)) (unat (seg_offset s) + length (seg_data s)) ?d"
      using cut unfolding cut_from_def Let_def by blast
    then show "seg_data s = ?d" using z by (simp add: slice_full)
    show "seg_metadata s = M (seg_record_id s)" using cut z by (simp add: cut_from_def Let_def)
  qed
  have "is_record D M (record_finish key (seg_record_id s) st)"
    if c: "consistent D M (seg_record_id s) st" and ok: "record_ok st" "record_complete st" for st
  proof -
    have "concat (rs_fragments st) = slice 0 (rs_total_len st) ?d"
      using c ok by (intro chain_full) (auto simp: record_ok_def record_complete_def consistent_def)
    then show ?thesis
      using c ok by (auto simp: is_record_def record_finish_def coalesce_eq consistent_def record_complete_def slice_full)
  qed
  moreover have "unat (seg_total_len s) = length ?d" using cut by (simp add: cut_from_def Let_def)
  ultimately have "yields (is_record D M) (consistent D M) key s"
    using full by (simp add: yields_def is_record_def coalesce_eq)
  with v cl show ?thesis by (simp add: segment_good_def)
qed

lemma accept_all_integrity:
  assumes "ra_ok t" "entries Q t"
    and "\<forall>c\<in>set cs. \<forall>s\<in>set (cell_segments c). segment_good R Q (cell_train_key c) s"
    and "accept_all cs t = (t', outs)"
  shows "ra_ok t' \<and> entries Q t' \<and> list_all R (delivered outs) \<and> distinct (map cr_record_id (delivered outs)) \<and>
    set (map cr_record_id (delivered outs)) \<inter> completed_ids (ra_completed_records t) = {} \<and>
    set (map cr_record_id (delivered outs)) \<union> completed_ids (ra_completed_records t)
      \<subseteq> completed_ids (ra_completed_records t')"
  using assms
proof (induction cs arbitrary: t outs)
  case Nil
  then show ?case by auto
next
  case (Cons c cs)
  obtain t1 res where step: "accept_cell c t = (t1, res)" by (cases "accept_cell c t")
  obtain rest where rest: "accept_all cs t1 = (t', rest)" "outs = res # rest"
    using Cons.prems(4) step by (cases "accept_all cs t1") auto
  have post: "accept_post R Q (if cell_seen t (cell_sequence c) then 0 else segments_bytes (cell_segments c))
      t t1 (out_records res)"
    using Cons.prems by (intro accept_cell_post [OF _ _ _ step]) auto
  then have "ra_ok t1" "entries Q t1" by (simp_all add: accept_post_def)
  then have IH: "ra_ok t' \<and> entries Q t' \<and> list_all R (delivered rest) \<and> distinct (map cr_record_id (delivered rest)) \<and>
    set (map cr_record_id (delivered rest)) \<inter> completed_ids (ra_completed_records t1) = {} \<and>
    set (map cr_record_id (delivered rest)) \<union> completed_ids (ra_completed_records t1)
      \<subseteq> completed_ids (ra_completed_records t')"
    using Cons.prems(3) rest(1) by (intro Cons.IH) auto
  with post show ?case
    by (cases "out_records res") (auto simp: rest(2) accept_post_def)
qed

section \<open>Properties\<close>

text \<open>Two Cells of one record, delivered in reverse order with a repetition, for the witnesses.\<close>

definition demo_limits :: reassembly_limits where
  "demo_limits = \<lparr> rl_maximum_cells = 64, rl_maximum_active_records = 8, rl_maximum_buffered_bytes = 65536 \<rparr>"

definition demo_part :: "u16 \<Rightarrow> u8 \<Rightarrow> record_segment \<Rightarrow> cell_v2" where
  "demo_part q f s = \<lparr> cell_class = Bulk, cell_flags = f, cell_session_epoch = 7, cell_route_label = 9,
     cell_train_id = 11, cell_sequence = q, cell_stripe_id = 0, cell_overlay_hop_limit = 3,
     cell_overlay_hops = 0, cell_body = Records [s] \<rparr>"

definition demo_first :: cell_v2 where
  "demo_first = demo_part 0 1 \<lparr> seg_kind = Start, seg_flags = 0, seg_record_id = 1, seg_total_len = 5,
     seg_offset = 0, seg_metadata = [9], seg_data = [1, 2, 3] \<rparr>"

definition demo_second :: cell_v2 where
  "demo_second = demo_part 1 2 \<lparr> seg_kind = End, seg_flags = 0, seg_record_id = 1, seg_total_len = 5,
     seg_offset = 3, seg_metadata = [], seg_data = [4, 5] \<rparr>"

definition demo_reassembler :: train_reassembler where
  "demo_reassembler = \<lparr> ra_limits = demo_limits, ra_key = None, ra_seen_cells = [0],
     ra_seen_cell_count = 0, ra_max_seen_sequence = None, ra_completed_records = Small [],
     ra_records = [], ra_end_sequence = None, ra_saw_start = False, ra_closure_observed = False,
     ra_buffered_bytes = 0 \<rparr>"

lemma demo_reassembler_new: "reassembler_new demo_limits = Inr demo_reassembler"
  by (simp add: reassembler_new_def demo_reassembler_def validate_limits_def demo_limits_def u16_max_def
      MAX_RECORD_BYTES_def completed_new_def div_ceil_def)

lemmas reassembly_eval =
  demo_limits_def demo_reassembler_def demo_first_def demo_second_def demo_part_def
  accept_cell_def Let_def mark_cell_seen_def accept_body_def accept_flags_def observe_closure_def
  accept_segment_def accept_partial_def record_sequence_def seen_bit_def binary_search_def
  binary_search_by_key_def partition_point_def insert_at_def remove_at_def record_state_new_def
  additional_bytes_def record_insert_def record_store_def record_complete_def record_finish_def
  reassembly_output_of_def is_complete_def FLAG_TRAIN_START_def FLAG_TRAIN_END_def sat_add_def
  usize_max_def COMPLETED_RECORD_SMALL_LIMIT_def cell_train_key_def

text \<open>C11. Integrity of reassembly: if every segment received is cut from its record, then for any
  order, loss and repetition of Cells every record delivered is exactly the record sent (data,
  metadata and length), no record is delivered twice, and the buffered bytes stay within the limit.
  In particular the byte count that \<open>RecordState::complete\<close> tests implies there is no hole.\<close>

theorem reassembly_integrity:
  assumes "reassembler_new l = Inr t" and "rl_maximum_buffered_bytes l < usize_max"
    and "\<forall>c\<in>set cs. \<forall>s\<in>set (cell_segments c). validate_segment s = Inr () \<and> cut_from D M s"
    and "accept_all cs t = (t', outs)"
  shows "(\<forall>r\<in>set (delivered outs). coalesce r = D (cr_record_id r) \<and> cr_metadata r = M (cr_record_id r) \<and>
      cr_total_len r = length (D (cr_record_id r))) \<and>
    distinct (map cr_record_id (delivered outs)) \<and>
    ra_buffered_bytes t' = records_bytes (ra_records t') \<and>
    ra_buffered_bytes t' \<le> rl_maximum_buffered_bytes (ra_limits t')"
proof -
  note new = reassembler_new_ok [OF assms(1,2)]
  have "entries (consistent D M) t" using new(2) by (simp add: entries_def)
  moreover have "\<forall>c\<in>set cs. \<forall>s\<in>set (cell_segments c).
      segment_good (is_record D M) (consistent D M) (cell_train_key c) s"
    using assms(3) cut_from_good by blast
  ultimately have "ra_ok t' \<and> list_all (is_record D M) (delivered outs) \<and> distinct (map cr_record_id (delivered outs))"
    using accept_all_integrity [OF new(1) _ _ assms(4)] by blast
  then show ?thesis by (auto simp: list_all_iff is_record_def ra_ok_def)
qed


theorem reassembly_integrity_witness:
  "\<exists>r. delivered (snd (accept_all [demo_second, demo_second, demo_first] demo_reassembler)) = [r] \<and>
     coalesce r = [1, 2, 3, 4, 5] \<and> cr_metadata r = [9]"
proof -
  let ?cs = "[demo_second, demo_second, demo_first]"
  obtain t' outs where run: "accept_all ?cs demo_reassembler = (t', outs)"
    by (cases "accept_all ?cs demo_reassembler")
  have "length (delivered (snd (accept_all ?cs demo_reassembler))) = 1"
    by (simp add: reassembly_eval)
  then obtain r where r: "delivered outs = [r]" unfolding run by (auto simp: length_Suc_conv)
  have good: "\<forall>c\<in>set ?cs. \<forall>s\<in>set (cell_segments c).
      validate_segment s = Inr () \<and> cut_from (\<lambda>_. [1, 2, 3, 4, 5]) (\<lambda>_. [9]) s"
    by (simp add: demo_first_def demo_second_def demo_part_def cell_segments_def validate_segment_def
        segment_end_def cut_from_def slice_def cell_consts u16_max_def u32_max_def)
  from reassembly_integrity [OF demo_reassembler_new _ good run] r show ?thesis
    unfolding run by (simp add: demo_limits_def usize_max_def)
qed

lemma accept_cell_seen:
  assumes ok: "ra_ok t" and acc: "accept_cell c t = (t', res)"
    and v: "\<forall>s\<in>set (cell_segments c). validate_segment s = Inr ()"
  shows "ra_ok t'" "seen_set t \<subseteq> seen_set t'" "ra_key t \<noteq> None \<Longrightarrow> ra_key t' = ra_key t"
    "is_ok res \<Longrightarrow> ra_key t' = Some (cell_train_key c) \<and> cell_sequence c \<in> seen_set t'"
proof -
  let ?q = "cell_sequence c" and ?k = "Some (cell_train_key c)"
  have good: "\<forall>s\<in>set (cell_segments c). segment_good (\<lambda>_. True) (\<lambda>_ _. True) (cell_train_key c) s"
    using v segment_good_trivial by blast
  then show "ra_ok t'"
    using accept_cell_post [OF ok _ _ acc, of "\<lambda>_ _. True" "\<lambda>_. True"]
    by (simp add: accept_post_def entries_def)
  define t0 where "t0 = t\<lparr> ra_key := Some (cell_train_key c) \<rparr>"
  have core: "same_core t t0" and lim: "ra_limits t0 = ra_limits t" and key0: "ra_key t0 = ?k"
    by (simp_all add: t0_def same_core_def)
  have "seen_set t \<subseteq> seen_set t' \<and> (ra_key t \<noteq> None \<longrightarrow> ra_key t' = ra_key t) \<and>
      (is_ok res \<longrightarrow> ra_key t' = ?k \<and> ?q \<in> seen_set t')"
  proof (cases "ra_key t \<noteq> None \<and> ra_key t \<noteq> ?k \<or> \<not> unat ?q < rl_maximum_cells (ra_limits t)")
    case True
    then have "(t' = t \<or> t' = t0 \<and> (ra_key t = None \<or> ra_key t = ?k)) \<and> \<not> is_ok res"
      using acc by (auto simp: accept_cell_def t0_def [symmetric] Let_def lim split: if_splits)
    then show ?thesis using same_core_ok(3) [OF core] key0 by auto
  next
    case False
    then have q: "unat ?q < rl_maximum_cells (ra_limits t0)" by (simp add: lim)
    have ok0: "ra_ok t0" using ok core same_core_ok by auto
    define t1 where "t1 = fst (mark_cell_seen ?q t0)"
    have seen1: "seen_set t1 = insert ?q (seen_set t)" and key1: "ra_key t1 = ?k"
      using ok0 q same_core_ok(3) [OF core]
      by (simp_all add: t1_def mark_cell_seen_spec ra_ok_def seen_domain_def key0)
    have "seen_set t' = seen_set t1 \<and> ra_key t' = ra_key t1"
    proof (cases "snd (mark_cell_seen ?q t0)")
      case dup: False
      then have "mark_cell_seen ?q t0 = (t1, False)" by (simp add: t1_def prod_eq_iff)
      with acc False have "t' = t1" by (auto simp: accept_cell_def t0_def [symmetric] Let_def lim)
      then show ?thesis by simp
    next
      case True
      then have m: "mark_cell_seen ?q t0 = (t1, True)" by (simp add: t1_def prod_eq_iff)
      define t2 where "t2 = record_sequence ?q t1"
      have core2: "same_core t1 t2" by (simp add: t2_def same_core_record_sequence)
      have ok2: "ra_ok t2" "entries (\<lambda>_ _. True) t2"
        using ra_ok_mark(1) [OF ok0 q] core2 same_core_ok(1) by (auto simp: t1_def entries_def)
      obtain n where "accept_body (cell_train_key c) c n t2 = (t', res)"
        using acc False m by (auto simp: accept_cell_def t0_def [symmetric] Let_def lim t2_def)
      from accept_body_post [OF ok2 good this] core2 show ?thesis
        by (auto simp: same_core_ok(3) t2_def record_sequence_def)
    qed
    with seen1 key1 False show ?thesis by auto
  qed
  then show "seen_set t \<subseteq> seen_set t'" "ra_key t \<noteq> None \<Longrightarrow> ra_key t' = ra_key t"
    "is_ok res \<Longrightarrow> ra_key t' = ?k \<and> ?q \<in> seen_set t'" by blast+
qed

lemma accept_all_seen:
  assumes "ra_ok t" "accept_all cs t = (t', outs)"
    "\<forall>c\<in>set cs. \<forall>s\<in>set (cell_segments c). validate_segment s = Inr ()"
  shows "ra_ok t'" "seen_set t \<subseteq> seen_set t'" "ra_key t \<noteq> None \<Longrightarrow> ra_key t' = ra_key t"
proof -
  have "ra_ok t' \<and> seen_set t \<subseteq> seen_set t' \<and> (ra_key t \<noteq> None \<longrightarrow> ra_key t' = ra_key t)"
    using assms
  proof (induction cs arbitrary: t outs)
    case (Cons c cs)
    obtain t1 res rest where step: "accept_cell c t = (t1, res)" and rest: "accept_all cs t1 = (t', rest)"
      using Cons.prems(2) by (auto split: prod.splits)
    have v: "\<forall>s\<in>set (cell_segments c). validate_segment s = Inr ()" using Cons.prems(3) by simp
    note one = accept_cell_seen [OF Cons.prems(1) step v]
    from Cons.IH [OF one(1) rest] Cons.prems(3) one(2,3) show ?case by auto
  qed simp
  then show "ra_ok t'" "seen_set t \<subseteq> seen_set t'" "ra_key t \<noteq> None \<Longrightarrow> ra_key t' = ra_key t" by blast+
qed

text \<open>C12. A Cell that was accepted once is a duplicate for good: whatever Cells came before it and
  whatever Cells come after it (in any order, accepted or refused), when a Cell with its train key and
  sequence arrives again (the same copy, or one that took another path and has other hop counts) it is
  reported as a duplicate, delivers nothing and leaves the state of the train exactly as it was.\<close>

theorem duplicate_cell_idempotent:
  assumes "reassembler_new l = Inr t0" and "rl_maximum_buffered_bytes l < usize_max"
    and "\<forall>b\<in>set (before @ c # after). \<forall>s\<in>set (cell_segments b). validate_segment s = Inr ()"
    and "accept_all before t0 = (t1, outs1)" and "accept_cell c t1 = (t2, Inr out)"
    and "accept_all after t2 = (t3, outs2)"
    and "cell_train_key c' = cell_train_key c" and "cell_sequence c' = cell_sequence c"
  shows "accept_cell c' t3 = (t3, Inr (reassembly_output_of [] True (is_complete t3) 0 0))"
proof -
  let ?q = "cell_sequence c" and ?k = "cell_train_key c"
  have v: "\<forall>s\<in>set (cell_segments c). validate_segment s = Inr ()" using assms(3) by simp
  have ok1: "ra_ok t1"
    using accept_all_seen(1) [OF reassembler_new_ok(1) [OF assms(1,2)] assms(4)] assms(3) by auto
  note one = accept_cell_seen [OF ok1 assms(5) v]
  note rest = accept_all_seen [OF one(1) assms(6)]
  have ok3: "ra_ok t3" and seen: "?q \<in> seen_set t3" and key: "ra_key t3 = Some ?k"
    using rest one(4) assms(3) by auto
  have "\<not> snd (mark_cell_seen ?q t3)"
    using ok3 seen mark_cell_seen_spec(2) [of t3 ?q] by (simp add: ra_ok_def seen_domain_def seen_set_def)
  then have "mark_cell_seen ?q t3 = (t3, False)"
    by (auto simp: mark_cell_seen_def Let_def split: if_splits)
  moreover have same: "t3\<lparr> ra_key := Some ?k \<rparr> = t3" using key by (cases t3) simp
  moreover have "unat ?q < rl_maximum_cells (ra_limits t3)" using seen by (simp add: seen_set_def)
  ultimately show ?thesis using key assms(7,8) by (simp add: accept_cell_def Let_def same)
qed

theorem duplicate_cell_idempotent_witness:
  "let t1 = fst (accept_cell demo_second demo_reassembler); t3 = fst (accept_cell demo_first t1) in
     accept_cell (demo_second\<lparr> cell_overlay_hops := 1 \<rparr>) t3 =
       (t3, Inr (reassembly_output_of [] True True 0 0))"
proof -
  obtain t2 where t2: "accept_cell demo_second demo_reassembler = (t2, Inr (reassembly_output_of [] False False 0 0))"
    by (simp add: reassembly_eval)
  obtain t3 outs where run: "accept_all [demo_first] t2 = (t3, outs)" by fastforce
  have c: "t3 = fst (accept_cell demo_first t2)" using run by (auto split: prod.splits)
  have "is_complete (fst (accept_cell demo_first (fst (accept_cell demo_second demo_reassembler))))"
    by (simp add: reassembly_eval)
  then have "is_complete t3" by (simp add: c t2)
  moreover have "\<forall>b\<in>set ([] @ demo_second # [demo_first]). \<forall>s\<in>set (cell_segments b). validate_segment s = Inr ()"
    by (simp add: demo_first_def demo_second_def demo_part_def cell_segments_def validate_segment_def
        segment_end_def cell_consts u16_max_def u32_max_def)
  note duplicate_cell_idempotent [OF demo_reassembler_new _ this _ t2 run, of "[]" "demo_second\<lparr> cell_overlay_hops := 1 \<rparr>"]
  ultimately show ?thesis
    by (simp add: c t2 Let_def demo_limits_def usize_max_def cell_train_key_def)
qed

end
