(* ===== verification/Delivery.thy ===== *)
theory Delivery
  imports Reassembly
begin

text \<open>
  From the train builder to the reassembler: the Cells of a built train, received completely, in
  any order and with any repetitions, deliver every record and complete the train. The argument
  is made for any set of segments that tile their records (\<open>layout\<close>) and then applied to the
  trains of \<open>build_packet_train\<close>.
\<close>

section \<open>Segments that tile records\<close>

definition part :: "record_segment set \<Rightarrow> u16 \<Rightarrow> record_segment set" where
  "part A rid = {s \<in> A. seg_record_id s = rid}"

definition placed :: "record_segment \<Rightarrow> nat \<times> bytes" where
  "placed s = (unat (seg_offset s), seg_data s)"

definition data_sum :: "record_segment set \<Rightarrow> nat" where
  "data_sum A = (\<Sum>s\<in>A. length (seg_data s))"

definition byte_sum :: "record_segment set \<Rightarrow> nat" where
  "byte_sum A = (\<Sum>s\<in>A. length (seg_metadata s) + length (seg_data s))"

definition apart :: "record_segment \<Rightarrow> record_segment \<Rightarrow> bool" where
  "apart p s \<longleftrightarrow> segment_end p \<le> unat (seg_offset s) \<or> segment_end s \<le> unat (seg_offset p)"

definition layout :: "record_segment set \<Rightarrow> bool" where
  "layout A \<longleftrightarrow> finite A \<and> (\<forall>s\<in>A. validate_segment s = Inr ()) \<and>
     (\<forall>p\<in>A. \<forall>s\<in>A. seg_record_id p = seg_record_id s \<longrightarrow>
        seg_total_len p = seg_total_len s \<and> (p \<noteq> s \<longrightarrow> apart p s)) \<and>
     (\<forall>s\<in>A. data_sum (part A (seg_record_id s)) = unat (seg_total_len s) \<and>
        (\<exists>p\<in>part A (seg_record_id s). seg_offset p = 0))"

lemma part_insert: "part (insert s T) rid = (if seg_record_id s = rid then insert s (part T rid) else part T rid)"
  by (auto simp: part_def)

lemma part_mono: "T \<subseteq> A \<Longrightarrow> part T rid \<subseteq> part A rid"
  by (auto simp: part_def)

lemma layoutD:
  assumes "layout A" "p \<in> A" "s \<in> A" "seg_record_id p = seg_record_id s"
  shows "seg_total_len p = seg_total_len s" "p \<noteq> s \<Longrightarrow> apart p s" "validate_segment s = Inr ()"
    "data_sum (part A (seg_record_id s)) = unat (seg_total_len s)"
    "\<exists>p\<in>part A (seg_record_id s). seg_offset p = 0" "finite A"
  using assms unfolding layout_def by blast+

lemma segment_nonempty: "validate_segment s = Inr u \<Longrightarrow> unat (seg_offset s) < segment_end s"
  using validate_segmentD(2) by (simp add: segment_end_def)

lemma placed_inj:
  assumes "layout A"
  shows "inj_on placed (part A rid)"
proof (rule inj_onI, rule ccontr)
  fix p s
  assume ps: "p \<in> part A rid" "s \<in> part A rid" "placed p = placed s" "p \<noteq> s"
  then have "apart p s" using layoutD(2) [OF assms, of p s] by (simp add: part_def)
  moreover have "validate_segment p = Inr ()" "validate_segment s = Inr ()" using ps assms by (auto simp: part_def layout_def)
  ultimately show False
    using ps(3) segment_nonempty by (fastforce simp: apart_def placed_def segment_end_def)
qed

lemma data_sum_psubset:
  assumes l: "layout A" and "P \<subseteq> part A rid" "P \<noteq> part A rid"
  shows "data_sum P < data_sum (part A rid)"
proof -
  obtain s where s: "s \<in> part A rid" "s \<notin> P" using assms by blast
  have fin: "finite (part A rid)" using l by (simp add: layout_def part_def)
  have "0 < length (seg_data s)"
    using s l validate_segmentD(2) by (auto simp: part_def layout_def)
  then show ?thesis
    unfolding data_sum_def using assms(2) s fin by (intro sum_strict_mono2 [of _ _ s]) auto
qed

lemma zip_insert_at:
  "length xs = length ys \<Longrightarrow> zip (insert_at i a xs) (insert_at i b ys) = insert_at i (a, b) (zip xs ys)"
  by (simp add: insert_at_def zip_append take_zip drop_zip)

lemma chain_sorted: "chain lo hi ps fs \<Longrightarrow> strictly_sorted ps \<and> (\<forall>p\<in>set ps. lo \<le> p)"
proof (induction lo hi ps fs rule: chain.induct)
  case (2 lo hi p ps f fs)
  then have "strictly_sorted ps" "\<forall>q\<in>set ps. p + length f \<le> q" "f \<noteq> []" "lo \<le> p" by auto
  then show ?case by (cases f) force+
qed simp_all

lemma chain_nonempty: "chain lo hi ps fs \<Longrightarrow> f \<in> set fs \<Longrightarrow> f \<noteq> []"
  by (induction lo hi ps fs rule: chain.induct) auto

lemma frag_bytes_placed:
  assumes "chain lo hi ps fs" "set (zip ps fs) = placed ` P" "inj_on placed P"
  shows "frag_bytes fs = data_sum P"
proof -
  have len: "length ps = length fs" by (rule chain_length [OF assms(1)])
  have "distinct ps" using chain_sorted [OF assms(1)] strictly_sorted_distinct by blast
  then have d: "distinct (zip ps fs)" by (rule distinct_zipI1)
  have "frag_bytes fs = sum_list (map (length \<circ> snd) (zip ps fs))"
    using len by (simp add: frag_bytes_def map_snd_zip [OF len] flip: map_map)
  also have "\<dots> = (\<Sum>x\<in>placed ` P. length (snd x))"
    using d assms(2) by (simp add: sum_list_distinct_conv_sum_set)
  also have "\<dots> = data_sum P"
    unfolding sum.reindex [OF assms(3)] by (simp add: data_sum_def placed_def)
  finally show ?thesis .
qed

text \<open>A segment that lies apart from the stored ones is always accepted by its record.\<close>

lemma record_insert_succeeds:
  assumes ok: "record_ok st" and total: "rs_total_len st = unat (seg_total_len s)"
    and P: "set (zip (rs_offsets st) (rs_fragments st)) = placed ` P"
    and apart: "\<forall>p\<in>P. apart p s" and v: "validate_segment s = Inr ()"
    and md: "opens_record s \<Longrightarrow> rs_metadata st = None"
  shows "\<exists>st'. record_insert st s = Inr st'"
proof -
  let ?off = "unat (seg_offset s)"
  let ?i = "partition_point (\<lambda>x. x < ?off) (rs_offsets st)"
  have c: "chain 0 (rs_total_len st) (rs_offsets st) (rs_fragments st)" using ok by (simp add: record_ok_def)
  have len: "length (rs_offsets st) = length (rs_fragments st)" by (rule chain_length [OF c])
  have pick: "\<exists>p\<in>P. unat (seg_offset p) = rs_offsets st ! j \<and> seg_data p = rs_fragments st ! j"
    if "j < length (rs_offsets st)" for j
  proof -
    have "(rs_offsets st ! j, rs_fragments st ! j) \<in> placed ` P"
      using that len by (auto simp flip: P simp: in_set_zip)
    then show ?thesis by (auto simp: placed_def)
  qed
  have ne: "?off < segment_end s" by (rule segment_nonempty [OF v])
  have prev: "rs_offsets st ! (?i - 1) + length (rs_fragments st ! (?i - 1)) \<le> ?off" if "0 < ?i"
  proof -
    have j: "?i - 1 < length (rs_offsets st)" "rs_offsets st ! (?i - 1) < ?off"
      using that partition_point_le [of "\<lambda>x. x < ?off" "rs_offsets st"]
        partition_point_below [of "?i - 1" "\<lambda>x. x < ?off" "rs_offsets st"] by linarith+
    obtain p where p: "p \<in> P" "unat (seg_offset p) = rs_offsets st ! (?i - 1)" "seg_data p = rs_fragments st ! (?i - 1)"
      using pick [OF j(1)] by blast
    have "apart p s" using apart p(1) by blast
    with ne j(2) show ?thesis unfolding apart_def segment_end_def p(2,3) by linarith
  qed
  have succ: "?off + length (seg_data s) \<le> rs_offsets st ! ?i" if j: "?i < length (rs_offsets st)"
  proof -
    have "?off \<le> rs_offsets st ! ?i"
      using partition_point_above [of "rs_offsets st" ?off ?i] chain_sorted [OF c] j by simp
    moreover obtain p where p: "p \<in> P" "unat (seg_offset p) = rs_offsets st ! ?i" "seg_data p = rs_fragments st ! ?i"
      using pick [OF j] by blast
    moreover have "0 < length (rs_fragments st ! ?i)"
      using chain_nonempty [OF c] j len by simp
    moreover have "apart p s" using apart p(1) by blast
    ultimately show ?thesis unfolding apart_def segment_end_def p(2,3) by linarith
  qed
  show ?thesis
    unfolding record_insert_def Let_def
    using total prev succ md by (cases "opens_record s") (simp_all add: opens_record_def)
qed


section \<open>Delivering segments one at a time\<close>

text \<open>\<open>T\<close> are the segments of the layout \<open>A\<close> accepted so far.\<close>

definition entry_live :: "record_segment set \<Rightarrow> u16 \<Rightarrow> record_state \<Rightarrow> bool" where
  "entry_live T rid st \<longleftrightarrow>
     part T rid \<noteq> {} \<and> (\<forall>s\<in>part T rid. rs_total_len st = unat (seg_total_len s)) \<and>
     set (zip (rs_offsets st) (rs_fragments st)) = placed ` part T rid \<and>
     (rs_metadata st \<noteq> None \<longleftrightarrow> (\<exists>s\<in>part T rid. seg_offset s = 0))"

definition live :: "record_segment set \<Rightarrow> record_segment set \<Rightarrow> train_reassembler \<Rightarrow> bool" where
  "live A T t \<longleftrightarrow>
     ra_ok t \<and> T \<subseteq> A \<and> ra_buffered_bytes t \<le> byte_sum T \<and>
     (\<forall>rid. rid \<in> completed_ids (ra_completed_records t) \<longleftrightarrow> part A rid \<noteq> {} \<and> part A rid \<subseteq> T) \<and>
     (\<forall>rid. case map_of (ra_records t) rid of
        None \<Rightarrow> part T rid = {} \<or> part A rid \<subseteq> T
      | Some st \<Rightarrow> entry_live T rid st)"

lemma opens_iff_offset: "validate_segment s = Inr u \<Longrightarrow> opens_record s \<longleftrightarrow> seg_offset s = 0"
  by (drule validate_segmentD(8)) (cases "seg_kind s"; auto simp: result_iff opens_record_def)

lemma full_is_whole:
  assumes l: "layout A" and s: "s \<in> A" "seg_kind s = Full"
  shows "part A (seg_record_id s) = {s}"
proof -
  have v: "validate_segment s = Inr ()" using l s by (simp add: layout_def)
  have sum: "data_sum {s} = data_sum (part A (seg_record_id s))"
    using full_segment_end [OF v s(2)] layoutD(4) [OF l s(1) s(1)] by (simp add: data_sum_def)
  have "{s} \<subseteq> part A (seg_record_id s)" using s by (simp add: part_def)
  then show ?thesis using data_sum_psubset [OF l, of "{s}" "seg_record_id s"] sum by auto
qed

text \<open>Inserting the next segment into the state of its record.\<close>

lemma entry_live_insert:
  assumes l: "layout A" and T: "T \<subseteq> A" "s \<in> A" "s \<notin> T" and ok: "record_ok st"
    and st: "st = record_state_new (unat (seg_total_len s)) \<and> part T (seg_record_id s) = {} \<or>
       entry_live T (seg_record_id s) st"
  shows "\<exists>st'. record_insert st s = Inr st' \<and> entry_live (insert s T) (seg_record_id s) st' \<and>
    (record_complete st' \<longleftrightarrow> part A (seg_record_id s) \<subseteq> insert s T)"
proof -
  let ?rid = "seg_record_id s"
  let ?P = "part T ?rid"
  have P: "?P \<subseteq> part A ?rid" using T(1) by (rule part_mono)
  have v: "validate_segment s = Inr ()" using l T by (simp add: layout_def)
  have same: "seg_total_len p = seg_total_len s" "apart p s" if "p \<in> ?P" for p
    using layoutD(1,2) [OF l, of p s] that T by (auto simp: part_def)
  have total: "rs_total_len st = unat (seg_total_len s)"
    using st same(1) by (auto simp: record_state_new_def entry_live_def)
  have zip: "set (zip (rs_offsets st) (rs_fragments st)) = placed ` ?P"
    using st by (auto simp: record_state_new_def entry_live_def)
  have md: "rs_metadata st \<noteq> None \<longleftrightarrow> (\<exists>p\<in>?P. seg_offset p = 0)"
    using st by (auto simp: record_state_new_def entry_live_def)
  have first: "rs_metadata st = None" if "opens_record s"
  proof (rule ccontr)
    assume "rs_metadata st \<noteq> None"
    then obtain p where p: "p \<in> ?P" "seg_offset p = 0" using md by blast
    have "seg_offset s = 0" using that opens_iff_offset [OF v] by simp
    moreover have "validate_segment p = Inr ()" using p P l by (auto simp: part_def layout_def)
    ultimately show False
      using same(2) [OF p(1)] p(2) segment_nonempty [OF v] segment_nonempty [of p] by (auto simp: apart_def)
  qed
  obtain st' where ins: "record_insert st s = Inr st'"
    using record_insert_succeeds [OF ok total zip _ v first] same(2) by blast
  note d = record_insert_InrD [OF ins]
  have ok': "record_ok st'" by (rule record_insert_ok(1) [OF ok v ins])
  have len: "length (rs_offsets st) = length (rs_fragments st)" using ok chain_length by (auto simp: record_ok_def)
  have P': "part (insert s T) ?rid = insert s ?P" by (simp add: part_insert)
  have zip': "set (zip (rs_offsets st') (rs_fragments st')) = placed ` insert s ?P"
    unfolding d(3,4) zip_insert_at [OF len] using zip by (simp add: placed_def)
  have md': "rs_metadata st' \<noteq> None \<longleftrightarrow> (\<exists>p\<in>insert s ?P. seg_offset p = 0)"
    using md d(6) opens_iff_offset [OF v] by auto
  have live': "entry_live (insert s T) ?rid st'"
    using total same(1) zip' md' d(2) by (auto simp: entry_live_def P')
  have sub: "insert s ?P \<subseteq> part A ?rid" using P T by (auto simp: part_def)
  have bytes: "rs_data_bytes st' = data_sum (insert s ?P)"
    using ok' zip' inj_on_subset [OF placed_inj [OF l] sub] frag_bytes_placed by (auto simp: record_ok_def)
  have all: "data_sum (part A ?rid) = rs_total_len st'" using layoutD(4) [OF l T(2) T(2)] total d(2) by simp
  have "record_complete st' \<longleftrightarrow> part A ?rid \<subseteq> insert s T"
  proof
    assume "record_complete st'"
    then have "insert s ?P = part A ?rid"
      using data_sum_psubset [OF l sub] bytes all by (auto simp: record_complete_def)
    then show "part A ?rid \<subseteq> insert s T" by (auto simp: part_def)
  next
    assume "part A ?rid \<subseteq> insert s T"
    then have eq: "insert s ?P = part A ?rid" using sub by (auto simp: part_def)
    then have "rs_metadata st' \<noteq> None" using md' layoutD(5) [OF l T(2) T(2)] by simp
    with eq bytes all show "record_complete st'" by (simp add: record_complete_def)
  qed
  with ins live' show ?thesis by blast
qed

lemma ra_ok_distinct: "ra_ok t \<Longrightarrow> distinct (map fst (ra_records t))"
  by (rule strictly_sorted_distinct) (simp add: ra_ok_def)

lemma accept_partial_live:
  assumes l: "layout A" and T: "T \<subseteq> A" "s \<in> A" "s \<notin> T" and ok: "ra_ok t"
    and i: "i < length (ra_records t)" "ra_records t ! i = (seg_record_id s, st)"
    and st: "st = record_state_new (unat (seg_total_len s)) \<and> part T (seg_record_id s) = {} \<or>
       entry_live T (seg_record_id s) st"
    and room: "ra_buffered_bytes t + (length (seg_metadata s) + length (seg_data s))
       \<le> rl_maximum_buffered_bytes (ra_limits t)"
  shows "\<exists>t' out st'. accept_partial key s i t = (t', Inr out) \<and> entry_live (insert s T) (seg_record_id s) st' \<and>
    (out \<noteq> None \<longleftrightarrow> part A (seg_record_id s) \<subseteq> insert s T) \<and>
    map_of (ra_records t') = (map_of (ra_records t))(seg_record_id s := (if out = None then Some st' else None))"
proof -
  let ?rid = "seg_record_id s"
  have d: "distinct (map fst (ra_records t))" by (rule ra_ok_distinct [OF ok])
  have "(?rid, st) \<in> set (ra_records t)" using i nth_mem by metis
  then have "record_ok st" using ok by (auto simp: ra_ok_def)
  from entry_live_insert [OF l T this st] obtain st' where
    st': "record_insert st s = Inr st'" "entry_live (insert s T) ?rid st'"
    "record_complete st' \<longleftrightarrow> part A ?rid \<subseteq> insert s T" by blast
  have "sat_add (ra_buffered_bytes t) (additional_bytes st s) \<le> rl_maximum_buffered_bytes (ra_limits t)"
    using ok room by (auto simp: ra_ok_def sat_add_le_iff additional_bytes_def)
  note run = accept_partial_def [of key s i t] this i(2) st'(1)
  have f: "fst (ra_records t ! i) = ?rid" using i by simp
  show ?thesis
  proof (cases "record_complete st'")
    case True
    then have "accept_partial key s i t = (t\<lparr> ra_records := remove_at i (ra_records t),
        ra_buffered_bytes := ra_buffered_bytes t + additional_bytes st s - rs_buffered_bytes st',
        ra_completed_records := fst (completed_insert ?rid (ra_completed_records t)) \<rparr>,
        Inr (Some (record_finish key ?rid st')))"
      using run by (simp add: Let_def)
    with st' True map_of_remove_at [OF d i(1) f] show ?thesis by (auto intro!: exI [of _ st'])
  next
    case False
    then have "accept_partial key s i t = (t\<lparr> ra_records := (ra_records t)[i := (?rid, st')],
        ra_buffered_bytes := ra_buffered_bytes t + additional_bytes st s \<rparr>, Inr None)"
      using run by (simp add: Let_def)
    with st' False map_of_update_at [OF d i(1) f] show ?thesis by auto
  qed
qed

lemma part_other: "seg_record_id s \<noteq> rid \<Longrightarrow>
    part (insert s T) rid = part T rid \<and> (part A rid \<subseteq> insert s T \<longleftrightarrow> part A rid \<subseteq> T)"
  by (auto simp: part_def)

lemma entry_live_other: "seg_record_id s \<noteq> rid \<Longrightarrow> entry_live (insert s T) rid st = entry_live T rid st"
  by (simp add: entry_live_def part_other)

lemma byte_sum_insert:
  "finite T \<Longrightarrow> s \<notin> T \<Longrightarrow> byte_sum (insert s T) = byte_sum T + (length (seg_metadata s) + length (seg_data s))"
  by (simp add: byte_sum_def)

lemma byte_sum_mono: "finite A \<Longrightarrow> T \<subseteq> A \<Longrightarrow> byte_sum T \<le> byte_sum A"
  unfolding byte_sum_def by (rule sum_mono2) auto

text \<open>Enough room for everything the layout can buffer at once.\<close>

definition roomy :: "record_segment set \<Rightarrow> reassembly_limits \<Rightarrow> bool" where
  "roomy A l \<longleftrightarrow> byte_sum A \<le> rl_maximum_buffered_bytes l \<and>
     card (seg_record_id ` A) \<le> rl_maximum_active_records l"

lemma active_records_bound:
  assumes l: "layout A" and live: "live A T t" and s: "s \<in> A" "map_of (ra_records t) (seg_record_id s) = None"
  shows "length (ra_records t) < card (seg_record_id ` A)"
proof -
  have ok: "ra_ok t" using live by (simp add: live_def)
  then have d: "distinct (map fst (ra_records t))" by (rule ra_ok_distinct)
  have "set (map fst (ra_records t)) \<subseteq> seg_record_id ` A - {seg_record_id s}"
  proof
    fix rid
    assume rid: "rid \<in> set (map fst (ra_records t))"
    then obtain st where st: "map_of (ra_records t) rid = Some st"
      using map_of_eq_None_iff [of "ra_records t" rid] by (cases "map_of (ra_records t) rid") auto
    with live have "entry_live T rid st" "T \<subseteq> A" unfolding live_def by (force split: option.splits)+
    with st s(2) show "rid \<in> seg_record_id ` A - {seg_record_id s}"
      by (auto simp: entry_live_def part_def)
  qed
  moreover have "finite (seg_record_id ` A)" using l by (simp add: layout_def)
  ultimately have "card (set (map fst (ra_records t))) \<le> card (seg_record_id ` A - {seg_record_id s})"
    by (intro card_mono) auto
  moreover have "card (seg_record_id ` A - {seg_record_id s}) < card (seg_record_id ` A)"
    using s(1) l by (intro card_Diff1_less) (auto simp: layout_def)
  moreover have "card (set (map fst (ra_records t))) = length (ra_records t)"
    using distinct_card [OF d] by simp
  ultimately show ?thesis by simp
qed

lemma accept_segment_live:
  assumes l: "layout A" and live: "live A T t" and s: "s \<in> A" "s \<notin> T" and room: "roomy A (ra_limits t)"
  shows "\<exists>t' out. accept_segment key s t = (t', Inr out) \<and> live A (insert s T) t' \<and> same_train t t'"
proof -
  let ?rid = "seg_record_id s"
  have ok: "ra_ok t" and T: "T \<subseteq> A" and fin: "finite A" using live l by (simp_all add: live_def layout_def)
  have v: "validate_segment s = Inr ()" using l s by (simp add: layout_def)
  have completed: "rid \<in> completed_ids (ra_completed_records t) \<longleftrightarrow> part A rid \<noteq> {} \<and> part A rid \<subseteq> T" for rid
    using live by (simp add: live_def)
  have entry: "case map_of (ra_records t) rid of None \<Rightarrow> part T rid = {} \<or> part A rid \<subseteq> T
      | Some st \<Rightarrow> entry_live T rid st" for rid
    using live by (simp add: live_def)
  have sA: "s \<in> part A ?rid" using s by (simp add: part_def)
  have fresh: "\<not> completed_contains (ra_completed_records t) ?rid"
    using ok completed sA s(2) completed_contains_iff by (auto simp: ra_ok_def)
  have budget: "ra_buffered_bytes t + (length (seg_metadata s) + length (seg_data s)) \<le> rl_maximum_buffered_bytes (ra_limits t)"
    using live room byte_sum_insert [OF finite_subset [OF T fin] s(2)] byte_sum_mono [OF fin, of "insert s T"] s(1) T
    by (simp add: live_def roomy_def)
  have sorted: "strictly_sorted (map fst (ra_records t))" using ok by (simp add: ra_ok_def)
  have "\<exists>t' out st'. accept_segment key s t = (t', Inr out) \<and>
      (out = None \<longrightarrow> entry_live (insert s T) ?rid st') \<and>
      (out \<noteq> None \<longleftrightarrow> part A ?rid \<subseteq> insert s T) \<and>
      map_of (ra_records t') = (map_of (ra_records t))(?rid := (if out = None then Some st' else None))"
  proof (cases "seg_kind s = Full")
    case True
    have whole: "part A ?rid = {s}" by (rule full_is_whole [OF l s(1) True])
    have none: "map_of (ra_records t) ?rid = None"
      using entry [of ?rid] whole part_mono [OF T, of ?rid] s(2)
      by (auto simp: entry_live_def part_def split: option.splits)
    then obtain i where "binary_search_by_key (ra_records t) ?rid = Inl i"
      using map_of_found [OF sorted] by (cases "binary_search_by_key (ra_records t) ?rid") fastforce+
    with True fresh whole none show ?thesis
      by (auto simp: accept_segment_def Let_def fun_upd_idem)
  next
    case kind: False
    show ?thesis
    proof (cases "binary_search_by_key (ra_records t) ?rid")
      case (Inr i)
      note f = map_of_found [OF sorted Inr]
      have i: "ra_records t ! i = (?rid, snd (ra_records t ! i))" using f by (simp add: prod_eq_iff)
      have "entry_live T ?rid (snd (ra_records t ! i))" using entry [of ?rid] f(3) by simp
      from accept_partial_live [OF l T s ok f(1) i disjI2 [OF this] budget] fresh kind Inr show ?thesis
        by (fastforce simp: accept_segment_def)
    next
      case (Inl i)
      note f = map_of_absent [OF sorted Inl]
      define t1 where "t1 = t\<lparr> ra_records :=
          insert_at i (?rid, record_state_new (unat (seg_total_len s))) (ra_records t) \<rparr>"
      have lt: "length (ra_records t) < rl_maximum_active_records (ra_limits t)"
        using active_records_bound [OF l live s(1) f(1)] room by (simp add: roomy_def)
      have ok1: "ra_ok t1"
        unfolding t1_def using ok Inl lt fresh completed_contains_iff
        by (intro ra_ok_insert_new) (auto simp: ra_ok_def)
      have i: "i < length (ra_records t1)" "ra_records t1 ! i = (?rid, record_state_new (unat (seg_total_len s)))"
        using f(2) by (simp_all add: t1_def nth_insert_at)
      have empty: "part T ?rid = {}" using entry [of ?rid] f(1) sA s(2) by auto
      have budget1: "ra_buffered_bytes t1 + (length (seg_metadata s) + length (seg_data s))
          \<le> rl_maximum_buffered_bytes (ra_limits t1)" using budget by (simp add: t1_def)
      have "map_of (ra_records t1) = (map_of (ra_records t))(?rid \<mapsto> record_state_new (unat (seg_total_len s)))"
        using map_of_insert_at [OF f(1)] by (simp add: t1_def)
      with accept_partial_live [OF l T s ok1 i _ budget1, of key] empty fresh kind Inl lt show ?thesis
        by (fastforce simp: accept_segment_def t1_def)
    qed
  qed
  then obtain t' out st' where acc: "accept_segment key s t = (t', Inr out)"
    and new: "out = None \<longrightarrow> entry_live (insert s T) ?rid st'" "out \<noteq> None \<longleftrightarrow> part A ?rid \<subseteq> insert s T"
    and map: "map_of (ra_records t') = (map_of (ra_records t))(?rid := (if out = None then Some st' else None))"
    by blast
  have post: "segment_post (\<lambda>_ _. True) key s t t' (Inr out)"
    using accept_segment_post [OF ok _ v _ acc, of "\<lambda>_ _. True"] by (simp add: entries_def closed_under_def)
  have completed': "rid \<in> completed_ids (ra_completed_records t') \<longleftrightarrow> part A rid \<noteq> {} \<and> part A rid \<subseteq> insert s T" for rid
  proof (cases "rid = ?rid")
    case True
    with post new(2) sA completed [of ?rid] s(2) show ?thesis
      by (cases out) (auto simp: segment_post_def)
  next
    case False
    with post completed [of rid] part_other [of s rid A A] part_other [of s rid T A] show ?thesis
      by (cases out) (auto simp: segment_post_def)
  qed
  have entry': "case map_of (ra_records t') rid of None \<Rightarrow> part (insert s T) rid = {} \<or> part A rid \<subseteq> insert s T
      | Some st \<Rightarrow> entry_live (insert s T) rid st" for rid
  proof (cases "rid = ?rid")
    case True
    with map new show ?thesis by (cases out) simp_all
  next
    case False
    with entry [of rid] map part_other [of s rid T A] entry_live_other [of s rid T] show ?thesis
      by (auto split: option.splits)
  qed
  have "ra_ok t'" "same_train t t'" "ra_buffered_bytes t' \<le> byte_sum (insert s T)"
    using post live byte_sum_insert [OF finite_subset [OF T fin] s(2)] by (auto simp: segment_post_def live_def)
  with completed' entry' s(1) T acc show ?thesis by (auto simp: live_def)
qed

lemma accept_segments_live:
  assumes "layout A" "live A T t" "roomy A (ra_limits t)" "distinct ss" "set ss \<subseteq> A" "set ss \<inter> T = {}"
  shows "\<exists>t' rs. accept_segments key ss completed t = (t', Inr rs) \<and> live A (T \<union> set ss) t' \<and> same_train t t'"
  using assms
proof (induction ss arbitrary: t T completed)
  case Nil
  then show ?case by simp
next
  case (Cons s ss)
  obtain t1 out where s: "accept_segment key s t = (t1, Inr out)" "live A (insert s T) t1" "same_train t t1"
    using accept_segment_live [OF Cons.prems(1,2) _ _ Cons.prems(3), of s key] Cons.prems by auto
  have "roomy A (ra_limits t1)" using Cons.prems(3) s(3) by (simp add: same_train_def)
  then obtain t' rs where "accept_segments key ss (completed @ (case out of None \<Rightarrow> [] | Some r \<Rightarrow> [r])) t1 = (t', Inr rs)"
    "live A (insert s T \<union> set ss) t'" "same_train t1 t'"
    using Cons.IH [OF Cons.prems(1) s(2), of "completed @ (case out of None \<Rightarrow> [] | Some r \<Rightarrow> [r])"] Cons.prems by auto
  moreover from this s have "accept_segments key (s # ss) completed t = (t', Inr rs)"
    by (cases out) simp_all
  ultimately show ?case using s(3) by (auto intro: same_train_trans)
qed

section \<open>Delivering Cells in any order\<close>

definition train_of :: "train_key \<Rightarrow> cell_v2 list \<Rightarrow> bool" where
  "train_of key cells \<longleftrightarrow>
     cells \<noteq> [] \<and> distinct (train_segments cells) \<and> layout (set (train_segments cells)) \<and>
     (\<forall>i<length cells. cell_train_key (cells ! i) = key \<and> unat (cell_sequence (cells ! i)) = i \<and>
        cell_body (cells ! i) = Records (cell_segments (cells ! i)) \<and> cell_segments (cells ! i) \<noteq> [] \<and>
        cell_flags (cells ! i) = (if i = 0 then FLAG_TRAIN_START else 0) OR
          (if Suc i = length cells then FLAG_TRAIN_END else 0))"

definition received :: "cell_v2 list \<Rightarrow> nat set \<Rightarrow> record_segment set" where
  "received cells I = (\<Union>i\<in>I. set (cell_segments (cells ! i)))"

definition live_train :: "train_key \<Rightarrow> cell_v2 list \<Rightarrow> nat set \<Rightarrow> train_reassembler \<Rightarrow> bool" where
  "live_train key cells I t \<longleftrightarrow>
     live (set (train_segments cells)) (received cells I) t \<and>
     I \<subseteq> {..<length cells} \<and> seen_set t = {q. unat q \<in> I} \<and>
     (I = {} \<longrightarrow> ra_key t = None) \<and> (I \<noteq> {} \<longrightarrow> ra_key t = Some key) \<and>
     (ra_saw_start t \<longleftrightarrow> 0 \<in> I) \<and>
     ra_end_sequence t = (if length cells - 1 \<in> I then Some (word_of_nat (length cells - 1)) else None)"

lemma cell_segments_disjoint:
  assumes "distinct (train_segments cells)" "i < length cells" "j < length cells" "i \<noteq> j"
  shows "set (cell_segments (cells ! i)) \<inter> set (cell_segments (cells ! j)) = {}"
proof -
  have *: "set (cell_segments (cells ! i)) \<inter> set (cell_segments (cells ! j)) = {}"
    if "distinct (train_segments cells)" "i < j" "j < length cells" for i j
  proof -
    have "cells = take j cells @ cells ! j # drop (Suc j) cells" using that by (simp add: id_take_nth_drop)
    then have "train_segments cells =
        train_segments (take j cells) @ cell_segments (cells ! j) @ train_segments (drop (Suc j) cells)"
      by (metis append_assoc train_segments_simps(2,3))
    with that(1) have "set (train_segments (take j cells)) \<inter> set (cell_segments (cells ! j)) = {}" by auto
    moreover have "cells ! i \<in> set (take j cells)" using that by (auto simp: in_set_conv_nth intro!: exI [of _ i])
    then have "set (cell_segments (cells ! i)) \<subseteq> set (train_segments (take j cells))"
      by (auto simp: train_segments_def)
    ultimately show ?thesis by blast
  qed
  show ?thesis using *[of i j] *[of j i] assms by (cases "i < j") auto
qed

lemma cell_segments_distinct:
  assumes "distinct (train_segments cells)" "i < length cells"
  shows "distinct (cell_segments (cells ! i))" "set (cell_segments (cells ! i)) \<subseteq> set (train_segments cells)"
proof -
  have "cell_segments (cells ! i) \<in> set (map cell_segments cells)" using assms(2) by simp
  then show "distinct (cell_segments (cells ! i))" "set (cell_segments (cells ! i)) \<subseteq> set (train_segments cells)"
    using assms(1) by (auto simp: train_segments_def distinct_concat_iff)
qed

lemma seen_set_keyed [simp]: "seen_set (t\<lparr> ra_key := k \<rparr>) = seen_set t"
  by (simp add: seen_set_def)

lemma live_cong:
  assumes "ra_ok t' = ra_ok t" "ra_buffered_bytes t' = ra_buffered_bytes t"
    "ra_completed_records t' = ra_completed_records t" "ra_records t' = ra_records t"
  shows "live A T t' = live A T t"
  using assms by (simp add: live_def)

lemma live_core: "same_core t t' \<Longrightarrow> live A T t' = live A T t"
  by (rule live_cong, erule same_core_ok(1)) (simp_all add: same_core_def)

lemma accept_cell_live:
  assumes tr: "train_of key cells" and live: "live_train key cells I t" and i: "i < length cells"
    and lim: "length cells \<le> rl_maximum_cells (ra_limits t)" "roomy (set (train_segments cells)) (ra_limits t)"
  shows "\<exists>t' out. accept_cell (cells ! i) t = (t', Inr out) \<and> live_train key cells (insert i I) t' \<and>
    ra_limits t' = ra_limits t"
proof -
  let ?c = "cells ! i"
  let ?q = "cell_sequence (cells ! i)"
  let ?A = "set (train_segments cells)"
  have c: "cell_train_key ?c = key" "unat ?q = i" "cell_body ?c = Records (cell_segments ?c)"
    and flags: "cell_flags ?c = (if i = 0 then FLAG_TRAIN_START else 0) OR
          (if Suc i = length cells then FLAG_TRAIN_END else 0)"
    using tr i by (simp_all add: train_of_def)
  have l: "layout ?A" "distinct (train_segments cells)" using tr by (simp_all add: train_of_def)
  have ok: "ra_ok t" and lv: "live ?A (received cells I) t" and I: "I \<subseteq> {..<length cells}"
    and seen: "seen_set t = {q. unat q \<in> I}"
    using live by (simp_all add: live_train_def live_def)
  have q: "unat ?q < rl_maximum_cells (ra_limits t)" using c i lim by simp
  define t0 where "t0 = t\<lparr> ra_key := Some key \<rparr>"
  have core0: "same_core t t0" "ra_limits t0 = ra_limits t" by (simp_all add: t0_def same_core_def)
  have ok0: "ra_ok t0" using ok same_core_ok(1) [OF core0(1)] by simp
  have key: "\<not> (ra_key t \<noteq> None \<and> ra_key t \<noteq> Some key)" using live by (cases "I = {}") (simp_all add: live_train_def)
  define t1 where "t1 = fst (mark_cell_seen ?q t0)"
  note m = mark_cell_seen_spec [of t0 ?q]
  have dom: "seen_valid t0" "?q \<in> seen_domain t0" using ok0 q core0 by (simp_all add: ra_ok_def seen_domain_def)
  have seen1: "seen_set t1 = {q. unat q \<in> insert i I}" "snd (mark_cell_seen ?q t0) \<longleftrightarrow> i \<notin> I"
    using m(1,2) [OF dom] seen c(2) unfolding t1_def t0_def by (auto simp: word_unat_eq_iff)
  show ?thesis
  proof (cases "i \<in> I")
    case True
    then have "mark_cell_seen ?q t0 = (t0, False)"
      using seen1(2) by (auto simp: mark_cell_seen_def Let_def split: if_splits)
    moreover have "t0 = t" using True live by (cases t) (auto simp: t0_def live_train_def)
    ultimately have "accept_cell ?c t = (t, Inr (reassembly_output_of [] True (is_complete t) 0 0))"
      using key q c(1) by (auto simp: accept_cell_def t0_def Let_def)
    with live True show ?thesis by (auto simp: insert_absorb)
  next
    case False
    then have mark: "mark_cell_seen ?q t0 = (t1, True)" using seen1(2) by (simp add: t1_def prod_eq_iff)
    define t2 where "t2 = record_sequence ?q t1"
    have start: "cell_flags ?c AND FLAG_TRAIN_START \<noteq> 0 \<longleftrightarrow> i = 0"
      and fin: "cell_flags ?c AND FLAG_TRAIN_END \<noteq> 0 \<longleftrightarrow> Suc i = length cells"
      unfolding flags by (auto simp: FLAG_TRAIN_START_def FLAG_TRAIN_END_def)
    have "word_of_nat (unat ?q) = ?q" by simp
    then have qi: "?q = word_of_nat i" unfolding c(2) by (rule sym)
    have zero: "i = 0 \<Longrightarrow> ?q = 0" using qi by simp
    define e where "e = length cells - 1"
    have e: "Suc i = length cells \<longleftrightarrow> i = e" using i by (auto simp: e_def)
    have end2: "ra_end_sequence t2 = (if e \<in> I then Some (word_of_nat e) else None)"
      "ra_saw_start t2 \<longleftrightarrow> 0 \<in> I" "ra_key t2 = Some key" "ra_limits t2 = ra_limits t"
      using live by (simp_all add: t2_def record_sequence_def t1_def t0_def live_train_def e_def)
    obtain t3 where f: "accept_flags ?c t2 = (t3, Inr ())"
      and t3: "ra_end_sequence t3 = (if e \<in> insert i I then Some (word_of_nat e) else None)"
      "ra_saw_start t3 \<longleftrightarrow> 0 \<in> insert i I" "ra_key t3 = Some key" "ra_limits t3 = ra_limits t"
    proof -
      have "i = e \<Longrightarrow> ra_end_sequence t2 = None" using False end2(1) by auto
      then show ?thesis
        using that start fin zero end2 qi e by (auto simp: accept_flags_def Let_def)
    qed
    obtain t4 n where o: "observe_closure t3 = (t4, n)" by (cases "observe_closure t3")
    have t4: "ra_end_sequence t4 = ra_end_sequence t3" "ra_saw_start t4 = ra_saw_start t3" "ra_key t4 = ra_key t3"
      "ra_limits t4 = ra_limits t3"
      using o by (auto simp: observe_closure_def split: if_splits option.splits)
    have core: "same_core t1 t4"
      using same_core_record_sequence [of t1 ?q] same_core_accept_flags [OF f] same_core_observe_closure [OF o]
      by (auto simp: t2_def intro: same_core_trans)
    have "live ?A (received cells I) t1"
      using lv ra_ok_mark(1) [OF ok0 q [folded core0(2)]] ok
      by (subst live_cong [of _ t]) (simp_all add: t1_def t0_def)
    then have lv4: "live ?A (received cells I) t4" using live_core [OF core] by simp
    have "set (cell_segments ?c) \<inter> received cells I = {}"
      using cell_segments_disjoint [OF l(2) i] False I by (force simp: received_def)
    moreover have "roomy ?A (ra_limits t4)" using lim(2) t4 t3 by simp
    ultimately obtain t5 rs where a: "accept_segments key (cell_segments ?c) [] t4 = (t5, Inr rs)"
      "live ?A (received cells I \<union> set (cell_segments ?c)) t5" "same_train t4 t5"
      using accept_segments_live [OF l(1) lv4 _ cell_segments_distinct(1) [OF l(2) i] cell_segments_distinct(2) [OF l(2) i]]
      by blast
    have run: "\<exists>out. accept_cell ?c t = (t5, Inr out)"
      using key q c mark f o a(1) by (auto simp: accept_cell_def accept_body_def Let_def t0_def [symmetric] t2_def core0(2))
    have "received cells (insert i I) = received cells I \<union> set (cell_segments ?c)" by (auto simp: received_def)
    moreover have "seen_set t5 = {q. unat q \<in> insert i I}"
      using seen1(1) same_core_ok(3) [OF core] seen_cong(1) [OF a(3)] by simp
    ultimately have "live_train key cells (insert i I) t5" "ra_limits t5 = ra_limits t"
      using a(2,3) I i t3 t4 unfolding live_train_def e_def [symmetric] same_train_def by auto
    with run show ?thesis by blast
  qed
qed

lemma accept_all_live:
  assumes tr: "train_of key cells" and "live_train key cells I t"
    and "length cells \<le> rl_maximum_cells (ra_limits t)" "roomy (set (train_segments cells)) (ra_limits t)"
    and "set is \<subseteq> {..<length cells}"
  shows "\<exists>t' outs. accept_all (map ((!) cells) is) t = (t', outs) \<and> list_all is_ok outs \<and>
    live_train key cells (set is \<union> I) t'"
  using assms(2-)
proof (induction "is" arbitrary: t I)
  case Nil
  then show ?case by simp
next
  case (Cons i "is")
  obtain t1 out where s: "accept_cell (cells ! i) t = (t1, Inr out)" "live_train key cells (insert i I) t1"
    "ra_limits t1 = ra_limits t"
    using accept_cell_live [OF tr Cons.prems(1) _ Cons.prems(2,3), of i] Cons.prems(4) by auto
  obtain t' outs where "accept_all (map ((!) cells) is) t1 = (t', outs)" "list_all is_ok outs"
    "live_train key cells (set is \<union> insert i I) t'"
    using Cons.IH [OF s(2)] Cons.prems s(3) by auto
  with s show ?case by auto
qed

lemma live_train_complete:
  assumes tr: "train_of key cells" and live: "live_train key cells {..<length cells} t"
  shows "is_complete t" "completed_ids (ra_completed_records t) = seg_record_id ` set (train_segments cells)"
proof -
  let ?A = "set (train_segments cells)"
  have "set cells = (!) cells ` {..<length cells}" by (auto simp: set_conv_nth)
  then have "received cells {..<length cells} = ?A" by (simp add: received_def train_segments_def)
  then have lv: "live ?A ?A t" using live by (simp add: live_train_def)
  then have ids: "rid \<in> completed_ids (ra_completed_records t) \<longleftrightarrow> part ?A rid \<noteq> {}" for rid
    unfolding live_def by (metis (no_types, lifting) Int_lower1 mem_Collect_eq part_def subsetI)
  then show "completed_ids (ra_completed_records t) = seg_record_id ` ?A" by (auto simp: part_def)
  have ok: "ra_ok t" using lv by (simp add: live_def)
  have "ra_records t = []"
  proof (rule ccontr)
    assume "ra_records t \<noteq> []"
    then obtain rid st where m: "(rid, st) \<in> set (ra_records t)" by (cases "ra_records t") auto
    have "map_of (ra_records t) rid = Some st"
      using m ra_ok_distinct [OF ok] by simp
    moreover have "case map_of (ra_records t) rid of None \<Rightarrow> part ?A rid = {} \<or> part ?A rid \<subseteq> ?A
        | Some st \<Rightarrow> entry_live ?A rid st"
      using lv unfolding live_def by blast
    ultimately have "part ?A rid \<noteq> {}" by (simp add: entry_live_def)
    with ids ok m show False by (auto simp: ra_ok_def)
  qed
  moreover obtain e where e: "length cells = Suc e" using tr by (cases cells) (auto simp: train_of_def)
  have "unat (cell_sequence (cells ! e)) = e" using tr e by (simp add: train_of_def)
  then have "length cells \<le> 65536" using unat_less_length [of "cell_sequence (cells ! e)"] e by simp
  then have small: "unat (word_of_nat k :: u16) = k" if "k < length cells" for k
    using that by (simp add: unsigned_of_nat take_bit_eq_mod)
  have "seen_set t = (word_of_nat :: nat \<Rightarrow> u16) ` {..<length cells}"
  proof (intro set_eqI iffI)
    fix q
    assume "q \<in> seen_set t"
    then have "unat q \<in> {..<length cells}" using live by (simp add: live_train_def)
    then have "word_of_nat (unat q) \<in> (word_of_nat :: nat \<Rightarrow> u16) ` {..<length cells}" by (rule imageI)
    then show "q \<in> word_of_nat ` {..<length cells}" by simp
  next
    fix q :: u16
    assume "q \<in> word_of_nat ` {..<length cells}"
    then show "q \<in> seen_set t" using live small by (auto simp: live_train_def)
  qed
  moreover have "inj_on (word_of_nat :: nat \<Rightarrow> u16) {..<length cells}"
    using small by (intro inj_onI) (metis lessThan_iff)
  ultimately have "ra_records t = []" "ra_seen_cell_count t = length cells"
    using ok by (simp_all add: card_image ra_ok_def seen_valid_def)
  moreover have "ra_end_sequence t = Some (word_of_nat e)" "ra_saw_start t"
    using live e unfolding live_train_def by simp_all
  ultimately show "is_complete t"
    using small [of e] e by (simp add: is_complete_def)
qed

section \<open>The trains of the builder\<close>

definition context_key :: "train_context \<Rightarrow> train_key" where
  "context_key ctx = \<lparr> tk_class = ctx_class ctx, tk_session_epoch = ctx_session_epoch ctx,
     tk_route_label = ctx_route_label ctx, tk_train_id = ctx_train_id ctx \<rparr>"

lemma tiles_placed:
  "tiles r off ps \<Longrightarrow> length (tr_data r) \<le> 65535 \<Longrightarrow>
     sorted_wrt (\<lambda>p s. segment_end p \<le> unat (seg_offset s)) ps \<and>
     (\<forall>s\<in>set ps. off \<le> unat (seg_offset s) \<and> unat (seg_offset s) < segment_end s \<and>
        unat (seg_total_len s) = length (tr_data r) \<and>
        seg_data s = slice (unat (seg_offset s)) (unat (seg_offset s) + length (seg_data s)) (tr_data r) \<and>
        (unat (seg_offset s) = 0 \<longrightarrow> seg_metadata s = tr_metadata r))"
proof (induction r off ps rule: tiles.induct)
  case (1 r off)
  then show ?case by simp
next
  case (2 r off s ss)
  let ?fin = "off + length (seg_data s)"
  have t: "tiles r ?fin ss" "off < ?fin" "?fin \<le> length (tr_data r)" "s = record_piece r off ?fin"
    using 2(2) by (simp_all add: Let_def)
  have sel: "unat (seg_offset s) = off" "unat (seg_total_len s) = length (tr_data r)"
    "seg_data s = slice off ?fin (tr_data r)" "seg_metadata s = (if off = 0 then tr_metadata r else [])"
    using t(2,3) 2(3) by (subst t(4); simp add: unat_u32_of_nat u32_max_def)+
  have fin: "segment_end s = ?fin" using sel(1) by (simp add: segment_end_def)
  have IH: "sorted_wrt (\<lambda>p s. segment_end p \<le> unat (seg_offset s)) ss"
    "\<forall>s\<in>set ss. ?fin \<le> unat (seg_offset s) \<and> unat (seg_offset s) < segment_end s \<and>
        unat (seg_total_len s) = length (tr_data r) \<and>
        seg_data s = slice (unat (seg_offset s)) (unat (seg_offset s) + length (seg_data s)) (tr_data r) \<and>
        (unat (seg_offset s) = 0 \<longrightarrow> seg_metadata s = tr_metadata r)"
    using 2(1) [OF refl t(1) 2(3)] by blast+
  have own: "off \<le> unat (seg_offset s)" "unat (seg_offset s) < segment_end s"
    "seg_data s = slice (unat (seg_offset s)) (unat (seg_offset s) + length (seg_data s)) (tr_data r)"
    "unat (seg_offset s) = 0 \<longrightarrow> seg_metadata s = tr_metadata r"
    using fin t(2) sel(4) unfolding sel(1) by (simp_all only: sel(3) [symmetric]) simp_all
  show ?case
    using IH own sel(2) t(2) fin by (auto intro: order_trans [OF less_imp_le [OF t(2)]])
qed

lemma tiles_distinct:
  assumes "tiles r off ps" "length (tr_data r) \<le> 65535"
  shows "distinct ps"
proof -
  have "sorted_wrt (\<lambda>p s. segment_end p \<le> unat (seg_offset s)) ps"
    "\<forall>s\<in>set ps. unat (seg_offset s) < segment_end s"
    using tiles_placed [OF assms] by blast+
  then show ?thesis by (induction ps) fastforce+
qed

lemma tiles_apart:
  assumes "tiles r off ps" "length (tr_data r) \<le> 65535" "p \<in> set ps" "s \<in> set ps" "p \<noteq> s"
  shows "apart p s"
proof -
  have "sorted_wrt (\<lambda>p s. segment_end p \<le> unat (seg_offset s)) ps" using tiles_placed [OF assms(1,2)] by blast
  with assms(3-5) show ?thesis
    by (induction ps) (auto simp: apart_def)
qed

lemma tiles_concat_distinct:
  "list_all2 (\<lambda>r ps. tiles r 0 ps) rs pss \<Longrightarrow> distinct (map tr_record_id rs) \<Longrightarrow>
     \<forall>r\<in>set rs. length (tr_data r) \<le> 65535 \<Longrightarrow> distinct (concat pss)"
proof (induction rule: list_all2_induct)
  case Nil
  then show ?case by simp
next
  case (Cons r rs ps pss)
  have "set ps \<inter> set (concat pss) = {}"
  proof (rule equals0I)
    fix s
    assume s: "s \<in> set ps \<inter> set (concat pss)"
    then have "seg_record_id s = tr_record_id r" using tiles_record_id [OF Cons(1)] by blast
    moreover have "seg_record_id s \<in> tr_record_id ` set rs" using s tiles_record_ids [OF Cons(2)] by blast
    ultimately show False using Cons.prems(1) by auto
  qed
  with Cons tiles_distinct [OF Cons(1)] show ?case by simp
qed

lemma data_sum_set: "distinct ps \<Longrightarrow> data_sum (set ps) = length (concat (map seg_data ps))"
  by (simp add: data_sum_def sum_list_distinct_conv_sum_set [symmetric] length_concat comp_def)

lemma built_layout:
  assumes "build_packet_train ctx rs = Inr pt"
  shows "distinct (train_segments (pt_cells pt))" "layout (set (train_segments (pt_cells pt)))"
    "seg_record_id ` set (train_segments (pt_cells pt)) = set (map tr_record_id rs)"
    "byte_sum (set (train_segments (pt_cells pt))) =
       sum_list (map (\<lambda>r. length (tr_data r)) rs) + sum_list (map (\<lambda>r. length (tr_metadata r)) rs)"
proof -
  let ?A = "set (train_segments (pt_cells pt))"
  obtain pss where pss: "list_all2 (\<lambda>r ps. tiles r 0 ps) rs pss"
    and segs: "train_segments (pt_cells pt) = concat pss" and d: "distinct (map tr_record_id rs)"
    and valid: "\<forall>r\<in>set rs. validate_record (ctx_maximum_datagram_size ctx - HEADER_LEN) r = Inr ()"
    using assms by (rule built_segments)
  have small: "\<forall>r\<in>set rs. length (tr_data r) \<le> 65535" "\<forall>r\<in>set rs. tr_data r \<noteq> []"
    using valid by (auto simp: validate_record_def result_iff MAX_RECORD_BYTES_def)
  show dist: "distinct (train_segments (pt_cells pt))"
    unfolding segs by (rule tiles_concat_distinct [OF pss d small(1)])
  define q where "q r = record_segments (tr_record_id r) (concat pss)" for r :: train_record
  have tq: "tiles r 0 (q r)" if "r \<in> set rs" for r using record_segments_tiles [OF pss d that] by (simp add: q_def)
  have part: "part ?A (tr_record_id r) = set (q r)" for r by (auto simp: part_def q_def record_segments_def segs)
  have owner: "\<exists>r\<in>set rs. seg_record_id s = tr_record_id r \<and> s \<in> set (q r)" if "s \<in> ?A" for s
    using tiles_record_ids [OF pss] that by (fastforce simp: segs q_def record_segments_def)
  have first: "\<exists>p\<in>set (q r). seg_offset p = 0" if "r \<in> set rs" for r
  proof (cases "q r")
    case Nil
    then show ?thesis using tq [OF that] small(2) that by auto
  next
    case (Cons p ps)
    then have p: "p = record_piece r 0 (length (seg_data p))" using tq [OF that] by (simp add: Let_def)
    have "seg_offset p = word_of_nat 0"
      using arg_cong [OF p, of seg_offset] by (simp only: record_piece_sel)
    with Cons show ?thesis by simp
  qed
  show "seg_record_id ` ?A = set (map tr_record_id rs)"
  proof
    show "seg_record_id ` ?A \<subseteq> set (map tr_record_id rs)" using owner by force
    show "set (map tr_record_id rs) \<subseteq> seg_record_id ` ?A"
    proof
      fix rid
      assume "rid \<in> set (map tr_record_id rs)"
      then obtain r where r: "r \<in> set rs" "rid = tr_record_id r" by auto
      then obtain p where "p \<in> part ?A rid" using first [of r] part [of r] by auto
      then show "rid \<in> seg_record_id ` ?A" by (auto simp: part_def)
    qed
  qed
  have v: "validate_segment s = Inr ()" if s: "s \<in> ?A" for s
  proof -
    obtain c where "c \<in> set (pt_cells pt)" "s \<in> set (cell_segments c)" using s by (auto simp: train_segments_def)
    then obtain i where i: "i < length (pt_cells pt)" "s \<in> set (cell_segments (pt_cells pt ! i))"
      by (metis in_set_conv_nth)
    obtain ss f where "pt_cells pt ! i = (data_cell ctx i ss)\<lparr> cell_flags := f \<rparr>"
      "segments_ok (ctx_maximum_datagram_size ctx - HEADER_LEN) ss"
      using built_cells(4) [OF assms i(1)] by blast
    with i(2) show ?thesis by (auto simp: cell_segments_def data_cell_def segments_ok_def list_all_iff)
  qed
  have pair: "seg_total_len p = seg_total_len s \<and> (p \<noteq> s \<longrightarrow> apart p s)"
    if ps: "p \<in> ?A" "s \<in> ?A" "seg_record_id p = seg_record_id s" for p s
  proof -
    obtain r where r: "r \<in> set rs" "seg_record_id s = tr_record_id r" "s \<in> set (q r)" using owner ps(2) by blast
    then have "p \<in> set (q r)" using ps part [of r] by (auto simp: part_def)
    with r tiles_placed [OF tq [OF r(1)]] tiles_apart [OF tq [OF r(1)]] small(1) show ?thesis
      by (auto simp: word_unat_eq_iff)
  qed
  have sum: "data_sum (part ?A (seg_record_id s)) = unat (seg_total_len s) \<and>
      (\<exists>p\<in>part ?A (seg_record_id s). seg_offset p = 0)" if s: "s \<in> ?A" for s
  proof -
    obtain r where r: "r \<in> set rs" "seg_record_id s = tr_record_id r" "s \<in> set (q r)" using owner s by blast
    have "data_sum (set (q r)) = length (tr_data r)"
      using data_sum_set [OF tiles_distinct [OF tq [OF r(1)]]] tiles_data [OF tq [OF r(1)]] small(1) r(1) by simp
    moreover have "unat (seg_total_len s) = length (tr_data r)"
      using tiles_placed [OF tq [OF r(1)]] small(1) r by blast
    ultimately show ?thesis using first [OF r(1)] r(2) part [of r] by simp
  qed
  show "layout ?A" unfolding layout_def using v pair sum by blast
  have "segments_len ss = 16 * length ss + segments_bytes ss" for ss
    by (induction ss) (simp_all add: segments_bytes_def)
  then have "segments_bytes (concat pss) =
      sum_list (map (\<lambda>r. length (tr_data r)) rs) + sum_list (map (\<lambda>r. length (tr_metadata r)) rs)"
    using segments_len_concat_tiles [OF pss valid] by simp
  moreover have "byte_sum ?A = segments_bytes (concat pss)"
    using dist unfolding byte_sum_def segments_bytes_def segs by (simp add: sum_list_distinct_conv_sum_set)
  ultimately show "byte_sum ?A =
       sum_list (map (\<lambda>r. length (tr_data r)) rs) + sum_list (map (\<lambda>r. length (tr_metadata r)) rs)" by simp
qed

lemma built_train_of:
  assumes "build_packet_train ctx rs = Inr pt"
  shows "train_of (context_key ctx) (pt_cells pt)"
proof -
  have "cell_train_key c = context_key ctx \<and> unat (cell_sequence c) = i \<and>
      cell_body c = Records (cell_segments c) \<and> cell_segments c \<noteq> [] \<and>
      cell_flags c = (if i = 0 then FLAG_TRAIN_START else 0) OR
        (if Suc i = length (pt_cells pt) then FLAG_TRAIN_END else 0)"
    if i: "i < length (pt_cells pt)" and c: "c = pt_cells pt ! i" for i c
  proof -
    obtain ss f where "pt_cells pt ! i = (data_cell ctx i ss)\<lparr> cell_flags := f \<rparr>"
      "f = (if i = 0 then FLAG_TRAIN_START else 0) OR (if Suc i = length (pt_cells pt) then FLAG_TRAIN_END else 0)"
      "ss \<noteq> []"
      using built_cells(4) [OF assms i] by blast
    moreover have "unat (word_of_nat i :: u16) = i"
      using i built_cells(1,3) [OF assms] validate_contextD(1) by (intro unat_u16_of_nat) fastforce
    ultimately show ?thesis
      unfolding c by (simp add: data_cell_def cell_train_key_def context_key_def cell_segments_def)
  qed
  then show ?thesis
    using built_cells(2) [OF assms] built_layout(1,2) [OF assms] unfolding train_of_def by blast
qed

lemma accept_all_completed:
  assumes "ra_ok t" and "\<forall>c\<in>set cs. \<forall>s\<in>set (cell_segments c). validate_segment s = Inr ()"
    and "accept_all cs t = (t', outs)" "list_all is_ok outs"
  shows "completed_ids (ra_completed_records t') =
    completed_ids (ra_completed_records t) \<union> set (map cr_record_id (delivered outs))"
  using assms
proof (induction cs arbitrary: t outs)
  case Nil
  then show ?case by auto
next
  case (Cons c cs)
  obtain t1 res where step: "accept_cell c t = (t1, res)" by (cases "accept_cell c t")
  obtain rest where rest: "accept_all cs t1 = (t', rest)" "outs = res # rest"
    using Cons.prems(3) step by (cases "accept_all cs t1") auto
  have good: "\<forall>s\<in>set (cell_segments c). segment_good (\<lambda>_. True) (\<lambda>_ _. True) (cell_train_key c) s"
    using Cons.prems(2) segment_good_trivial by simp
  have post: "accept_post (\<lambda>_. True) (\<lambda>_ _. True)
      (if cell_seen t (cell_sequence c) then 0 else segments_bytes (cell_segments c)) t t1 (out_records res)"
    using Cons.prems(1) by (intro accept_cell_post [OF _ _ good step]) (simp_all add: entries_def)
  have IH: "completed_ids (ra_completed_records t') =
      completed_ids (ra_completed_records t1) \<union> set (map cr_record_id (delivered rest))"
    using Cons.prems post rest by (intro Cons.IH) (auto simp: accept_post_def)
  obtain out where "res = Inr out" using Cons.prems(4) rest(2) by (auto simp: is_ok_iff)
  with post IH show ?case by (auto simp: rest(2) accept_post_def)
qed

lemma nth_indices:
  "set cs \<subseteq> set cells \<Longrightarrow> \<exists>is. cs = map ((!) cells) is \<and> set is \<subseteq> {..<length cells}"
proof (induction cs)
  case Nil
  then show ?case by simp
next
  case (Cons c cs)
  then obtain "is" where "cs = map ((!) cells) is" "set is \<subseteq> {..<length cells}" by auto
  moreover obtain i where "c = cells ! i" "i < length cells" using Cons.prems by (auto simp: in_set_conv_nth)
  ultimately show ?case by (intro exI [of _ "i # is"]) simp
qed

lemma train_indices:
  assumes "train_of key cells" "set cs = set cells"
  obtains "is" where "cs = map ((!) cells) is" "set is = {..<length cells}"
proof -
  obtain "is" where i: "cs = map ((!) cells) is" "set is \<subseteq> {..<length cells}" using nth_indices [of cs cells] assms(2) by auto
  have seq: "unat (cell_sequence (cells ! k)) = k" if "k < length cells" for k
    using assms(1) that by (simp add: train_of_def)
  have "k \<in> set is" if k: "k < length cells" for k
  proof -
    have "cells ! k \<in> set cs" using k assms(2) by simp
    then obtain j where "j \<in> set is" "cells ! k = cells ! j" using i(1) by auto
    then show ?thesis using seq [OF k] seq [of j] i(2) by auto
  qed
  with i show ?thesis by (intro that) auto
qed

definition record_data :: "train_record list \<Rightarrow> u16 \<Rightarrow> bytes" where
  "record_data rs rid = (case find (\<lambda>r. tr_record_id r = rid) rs of None \<Rightarrow> [] | Some r \<Rightarrow> tr_data r)"

definition record_metadata :: "train_record list \<Rightarrow> u16 \<Rightarrow> bytes" where
  "record_metadata rs rid = (case find (\<lambda>r. tr_record_id r = rid) rs of None \<Rightarrow> [] | Some r \<Rightarrow> tr_metadata r)"

lemma find_record:
  "distinct (map tr_record_id rs) \<Longrightarrow> r \<in> set rs \<Longrightarrow> find (\<lambda>q. tr_record_id q = tr_record_id r) rs = Some r"
proof (induction rs)
  case (Cons q rs)
  then show ?case using imageI [of r "set rs" tr_record_id] by (cases "q = r") auto
qed simp

lemma built_cut_from:
  assumes "build_packet_train ctx rs = Inr pt" "s \<in> set (train_segments (pt_cells pt))"
  shows "cut_from (record_data rs) (record_metadata rs) s"
proof -
  obtain pss where pss: "list_all2 (\<lambda>r ps. tiles r 0 ps) rs pss"
    and segs: "train_segments (pt_cells pt) = concat pss" and d: "distinct (map tr_record_id rs)"
    and valid: "\<forall>r\<in>set rs. validate_record (ctx_maximum_datagram_size ctx - HEADER_LEN) r = Inr ()"
    using assms(1) by (rule built_segments)
  obtain r where r: "r \<in> set rs" "seg_record_id s = tr_record_id r"
    using tiles_record_ids [OF pss] assms(2) segs by auto
  have s: "s \<in> set (record_segments (tr_record_id r) (concat pss))"
    using assms(2) r by (simp add: record_segments_def segs)
  have "length (tr_data r) \<le> 65535" using valid r by (simp add: validate_record_def result_iff MAX_RECORD_BYTES_def)
  from tiles_placed [OF record_segments_tiles [OF pss d r(1)] this] s
  have "unat (seg_total_len s) = length (tr_data r)"
    "seg_data s = slice (unat (seg_offset s)) (unat (seg_offset s) + length (seg_data s)) (tr_data r)"
    "unat (seg_offset s) = 0 \<longrightarrow> seg_metadata s = tr_metadata r" by blast+
  moreover have "record_data rs (seg_record_id s) = tr_data r" "record_metadata rs (seg_record_id s) = tr_metadata r"
    using find_record [OF d r(1)] r(2) by (simp_all add: record_data_def record_metadata_def)
  ultimately show ?thesis unfolding cut_from_def Let_def by metis
qed

section \<open>Properties\<close>

lemma roomy_built:
  assumes "build_packet_train ctx rs = Inr pt" and "length rs \<le> rl_maximum_active_records l"
    and "sum_list (map (\<lambda>r. length (tr_data r)) rs) + sum_list (map (\<lambda>r. length (tr_metadata r)) rs)
          \<le> rl_maximum_buffered_bytes l"
  shows "roomy (set (train_segments (pt_cells pt))) l"
proof -
  have "card (set (map tr_record_id rs)) \<le> length rs" by (metis card_length length_map)
  with assms(2,3) show ?thesis unfolding roomy_def built_layout(3,4) [OF assms(1)] by simp
qed

text \<open>C2. End to end: the Cells of a built train, received completely but in any order and with
  any repetitions by a fresh reassembler with room for the train, are all accepted, complete the
  train and deliver exactly the records that were sent, each once, with their data and metadata.\<close>

theorem train_delivery:
  assumes build: "build_packet_train ctx rs = Inr pt"
    and new: "reassembler_new l = Inr t" "rl_maximum_buffered_bytes l < usize_max"
    and room: "length (pt_cells pt) \<le> rl_maximum_cells l" "length rs \<le> rl_maximum_active_records l"
      "sum_list (map (\<lambda>r. length (tr_data r)) rs) + sum_list (map (\<lambda>r. length (tr_metadata r)) rs)
        \<le> rl_maximum_buffered_bytes l"
    and cs: "set cs = set (pt_cells pt)"
  shows "\<exists>t' outs. accept_all cs t = (t', outs) \<and> list_all is_ok outs \<and> is_complete t' \<and>
    distinct (map cr_record_id (delivered outs)) \<and>
    (\<lambda>r. (cr_record_id r, cr_metadata r, coalesce r)) ` set (delivered outs) =
    (\<lambda>r. (tr_record_id r, tr_metadata r, tr_data r)) ` set rs"
proof -
  let ?cells = "pt_cells pt"
  let ?D = "record_data rs" and ?M = "record_metadata rs"
  note tr = built_train_of [OF build] and fresh = reassembler_new_ok [OF new]
  have layout: "layout (set (train_segments ?cells))" by (rule built_layout(2) [OF build])
  obtain "is" where i: "cs = map ((!) ?cells) is" "set is = {..<length ?cells}" by (rule train_indices [OF tr cs])
  have "live_train (context_key ctx) ?cells {} t"
    using fresh by (simp add: live_train_def live_def received_def part_def byte_sum_def ra_ok_def records_bytes_def) blast
  then obtain t' outs where run: "accept_all cs t = (t', outs)" "list_all is_ok outs"
    and live: "live_train (context_key ctx) ?cells {..<length ?cells} t'"
    using accept_all_live [OF tr _ _ _ eq_refl [OF i(2)], of "{}" t] i room(1) roomy_built [OF build room(2,3)] fresh(5)
    by auto
  have segs: "s \<in> set (train_segments ?cells)" if "c \<in> set cs" "s \<in> set (cell_segments c)" for c s
    using that cs by (auto simp: train_segments_def)
  have v: "\<forall>c\<in>set cs. \<forall>s\<in>set (cell_segments c). validate_segment s = Inr ()"
    using segs layout by (auto simp: layout_def)
  have good: "\<forall>c\<in>set cs. \<forall>s\<in>set (cell_segments c).
      segment_good (is_record ?D ?M) (consistent ?D ?M) (cell_train_key c) s"
    using segs v built_cut_from [OF build] cut_from_good by blast
  have "entries (consistent ?D ?M) t" using fresh(2) by (simp add: entries_def)
  from accept_all_integrity [OF fresh(1) this good run(1)]
  have rec: "\<forall>r\<in>set (delivered outs). is_record ?D ?M r" and dist: "distinct (map cr_record_id (delivered outs))"
    by (simp_all add: list_all_iff)
  have ids: "cr_record_id ` set (delivered outs) = tr_record_id ` set rs"
    using accept_all_completed [OF fresh(1) v run] fresh(3) live_train_complete(2) [OF tr live]
      built_layout(3) [OF build] by simp
  obtain d: "distinct (map tr_record_id rs)" using build by (rule built_segments)
  have D: "?D (tr_record_id r) = tr_data r" "?M (tr_record_id r) = tr_metadata r" if "r \<in> set rs" for r
    using find_record [OF d that] by (simp_all add: record_data_def record_metadata_def)
  have "(\<lambda>r. (cr_record_id r, cr_metadata r, coalesce r)) ` set (delivered outs) =
      (\<lambda>rid. (rid, ?M rid, ?D rid)) ` cr_record_id ` set (delivered outs)"
    using rec by (auto simp: is_record_def image_iff)
  also have "\<dots> = (\<lambda>r. (tr_record_id r, tr_metadata r, tr_data r)) ` set rs"
    unfolding ids image_image using D by (intro image_cong) simp_all
  finally show ?thesis
    using run dist live_train_complete(1) [OF tr live] by blast
qed

theorem train_delivery_witness:
  "\<exists>t' outs. accept_all [demo_train_cells ! 1, demo_train_cells ! 0, demo_train_cells ! 1] demo_reassembler = (t', outs) \<and>
     is_complete t' \<and> (1, [170], replicate 30 5) \<in> (\<lambda>r. (cr_record_id r, cr_metadata r, coalesce r)) ` set (delivered outs)"
proof -
  obtain st where b: "build_packet_train demo_context demo_records = Inr \<lparr> pt_cells = demo_train_cells, pt_stats = st \<rparr>"
    using demo_train by blast
  have "set [demo_train_cells ! 1, demo_train_cells ! 0, demo_train_cells ! 1] = set demo_train_cells"
    by (auto simp: demo_train_cells_def)
  then show ?thesis
    using train_delivery [OF b demo_reassembler_new, of "[demo_train_cells ! 1, demo_train_cells ! 0, demo_train_cells ! 1]"]
    by (simp add: demo_limits_def usize_max_def demo_records_def del: accept_all.simps)
      (auto simp: demo_train_cells_def)
qed

end
