(* ===== verification/Hash_Map.thy ===== *)
theory Hash_Map
  imports Prelude "HOL-Library.Multiset"
begin

text \<open>
  Hash maps as association lists with distinct keys: \<open>get\<close> is \<^const>\<open>map_of\<close>, \<open>insert\<close> is
  \<open>AList.update\<close>, \<open>remove\<close> is \<open>AList.delete\<close>. The lemmas give the entries and the sum of a
  measure over the values after an update or a removal, for the byte and item counters that the
  components keep beside their maps.
\<close>

definition alist_sum :: "('v \<Rightarrow> nat) \<Rightarrow> ('k \<times> 'v) list \<Rightarrow> nat" where
  "alist_sum g es = sum_list (map (g \<circ> snd) es)"

lemma alist_sum_simps [simp]:
  "alist_sum g [] = 0" "alist_sum g (e # es) = g (snd e) + alist_sum g es"
  "alist_sum g (es @ es') = alist_sum g es + alist_sum g es'"
  by (simp_all add: alist_sum_def)

lemma delete_filter: "AList.delete key es = filter (\<lambda>e. fst e \<noteq> key) es"
  by (auto simp: AList.delete_eq intro: filter_cong)

lemma filter_keys_id: "key \<notin> fst ` set es \<Longrightarrow> filter (\<lambda>e. fst e \<noteq> key) es = es"
  by (auto simp: filter_id_conv)

lemma delete_absent: "key \<notin> fst ` set es \<Longrightarrow> AList.delete key es = es"
  by (simp add: delete_filter filter_keys_id)

lemma update_new: "key \<notin> fst ` set es \<Longrightarrow> AList.update key v es = es @ [(key, v)]"
  by (induction es) auto

lemma keys_delete: "fst ` set (AList.delete key es) = fst ` set es - {key}"
  by (auto simp: delete_filter)

lemma length_update: "length (AList.update key v es) = (if key \<in> fst ` set es then length es else Suc (length es))"
  by (induction es) auto

lemma mem_update:
  "distinct (map fst es) \<Longrightarrow>
    e \<in> set (AList.update key v es) \<longleftrightarrow> e = (key, v) \<or> fst e \<noteq> key \<and> e \<in> set es"
  by (induction es) (auto simp: image_iff)

lemma mem_delete: "e \<in> set (AList.delete key es) \<longleftrightarrow> fst e \<noteq> key \<and> e \<in> set es"
  by (auto simp: delete_filter)

lemma distinct_map_filter: "distinct (map f xs) \<Longrightarrow> distinct (map f (filter P xs))"
  by (induction xs) auto

lemma alist_sum_delete_le: "alist_sum g (AList.delete key es) \<le> alist_sum g es"
  by (induction es) auto

lemma alist_sum_delete_some:
  "map_of es key = Some v \<Longrightarrow> alist_sum g (AList.delete key es) + g v \<le> alist_sum g es"
  using alist_sum_delete_le [of g key] by (induction es) (auto simp: add_le_mono split: if_splits)

lemma alist_sum_delete:
  "distinct (map fst es) \<Longrightarrow> map_of es key = Some v \<Longrightarrow> alist_sum g (AList.delete key es) + g v = alist_sum g es"
  by (induction es) (auto simp: delete_absent split: if_splits)

lemma alist_sum_update:
  "map_of es key = Some v \<Longrightarrow> alist_sum g (AList.update key v' es) + g v = alist_sum g es + g v'"
  by (induction es) auto

lemma alist_sum_update_new:
  "map_of es key = None \<Longrightarrow> alist_sum g (AList.update key v es) = alist_sum g es + g v"
  by (simp add: update_new map_of_eq_None_iff)

lemma alist_sum_mem: "map_of es key = Some v \<Longrightarrow> g v \<le> alist_sum g es"
  by (induction es) (auto split: if_splits)

lemma length_delete:
  "distinct (map fst es) \<Longrightarrow> map_of es key = Some v \<Longrightarrow> Suc (length (AList.delete key es)) = length es"
  by (induction es) (auto simp: delete_absent split: if_splits)

lemma mset_delete:
  "distinct (map fst es) \<Longrightarrow> map_of es key = Some v \<Longrightarrow>
    mset es = add_mset (key, v) (mset (AList.delete key es))"
  by (induction es) (auto simp: delete_absent split: if_splits)

lemma mset_update:
  "distinct (map fst es) \<Longrightarrow> mset (AList.update k v es) = add_mset (k, v) (mset (AList.delete k es))"
  by (induction es) (auto simp: delete_absent)

lemma filter_key_only:
  assumes "distinct (map fst es)" "(key, v) \<in> set es"
  shows "filter (\<lambda>e. \<not> fst e \<noteq> key) es = [(key, v)]"
  using assms
proof (induction es)
  case (Cons e es)
  then show ?case by (cases "fst e = key") (auto simp: image_iff filter_empty_conv)
qed simp

end
