(* ===== verification/ReassemblyTable.thy ===== *)
theory ReassemblyTable
  imports Delivery Hash_Map
begin

text \<open>
  The peer-level table of concurrently reassembled trains (\<open>ReassemblyTableV2\<close> of
  \<open>src/src/protocol/v2/reassembly.rs\<close>): the hot train kept outside the hash map, tombstones of
  completed trains, expiry, pressure eviction and the two resize operations. The table's
  invariant ties the byte counter to the trains it holds; the lemmas bound memory and tombstones
  and carry the integrity of a single train over to interleaved ones.
\<close>

section \<open>State\<close>

definition MAX_EXPIRY_SWEEP_INTERVAL :: duration where
  "MAX_EXPIRY_SWEEP_INTERVAL = 10000000"

record table_limits =
  tl_session_epoch :: u32
  tl_maximum_active_trains :: nat
  tl_maximum_buffered_bytes :: nat
  tl_train_timeout :: duration
  tl_per_train :: reassembly_limits

definition validate_table_limits :: "table_limits \<Rightarrow> unit result" where
  "validate_table_limits l =
     ensure (tl_session_epoch l \<noteq> 0) ''V2 reassembly epoch zero is reserved'' (
     ensure (1 \<le> tl_maximum_active_trains l \<and> tl_maximum_active_trains l \<le> u16_max)
       ''invalid V2 active train limit'' (
     ensure (MAX_RECORD_BYTES \<le> tl_maximum_buffered_bytes l)
       ''V2 global reassembly budget is too small'' (
     ensure (tl_train_timeout l \<noteq> 0) ''V2 train timeout must be positive'' (
     validate_limits (tl_per_train l)))))"

record timed_train =
  tt_reassembler :: train_reassembler
  tt_last_update :: instant

record reassembly_table =
  rt_limits :: table_limits
  rt_hot_train :: "(train_key \<times> timed_train) option"
  rt_trains :: "(train_key \<times> timed_train) list"
  rt_completed :: "(train_key \<times> instant) list"
  rt_completed_order :: "train_key list"
  rt_buffered_bytes :: nat
  rt_next_expiry_check :: "instant option"

definition table_new :: "table_limits \<Rightarrow> reassembly_table result" where
  "table_new l =
     bindR (validate_table_limits l) (\<lambda>_.
     Inr \<lparr> rt_limits = l, rt_hot_train = None, rt_trains = [], rt_completed = [],
           rt_completed_order = [], rt_buffered_bytes = 0, rt_next_expiry_check = None \<rparr>)"

section \<open>Operations\<close>

definition hot_matches :: "train_key \<Rightarrow> reassembly_table \<Rightarrow> bool" where
  "hot_matches key t = (case rt_hot_train t of None \<Rightarrow> False | Some (hot, _) \<Rightarrow> hot = key)"

definition active_trains :: "reassembly_table \<Rightarrow> nat" where
  "active_trains t = length (rt_trains t) + (case rt_hot_train t of None \<Rightarrow> 0 | Some _ \<Rightarrow> 1)"

text \<open>\<open>Iterator::min_by_key\<close>: the first minimum in iteration order.\<close>

fun min_by_key :: "('a \<Rightarrow> nat) \<Rightarrow> 'a list \<Rightarrow> 'a option" where
  "min_by_key f [] = None"
| "min_by_key f (x # xs) =
     (case min_by_key f xs of None \<Rightarrow> Some x | Some y \<Rightarrow> Some (if f x \<le> f y then x else y))"

definition oldest_train_key :: "reassembly_table \<Rightarrow> train_key option" where
  "oldest_train_key t =
     (case (rt_hot_train t, min_by_key (\<lambda>(_, tr). tt_last_update tr) (rt_trains t)) of
        (Some (key, tr), Some (cold_key, cold)) \<Rightarrow>
          Some (if tt_last_update tr \<le> tt_last_update cold then key else cold_key)
      | (Some (key, _), None) \<Rightarrow> Some key
      | (None, Some (key, _)) \<Rightarrow> Some key
      | (None, None) \<Rightarrow> None)"

definition train_bytes :: "timed_train \<Rightarrow> nat" where
  "train_bytes tr = ra_buffered_bytes (tt_reassembler tr)"

definition remove_train :: "train_key \<Rightarrow> reassembly_table \<Rightarrow> reassembly_table" where
  "remove_train key t =
     (if hot_matches key t then
        (case rt_hot_train t of
           None \<Rightarrow> t
         | Some (_, tr) \<Rightarrow>
             t\<lparr> rt_hot_train := None, rt_buffered_bytes := rt_buffered_bytes t - train_bytes tr \<rparr>)
      else
        (case map_of (rt_trains t) key of
           None \<Rightarrow> t
         | Some tr \<Rightarrow>
             t\<lparr> rt_trains := AList.delete key (rt_trains t),
                rt_buffered_bytes := rt_buffered_bytes t - train_bytes tr \<rparr>))"

definition stale :: "reassembly_table \<Rightarrow> instant \<Rightarrow> instant \<Rightarrow> bool" where
  "stale t now at \<longleftrightarrow> tl_train_timeout (rt_limits t) \<le> now - at"

fun expire_completed :: "(instant \<Rightarrow> bool) \<Rightarrow> train_key list \<Rightarrow> (train_key \<times> instant) list \<Rightarrow>
    train_key list \<times> (train_key \<times> instant) list" where
  "expire_completed old [] completed = ([], completed)"
| "expire_completed old (key # order) completed =
     (if (case map_of completed key of None \<Rightarrow> True | Some at \<Rightarrow> old at)
      then expire_completed old order (AList.delete key completed)
      else (key # order, completed))"

definition expire :: "instant \<Rightarrow> reassembly_table \<Rightarrow> reassembly_table \<times> nat" where
  "expire now t =
     (let old = (\<lambda>(_, tr). stale t now (tt_last_update tr));
          dead = filter old (rt_trains t);
          released = foldl (\<lambda>n (_, tr). sat_add n (train_bytes tr)) 0 dead;
          (hot, released, expired) =
            (case rt_hot_train t of
               Some (key, tr) \<Rightarrow>
                 if stale t now (tt_last_update tr)
                 then (None, sat_add released (train_bytes tr), length dead + 1)
                 else (rt_hot_train t, released, length dead)
             | None \<Rightarrow> (None, released, length dead));
          (order, completed) =
            expire_completed (stale t now) (rt_completed_order t) (rt_completed t) in
      (t\<lparr> rt_trains := filter (\<lambda>e. \<not> old e) (rt_trains t), rt_hot_train := hot,
          rt_buffered_bytes := rt_buffered_bytes t - released,
          rt_completed_order := order, rt_completed := completed,
          rt_next_expiry_check :=
            Some (now + min (tl_train_timeout (rt_limits t)) MAX_EXPIRY_SWEEP_INTERVAL) \<rparr>,
       expired))"

definition expire_if_due :: "instant \<Rightarrow> reassembly_table \<Rightarrow> reassembly_table \<times> nat" where
  "expire_if_due now t =
     (if (case rt_next_expiry_check t of None \<Rightarrow> True | Some deadline \<Rightarrow> deadline \<le> now)
      then expire now t else (t, 0))"

text \<open>The \<open>while\<close> loops of \<open>completed\<close> and of pressure eviction.\<close>

fun trim_completed :: "nat \<Rightarrow> train_key list \<Rightarrow> (train_key \<times> instant) list \<Rightarrow>
    train_key list \<times> (train_key \<times> instant) list" where
  "trim_completed limit [] completed = ([], completed)"
| "trim_completed limit (key # order) completed =
     (if limit < length completed then trim_completed limit order (AList.delete key completed)
      else (key # order, completed))"

definition table_trim :: "reassembly_table \<Rightarrow> reassembly_table" where
  "table_trim t =
     (case trim_completed (tl_maximum_active_trains (rt_limits t)) (rt_completed_order t) (rt_completed t) of
        (order, completed) \<Rightarrow> t\<lparr> rt_completed_order := order, rt_completed := completed \<rparr>)"

lemma min_by_key_mem: "min_by_key f xs = Some x \<Longrightarrow> x \<in> set xs"
  by (induction xs arbitrary: x) (auto split: option.splits if_splits)

lemma min_by_key_None [simp]: "min_by_key f xs = None \<longleftrightarrow> xs = []"
  by (cases xs) (auto split: option.splits)

lemma oldest_train_active:
  assumes "oldest_train_key t = Some key"
  shows "active_trains (remove_train key t) < active_trains t"
proof -
  have len: "length (AList.delete key xs) < length xs" if "map_of xs key = Some v" for xs :: "(train_key \<times> timed_train) list" and v
    using that by (induction xs) (auto simp: AList.delete_eq intro: le_imp_less_Suc length_filter_le)
  show ?thesis
    using assms
    by (auto simp: oldest_train_key_def remove_train_def active_trains_def hot_matches_def
        split: option.splits if_splits dest!: min_by_key_mem weak_map_of_SomeI intro: len)
qed

function evict_while :: "(nat \<Rightarrow> bool) \<Rightarrow> reassembly_table \<Rightarrow> nat \<Rightarrow> reassembly_table \<times> nat" where
  "evict_while over t n =
     (if over (rt_buffered_bytes t) then
        (case oldest_train_key t of
           None \<Rightarrow> (t, n)
         | Some oldest \<Rightarrow> evict_while over (remove_train oldest t) (n + 1))
      else (t, n))"
  by pat_completeness auto
termination
  by (relation "measure (\<lambda>(over, t, n). active_trains t)") (auto dest: oldest_train_active)

declare evict_while.simps [simp del]

definition incoming_bytes :: "cell_v2 \<Rightarrow> nat" where
  "incoming_bytes c =
     (case cell_body c of
        Records segments \<Rightarrow>
          foldl (\<lambda>total s. sat_add (sat_add total (length (seg_metadata s))) (length (seg_data s))) 0 segments
      | Parity _ \<Rightarrow> 0)"

definition table_cell_seen :: "train_key \<Rightarrow> u16 \<Rightarrow> reassembly_table \<Rightarrow> bool" where
  "table_cell_seen key q t =
     (if hot_matches key t
      then (case rt_hot_train t of None \<Rightarrow> False | Some (_, tr) \<Rightarrow> cell_seen (tt_reassembler tr) q)
      else (case map_of (rt_trains t) key of None \<Rightarrow> False | Some tr \<Rightarrow> cell_seen (tt_reassembler tr) q))"

definition at_capacity :: "train_key \<Rightarrow> reassembly_table \<Rightarrow> bool" where
  "at_capacity key t \<longleftrightarrow>
     tl_maximum_active_trains (rt_limits t) \<le> active_trains t \<and> map_of (rt_trains t) key = None"

text \<open>Make room for a train that is not hot: the new table with the timeout expirations and pressure
  evictions counted on.\<close>

definition make_room :: "train_key \<Rightarrow> instant \<Rightarrow> nat \<Rightarrow> nat \<Rightarrow> reassembly_table \<Rightarrow> reassembly_table \<times> nat \<times> nat" where
  "make_room key now expired evicted t =
     (let (t, expired) =
        (if at_capacity key t then (case expire now t of (t, n) \<Rightarrow> (t, sat_add expired n)) else (t, expired)) in
      if at_capacity key t then
        (case oldest_train_key t of
           Some oldest \<Rightarrow> (remove_train oldest t, expired, sat_add evicted 1)
         | None \<Rightarrow> (t, expired, evicted))
      else (t, expired, evicted))"

text \<open>Make the train hot, creating it when it is new.\<close>

definition install_hot :: "train_key \<Rightarrow> instant \<Rightarrow> reassembly_table \<Rightarrow> reassembly_table \<times> unit result" where
  "install_hot key now t =
     (let found = map_of (rt_trains t) key;
          t = t\<lparr> rt_trains := AList.delete key (rt_trains t) \<rparr> in
      case reassembler_new (tl_per_train (rt_limits t)) of
        Inl e \<Rightarrow> (t, Inl e)
      | Inr fresh \<Rightarrow>
          let tr = (case found of Some tr \<Rightarrow> tr
                    | None \<Rightarrow> \<lparr> tt_reassembler = fresh, tt_last_update = now \<rparr>) in
          (case rt_hot_train t of
             None \<Rightarrow> (t\<lparr> rt_hot_train := Some (key, tr) \<rparr>, Inr ())
           | Some (previous_key, previous) \<Rightarrow>
               (t\<lparr> rt_hot_train := Some (key, tr),
                   rt_trains := AList.update previous_key previous (rt_trains t) \<rparr>, Inr ())))"

definition finish_train :: "train_key \<Rightarrow> instant \<Rightarrow> reassembly_table \<Rightarrow> reassembly_table" where
  "finish_train key now t =
     (let t = remove_train key t in
      table_trim (t\<lparr> rt_completed := AList.update key now (rt_completed t),
                     rt_completed_order := rt_completed_order t @ [key] \<rparr>))"

text \<open>Feed the Cell to the hot train.\<close>

definition accept_hot :: "cell_v2 \<Rightarrow> train_key \<Rightarrow> instant \<Rightarrow> nat \<Rightarrow> nat \<Rightarrow> reassembly_table \<Rightarrow>
    reassembly_table \<times> reassembly_output result" where
  "accept_hot c key now expired evicted t =
     (case rt_hot_train t of
        None \<Rightarrow> (t, Inl (Panic ''V2 hot train was installed''))
      | Some (hot, tr) \<Rightarrow>
          let before = train_bytes tr;
              (ra, accepted) = accept_cell c (tt_reassembler tr);
              tr = \<lparr> tt_reassembler = ra, tt_last_update = now \<rparr>;
              t = t\<lparr> rt_hot_train := Some (hot, tr),
                     rt_buffered_bytes := sat_add (rt_buffered_bytes t - before) (train_bytes tr) \<rparr> in
          (case accepted of
             Inl e \<Rightarrow> (remove_train key t, Inl e)
           | Inr out \<Rightarrow>
               let out = out\<lparr> ro_pressure_evicted_trains := sat_add (ro_pressure_evicted_trains out) evicted,
                              ro_reassembly_expired_trains :=
                                sat_add (ro_reassembly_expired_trains out) expired \<rparr> in
               (if ro_train_complete out then finish_train key now t else t, Inr out)))"

text \<open>After the budget test the Cell goes to its train, made hot.\<close>

definition deliver_cell :: "cell_v2 \<Rightarrow> instant \<Rightarrow> nat \<Rightarrow> nat \<Rightarrow> reassembly_table \<Rightarrow> reassembly_table \<times> reassembly_output result" where
  "deliver_cell c now expired evicted t =
     (let key = cell_train_key c in
      if hot_matches key t then accept_hot c key now expired evicted t
      else
        (case make_room key now expired evicted t of (t, expired, evicted) \<Rightarrow>
           (case install_hot key now t of
              (t, Inl e) \<Rightarrow> (t, Inl e)
            | (t, Inr _) \<Rightarrow> accept_hot c key now expired evicted t)))"

definition accept_at :: "cell_v2 \<Rightarrow> instant \<Rightarrow> reassembly_table \<Rightarrow> reassembly_table \<times> reassembly_output result" where
  "accept_at c now t =
     (if cell_session_epoch c \<noteq> tl_session_epoch (rt_limits t)
      then (t, Inl (Err ''V2 Cell belongs to another session epoch''))
      else
        let (t, expired) = expire_if_due now t;
            key = cell_train_key c in
        if \<not> hot_matches key t \<and> map_of (rt_completed t) key \<noteq> None
        then (t, Inr ((reassembly_output_of [] True True 0 0)\<lparr> ro_reassembly_expired_trains := expired \<rparr>))
        else
          let incoming = (if table_cell_seen key (cell_sequence c) t then 0 else incoming_bytes c);
              limit = tl_maximum_buffered_bytes (rt_limits t);
              (t, n) = evict_while (\<lambda>buffered. limit < sat_add buffered incoming) t 0;
              evicted = min n usize_max in
          if limit < incoming then (t, Inl (Err ''V2 Cell exceeds the global reassembly byte budget''))
          else deliver_cell c now expired evicted t)"

definition set_maximum_buffered_bytes :: "nat \<Rightarrow> reassembly_table \<Rightarrow> reassembly_table \<times> nat result" where
  "set_maximum_buffered_bytes m t =
     (if MAX_RECORD_BYTES \<le> m then
        (case evict_while (\<lambda>buffered. m < buffered)
                (t\<lparr> rt_limits := (rt_limits t)\<lparr> tl_maximum_buffered_bytes := m \<rparr> \<rparr>) 0 of
           (t, evicted) \<Rightarrow> (t, Inr evicted))
      else (t, Inl (Err ''V2 global reassembly budget is too small'')))"

definition set_maximum_active_trains :: "nat \<Rightarrow> reassembly_table \<Rightarrow> reassembly_table \<times> unit result" where
  "set_maximum_active_trains m t =
     (if 1 \<le> m \<and> m \<le> u16_max
      then (table_trim (t\<lparr> rt_limits := (rt_limits t)\<lparr> tl_maximum_active_trains := m \<rparr> \<rparr>), Inr ())
      else (t, Inl (Err ''invalid V2 active train limit'')))"


section \<open>The trains of the table\<close>

text \<open>The hot slot is a cache: the table holds one map of trains.\<close>

definition all_trains :: "reassembly_table \<Rightarrow> (train_key \<times> timed_train) list" where
  "all_trains t = (case rt_hot_train t of None \<Rightarrow> [] | Some e \<Rightarrow> [e]) @ rt_trains t"

definition trains_bytes :: "(train_key \<times> timed_train) list \<Rightarrow> nat" where
  "trains_bytes es = sum_list (map (train_bytes \<circ> snd) es)"

definition train_good :: "(train_key \<Rightarrow> u16 \<Rightarrow> record_state \<Rightarrow> bool) \<Rightarrow> reassembly_limits \<Rightarrow> train_key \<times> timed_train \<Rightarrow> bool" where
  "train_good Q l e \<longleftrightarrow> ra_ok (tt_reassembler (snd e)) \<and> ra_limits (tt_reassembler (snd e)) = l \<and>
     entries (Q (fst e)) (tt_reassembler (snd e))"

definition limits_ok :: "table_limits \<Rightarrow> bool" where
  "limits_ok l \<longleftrightarrow> validate_table_limits l = Inr () \<and> tl_maximum_buffered_bytes l < usize_max \<and>
     rl_maximum_buffered_bytes (tl_per_train l) < usize_max"

definition trains_ok :: "(train_key \<Rightarrow> u16 \<Rightarrow> record_state \<Rightarrow> bool) \<Rightarrow> reassembly_table \<Rightarrow> bool" where
  "trains_ok Q t \<longleftrightarrow>
     limits_ok (rt_limits t) \<and> distinct (map fst (all_trains t)) \<and>
     list_all (train_good Q (tl_per_train (rt_limits t))) (all_trains t) \<and>
     rt_buffered_bytes t = trains_bytes (all_trains t) \<and>
     rt_buffered_bytes t \<le> tl_maximum_buffered_bytes (rt_limits t)"

definition tombs_ok :: "reassembly_table \<Rightarrow> bool" where
  "tombs_ok t \<longleftrightarrow>
     distinct (rt_completed_order t) \<and> distinct (map fst (rt_completed t)) \<and>
     set (rt_completed_order t) = fst ` set (rt_completed t) \<and>
     set (rt_completed_order t) \<inter> fst ` set (all_trains t) = {}"

definition table_ok :: "(train_key \<Rightarrow> u16 \<Rightarrow> record_state \<Rightarrow> bool) \<Rightarrow> reassembly_table \<Rightarrow> bool" where
  "table_ok Q t \<longleftrightarrow> trains_ok Q t \<and> tombs_ok t \<and>
     length (rt_completed t) \<le> tl_maximum_active_trains (rt_limits t)"

lemma trains_bytes_simps [simp]:
  "trains_bytes [] = 0" "trains_bytes (e # es) = train_bytes (snd e) + trains_bytes es"
  "trains_bytes (es @ es') = trains_bytes es + trains_bytes es'"
  by (simp_all add: trains_bytes_def)

lemma trains_bytes_mset: "mset es = mset es' \<Longrightarrow> trains_bytes es = trains_bytes es'"
  unfolding trains_bytes_def by (metis mset_map sum_mset_sum_list)

lemma trains_bytes_filter: "trains_bytes (filter P es) + trains_bytes (filter (\<lambda>e. \<not> P e) es) = trains_bytes es"
  by (induction es) auto

lemma active_trains_eq: "active_trains t = length (all_trains t)"
  by (simp add: active_trains_def all_trains_def split: option.splits)

lemma hot_matches_iff: "hot_matches key t \<longleftrightarrow> (\<exists>tr. rt_hot_train t = Some (key, tr))"
  by (auto simp: hot_matches_def split: option.splits)

text \<open>Removing a train, as a filter on the map.\<close>

lemma remove_train_sel [simp]:
  "rt_limits (remove_train key t) = rt_limits t" "rt_completed (remove_train key t) = rt_completed t"
  "rt_completed_order (remove_train key t) = rt_completed_order t"
  by (auto simp: remove_train_def split: option.splits)

lemma all_trains_remove:
  assumes "distinct (map fst (all_trains t))"
  shows "all_trains (remove_train key t) = filter (\<lambda>e. fst e \<noteq> key) (all_trains t)"
proof (cases "hot_matches key t")
  case True
  then obtain tr where hot: "rt_hot_train t = Some (key, tr)" by (auto simp: hot_matches_iff)
  then have "key \<notin> fst ` set (rt_trains t)" using assms by (simp add: all_trains_def)
  with True hot show ?thesis by (simp add: remove_train_def all_trains_def filter_keys_id)
next
  case False
  then have hot: "filter (\<lambda>e. fst e \<noteq> key) (case rt_hot_train t of None \<Rightarrow> [] | Some e \<Rightarrow> [e]) =
      (case rt_hot_train t of None \<Rightarrow> [] | Some e \<Rightarrow> [e])"
    by (auto simp: hot_matches_def split: option.splits)
  show ?thesis
  proof (cases "map_of (rt_trains t) key")
    case None
    then have "key \<notin> fst ` set (rt_trains t)" by (simp add: map_of_eq_None_iff)
    with None False hot show ?thesis by (simp add: remove_train_def all_trains_def filter_keys_id)
  next
    case (Some tr)
    with False hot show ?thesis by (simp add: remove_train_def all_trains_def delete_filter)
  qed
qed

lemma buffered_remove:
  assumes d: "distinct (map fst (all_trains t))" and b: "rt_buffered_bytes t = trains_bytes (all_trains t)"
  shows "rt_buffered_bytes (remove_train key t) = trains_bytes (all_trains (remove_train key t))"
proof (cases "key \<in> fst ` set (all_trains t)")
  case False
  then have "\<not> hot_matches key t" "map_of (rt_trains t) key = None"
    by (auto simp: all_trains_def hot_matches_iff map_of_eq_None_iff)
  with b show ?thesis by (simp add: remove_train_def)
next
  case True
  then obtain tr where tr: "(key, tr) \<in> set (all_trains t)" by auto
  have "rt_buffered_bytes (remove_train key t) = rt_buffered_bytes t - train_bytes tr"
  proof (cases "hot_matches key t")
    case True
    then obtain tr' where hot: "rt_hot_train t = Some (key, tr')" by (auto simp: hot_matches_iff)
    then have "tr' = tr" using d tr by (auto simp: all_trains_def image_iff)
    with True hot show ?thesis by (simp add: remove_train_def)
  next
    case False
    then have "(key, tr) \<in> set (rt_trains t)" using tr by (cases "rt_hot_train t") (auto simp: all_trains_def hot_matches_iff)
    moreover have "distinct (map fst (rt_trains t))" using d by (simp add: all_trains_def)
    ultimately have "map_of (rt_trains t) key = Some tr" by simp
    with False show ?thesis by (simp add: remove_train_def)
  qed
  moreover have "trains_bytes (all_trains t) = trains_bytes (all_trains (remove_train key t)) + train_bytes tr"
    using trains_bytes_filter [of "\<lambda>e. fst e \<noteq> key" "all_trains t"] filter_key_only [OF d tr]
    by (simp add: all_trains_remove [OF d])
  ultimately show ?thesis using b by simp
qed

section \<open>Dropping trains keeps the invariant\<close>

text \<open>\<open>t'\<close> holds some of the trains of \<open>t\<close>, its byte counter exact.\<close>

definition shrunk :: "reassembly_table \<Rightarrow> reassembly_table \<Rightarrow> bool" where
  "shrunk t t' \<longleftrightarrow> rt_limits t' = rt_limits t \<and> (\<exists>P. all_trains t' = filter P (all_trains t)) \<and>
     rt_buffered_bytes t' = trains_bytes (all_trains t')"

lemma shrunk_trans: "shrunk a b \<Longrightarrow> shrunk b c \<Longrightarrow> shrunk a c"
  by (auto simp: shrunk_def)

lemma shrunk_refl: "rt_buffered_bytes t = trains_bytes (all_trains t) \<Longrightarrow> shrunk t t"
  unfolding shrunk_def by (auto intro: exI [of _ "\<lambda>_. True"])

lemma trains_bytes_filter_le: "trains_bytes (filter P es) \<le> trains_bytes es"
  by (induction es) auto

lemma shrunk_ok:
  assumes "trains_ok Q t" "shrunk t t'"
  shows "trains_ok Q t'" "rt_buffered_bytes t' \<le> rt_buffered_bytes t"
    "fst ` set (all_trains t') \<subseteq> fst ` set (all_trains t)" "active_trains t' \<le> active_trains t"
proof -
  obtain P where P: "all_trains t' = filter P (all_trains t)" using assms(2) by (auto simp: shrunk_def)
  show b: "rt_buffered_bytes t' \<le> rt_buffered_bytes t"
    using assms trains_bytes_filter_le [of P "all_trains t"] by (simp add: shrunk_def trains_ok_def P)
  show "trains_ok Q t'"
    using assms b by (auto simp: shrunk_def trains_ok_def P distinct_map_filter list_all_iff)
  show "fst ` set (all_trains t') \<subseteq> fst ` set (all_trains t)" by (auto simp: P)
  show "active_trains t' \<le> active_trains t" by (simp add: active_trains_eq P)
qed

lemma shrunk_remove: "trains_ok Q t \<Longrightarrow> shrunk t (remove_train key t)"
  by (auto simp: shrunk_def trains_ok_def all_trains_remove buffered_remove)

lemma oldest_train_mem:
  assumes "oldest_train_key t = Some key"
  shows "key \<in> fst ` set (all_trains t)"
  using assms
  by (auto simp: oldest_train_key_def all_trains_def image_iff split: option.splits if_splits
      dest!: min_by_key_mem) force+

lemma oldest_train_None: "oldest_train_key t = None \<longleftrightarrow> all_trains t = []"
  by (auto simp: oldest_train_key_def all_trains_def split: option.splits)

lemma evict_while_spec:
  assumes "trains_ok Q t" "evict_while over t n = (t', n')"
  shows "shrunk t t' \<and> (\<not> over (rt_buffered_bytes t') \<or> all_trains t' = []) \<and>
    rt_completed t' = rt_completed t \<and> rt_completed_order t' = rt_completed_order t \<and>
    (\<not> over (rt_buffered_bytes t) \<longrightarrow> t' = t)"
  using assms
proof (induction over t n rule: evict_while.induct)
  case (1 over t n)
  show ?case
  proof (cases "over (rt_buffered_bytes t)")
    case False
    with 1 show ?thesis by (simp add: evict_while.simps [of over t n] shrunk_refl trains_ok_def)
  next
    case over: True
    show ?thesis
    proof (cases "oldest_train_key t")
      case None
      then have "t' = t" using 1(3) over by (simp add: evict_while.simps [of over t n])
      with 1(2) over None [unfolded oldest_train_None] show ?thesis by (simp add: shrunk_refl trains_ok_def)
    next
      case (Some k)
      have ok: "trains_ok Q (remove_train k t)" using shrunk_ok(1) [OF 1(2) shrunk_remove [OF 1(2)]] .
      have "evict_while over (remove_train k t) (n + 1) = (t', n')"
        using 1(3) over Some by (simp add: evict_while.simps [of over t n])
      from 1(1) [OF over Some ok this] over shrunk_remove [OF 1(2), of k] show ?thesis
        by (auto intro: shrunk_trans)
    qed
  qed
qed

section \<open>Tombstones\<close>

text \<open>Both loops over \<open>completed_order\<close> drop a prefix of the order and its tombstones.\<close>

definition dropped :: "train_key list \<times> (train_key \<times> instant) list \<Rightarrow> train_key list \<times> (train_key \<times> instant) list \<Rightarrow> bool" where
  "dropped a b \<longleftrightarrow> (\<exists>gone. fst a = gone @ fst b \<and> snd b = filter (\<lambda>e. fst e \<notin> set gone) (snd a))"

lemma dropped_refl: "dropped (ks, c) (ks, c)"
  unfolding dropped_def by (intro exI [of _ "[]"]) simp

lemma dropped_Cons: "dropped (ks, AList.delete k c) b \<Longrightarrow> dropped (k # ks, c) b"
proof -
  assume "dropped (ks, AList.delete k c) b"
  then obtain gone where "ks = gone @ fst b" "snd b = filter (\<lambda>e. fst e \<notin> set gone) (AList.delete k c)"
    by (auto simp: dropped_def)
  then have "k # ks = (k # gone) @ fst b \<and> snd b = filter (\<lambda>e. fst e \<notin> set (k # gone)) c"
    by (auto simp: delete_filter conj_commute)
  then show ?thesis unfolding dropped_def fst_conv snd_conv by blast
qed

lemma dropped_expire: "dropped (ks, c) (expire_completed old ks c)"
  by (induction old ks c rule: expire_completed.induct) (auto simp: dropped_refl dropped_Cons)

lemma dropped_trim: "dropped (ks, c) (trim_completed limit ks c)"
  by (induction limit ks c rule: trim_completed.induct) (auto simp: dropped_refl dropped_Cons)

lemma dropped_ok:
  assumes "dropped (ks, c) (ks', c')" "distinct ks" "distinct (map fst c)" "set ks = fst ` set c"
  shows "distinct ks'" "distinct (map fst c')" "set ks' = fst ` set c'" "set ks' \<subseteq> set ks" "length c' \<le> length c"
proof -
  obtain gone where g: "ks = gone @ ks'" "c' = filter (\<lambda>e. fst e \<notin> set gone) c"
    using assms(1) by (auto simp: dropped_def)
  have "fst ` set c' = fst ` set c - set gone" by (auto simp: g(2))
  then show "set ks' = fst ` set c'" using assms(2,4) by (auto simp: g(1))
  show "distinct ks'" "distinct (map fst c')" "set ks' \<subseteq> set ks" "length c' \<le> length c"
    using assms(2,3) by (auto simp: g distinct_map_filter)
qed

lemma trim_completed_length:
  assumes "distinct ks" "distinct (map fst c)" "set ks = fst ` set c" "trim_completed limit ks c = (ks', c')"
  shows "length c' \<le> limit"
  using assms
proof (induction limit ks c rule: trim_completed.induct)
  case (1 limit c)
  then show ?case by simp
next
  case (2 limit k ks c)
  show ?case
  proof (cases "limit < length c")
    case True
    have "set ks = fst ` set (AList.delete k c)"
      using 2(2,4) by (auto simp: delete_filter)
    with True 2 show ?thesis by (simp add: delete_filter distinct_map_filter)
  qed (use 2 in auto)
qed

lemma tombs_shrunk:
  assumes "tombs_ok t" "trains_ok Q t" "shrunk t t'"
    and "dropped (rt_completed_order t, rt_completed t) (rt_completed_order t', rt_completed t')"
  shows "tombs_ok t'" "length (rt_completed t') \<le> length (rt_completed t)"
proof -
  have c: "distinct (rt_completed_order t)" "distinct (map fst (rt_completed t))"
    "set (rt_completed_order t) = fst ` set (rt_completed t)" using assms(1) by (simp_all add: tombs_ok_def)
  note d = dropped_ok [OF assms(4) c]
  show "length (rt_completed t') \<le> length (rt_completed t)" by (rule d(5))
  have "set (rt_completed_order t) \<inter> fst ` set (all_trains t) = {}"
    using assms(1) unfolding tombs_ok_def by (elim conjE)
  then have "set (rt_completed_order t') \<inter> fst ` set (all_trains t') = {}"
    using Int_mono [OF d(4) shrunk_ok(3) [OF assms(2,3)]] by (simp only: subset_empty)
  with d(1-3) show "tombs_ok t'" unfolding tombs_ok_def by (intro conjI)
qed

lemma foldl_sat_bytes:
  "n + trains_bytes es \<le> usize_max \<Longrightarrow>
     foldl (\<lambda>n (k, tr). sat_add n (train_bytes tr)) n es = n + trains_bytes es"
proof (induction es arbitrary: n)
  case (Cons e es)
  then show ?case by (cases e) (simp add: sat_add_exact)
qed simp

lemma expire_spec:
  assumes ok: "trains_ok Q t" and ex: "expire now t = (t', n)"
  shows "all_trains t' = filter (\<lambda>e. \<not> stale t now (tt_last_update (snd e))) (all_trains t)"
    "shrunk t t'" "n + active_trains t' = active_trains t"
    "dropped (rt_completed_order t, rt_completed t) (rt_completed_order t', rt_completed t')"
proof -
  define old where "old = (\<lambda>(k :: train_key, tr :: timed_train). stale t now (tt_last_update tr))"
  define dead where "dead = filter old (rt_trains t)"
  define hot where "hot = (case rt_hot_train t of None \<Rightarrow> [] | Some e \<Rightarrow> if old e then [e] else [])"
  have all: "trains_bytes (dead @ hot) = trains_bytes (filter old (all_trains t))"
    by (simp add: dead_def hot_def all_trains_def split: option.splits)
  then have "trains_bytes (dead @ hot) \<le> trains_bytes (all_trains t)"
    using trains_bytes_filter_le by simp
  then have small: "trains_bytes dead + trains_bytes hot \<le> usize_max"
    using ok by (simp add: trains_ok_def limits_ok_def)
  then have released: "foldl (\<lambda>n (k, tr). sat_add n (train_bytes tr)) 0 dead = trains_bytes dead"
    using foldl_sat_bytes [of 0 dead] by simp
  obtain order completed where e: "expire_completed (stale t now) (rt_completed_order t) (rt_completed t) = (order, completed)"
    by fastforce
  have t': "t' = t\<lparr> rt_trains := filter (\<lambda>e. \<not> old e) (rt_trains t),
      rt_hot_train := (if hot = [] then rt_hot_train t else None),
      rt_buffered_bytes := rt_buffered_bytes t - (trains_bytes dead + trains_bytes hot),
      rt_completed_order := order, rt_completed := completed,
      rt_next_expiry_check := Some (now + min (tl_train_timeout (rt_limits t)) MAX_EXPIRY_SWEEP_INTERVAL) \<rparr>"
    and n: "n = length dead + length hot"
  proof -
    have "sat_add (trains_bytes dead) (trains_bytes hot) = trains_bytes dead + trains_bytes hot"
      using small by (rule sat_add_exact)
    then have "t' = t\<lparr> rt_trains := filter (\<lambda>e. \<not> old e) (rt_trains t),
      rt_hot_train := (if hot = [] then rt_hot_train t else None),
      rt_buffered_bytes := rt_buffered_bytes t - (trains_bytes dead + trains_bytes hot),
      rt_completed_order := order, rt_completed := completed,
      rt_next_expiry_check := Some (now + min (tl_train_timeout (rt_limits t)) MAX_EXPIRY_SWEEP_INTERVAL) \<rparr> \<and>
      n = length dead + length hot"
      using ex released e
      by (cases "rt_hot_train t")
        (auto simp: expire_def Let_def old_def [symmetric] dead_def [symmetric] hot_def split: if_splits,
         simp_all add: old_def split: if_splits prod.splits)
    then show "t' = t\<lparr> rt_trains := filter (\<lambda>e. \<not> old e) (rt_trains t),
      rt_hot_train := (if hot = [] then rt_hot_train t else None),
      rt_buffered_bytes := rt_buffered_bytes t - (trains_bytes dead + trains_bytes hot),
      rt_completed_order := order, rt_completed := completed,
      rt_next_expiry_check := Some (now + min (tl_train_timeout (rt_limits t)) MAX_EXPIRY_SWEEP_INTERVAL) \<rparr>"
      "n = length dead + length hot" by blast+
  qed
  have old: "old = (\<lambda>e. stale t now (tt_last_update (snd e)))" by (auto simp: old_def)
  have trains: "all_trains t' = filter (\<lambda>e. \<not> old e) (all_trains t)"
    by (auto simp: t' all_trains_def hot_def split: option.splits if_splits)
  then show "all_trains t' = filter (\<lambda>e. \<not> stale t now (tt_last_update (snd e))) (all_trains t)"
    by (simp add: old)
  have "rt_buffered_bytes t' = rt_buffered_bytes t - (trains_bytes dead + trains_bytes hot)"
    "rt_limits t' = rt_limits t" by (simp_all add: t')
  moreover from this have "rt_buffered_bytes t' = trains_bytes (all_trains t')"
    using ok all trains_bytes_filter [of old "all_trains t"] by (simp add: trains_ok_def trains)
  ultimately show "shrunk t t'" using trains by (auto simp: shrunk_def)
  have "length (filter old (all_trains t)) = length dead + length hot"
    by (simp add: dead_def hot_def all_trains_def split: option.splits)
  then show "n + active_trains t' = active_trains t"
    using sum_length_filter_compl [of old "all_trains t"] by (simp add: active_trains_eq trains n)
  show "dropped (rt_completed_order t, rt_completed t) (rt_completed_order t', rt_completed t')"
    using dropped_expire [of "rt_completed_order t" "rt_completed t" "stale t now"] by (simp add: t' e)
qed

section \<open>Accepting a Cell\<close>

lemma table_ok_shrunk:
  assumes "table_ok Q t" "shrunk t t'"
    and "dropped (rt_completed_order t, rt_completed t) (rt_completed_order t', rt_completed t')"
  shows "table_ok Q t'"
proof -
  have ok: "trains_ok Q t" "tombs_ok t" using assms(1) by (simp_all add: table_ok_def)
  have "rt_limits t' = rt_limits t" using assms(2) by (simp add: shrunk_def)
  with shrunk_ok(1) [OF ok(1) assms(2)] tombs_shrunk [OF ok(2,1) assms(2,3)] assms(1) show ?thesis
    by (simp add: table_ok_def)
qed

lemma table_ok_trains: "table_ok Q t \<Longrightarrow> trains_ok Q t"
  by (simp add: table_ok_def)

lemma table_ok_expire: "table_ok Q t \<Longrightarrow> expire now t = (t', n) \<Longrightarrow> table_ok Q t'"
  by (rule table_ok_shrunk) (auto intro: expire_spec table_ok_trains)

lemma table_ok_expire_if_due: "table_ok Q t \<Longrightarrow> expire_if_due now t = (t', n) \<Longrightarrow> table_ok Q t'"
  by (auto simp: expire_if_due_def table_ok_expire split: if_splits)

lemma table_ok_evict:
  assumes "table_ok Q t" "evict_while over t n = (t', n')"
  shows "table_ok Q t'"
  using evict_while_spec [OF table_ok_trains [OF assms(1)] assms(2)]
  by (intro table_ok_shrunk [OF assms(1)]) (simp_all add: dropped_refl)

lemma table_ok_remove: "table_ok Q t \<Longrightarrow> table_ok Q (remove_train key t)"
  by (rule table_ok_shrunk, assumption, rule shrunk_remove, erule table_ok_trains) (simp add: dropped_refl)

definition buffered_le :: "reassembly_table \<Rightarrow> reassembly_table \<Rightarrow> bool" where
  "buffered_le t t' \<longleftrightarrow> rt_limits t' = rt_limits t \<and> rt_buffered_bytes t' \<le> rt_buffered_bytes t \<and>
     set (rt_completed_order t') \<subseteq> set (rt_completed_order t)"

lemma buffered_le_refl [simp]: "buffered_le t t"
  by (simp add: buffered_le_def)

lemma buffered_le_trans: "buffered_le a b \<Longrightarrow> buffered_le b c \<Longrightarrow> buffered_le a c"
  by (auto simp: buffered_le_def)

lemma buffered_le_expire: "table_ok Q t \<Longrightarrow> expire now t = (t', n) \<Longrightarrow> buffered_le t t'"
proof -
  assume ok: "table_ok Q t" and ex: "expire now t = (t', n)"
  note s = expire_spec [OF table_ok_trains [OF ok] ex]
  have "set (rt_completed_order t') \<subseteq> set (rt_completed_order t)"
    using s(4) by (auto simp: dropped_def)
  with shrunk_ok(2) [OF table_ok_trains [OF ok] s(2)] s(2) show ?thesis
    by (simp add: buffered_le_def shrunk_def)
qed

lemma buffered_le_remove: "table_ok Q t \<Longrightarrow> buffered_le t (remove_train key t)"
  using shrunk_ok(2) [OF table_ok_trains shrunk_remove [OF table_ok_trains]] by (simp add: buffered_le_def)

lemma make_room_spec:
  assumes ok: "table_ok Q t" and room: "make_room key now e n t = (t', e', n')"
  shows "table_ok Q t'" "buffered_le t t'" "\<not> at_capacity key t \<Longrightarrow> t' = t"
    "active_trains t' < tl_maximum_active_trains (rt_limits t) \<or> active_trains t' < active_trains t \<or>
       map_of (rt_trains t') key \<noteq> None"
    "active_trains t' \<le> active_trains t"
proof -
  obtain t1 e1 where t1: "(if at_capacity key t then (case expire now t of (t, n) \<Rightarrow> (t, sat_add e n)) else (t, e)) = (t1, e1)"
    by fastforce
  have ok1: "table_ok Q t1" and le1: "buffered_le t t1" and same1: "\<not> at_capacity key t \<Longrightarrow> t1 = t"
    and act1: "active_trains t1 \<le> active_trains t"
    using t1 ok table_ok_expire [OF ok] buffered_le_expire [OF ok] expire_spec(3) [OF table_ok_trains [OF ok]]
    by (auto split: if_splits prod.splits) (metis le_add2)
  show "table_ok Q t'" "buffered_le t t'" "\<not> at_capacity key t \<Longrightarrow> t' = t"
    using room t1 ok1 le1 same1 table_ok_remove [OF ok1] buffered_le_remove [OF ok1]
    by (auto simp: make_room_def split: if_splits option.splits intro: buffered_le_trans)
  have "shrunk t1 (remove_train k t1)" for k by (rule shrunk_remove [OF table_ok_trains [OF ok1]])
  then have "active_trains (remove_train k t1) \<le> active_trains t1" for k
    using shrunk_ok(4) table_ok_trains [OF ok1] by blast
  with act1 have "active_trains (remove_train k t1) \<le> active_trains t" for k by (meson order_trans)
  with act1 show "active_trains t' \<le> active_trains t"
    using room t1 by (auto simp: make_room_def split: if_splits option.splits)
  have lim: "rt_limits t1 = rt_limits t" using le1 by (simp add: buffered_le_def)
  show "active_trains t' < tl_maximum_active_trains (rt_limits t) \<or> active_trains t' < active_trains t \<or>
       map_of (rt_trains t') key \<noteq> None"
  proof (cases "at_capacity key t1")
    case False
    then have "t' = t1" using room t1 by (simp add: make_room_def)
    with False lim show ?thesis by (auto simp: at_capacity_def)
  next
    case True
    show ?thesis
    proof (cases "oldest_train_key t1")
      case None
      then have "active_trains t1 = 0" by (simp add: oldest_train_None active_trains_eq)
      moreover have "1 \<le> tl_maximum_active_trains (rt_limits t1)"
        using ok1 by (simp add: table_ok_def trains_ok_def limits_ok_def validate_table_limits_def result_iff)
      ultimately show ?thesis using True by (simp add: at_capacity_def)
    next
      case (Some k)
      with room t1 True have "t' = remove_train k t1" by (simp add: make_room_def)
      with oldest_train_active [OF Some] act1 show ?thesis by simp
    qed
  qed
qed

lemma install_hot_spec:
  assumes ok: "table_ok Q t" and cold: "\<not> hot_matches key t" and fresh: "key \<notin> set (rt_completed_order t)"
    and inst: "install_hot key now t = (t', res)"
  shows "table_ok Q t'" "res = Inr ()" "\<exists>tr. rt_hot_train t' = Some (key, tr) \<and>
      (case map_of (rt_trains t) key of None \<Rightarrow> True | Some old \<Rightarrow> tr = old)"
    "buffered_le t t'" "rt_buffered_bytes t' = rt_buffered_bytes t"
    "active_trains t' = active_trains t + (if map_of (rt_trains t) key = None then 1 else 0)"
proof -
  let ?l = "tl_per_train (rt_limits t)"
  have tr_ok: "trains_ok Q t" and tb: "tombs_ok t" using ok by (simp_all add: table_ok_def)
  have val: "validate_limits ?l = Inr ()"
    using tr_ok by (simp add: trains_ok_def limits_ok_def validate_table_limits_def result_iff)
  then obtain new where new: "reassembler_new ?l = Inr new" by (simp add: reassembler_new_def result_iff)
  define tr where "tr = (case map_of (rt_trains t) key of Some tr \<Rightarrow> tr
      | None \<Rightarrow> \<lparr> tt_reassembler = new, tt_last_update = now \<rparr>)"
  have dist: "distinct (map fst (all_trains t))" using tr_ok by (simp add: trains_ok_def)
  then have dist': "distinct (map fst (rt_trains t))" by (simp add: all_trains_def)
  have prev: "AList.update k e (AList.delete key (rt_trains t)) = AList.delete key (rt_trains t) @ [(k, e)]"
    if "rt_hot_train t = Some (k, e)" for k e
    using dist that by (intro update_new) (auto simp: all_trains_def delete_filter)
  define old where "old = (case rt_hot_train t of None \<Rightarrow> [] | Some e \<Rightarrow> [e])"
  have t': "t' = t\<lparr> rt_hot_train := Some (key, tr), rt_trains := AList.delete key (rt_trains t) @ old \<rparr>"
    and res: "res = Inr ()"
    using inst new prev
    by (auto simp: install_hot_def tr_def [symmetric] old_def Let_def split: option.splits)
  show "res = Inr ()" by (fact res)
  have split: "mset (all_trains t') = (if map_of (rt_trains t) key = None then add_mset (key, tr) (mset (all_trains t))
     else mset (all_trains t))"
  proof (cases "map_of (rt_trains t) key")
    case None
    then have "AList.delete key (rt_trains t) = rt_trains t"
      by (simp add: delete_filter filter_keys_id map_of_eq_None_iff)
    with None show ?thesis by (auto simp: t' all_trains_def old_def split: option.splits)
  next
    case (Some e)
    with mset_delete [OF dist' Some] show ?thesis
      by (auto simp: t' tr_def all_trains_def old_def split: option.splits)
  qed
  have new_ok: "train_good Q ?l (key, tr)" "train_bytes tr = 0" if "map_of (rt_trains t) key = None"
  proof -
    have small: "rl_maximum_buffered_bytes ?l < usize_max" using tr_ok by (simp add: trains_ok_def limits_ok_def)
    note n = reassembler_new_ok [OF new small]
    then have "ra_buffered_bytes new = 0" by (simp add: ra_ok_def records_bytes_def)
    with n that show "train_good Q ?l (key, tr)" "train_bytes tr = 0"
      by (simp_all add: tr_def train_good_def train_bytes_def entries_def)
  qed
  have keys: "key \<notin> fst ` set (all_trains t)" if "map_of (rt_trains t) key = None"
    using that cold by (cases "rt_hot_train t") (auto simp: all_trains_def map_of_eq_None_iff hot_matches_iff)
  have bytes: "trains_bytes (all_trains t') = trains_bytes (all_trains t)"
    using trains_bytes_mset [of "all_trains t'" "(key, tr) # all_trains t"]
      trains_bytes_mset [of "all_trains t'" "all_trains t"] split new_ok(2) by (auto split: if_splits)
  have sets: "set (all_trains t') \<subseteq> insert (key, tr) (set (all_trains t))"
    using arg_cong [OF split, of set_mset] by (auto split: if_splits)
  have dst: "distinct (map fst (all_trains t'))"
  proof (cases "map_of (rt_trains t) key = None")
    case True
    with split have "mset (map fst (all_trains t')) = mset (key # map fst (all_trains t))" by simp
    from mset_eq_imp_distinct_iff [OF this] keys [OF True] dist show ?thesis by simp
  next
    case False
    with split have "mset (map fst (all_trains t')) = mset (map fst (all_trains t))" by simp
    from mset_eq_imp_distinct_iff [OF this] dist show ?thesis by simp
  qed
  show "buffered_le t t'" "rt_buffered_bytes t' = rt_buffered_bytes t" by (simp_all add: t' buffered_le_def)
  have ks: "fst ` set (all_trains t') \<subseteq> insert key (fst ` set (all_trains t))" using sets by auto
  have "list_all (train_good Q ?l) (all_trains t')"
  proof (cases "map_of (rt_trains t) key = None")
    case True
    with new_ok(1) sets tr_ok show ?thesis by (auto simp: trains_ok_def list_all_iff)
  next
    case False
    then have "set (all_trains t') = set (all_trains t)" using split by (metis set_mset_mset)
    with tr_ok show ?thesis by (simp add: trains_ok_def list_all_iff)
  qed
  moreover have "rt_limits t' = rt_limits t" "rt_completed t' = rt_completed t"
    "rt_completed_order t' = rt_completed_order t" "rt_buffered_bytes t' = rt_buffered_bytes t"
    by (simp_all add: t')
  moreover have "set (rt_completed_order t) \<inter> fst ` set (all_trains t') = {}"
  proof -
    have "set (rt_completed_order t) \<inter> fst ` set (all_trains t) = {}"
      using tb unfolding tombs_ok_def by (elim conjE)
    with ks fresh show ?thesis by blast
  qed
  ultimately show "table_ok Q t'"
    using ok dst bytes by (simp add: table_ok_def trains_ok_def tombs_ok_def)
  show "\<exists>tr. rt_hot_train t' = Some (key, tr) \<and>
      (case map_of (rt_trains t) key of None \<Rightarrow> True | Some old \<Rightarrow> tr = old)"
    by (auto simp: t' tr_def split: option.splits)
  show "active_trains t' = active_trains t + (if map_of (rt_trains t) key = None then 1 else 0)"
    using arg_cong [OF split, of size] by (auto simp: active_trains_eq)
qed

lemma table_trim_spec:
  assumes "trains_ok Q t" "tombs_ok t"
  shows "table_ok Q (table_trim t)" "all_trains (table_trim t) = all_trains t"
    "rt_limits (table_trim t) = rt_limits t" "rt_buffered_bytes (table_trim t) = rt_buffered_bytes t"
    "rt_hot_train (table_trim t) = rt_hot_train t"
    "set (rt_completed_order (table_trim t)) \<subseteq> set (rt_completed_order t)"
proof -
  let ?lim = "tl_maximum_active_trains (rt_limits t)"
  obtain order c where tc: "trim_completed ?lim (rt_completed_order t) (rt_completed t) = (order, c)"
    by fastforce
  have t': "table_trim t = t\<lparr> rt_completed_order := order, rt_completed := c \<rparr>"
    by (simp add: table_trim_def tc)
  show all: "all_trains (table_trim t) = all_trains t" "rt_limits (table_trim t) = rt_limits t"
    "rt_buffered_bytes (table_trim t) = rt_buffered_bytes t" "rt_hot_train (table_trim t) = rt_hot_train t"
    by (simp_all add: t' all_trains_def)
  have d: "dropped (rt_completed_order t, rt_completed t) (order, c)"
    using dropped_trim [of "rt_completed_order t" "rt_completed t" ?lim] by (simp add: tc)
  then show "set (rt_completed_order (table_trim t)) \<subseteq> set (rt_completed_order t)"
    by (auto simp: t' dropped_def)
  have tr: "trains_ok Q (table_trim t)" using assms(1) all by (simp add: trains_ok_def)
  have sh: "shrunk t (table_trim t)" using assms(1) all shrunk_refl [of t] by (simp add: shrunk_def trains_ok_def)
  have tb: "tombs_ok (table_trim t)" using tombs_shrunk [OF assms(2,1) sh] d by (simp add: t')
  moreover have "length (rt_completed (table_trim t)) \<le> ?lim"
    using trim_completed_length [OF _ _ _ tc] assms(2) by (simp add: t' tombs_ok_def)
  ultimately show "table_ok Q (table_trim t)" using tr all by (simp add: table_ok_def)
qed


text \<open>Finishing a train replaces it by a tombstone.\<close>

lemma finish_train_ok:
  assumes ok: "table_ok Q t" and fresh: "key \<notin> set (rt_completed_order t)"
  shows "table_ok Q (finish_train key now t)" "rt_limits (finish_train key now t) = rt_limits t"
    "active_trains (finish_train key now t) \<le> active_trains t"
proof -
  let ?r = "remove_train key t"
  define t1 where "t1 = ?r\<lparr> rt_completed := AList.update key now (rt_completed ?r),
     rt_completed_order := rt_completed_order ?r @ [key] \<rparr>"
  have fin: "finish_train key now t = table_trim t1" by (simp add: finish_train_def t1_def Let_def)
  have r: "table_ok Q ?r" by (rule table_ok_remove [OF ok])
  have sel: "all_trains t1 = all_trains ?r" "rt_limits t1 = rt_limits ?r" "rt_buffered_bytes t1 = rt_buffered_bytes ?r"
    by (simp_all add: t1_def all_trains_def)
  have tr: "trains_ok Q t1" using r by (simp add: table_ok_def trains_ok_def sel)
  have dist: "distinct (map fst (all_trains t))" using ok by (simp add: table_ok_def trains_ok_def)
  note all = all_trains_remove [OF dist, of key]
  have tb: "tombs_ok ?r" using r by (simp add: table_ok_def)
  then have "set (rt_completed_order t) = fst ` set (rt_completed t)"
    and disj: "set (rt_completed_order t) \<inter> fst ` set (all_trains ?r) = {}"
    unfolding tombs_ok_def by (auto simp only: remove_train_sel)
  with fresh have "key \<notin> fst ` set (rt_completed t)" by simp
  note upd = update_new [OF this, of now]
  have "key \<notin> fst ` set (all_trains ?r)" by (auto simp: all)
  with disj have "set (rt_completed_order t1) \<inter> fst ` set (all_trains t1) = {}"
    by (simp add: sel(1)) (simp add: t1_def)
  moreover have "distinct (rt_completed_order t1)" "distinct (map fst (rt_completed t1))"
      "set (rt_completed_order t1) = fst ` set (rt_completed t1)"
    using tb fresh \<open>key \<notin> fst ` set (rt_completed t)\<close> by (auto simp: t1_def upd tombs_ok_def)
  ultimately have "tombs_ok t1" by (simp only: tombs_ok_def)
  note trim = table_trim_spec [OF tr this]
  show "table_ok Q (finish_train key now t)" "rt_limits (finish_train key now t) = rt_limits t"
    using trim(1,3) by (simp_all add: fin sel)
  show "active_trains (finish_train key now t) \<le> active_trains t"
    using trim(2) by (simp add: active_trains_eq fin sel all)
qed

text \<open>A tombstone is kept, with only keys of \<open>K\<close> behind it in the order.\<close>

definition kept :: "train_key \<Rightarrow> instant \<Rightarrow> train_key set \<Rightarrow> reassembly_table \<Rightarrow> bool" where
  "kept key at K t \<longleftrightarrow>
     distinct (rt_completed_order t) \<and> distinct (map fst (rt_completed t)) \<and>
     set (rt_completed_order t) = fst ` set (rt_completed t) \<and>
     map_of (rt_completed t) key = Some at \<and>
     (\<exists>pre post. rt_completed_order t = pre @ key # post \<and> set post \<subseteq> K)"

lemma kept_cong:
  "rt_completed_order t' = rt_completed_order t \<Longrightarrow> rt_completed t' = rt_completed t \<Longrightarrow> kept key at K t' = kept key at K t"
  by (simp add: kept_def)

lemma kept_mono: "kept key at K t \<Longrightarrow> K \<subseteq> K' \<Longrightarrow> kept key at K' t"
  unfolding kept_def by blast

lemma expire_completed_keeps:
  assumes "map_of c key = Some at" "\<not> old at" "distinct (pre @ key # post)"
  shows "\<exists>pre'. fst (expire_completed old (pre @ key # post) c) = pre' @ key # post \<and>
    map_of (snd (expire_completed old (pre @ key # post) c)) key = Some at"
  using assms
proof (induction pre arbitrary: c)
  case (Cons k pre)
  then have "map_of (AList.delete k c) key = Some at" by (auto simp: delete_conv')
  from Cons.IH [OF this] Cons.prems show ?case by (auto intro: exI [of _ "k # pre"])
qed simp

lemma trim_completed_keeps:
  assumes "distinct (pre @ key # post)" "distinct (map fst c)" "map_of c key = Some at"
    "set (pre @ key # post) = fst ` set c" "length post < limit"
  shows "\<exists>pre'. fst (trim_completed limit (pre @ key # post) c) = pre' @ key # post \<and>
    map_of (snd (trim_completed limit (pre @ key # post) c)) key = Some at"
  using assms
proof (induction pre arbitrary: c)
  case Nil
  have "length c = card (fst ` set c)" using distinct_card [OF Nil.prems(2)] by simp
  also have "\<dots> = card (set (key # post))" by (simp only: Nil.prems(4) [symmetric] append_Nil)
  also have "\<dots> = Suc (length post)" using distinct_card [of "key # post"] Nil.prems(1) by simp
  finally show ?case using Nil.prems(3,5) by simp
next
  case (Cons k pre)
  have keep: "map_of (AList.delete k c) key = Some at" using Cons.prems(1,3) by (auto simp: delete_conv')
  have dist: "distinct (map fst (AList.delete k c))" using Cons.prems(2) by (rule distinct_delete)
  have "set (pre @ key # post) = set ((k # pre) @ key # post) - {k}" using Cons.prems(1) by auto
  also have "\<dots> = fst ` set (AList.delete k c)" unfolding Cons.prems(4) by (auto simp: delete_filter)
  finally show ?case using Cons.IH [OF _ dist keep] Cons.prems by (auto intro: exI [of _ "k # pre"])
qed

lemma kept_dropped:
  assumes "kept key at K t" "dropped (rt_completed_order t, rt_completed t) (ks, c)"
    and "ks = pre @ key # post" "set post \<subseteq> K" "map_of c key = Some at"
  shows "kept key at K (t'\<lparr> rt_completed_order := ks, rt_completed := c \<rparr>)"
proof -
  have t: "distinct (rt_completed_order t)" "distinct (map fst (rt_completed t))"
    "set (rt_completed_order t) = fst ` set (rt_completed t)" using assms(1) by (simp_all only: kept_def)
  have "\<exists>pre post. ks = pre @ key # post \<and> set post \<subseteq> K" using assms(3,4) by blast
  with dropped_ok(1-3) [OF assms(2) t] assms(5) show ?thesis by (simp add: kept_def)
qed

lemma kept_expire:
  assumes k: "kept key at K t" and young: "\<not> stale t now at" and ex: "expire now t = (t', n)"
  shows "kept key at K t'"
proof -
  let ?e = "expire_completed (stale t now) (rt_completed_order t) (rt_completed t)"
  have t: "distinct (rt_completed_order t)" "map_of (rt_completed t) key = Some at" using k by (simp_all add: kept_def)
  obtain pre post where o: "rt_completed_order t = pre @ key # post" "set post \<subseteq> K"
    using k unfolding kept_def by blast
  obtain pre' where e: "fst ?e = pre' @ key # post" "map_of (snd ?e) key = Some at"
    using expire_completed_keeps [OF t(2), of "stale t now" pre post] young t(1) unfolding o(1) by blast
  have "dropped (rt_completed_order t, rt_completed t) (fst ?e, snd ?e)"
    using dropped_expire [of "rt_completed_order t" "rt_completed t" "stale t now"] by simp
  from kept_dropped [OF k this e(1) o(2) e(2)]
  have "kept key at K (t\<lparr> rt_completed_order := fst ?e, rt_completed := snd ?e \<rparr>)" .
  moreover have "rt_completed_order t' = fst ?e" "rt_completed t' = snd ?e"
    using ex by (auto simp: expire_def Let_def split: prod.splits option.splits if_splits)
  ultimately show ?thesis by (simp add: kept_def)
qed

lemma kept_expire_if_due:
  "kept key at K t \<Longrightarrow> \<not> stale t now at \<Longrightarrow> expire_if_due now t = (t', n) \<Longrightarrow> kept key at K t'"
  by (auto simp: expire_if_due_def kept_expire split: if_splits)

lemma kept_trim:
  assumes k: "kept key at K t" and fin: "finite K"
    and few: "card (K - {key}) < tl_maximum_active_trains (rt_limits t)"
  shows "kept key at K (table_trim t)"
proof -
  let ?lim = "tl_maximum_active_trains (rt_limits t)"
  let ?e = "trim_completed ?lim (rt_completed_order t) (rt_completed t)"
  have t: "distinct (rt_completed_order t)" "distinct (map fst (rt_completed t))"
    "set (rt_completed_order t) = fst ` set (rt_completed t)" "map_of (rt_completed t) key = Some at"
    using k by (simp_all only: kept_def)
  obtain pre0 post0 where o: "rt_completed_order t = pre0 @ key # post0" "set post0 \<subseteq> K"
    using k unfolding kept_def by blast
  have "set post0 \<subseteq> K - {key}" "distinct post0" using o t(1) by auto
  then have "length post0 < ?lim"
    using few card_mono [of "K - {key}" "set post0"] fin by (simp add: distinct_card)
  from trim_completed_keeps [of pre0 key post0, OF t(1) [unfolded o(1)] t(2,4) t(3) [unfolded o(1)] this]
  obtain pre1 where e: "fst ?e = pre1 @ key # post0" "map_of (snd ?e) key = Some at" unfolding o(1) by blast
  have "dropped (rt_completed_order t, rt_completed t) (fst ?e, snd ?e)"
    using dropped_trim [of "rt_completed_order t" "rt_completed t" ?lim] by simp
  from kept_dropped [OF k this e(1) o(2) e(2), of t]
  have "kept key at K (t\<lparr> rt_completed_order := fst ?e, rt_completed := snd ?e \<rparr>)" .
  then show ?thesis by (simp add: table_trim_def case_prod_unfold)
qed

lemma kept_finish:
  assumes k: "kept key at K t" and fresh: "k \<notin> set (rt_completed_order t)"
    and fin: "finite K" and few: "card (insert k K - {key}) < tl_maximum_active_trains (rt_limits t)"
  shows "kept key at (insert k K) (finish_train k now t)"
proof -
  let ?t = "(remove_train k t)\<lparr> rt_completed := AList.update k now (rt_completed t),
     rt_completed_order := rt_completed_order t @ [k] \<rparr>"
  have t: "distinct (rt_completed_order t)" "distinct (map fst (rt_completed t))"
    "set (rt_completed_order t) = fst ` set (rt_completed t)" "map_of (rt_completed t) key = Some at"
    using k by (simp_all only: kept_def)
  obtain pre post where o: "rt_completed_order t = pre @ key # post" "set post \<subseteq> K"
    using k unfolding kept_def by blast
  have "k \<noteq> key" using fresh o(1) by auto
  have "rt_completed_order t @ [k] = pre @ key # (post @ [k])" "set (post @ [k]) \<subseteq> insert k K"
    using o by auto
  then have "\<exists>pre post. rt_completed_order t @ [k] = pre @ key # post \<and> set post \<subseteq> insert k K" by blast
  moreover have "k \<notin> fst ` set (rt_completed t)" using fresh t(3) by simp
  ultimately have "kept key at (insert k K) ?t"
    using t fresh \<open>k \<noteq> key\<close> by (auto simp: kept_def update_new)
  from kept_trim [OF this] fin few show ?thesis by (simp add: finish_train_def Let_def)
qed

lemma kept_new:
  assumes "tombs_ok t" "key \<notin> set (rt_completed_order t)" "1 \<le> tl_maximum_active_trains (rt_limits t)"
  shows "kept key now {} (finish_train key now t)"
proof -
  let ?t = "(remove_train key t)\<lparr> rt_completed := AList.update key now (rt_completed t),
     rt_completed_order := rt_completed_order t @ [key] \<rparr>"
  have t: "distinct (rt_completed_order t)" "distinct (map fst (rt_completed t))"
    "set (rt_completed_order t) = fst ` set (rt_completed t)" using assms(1) by (simp_all only: tombs_ok_def)
  have "key \<notin> fst ` set (rt_completed t)" using assms(2) t(3) by simp
  moreover from this have "map_of (rt_completed t) key = None" by (simp add: map_of_eq_None_iff)
  ultimately have "kept key now {} ?t" using t assms(2) by (auto simp: kept_def update_new map_add_def)
  from kept_trim [OF this] assms(3) show ?thesis by (simp add: finish_train_def Let_def)
qed

lemma remove_train_cold: "distinct (map fst (all_trains t)) \<Longrightarrow> \<not> hot_matches key (remove_train key t)"
  using arg_cong [OF all_trains_remove [of t key], of set]
  by (force simp: hot_matches_iff all_trains_def)

lemma finish_train_tombstone:
  assumes ok: "table_ok Q t" and fresh: "key \<notin> set (rt_completed_order t)"
  shows "kept key now {} (finish_train key now t)" "\<not> hot_matches key (finish_train key now t)"
proof -
  have lim: "1 \<le> tl_maximum_active_trains (rt_limits t)" and dist: "distinct (map fst (all_trains t))"
    using ok by (simp_all add: table_ok_def trains_ok_def limits_ok_def validate_table_limits_def result_iff)
  have "tombs_ok t" using ok by (simp add: table_ok_def)
  then show "kept key now {} (finish_train key now t)" by (rule kept_new [OF _ fresh lim])
  show "\<not> hot_matches key (finish_train key now t)"
    using remove_train_cold [OF dist]
    by (auto simp: finish_train_def table_trim_def Let_def hot_matches_def split: prod.splits)
qed

lemma trains_ok_hot:
  assumes ok: "table_ok Q t" and hot: "rt_hot_train t = Some (key, tr)"
    and new: "train_good Q (tl_per_train (rt_limits t)) (key, tr')"
    and room: "rt_buffered_bytes t + train_bytes tr' \<le> tl_maximum_buffered_bytes (rt_limits t) + train_bytes tr"
  defines "t' \<equiv> t\<lparr> rt_hot_train := Some (key, tr'),
      rt_buffered_bytes := sat_add (rt_buffered_bytes t - train_bytes tr) (train_bytes tr') \<rparr>"
  shows "table_ok Q t'" "rt_buffered_bytes t' = rt_buffered_bytes t - train_bytes tr + train_bytes tr'"
proof -
  have all: "all_trains t = (key, tr) # rt_trains t" "all_trains t' = (key, tr') # rt_trains t"
    by (simp_all add: all_trains_def hot t'_def)
  have tr: "trains_ok Q t" using ok by (simp add: table_ok_def)
  then have bytes: "rt_buffered_bytes t = train_bytes tr + trains_bytes (rt_trains t)"
    and lim: "tl_maximum_buffered_bytes (rt_limits t) < usize_max"
    by (simp_all add: trains_ok_def all limits_ok_def)
  have "sat_add (rt_buffered_bytes t - train_bytes tr) (train_bytes tr') =
      rt_buffered_bytes t - train_bytes tr + train_bytes tr'"
    using bytes lim room by (intro sat_add_exact) linarith
  then show b: "rt_buffered_bytes t' = rt_buffered_bytes t - train_bytes tr + train_bytes tr'"
    by (simp add: t'_def)
  have "trains_ok Q t'"
    using tr new b bytes room by (simp add: trains_ok_def all) (simp add: t'_def)
  moreover have "tombs_ok t'"
  proof -
    have "rt_completed_order t' = rt_completed_order t" "rt_completed t' = rt_completed t"
      "fst ` set (all_trains t') = fst ` set (all_trains t)" unfolding all by (simp_all add: t'_def)
    then have "tombs_ok t' = tombs_ok t" by (simp only: tombs_ok_def)
    with ok show ?thesis by (simp add: table_ok_def)
  qed
  ultimately show "table_ok Q t'" using ok by (simp add: table_ok_def) (simp add: t'_def)
qed

definition out_good :: "(completed_record \<Rightarrow> bool) \<Rightarrow> reassembly_output result \<Rightarrow> bool" where
  "out_good R res \<longleftrightarrow> (case res of Inl _ \<Rightarrow> True | Inr out \<Rightarrow>
     list_all R (ro_records out) \<and> distinct (map cr_record_id (ro_records out)))"

definition accept_good :: "(completed_record \<Rightarrow> bool) \<Rightarrow> train_key \<Rightarrow> instant \<Rightarrow> reassembly_table \<Rightarrow>
    reassembly_output result \<Rightarrow> bool" where
  "accept_good R key now t' res \<longleftrightarrow> out_good R res \<and>
     (case res of Inl _ \<Rightarrow> True | Inr out \<Rightarrow> ro_train_complete out \<and> \<not> ro_duplicate_cell out \<longrightarrow>
        kept key now {} t' \<and> \<not> hot_matches key t')"

lemma accept_hot_ok:
  assumes ok: "table_ok Q t" and hot: "rt_hot_train t = Some (key, tr)" and key: "key = cell_train_key c"
    and fresh: "key \<notin> set (rt_completed_order t)"
    and good: "\<forall>s\<in>set (cell_segments c). segment_good (R key) (Q key) key s"
    and room: "rt_buffered_bytes t + n \<le> tl_maximum_buffered_bytes (rt_limits t)"
    and n: "(if cell_seen (tt_reassembler tr) (cell_sequence c) then 0 else segments_bytes (cell_segments c)) \<le> n"
    and acc: "accept_hot c key now e v t = (t', res)"
  shows "table_ok Q t' \<and> rt_limits t' = rt_limits t \<and> active_trains t' \<le> active_trains t \<and> accept_good (R key) key now t' res"
proof -
  let ?n = "if cell_seen (tt_reassembler tr) (cell_sequence c) then 0 else segments_bytes (cell_segments c)"
  obtain ra out where ac: "accept_cell c (tt_reassembler tr) = (ra, out)" by fastforce
  have tg: "train_good Q (tl_per_train (rt_limits t)) (key, tr)"
    using ok hot by (simp add: table_ok_def trains_ok_def all_trains_def)
  then have post: "accept_post (R key) (Q key) ?n (tt_reassembler tr) ra (out_records out)"
    using good key by (intro accept_cell_post [OF _ _ _ ac]) (simp_all add: train_good_def)
  define tr' where "tr' = \<lparr> tt_reassembler = ra, tt_last_update = now \<rparr>"
  define t1 where "t1 = t\<lparr> rt_hot_train := Some (key, tr'),
      rt_buffered_bytes := sat_add (rt_buffered_bytes t - train_bytes tr) (train_bytes tr') \<rparr>"
  have tg': "train_good Q (tl_per_train (rt_limits t)) (key, tr')"
    using tg post by (simp add: train_good_def tr'_def accept_post_def)
  have "rt_buffered_bytes t + train_bytes tr' \<le> tl_maximum_buffered_bytes (rt_limits t) + train_bytes tr"
    using post n room by (simp add: accept_post_def train_bytes_def tr'_def)
  note t1 = trains_ok_hot [OF ok hot tg' this, folded t1_def]
  have sel: "rt_limits t1 = rt_limits t" "rt_completed_order t1 = rt_completed_order t" "active_trains t1 = active_trains t"
    by (simp_all add: t1_def active_trains_def hot)
  note fin = finish_train_ok [OF t1(1), of key now, unfolded sel, OF fresh]
  note tomb = finish_train_tombstone [OF t1(1), of key now, unfolded sel, OF fresh]
  have act: "active_trains (remove_train key t1) \<le> active_trains t1"
    using t1(1) by (simp add: active_trains_eq all_trains_remove table_ok_def trains_ok_def)
  show ?thesis
    using acc fin tomb t1(1) sel act table_ok_remove [OF t1(1), of key] post
    by (auto simp: accept_hot_def hot ac tr'_def [symmetric] t1_def [symmetric] accept_good_def out_good_def out_records_def accept_post_def
        split: sum.splits if_splits)
qed


lemma not_hot_remove: "\<not> hot_matches key t \<Longrightarrow> \<not> hot_matches key (remove_train k t)"
  by (auto simp: remove_train_def hot_matches_def split: option.splits)

lemma not_hot_expire: "\<not> hot_matches key t \<Longrightarrow> expire now t = (t', n) \<Longrightarrow> \<not> hot_matches key t'"
  by (auto simp: expire_def hot_matches_def Let_def split: option.splits if_splits prod.splits)

lemma not_hot_make_room:
  assumes "\<not> hot_matches key t" "make_room key now e n t = (t', e', n')"
  shows "\<not> hot_matches key t'"
  using assms not_hot_remove [of key] not_hot_expire [OF assms(1)]
  by (auto simp: make_room_def split: if_splits prod.splits option.splits)

lemma incoming_bytes_exact:
  assumes "incoming_bytes c < usize_max"
  shows "incoming_bytes c = segments_bytes (cell_segments c)"
proof -
  have "foldl (\<lambda>total s. sat_add (sat_add total (length (seg_metadata s))) (length (seg_data s))) n ss =
      min (n + segments_bytes ss) usize_max" if "n \<le> usize_max" for n and ss :: "record_segment list"
    using that
  proof (induction ss arbitrary: n)
    case (Cons s ss)
    then show ?case by (auto simp: segments_bytes_def sat_add_def)
  qed (simp add: segments_bytes_def)
  from this [of 0] have "incoming_bytes c = min (segments_bytes (cell_segments c)) usize_max"
    by (simp add: incoming_bytes_def cell_segments_def segments_bytes_def split: cell_body.splits)
  with assms show ?thesis by (auto simp: min_def split: if_splits)
qed

lemma table_cell_seen_hot: "rt_hot_train t = Some (key, tr) \<Longrightarrow>
    table_cell_seen key q t = cell_seen (tt_reassembler tr) q"
  by (simp add: table_cell_seen_def hot_matches_def)

lemma table_cell_seen_cold: "table_cell_seen key q t \<Longrightarrow> \<not> hot_matches key t \<Longrightarrow>
    \<exists>tr. map_of (rt_trains t) key = Some tr \<and> cell_seen (tt_reassembler tr) q"
  by (auto simp: table_cell_seen_def split: option.splits)

lemma deliver_cell_ok:
  assumes ok: "table_ok Q t" and fresh: "cell_train_key c \<notin> set (rt_completed_order t)"
    and good: "\<forall>s\<in>set (cell_segments c). segment_good (R (cell_train_key c)) (Q (cell_train_key c)) (cell_train_key c) s"
    and room: "rt_buffered_bytes t + n \<le> tl_maximum_buffered_bytes (rt_limits t)"
    and n: "(if table_cell_seen (cell_train_key c) (cell_sequence c) t then 0 else segments_bytes (cell_segments c)) \<le> n"
    and acc: "deliver_cell c now e v t = (t', res)"
  shows "table_ok Q t' \<and> rt_limits t' = rt_limits t \<and>
    active_trains t' \<le> max (active_trains t) (tl_maximum_active_trains (rt_limits t)) \<and> accept_good (R (cell_train_key c)) (cell_train_key c) now t' res"
proof (cases "hot_matches (cell_train_key c) t")
  case True
  then obtain tr where hot: "rt_hot_train t = Some (cell_train_key c, tr)" by (auto simp: hot_matches_iff)
  then have "(if cell_seen (tt_reassembler tr) (cell_sequence c) then 0 else segments_bytes (cell_segments c)) \<le> n"
    using n by (simp add: table_cell_seen_hot)
  moreover have "accept_hot c (cell_train_key c) now e v t = (t', res)"
    using acc True by (simp add: deliver_cell_def)
  ultimately have "table_ok Q t' \<and> rt_limits t' = rt_limits t \<and> active_trains t' \<le> active_trains t \<and>
      accept_good (R (cell_train_key c)) (cell_train_key c) now t' res"
    by (rule accept_hot_ok [where R = R, OF ok hot refl fresh good room])
  then show ?thesis by (simp add: le_max_iff_disj)
next
  case False
  let ?k = "cell_train_key c"
  obtain t1 e1 v1 where mr: "make_room ?k now e v t = (t1, e1, v1)" by (metis prod_cases3)
  note room1 = make_room_spec [OF ok mr]
  obtain t2 r where ih: "install_hot ?k now t1 = (t2, r)" by fastforce
  have fresh1: "?k \<notin> set (rt_completed_order t1)" using room1(2) fresh by (auto simp: buffered_le_def)
  note inst = install_hot_spec [OF room1(1) not_hot_make_room [OF False mr] fresh1 ih]
  obtain tr where tr: "rt_hot_train t2 = Some (?k, tr)"
    "case map_of (rt_trains t1) ?k of None \<Rightarrow> True | Some old \<Rightarrow> tr = old" using inst(3) by blast
  have hot: "accept_hot c ?k now e1 v1 t2 = (t', res)"
    using acc False mr ih inst(2) by (simp add: deliver_cell_def)
  have le: "buffered_le t t2" using room1(2) inst(4) by (rule buffered_le_trans)
  then have fresh2: "?k \<notin> set (rt_completed_order t2)" and lim: "rt_limits t2 = rt_limits t"
    and room2: "rt_buffered_bytes t2 + n \<le> tl_maximum_buffered_bytes (rt_limits t2)"
    using fresh room by (auto simp: buffered_le_def)
  have "(if cell_seen (tt_reassembler tr) (cell_sequence c) then 0 else segments_bytes (cell_segments c)) \<le> n"
  proof (cases "table_cell_seen ?k (cell_sequence c) t")
    case seen: True
    with False obtain old where old: "map_of (rt_trains t) ?k = Some old" "cell_seen (tt_reassembler old) (cell_sequence c)"
      using table_cell_seen_cold by blast
    then have "t1 = t" by (intro room1(3)) (simp add: at_capacity_def)
    with tr(2) old show ?thesis by simp
  qed (use n in auto)
  from accept_hot_ok [where R = R, OF inst(1) tr(1) refl fresh2 good room2 this hot]
  have fin: "table_ok Q t' \<and> rt_limits t' = rt_limits t2 \<and> active_trains t' \<le> active_trains t2 \<and> accept_good (R ?k) ?k now t' res" .
  have "active_trains t2 \<le> max (active_trains t) (tl_maximum_active_trains (rt_limits t))"
    using room1(4) inst(6) room1(5) by (auto simp: max_def split: if_splits)
  with fin lim show ?thesis by (auto intro: order_trans)
qed


lemma active_expire_if_due: "table_ok Q t \<Longrightarrow> expire_if_due now t = (t', n) \<Longrightarrow>
    active_trains t' \<le> active_trains t \<and> rt_limits t' = rt_limits t"
  using expire_spec(3) [OF table_ok_trains] buffered_le_expire
  by (auto simp: expire_if_due_def buffered_le_def split: if_splits) (metis le_add2)

definition cell_good :: "(train_key \<Rightarrow> completed_record \<Rightarrow> bool) \<Rightarrow> (train_key \<Rightarrow> u16 \<Rightarrow> record_state \<Rightarrow> bool) \<Rightarrow> cell_v2 \<Rightarrow> bool" where
  "cell_good R Q c \<longleftrightarrow> (\<forall>s\<in>set (cell_segments c).
     segment_good (R (cell_train_key c)) (Q (cell_train_key c)) (cell_train_key c) s)"

lemma accept_at_ok:
  assumes ok: "table_ok Q t" and good: "cell_good R Q c" and acc: "accept_at c now t = (t', res)"
  shows "table_ok Q t' \<and> rt_limits t' = rt_limits t \<and>
    active_trains t' \<le> max (active_trains t) (tl_maximum_active_trains (rt_limits t)) \<and> accept_good (R (cell_train_key c)) (cell_train_key c) now t' res"
proof (cases "cell_session_epoch c = tl_session_epoch (rt_limits t)")
  case False
  with acc ok show ?thesis by (auto simp: accept_at_def accept_good_def out_good_def)
next
  case epoch: True
  let ?k = "cell_train_key c"
  obtain t1 e1 where ex: "expire_if_due now t = (t1, e1)" by fastforce
  have ok1: "table_ok Q t1" by (rule table_ok_expire_if_due [OF ok ex])
  have act1: "active_trains t1 \<le> active_trains t" "rt_limits t1 = rt_limits t"
    using active_expire_if_due [OF ok ex] by simp_all
  have tombs: "set (rt_completed_order t1) = fst ` set (rt_completed t1)"
    "set (rt_completed_order t1) \<inter> fst ` set (all_trains t1) = {}"
    using ok1 unfolding table_ok_def tombs_ok_def by blast+
  show ?thesis
  proof (cases "\<not> hot_matches ?k t1 \<and> map_of (rt_completed t1) ?k \<noteq> None")
    case True
    with acc epoch ex ok1 act1 show ?thesis
      by (auto simp: accept_at_def accept_good_def out_good_def reassembly_output_of_def le_max_iff_disj)
  next
    case False
    have fresh: "?k \<notin> set (rt_completed_order t1)"
    proof (cases "hot_matches ?k t1")
      case True
      then have "?k \<in> fst ` set (all_trains t1)" by (auto simp: hot_matches_iff all_trains_def image_iff)
      with tombs(2) show ?thesis by blast
    qed (use False tombs(1) in \<open>simp add: map_of_eq_None_iff\<close>)
    define n where "n = (if table_cell_seen ?k (cell_sequence c) t1 then 0 else incoming_bytes c)"
    define lim where "lim = tl_maximum_buffered_bytes (rt_limits t1)"
    obtain t2 m where ev: "evict_while (\<lambda>buffered. lim < sat_add buffered n) t1 0 = (t2, m)" by fastforce
    have le1: "rt_buffered_bytes t1 \<le> lim" and small: "lim < usize_max"
      using ok1 by (simp_all add: lim_def table_ok_def trains_ok_def limits_ok_def)
    note spec = evict_while_spec [OF table_ok_trains [OF ok1] ev]
    have ok2: "table_ok Q t2" by (rule table_ok_evict [OF ok1 ev])
    have lim2: "rt_limits t2 = rt_limits t1" and act2: "active_trains t2 \<le> active_trains t1"
      using spec shrunk_ok(4) [OF table_ok_trains [OF ok1]] by (simp_all add: shrunk_def)
    have step: "(if lim < n then (t2, Inl (Err ''V2 Cell exceeds the global reassembly byte budget''))
        else deliver_cell c now e1 (min m usize_max) t2) = (t', res)"
      using acc epoch ex False ev
      by (cases "hot_matches ?k t1") (simp_all add: accept_at_def n_def [symmetric] lim_def [symmetric] Let_def)
    show ?thesis
    proof (cases "lim < n")
      case True
      with step ok2 act1 act2 lim2 show ?thesis by (auto simp: accept_good_def out_good_def le_max_iff_disj)
    next
      case inside: False
      then have del: "deliver_cell c now e1 (min m usize_max) t2 = (t', res)" using step by simp
      have "rt_buffered_bytes t2 + n \<le> lim"
        using spec inside small ok2 by (auto simp: not_less sat_add_le_iff table_ok_def trains_ok_def)
      then have room: "rt_buffered_bytes t2 + n \<le> tl_maximum_buffered_bytes (rt_limits t2)" by (simp add: lim_def lim2)
      have "(if table_cell_seen ?k (cell_sequence c) t2 then 0 else segments_bytes (cell_segments c)) \<le> n"
      proof (cases "table_cell_seen ?k (cell_sequence c) t1")
        case True
        then have "t2 = t1" using spec le1 small by (simp add: n_def not_less)
        with True show ?thesis by simp
      next
        case False
        then have "n = segments_bytes (cell_segments c)"
          using inside small incoming_bytes_exact [of c] by (simp add: n_def)
        then show ?thesis by simp
      qed
      from deliver_cell_ok [where R = R, OF ok2 _ good [unfolded cell_good_def] room this del] fresh spec
      have "table_ok Q t' \<and> rt_limits t' = rt_limits t2 \<and>
        active_trains t' \<le> max (active_trains t2) (tl_maximum_active_trains (rt_limits t2)) \<and> accept_good (R ?k) ?k now t' res"
        by simp
      with act1 act2 lim2 show ?thesis by (auto simp: le_max_iff_disj)
    qed
  qed
qed


section \<open>Runs of table operations\<close>

datatype table_op =
    AcceptAt cell_v2 instant
  | Expire instant
  | SetMaximumBufferedBytes nat
  | SetMaximumActiveTrains nat

text \<open>One call on the table, answering the key and the records it delivered.\<close>

definition delivered_by :: "cell_v2 \<Rightarrow> reassembly_output result \<Rightarrow> (train_key \<times> completed_record) list" where
  "delivered_by c res = (case res of Inl _ \<Rightarrow> [] | Inr out \<Rightarrow> map (Pair (cell_train_key c)) (ro_records out))"

fun table_step :: "table_op \<Rightarrow> reassembly_table \<Rightarrow> reassembly_table \<times> (train_key \<times> completed_record) list" where
  "table_step (AcceptAt c now) t = (case accept_at c now t of (t', res) \<Rightarrow> (t', delivered_by c res))"
| "table_step (Expire now) t = (fst (expire now t), [])"
| "table_step (SetMaximumBufferedBytes m) t = (fst (set_maximum_buffered_bytes m t), [])"
| "table_step (SetMaximumActiveTrains m) t = (fst (set_maximum_active_trains m t), [])"

fun op_good :: "(train_key \<Rightarrow> completed_record \<Rightarrow> bool) \<Rightarrow> (train_key \<Rightarrow> u16 \<Rightarrow> record_state \<Rightarrow> bool) \<Rightarrow> table_op \<Rightarrow> bool" where
  "op_good R Q (AcceptAt c now) = cell_good R Q c"
| "op_good R Q (SetMaximumBufferedBytes m) = (m < usize_max)"
| "op_good R Q _ = True"

lemma evict_while_limits:
  "evict_while over (t\<lparr> rt_limits := l \<rparr>) n = (case evict_while over t n of (t', n') \<Rightarrow> (t'\<lparr> rt_limits := l \<rparr>, n'))"
proof (induction over t n rule: evict_while.induct)
  case (1 over t n)
  have "remove_train k (t\<lparr> rt_limits := l \<rparr>) = (remove_train k t)\<lparr> rt_limits := l \<rparr>" for k
    by (simp add: remove_train_def hot_matches_def split: option.splits)
  moreover have "oldest_train_key (t\<lparr> rt_limits := l \<rparr>) = oldest_train_key t"
    by (simp add: oldest_train_key_def)
  ultimately show ?case
    using 1 by (auto simp: evict_while.simps [of over t n] evict_while.simps [of over "t\<lparr> rt_limits := l \<rparr>" n]
        split: option.splits)
qed

lemma set_maximum_buffered_bytes_ok:
  assumes ok: "table_ok Q t" and m: "m < usize_max" and set: "set_maximum_buffered_bytes m t = (t', res)"
  shows "table_ok Q t' \<and> (is_ok res \<longrightarrow> rt_buffered_bytes t' \<le> m)"
proof (cases "MAX_RECORD_BYTES \<le> m")
  case True
  let ?l = "(rt_limits t)\<lparr> tl_maximum_buffered_bytes := m \<rparr>"
  obtain t1 k where ev: "evict_while (\<lambda>buffered. m < buffered) t 0 = (t1, k)" by fastforce
  have t': "t' = t1\<lparr> rt_limits := ?l \<rparr>"
    using set True ev by (simp add: set_maximum_buffered_bytes_def evict_while_limits)
  note spec = evict_while_spec [OF table_ok_trains [OF ok] ev]
  have ok1: "table_ok Q t1" by (rule table_ok_evict [OF ok ev])
  have le: "rt_buffered_bytes t1 \<le> m" using spec ok1 by (auto simp: table_ok_def trains_ok_def)
  have l: "rt_limits t1 = rt_limits t" using spec by (simp add: shrunk_def)
  have all: "all_trains t' = all_trains t1" by (simp add: t' all_trains_def)
  have "limits_ok ?l"
    using ok m True by (simp add: table_ok_def trains_ok_def limits_ok_def validate_table_limits_def result_iff)
  then have "trains_ok Q t'" using ok1 le by (simp add: table_ok_def trains_ok_def all) (simp add: t' l)
  moreover have "tombs_ok t' = tombs_ok t1" by (simp only: tombs_ok_def all) (simp add: t')
  ultimately have "table_ok Q t'" using ok1 by (simp add: table_ok_def) (simp add: t' l)
  then show ?thesis using le by (simp add: t')
qed (use set ok in \<open>auto simp: set_maximum_buffered_bytes_def\<close>)

lemma set_maximum_active_trains_ok:
  assumes ok: "table_ok Q t" and set: "set_maximum_active_trains m t = (t', res)"
  shows "table_ok Q t'"
proof (cases "1 \<le> m \<and> m \<le> u16_max")
  case True
  let ?t = "t\<lparr> rt_limits := (rt_limits t)\<lparr> tl_maximum_active_trains := m \<rparr> \<rparr>"
  have all: "all_trains ?t = all_trains t" by (simp add: all_trains_def)
  have "limits_ok (rt_limits ?t)"
    using ok True by (simp add: table_ok_def trains_ok_def limits_ok_def validate_table_limits_def result_iff)
  then have "trains_ok Q ?t" using ok unfolding table_ok_def trains_ok_def all by simp
  moreover have "tombs_ok ?t = tombs_ok t" by (simp only: tombs_ok_def all) simp
  ultimately have "table_ok Q (table_trim ?t)" using ok by (intro table_trim_spec) (simp_all add: table_ok_def)
  with True set show ?thesis by (simp add: set_maximum_active_trains_def)
qed (use set ok in \<open>auto simp: set_maximum_active_trains_def\<close>)

interpretation table_runs: invariant_system "table_ok Q" table_step "op_good R Q"
    "\<lambda>_. list_all (\<lambda>(key, r). R key r)" for Q R
proof
  fix s s' :: reassembly_table and x r
  assume ok: "table_ok Q s" and x: "op_good R Q x" and step: "table_step x s = (s', r)"
  have "table_ok Q s' \<and> list_all (\<lambda>(key, r). R key r) r"
  proof (cases x)
    case (AcceptAt c now)
    obtain res where acc: "accept_at c now s = (s', res)" and r: "r = delivered_by c res"
      using step AcceptAt by (auto split: prod.splits)
    from accept_at_ok [OF ok _ acc] x AcceptAt
    have "table_ok Q s' \<and> out_good (R (cell_train_key c)) res" by (simp add: accept_good_def)
    then show ?thesis by (auto simp: r delivered_by_def out_good_def list_all_iff split: sum.splits)
  next
    case (Expire now)
    with step ok table_ok_expire show ?thesis by (auto simp: prod_eq_iff)
  next
    case (SetMaximumBufferedBytes m)
    with step x set_maximum_buffered_bytes_ok [OF ok, of m] show ?thesis by (auto simp: prod_eq_iff)
  next
    case (SetMaximumActiveTrains m)
    with step set_maximum_active_trains_ok [OF ok, of m] show ?thesis by (auto simp: prod_eq_iff)
  qed
  then show "table_ok Q s'" "list_all (\<lambda>(key, r). R key r) r" by blast+
qed

lemma table_new_ok:
  assumes "table_new l = Inr t" "tl_maximum_buffered_bytes l < usize_max"
    "rl_maximum_buffered_bytes (tl_per_train l) < usize_max"
  shows "table_ok Q t"
proof -
  have "validate_table_limits l = Inr ()" "all_trains t = []" "rt_limits t = l" "rt_buffered_bytes t = 0"
      "rt_completed t = []" "rt_completed_order t = []"
    using assms(1) by (auto simp: table_new_def result_iff all_trains_def)
  with assms(2,3) show ?thesis by (simp add: table_ok_def trains_ok_def tombs_ok_def limits_ok_def)
qed


section \<open>Eviction order and tombstones\<close>

lemma min_by_key_le: "min_by_key f xs = Some x \<Longrightarrow> y \<in> set xs \<Longrightarrow> f x \<le> f y"
  by (induction xs arbitrary: x) (fastforce split: option.splits if_splits)+

lemma oldest_train_le:
  assumes "oldest_train_key t = Some key"
  shows "\<exists>tr. (key, tr) \<in> set (all_trains t) \<and>
    (\<forall>e\<in>set (all_trains t). tt_last_update tr \<le> tt_last_update (snd e))"
proof (cases "min_by_key (\<lambda>(_, tr). tt_last_update tr) (rt_trains t)")
  case None
  with assms show ?thesis by (auto simp: oldest_train_key_def all_trains_def split: option.splits)
next
  case (Some kt)
  obtain k tr where kt: "kt = (k, tr)" by fastforce
  have mem: "(k, tr) \<in> set (rt_trains t)" using min_by_key_mem Some kt by fastforce
  have le: "tt_last_update tr \<le> tt_last_update (snd e)" if "e \<in> set (rt_trains t)" for e
    using min_by_key_le [OF Some that] kt by (cases e) simp
  show ?thesis
  proof (cases "rt_hot_train t")
    case None
    with assms Some kt mem le show ?thesis
      by (auto simp: oldest_train_key_def all_trains_def)
  next
    case hot: (Some h)
    obtain hk htr where h: "h = (hk, htr)" by fastforce
    show ?thesis
    proof (cases "tt_last_update htr \<le> tt_last_update tr")
      case True
      with assms Some kt hot h have "key = hk" by (simp add: oldest_train_key_def)
      have "tt_last_update htr \<le> tt_last_update (snd e)" if "e \<in> set (rt_trains t)" for e
        using order_trans [OF True le [OF that]] .
      with \<open>key = hk\<close> hot h show ?thesis by (intro exI [of _ htr]) (auto simp: all_trains_def)
    next
      case False
      with assms Some kt hot h have "key = k" by (simp add: oldest_train_key_def)
      with False hot h le mem show ?thesis by (intro exI [of _ tr]) (auto simp: all_trains_def)
    qed
  qed
qed

definition lru_rest :: "reassembly_table \<Rightarrow> reassembly_table \<Rightarrow> bool" where
  "lru_rest t t' \<longleftrightarrow> set (all_trains t') \<subseteq> set (all_trains t) \<and>
     (\<forall>e\<in>set (all_trains t) - set (all_trains t'). \<forall>e'\<in>set (all_trains t').
        tt_last_update (snd e) \<le> tt_last_update (snd e'))"

lemma evict_while_lru:
  assumes "trains_ok Q t" "evict_while over t n = (t', n')"
  shows "lru_rest t t' \<and> n' + active_trains t' = n + active_trains t"
  using assms
proof (induction over t n rule: evict_while.induct)
  case (1 over t n)
  show ?case
  proof (cases "over (rt_buffered_bytes t) \<and> oldest_train_key t \<noteq> None")
    case False
    with 1(3) have "t' = t \<and> n' = n"
      by (auto simp: evict_while.simps [of over t n] split: if_splits)
    then show ?thesis by (simp add: lru_rest_def)
  next
    case True
    then obtain k where k: "oldest_train_key t = Some k" and over: "over (rt_buffered_bytes t)" by auto
    let ?r = "remove_train k t"
    have dist: "distinct (map fst (all_trains t))" using 1(2) by (simp add: trains_ok_def)
    note all = all_trains_remove [OF dist, of k]
    have "evict_while over ?r (n + 1) = (t', n')"
      using 1(3) over k by (simp add: evict_while.simps [of over t n])
    from 1(1) [OF over k shrunk_ok(1) [OF 1(2) shrunk_remove [OF 1(2)]] this]
    have IH: "lru_rest ?r t'" "n' + active_trains t' = n + 1 + active_trains ?r" by blast+
    obtain tr where tr: "(k, tr) \<in> set (all_trains t)"
      "\<forall>e\<in>set (all_trains t). tt_last_update tr \<le> tt_last_update (snd e)" using oldest_train_le [OF k] by blast
    have only: "e = (k, tr)" if "e \<in> set (all_trains t)" "e \<notin> set (all_trains ?r)" for e
    proof -
      have "fst e = k" using that by (simp add: all)
      with eq_key_imp_eq_value [OF dist, of k "snd e" tr] tr(1) that(1) show ?thesis by (cases e) simp
    qed
    have "filter (\<lambda>e. \<not> fst e \<noteq> k) (all_trains t) = [(k, tr)]" by (rule filter_key_only [OF dist tr(1)])
    then have "active_trains t = active_trains ?r + 1"
      using sum_length_filter_compl [of "\<lambda>e. fst e \<noteq> k" "all_trains t"] by (simp add: active_trains_eq all)
    moreover have "lru_rest t t'"
      unfolding lru_rest_def
    proof (intro conjI ballI)
      show "set (all_trains t') \<subseteq> set (all_trains t)" using IH(1) by (auto simp: lru_rest_def all)
      fix e e' assume e: "e \<in> set (all_trains t) - set (all_trains t')" and e': "e' \<in> set (all_trains t')"
      show "tt_last_update (snd e) \<le> tt_last_update (snd e')"
      proof (cases "e \<in> set (all_trains ?r)")
        case True
        with e e' IH(1) show ?thesis by (auto simp: lru_rest_def)
      next
        case False
        with only e have "e = (k, tr)" by blast
        moreover have "e' \<in> set (all_trains t)" using e' IH(1) by (auto simp: lru_rest_def all)
        ultimately show ?thesis using tr(2) by simp
      qed
    qed
    ultimately show ?thesis using IH(2) by simp
  qed
qed


section \<open>Properties\<close>

fun op_valid :: "table_op \<Rightarrow> bool" where
  "op_valid (AcceptAt c now) = (\<forall>s\<in>set (cell_segments c). validate_segment s = Inr ())"
| "op_valid (SetMaximumBufferedBytes m) = (m < usize_max)"
| "op_valid _ = True"

fun op_cut_from :: "(train_key \<Rightarrow> u16 \<Rightarrow> bytes) \<Rightarrow> (train_key \<Rightarrow> u16 \<Rightarrow> bytes) \<Rightarrow> table_op \<Rightarrow> bool" where
  "op_cut_from D M (AcceptAt c now) =
     (\<forall>s\<in>set (cell_segments c). cut_from (D (cell_train_key c)) (M (cell_train_key c)) s)"
| "op_cut_from D M _ = True"

lemma op_good_trivial: "op_valid x \<Longrightarrow> op_good (\<lambda>_ _. True) (\<lambda>_ _ _. True) x"
  by (cases x) (simp_all add: cell_good_def segment_good_trivial)

lemma op_good_cut:
  "op_valid x \<Longrightarrow> op_cut_from D M x \<Longrightarrow>
     op_good (\<lambda>k. is_record (D k) (M k)) (\<lambda>k. consistent (D k) (M k)) x"
  by (cases x) (simp_all add: cell_good_def cut_from_good)

section \<open>Cells of a completed train\<close>

text \<open>The train a Cell reports as complete.\<close>

definition reports :: "cell_v2 \<Rightarrow> reassembly_output result \<Rightarrow> train_key set" where
  "reports c res = (case res of Inl _ \<Rightarrow> {} | Inr out \<Rightarrow> if ro_train_complete out then {cell_train_key c} else {})"

lemma finite_reports [simp]: "finite (reports c res)"
  by (simp add: reports_def split: sum.splits)

lemma accept_hot_kept:
  assumes k: "kept key at K t" and fresh: "cell_train_key c \<notin> set (rt_completed_order t)"
    and fin: "finite K" and acc: "accept_hot c (cell_train_key c) now e v t = (t', res)"
    and few: "card (K \<union> reports c res - {key}) < tl_maximum_active_trains (rt_limits t)"
  shows "kept key at (K \<union> reports c res) t'"
proof (cases "rt_hot_train t")
  case None
  with acc k show ?thesis by (auto simp: accept_hot_def intro: kept_mono)
next
  case (Some h)
  obtain hot tr where h: "h = (hot, tr)" by (cases h)
  obtain ra out where ac: "accept_cell c (tt_reassembler tr) = (ra, out)" by fastforce
  define t1 where "t1 = t\<lparr> rt_hot_train := Some (hot, \<lparr> tt_reassembler = ra, tt_last_update = now \<rparr>),
      rt_buffered_bytes := sat_add (rt_buffered_bytes t - train_bytes tr)
        (train_bytes \<lparr> tt_reassembler = ra, tt_last_update = now \<rparr>) \<rparr>"
  have sel: "rt_completed_order t1 = rt_completed_order t" "rt_completed t1 = rt_completed t" "rt_limits t1 = rt_limits t"
    by (simp_all add: t1_def)
  then have k1: "kept key at K t1" using k by (simp add: kept_cong [of t1 t])
  have "kept key at K (remove_train (cell_train_key c) t1)" using k1 by (simp add: kept_def)
  moreover have "kept key at (insert (cell_train_key c) K) (finish_train (cell_train_key c) now t1)"
    if "card (insert (cell_train_key c) K - {key}) < tl_maximum_active_trains (rt_limits t)"
    using kept_finish [OF k1 _ fin, of "cell_train_key c" now] fresh that by (simp add: sel)
  ultimately show ?thesis
    using acc k1 few
    by (auto simp: accept_hot_def Some h ac t1_def [symmetric] reports_def split: sum.splits if_splits)
qed

lemma make_room_kept:
  assumes "kept key at K t" "\<not> stale t now at" "make_room k now e v t = (t', e', v')" "table_ok Q t"
  shows "kept key at K t' \<and> set (rt_completed_order t') \<subseteq> set (rt_completed_order t) \<and> rt_limits t' = rt_limits t"
proof -
  have "kept key at K t'"
    using assms(1-3) kept_expire [OF assms(1,2)]
    by (auto simp: make_room_def kept_cong [OF remove_train_sel(3,2)] split: if_splits prod.splits option.splits)
  with make_room_spec(2) [OF assms(4,3)] show ?thesis by (simp add: buffered_le_def)
qed

lemma install_hot_sel:
  assumes "install_hot k now t = (t', r)"
  shows "rt_completed_order t' = rt_completed_order t" "rt_completed t' = rt_completed t" "rt_limits t' = rt_limits t"
  using assms by (auto simp: install_hot_def Let_def split: sum.splits option.splits)

lemma deliver_cell_kept:
  assumes ok: "table_ok Q t" and k: "kept key at K t" and young: "\<not> stale t now at"
    and fresh: "cell_train_key c \<notin> set (rt_completed_order t)"
    and fin: "finite K" and acc: "deliver_cell c now e v t = (t', res)"
    and few: "card (K \<union> reports c res - {key}) < tl_maximum_active_trains (rt_limits t)"
  shows "kept key at (K \<union> reports c res) t'"
proof (cases "hot_matches (cell_train_key c) t")
  case True
  with acc show ?thesis by (intro accept_hot_kept [OF k fresh fin _ few]) (simp add: deliver_cell_def)
next
  case False
  obtain t1 e1 v1 where mr: "make_room (cell_train_key c) now e v t = (t1, e1, v1)" by (metis prod_cases3)
  obtain t2 r where ih: "install_hot (cell_train_key c) now t1 = (t2, r)" by fastforce
  note m = make_room_kept [OF k young mr ok] and i = install_hot_sel [OF ih]
  have k2: "kept key at K t2" using m kept_cong [OF i(1,2)] by simp
  have fresh2: "cell_train_key c \<notin> set (rt_completed_order t2)" using m fresh i(1) by auto
  have few2: "card (K \<union> reports c res - {key}) < tl_maximum_active_trains (rt_limits t2)" using few m i(3) by simp
  show ?thesis
  proof (cases r)
    case (Inl err)
    then have "t' = t2" using acc False mr ih by (simp add: deliver_cell_def)
    then show ?thesis using k2 by (auto intro: kept_mono)
  next
    case (Inr u)
    then have "accept_hot c (cell_train_key c) now e1 v1 t2 = (t', res)"
      using acc False mr ih by (simp add: deliver_cell_def)
    from accept_hot_kept [OF k2 fresh2 fin this few2] show ?thesis .
  qed
qed

lemma accept_at_kept:
  assumes ok: "table_ok Q t" and k: "kept key at K t" and young: "\<not> stale t now at"
    and fin: "finite K" and acc: "accept_at c now t = (t', res)"
    and few: "card (K \<union> reports c res - {key}) < tl_maximum_active_trains (rt_limits t)"
  shows "kept key at (K \<union> reports c res) t'"
    "cell_train_key c = key \<Longrightarrow> cell_session_epoch c = tl_session_epoch (rt_limits t) \<Longrightarrow>
       (\<exists>out. res = Inr out \<and> ro_records out = [] \<and> ro_duplicate_cell out \<and> ro_train_complete out) \<and>
       key \<notin> fst ` set (all_trains t')"
proof -
  let ?k = "cell_train_key c"
  obtain t1 e1 where ex: "expire_if_due now t = (t1, e1)" by fastforce
  have ok1: "table_ok Q t1" by (rule table_ok_expire_if_due [OF ok ex])
  have k1: "kept key at K t1" by (rule kept_expire_if_due [OF k young ex])
  have lim1: "rt_limits t1 = rt_limits t" using active_expire_if_due [OF ok ex] by simp
  have tombs: "set (rt_completed_order t1) = fst ` set (rt_completed t1)"
    "set (rt_completed_order t1) \<inter> fst ` set (all_trains t1) = {}"
    using ok1 unfolding table_ok_def tombs_ok_def by blast+
  have cold: "\<not> hot_matches k' t1" if "k' \<in> set (rt_completed_order t1)" for k'
  proof
    assume "hot_matches k' t1"
    then have "k' \<in> fst ` set (all_trains t1)" by (auto simp: hot_matches_iff all_trains_def image_iff)
    with tombs(2) that show False by blast
  qed
  have tomb: "map_of (rt_completed t1) key = Some at" "key \<in> set (rt_completed_order t1)"
    using k1 by (auto simp: kept_def)
  show "(\<exists>out. res = Inr out \<and> ro_records out = [] \<and> ro_duplicate_cell out \<and> ro_train_complete out) \<and>
       key \<notin> fst ` set (all_trains t')"
    if "?k = key" "cell_session_epoch c = tl_session_epoch (rt_limits t)"
  proof -
    have "\<not> hot_matches ?k t1 \<and> map_of (rt_completed t1) ?k \<noteq> None" using cold [OF tomb(2)] tomb(1) that by simp
    then have "accept_at c now t =
        (t1, Inr ((reassembly_output_of [] True True 0 0)\<lparr> ro_reassembly_expired_trains := e1 \<rparr>))"
      using that(2) by (simp add: accept_at_def ex)
    moreover have "key \<notin> fst ` set (all_trains t1)" using tombs(2) tomb(2) by blast
    ultimately show ?thesis using acc by (auto simp: reassembly_output_of_def)
  qed
  show "kept key at (K \<union> reports c res) t'"
  proof (cases "cell_session_epoch c = tl_session_epoch (rt_limits t)")
    case False
    with acc k show ?thesis by (auto simp: accept_at_def intro: kept_mono)
  next
    case epoch: True
    show ?thesis
    proof (cases "\<not> hot_matches ?k t1 \<and> map_of (rt_completed t1) ?k \<noteq> None")
      case True
      with acc epoch ex have "t' = t1" by (auto simp: accept_at_def)
      with k1 show ?thesis by (auto intro: kept_mono)
    next
      case False
      have fresh: "?k \<notin> set (rt_completed_order t1)"
        using False cold tombs(1) by (auto simp: map_of_eq_None_iff)
      define n where "n = (if table_cell_seen ?k (cell_sequence c) t1 then 0 else incoming_bytes c)"
      define lim where "lim = tl_maximum_buffered_bytes (rt_limits t1)"
      obtain t2 m where ev: "evict_while (\<lambda>buffered. lim < sat_add buffered n) t1 0 = (t2, m)" by fastforce
      have ok2: "table_ok Q t2" by (rule table_ok_evict [OF ok1 ev])
      note spec = evict_while_spec [OF table_ok_trains [OF ok1] ev]
      then have lim2: "rt_limits t2 = rt_limits t" and k2: "kept key at K t2" and fresh2: "?k \<notin> set (rt_completed_order t2)"
        using k1 fresh lim1 kept_cong [of t2 t1] by (simp_all add: shrunk_def)
      have step: "(if lim < n then (t2, Inl (Err ''V2 Cell exceeds the global reassembly byte budget''))
          else deliver_cell c now e1 (min m usize_max) t2) = (t', res)"
        using acc epoch ex False ev
        by (cases "hot_matches ?k t1") (simp_all add: accept_at_def n_def [symmetric] lim_def [symmetric] Let_def)
      show ?thesis
      proof (cases "lim < n")
        case True
        with step k2 show ?thesis by (auto intro: kept_mono)
      next
        case inside: False
        then have "deliver_cell c now e1 (min m usize_max) t2 = (t', res)" using step by simp
        from deliver_cell_kept [OF ok2 k2 _ fresh2 fin this] young few lim2 show ?thesis
          by (simp add: stale_def)
      qed
    qed
  qed
qed


text \<open>The trains reported complete in a run.\<close>

fun completed_in :: "table_op list \<Rightarrow> reassembly_table \<Rightarrow> train_key set" where
  "completed_in [] t = {}"
| "completed_in (x # xs) t =
     (case x of AcceptAt c now \<Rightarrow> reports c (snd (accept_at c now t)) | _ \<Rightarrow> {}) \<union>
     completed_in xs (fst (table_step x t))"

text \<open>Operations within the timeout of the completion at \<open>since\<close> that leave room for \<open>n\<close> trains.\<close>

fun op_within :: "instant \<Rightarrow> duration \<Rightarrow> nat \<Rightarrow> table_op \<Rightarrow> bool" where
  "op_within since d n (AcceptAt c now) \<longleftrightarrow> now - since < d"
| "op_within since d n (Expire now) \<longleftrightarrow> now - since < d"
| "op_within since d n (SetMaximumBufferedBytes m) \<longleftrightarrow> True"
| "op_within since d n (SetMaximumActiveTrains m) \<longleftrightarrow> n \<le> m"

lemma finite_completed_in [simp]: "finite (completed_in xs t)"
  by (induction xs arbitrary: t) (auto split: table_op.splits)

definition lasting :: "train_key \<Rightarrow> instant \<Rightarrow> duration \<Rightarrow> nat \<Rightarrow> train_key set \<Rightarrow> reassembly_table \<Rightarrow> bool" where
  "lasting key since d n K t \<longleftrightarrow> table_ok (\<lambda>_ _ _. True) t \<and> kept key since K t \<and>
     tl_train_timeout (rt_limits t) = d \<and> tl_session_epoch (rt_limits t) = tk_session_epoch key \<and>
     n \<le> tl_maximum_active_trains (rt_limits t)"

lemma lasting_step:
  assumes last: "lasting key since d n K t" and within: "op_within since d n x" and v: "op_valid x"
    and fin: "finite K" and few: "card (K \<union> completed_in [x] t - {key}) < n"
    and step: "table_step x t = (t', r)"
  shows "lasting key since d n (K \<union> completed_in [x] t) t' \<and> (\<forall>e\<in>set r. fst e \<noteq> key)"
proof -
  have ok: "table_ok (\<lambda>_ _ _. True) t" and k: "kept key since K t" and d: "tl_train_timeout (rt_limits t) = d"
    and ep: "tl_session_epoch (rt_limits t) = tk_session_epoch key" and n: "n \<le> tl_maximum_active_trains (rt_limits t)"
    using last by (simp_all add: lasting_def)
  have good: "op_good (\<lambda>_ _. True) (\<lambda>_ _ _. True) x" by (rule op_good_trivial [OF v])
  have ok': "table_ok (\<lambda>_ _ _. True) t'" by (rule table_runs.inv_step [OF ok good step])
  show ?thesis
  proof (cases x)
    case (AcceptAt c now)
    obtain res where acc: "accept_at c now t = (t', res)" and r: "r = delivered_by c res"
      using step AcceptAt by (auto split: prod.splits)
    have cs: "completed_in [x] t = reports c res" by (simp add: AcceptAt acc)
    have young: "\<not> stale t now since" using within d by (simp add: AcceptAt stale_def)
    have few': "card (K \<union> reports c res - {key}) < tl_maximum_active_trains (rt_limits t)" using few n cs by simp
    have lim: "rt_limits t' = rt_limits t" using accept_at_ok [OF ok _ acc] good by (auto simp: AcceptAt)
    note a = accept_at_kept [OF ok k young fin acc few']
    have "ro_records out = []" if "res = Inr out" "cell_train_key c = key" for out
    proof -
      have "cell_session_epoch c = tl_session_epoch (rt_limits t)" using ep that(2) by (auto simp: cell_train_key_def)
      with a(2) that show ?thesis by auto
    qed
    then have "\<forall>e\<in>set r. fst e \<noteq> key" by (auto simp: r delivered_by_def split: sum.splits)
    with a(1) ok' lim d ep n show ?thesis unfolding cs by (simp add: lasting_def)
  next
    case (Expire now)
    obtain m where ex: "expire now t = (t', m)" using step Expire by (auto simp: prod_eq_iff)
    have "\<not> stale t now since" using within d by (simp add: Expire stale_def)
    from kept_expire [OF k this ex] buffered_le_expire [OF ok ex] ok' d ep n step show ?thesis
      by (simp add: lasting_def buffered_le_def Expire)
  next
    case (SetMaximumBufferedBytes m)
    obtain t1 j where ev: "evict_while (\<lambda>buffered. m < buffered) t 0 = (t1, j)" by fastforce
    have t': "t' = (if MAX_RECORD_BYTES \<le> m then t1\<lparr> rt_limits := (rt_limits t)\<lparr> tl_maximum_buffered_bytes := m \<rparr> \<rparr> else t)"
      and r: "r = []"
      using step by (auto simp: SetMaximumBufferedBytes set_maximum_buffered_bytes_def evict_while_limits ev)
    have "rt_completed_order t' = rt_completed_order t" "rt_completed t' = rt_completed t"
      using evict_while_spec [OF table_ok_trains [OF ok] ev] by (simp_all add: t')
    from kept_cong [OF this] k have "kept key since K t'" by simp
    with ok' d ep n show ?thesis by (simp add: lasting_def SetMaximumBufferedBytes r) (simp add: t')
  next
    case (SetMaximumActiveTrains m)
    let ?t = "t\<lparr> rt_limits := (rt_limits t)\<lparr> tl_maximum_active_trains := m \<rparr> \<rparr>"
    have t': "t' = (if 1 \<le> m \<and> m \<le> u16_max then table_trim ?t else t)" and r: "r = []"
      using step by (auto simp: SetMaximumActiveTrains set_maximum_active_trains_def)
    have m: "n \<le> m" using within by (simp add: SetMaximumActiveTrains)
    have "kept key since K ?t" using k by (simp add: kept_def)
    moreover have "card (K - {key}) < m" using few m by (simp add: SetMaximumActiveTrains)
    ultimately have "kept key since K (table_trim ?t)" using kept_trim [OF _ fin, of key since ?t] by simp
    moreover have "rt_limits (table_trim ?t) = rt_limits ?t" by (simp add: table_trim_def split: prod.splits)
    ultimately show ?thesis using ok' d ep n m k
      by (simp add: lasting_def SetMaximumActiveTrains r) (simp add: t')
  qed
qed

lemma lasting_run:
  assumes "lasting key since d n K t" "list_all (op_within since d n) xs" "list_all op_valid xs"
    "finite K" "card (K \<union> completed_in xs t - {key}) < n" "run_ops table_step xs t = (t', rs)"
  shows "lasting key since d n (K \<union> completed_in xs t) t' \<and> (\<forall>e\<in>set (concat rs). fst e \<noteq> key)"
  using assms
proof (induction xs arbitrary: t K rs)
  case (Cons x xs)
  obtain t1 r rest where st: "table_step x t = (t1, r)" and rest: "run_ops table_step xs t1 = (t', rest)" "rs = r # rest"
    using Cons.prems(6) by (auto split: prod.splits)
  let ?K = "K \<union> completed_in [x] t"
  have all: "K \<union> completed_in (x # xs) t = ?K \<union> completed_in xs t1" using st by auto
  have fin: "finite ?K" using Cons.prems(4) finite_completed_in [of "[x]" t] by (simp only: finite_Un)
  have "card (?K - {key}) \<le> card (?K \<union> completed_in xs t1 - {key})"
    by (intro card_mono finite_Diff finite_UnI [OF fin] finite_completed_in) auto
  then have few: "card (?K - {key}) < n" using Cons.prems(5) unfolding all by linarith
  have one: "lasting key since d n ?K t1 \<and> (\<forall>e\<in>set r. fst e \<noteq> key)"
    using Cons.prems by (intro lasting_step [OF Cons.prems(1) _ _ Cons.prems(4) few st]) auto
  have "lasting key since d n (?K \<union> completed_in xs t1) t' \<and> (\<forall>e\<in>set (concat rest). fst e \<noteq> key)"
    using Cons.prems one all by (intro Cons.IH [OF _ _ _ fin _ rest(1)]) auto
  with one show ?case unfolding all rest(2) by auto
qed simp

lemma lasting_accept:
  assumes last: "lasting key since d n K t" and fin: "finite K" and few: "card (K - {key}) < n"
    and acc: "accept_at c now t = (t', res)" and key: "cell_train_key c = key" and young: "now - since < d"
  shows "\<exists>out. res = Inr out \<and> ro_records out = [] \<and> ro_duplicate_cell out \<and> ro_train_complete out"
    "key \<notin> fst ` set (all_trains t')"
proof -
  have ok: "table_ok (\<lambda>_ _ _. True) t" and k: "kept key since K t" and d: "tl_train_timeout (rt_limits t) = d"
    and ep: "tl_session_epoch (rt_limits t) = tk_session_epoch key" and n: "n \<le> tl_maximum_active_trains (rt_limits t)"
    using last by (simp_all add: lasting_def)
  have "reports c res \<subseteq> {key}" using key by (simp add: reports_def split: sum.splits)
  then have same: "K \<union> reports c res - {key} = K - {key}" by auto
  have "card (K \<union> reports c res - {key}) < tl_maximum_active_trains (rt_limits t)" using few n same by simp
  moreover have "\<not> stale t now since" using young d by (simp add: stale_def)
  ultimately have "(\<exists>out. res = Inr out \<and> ro_records out = [] \<and> ro_duplicate_cell out \<and> ro_train_complete out) \<and>
      key \<notin> fst ` set (all_trains t')"
    using key ep by (intro accept_at_kept(2) [OF ok k _ fin acc]) (auto simp: cell_train_key_def)
  then show "\<exists>out. res = Inr out \<and> ro_records out = [] \<and> ro_duplicate_cell out \<and> ro_train_complete out"
    "key \<notin> fst ` set (all_trains t')" by blast+
qed

lemma list_all2_concat: "list_all2 (\<lambda>_. list_all P) xs yss \<Longrightarrow> list_all P (concat yss)"
  by (induction rule: list_all2_induct) auto

definition demo_table_limits :: table_limits where
  "demo_table_limits = \<lparr> tl_session_epoch = 7, tl_maximum_active_trains = 2,
     tl_maximum_buffered_bytes = 65536, tl_train_timeout = 1000, tl_per_train = demo_limits \<rparr>"

definition demo_table :: reassembly_table where
  "demo_table = \<lparr> rt_limits = demo_table_limits, rt_hot_train = None, rt_trains = [], rt_completed = [],
     rt_completed_order = [], rt_buffered_bytes = 0, rt_next_expiry_check = None \<rparr>"

definition demo_other :: cell_v2 where
  "demo_other = demo_second\<lparr> cell_train_id := 12 \<rparr>"

definition demo_whole :: cell_v2 where
  "demo_whole = demo_part 0 3 \<lparr> seg_kind = Full, seg_flags = 0, seg_record_id = 1, seg_total_len = 2,
     seg_offset = 0, seg_metadata = [9], seg_data = [1, 2] \<rparr>"

lemma demo_table_new: "table_new demo_table_limits = Inr demo_table"
  by (simp add: table_new_def demo_table_def demo_table_limits_def validate_table_limits_def
      validate_limits_def demo_limits_def MAX_RECORD_BYTES_def u16_max_def)

lemma demo_cells_valid [simp]:
  "op_valid (AcceptAt demo_first now)" "op_valid (AcceptAt demo_second now)" "op_valid (AcceptAt demo_other now)"
  by (simp_all add: demo_first_def demo_second_def demo_other_def demo_part_def cell_segments_def
      validate_segment_def segment_end_def cell_consts u16_max_def u32_max_def)

definition demo_run :: "table_op list" where
  "demo_run = [AcceptAt demo_second 5, AcceptAt demo_other 6, AcceptAt demo_first 7]"

lemma demo_run_valid: "list_all op_valid demo_run"
  by (simp only: demo_run_def list.pred_inject demo_cells_valid simp_thms)

lemmas table_eval = reassembly_eval demo_table_def demo_table_limits_def demo_other_def
  accept_at_def expire_if_due_def expire_def deliver_cell_def evict_while.simps make_room_def
  install_hot_def accept_hot_def finish_train_def remove_train_def table_trim_def hot_matches_def
  table_cell_seen_def incoming_bytes_def at_capacity_def active_trains_def train_bytes_def
  reassembler_new_def validate_limits_def completed_new_def div_ceil_def stale_def delivered_by_def
  oldest_train_key_def u16_max_def MAX_RECORD_BYTES_def MAX_EXPIRY_SWEEP_INTERVAL_def

text \<open>C13. Memory is bounded in every run: whatever Cells arrive, in any interleaving of trains and with
  expiries and live resizes of the limits between them, the byte counter of the table is the sum of
  the bytes its trains hold and stays within the current limit, no train is held twice, there are at most
  \<open>maximum_active_trains\<close> tombstones, and no train has both a tombstone and live state.\<close>

theorem table_run_bounds:
  assumes "table_new l = Inr t" and "tl_maximum_buffered_bytes l < usize_max"
    and "rl_maximum_buffered_bytes (tl_per_train l) < usize_max"
    and "list_all op_valid ops" and "run_ops table_step ops t = (t', outs)"
  shows "rt_buffered_bytes t' = trains_bytes (all_trains t') \<and>
    rt_buffered_bytes t' \<le> tl_maximum_buffered_bytes (rt_limits t') \<and>
    distinct (map fst (all_trains t')) \<and>
    length (rt_completed t') \<le> tl_maximum_active_trains (rt_limits t') \<and>
    fst ` set (rt_completed t') \<inter> fst ` set (all_trains t') = {}"
proof -
  have "list_all (op_good (\<lambda>_ _. True) (\<lambda>_ _ _. True)) ops"
    using assms(4) op_good_trivial by (auto simp: list_all_iff)
  then have "table_ok (\<lambda>_ _ _. True) t'"
    using table_runs.run_inv [OF table_new_ok [OF assms(1-3)] _ assms(5)] by blast
  then show ?thesis by (auto simp: table_ok_def trains_ok_def tombs_ok_def)
qed

theorem table_run_bounds_witness:
  "rt_buffered_bytes (fst (run_ops table_step demo_run demo_table)) \<le> 65536 \<and>
   active_trains (fst (run_ops table_step demo_run demo_table)) = 1 \<and>
   length (rt_completed (fst (run_ops table_step demo_run demo_table))) = 1"
proof -
  obtain t' outs where run: "run_ops table_step demo_run demo_table = (t', outs)" by fastforce
  have "active_trains (fst (run_ops table_step demo_run demo_table)) = 1 \<and>
      rt_limits (fst (run_ops table_step demo_run demo_table)) = demo_table_limits \<and>
      length (rt_completed (fst (run_ops table_step demo_run demo_table))) = 1"
    by (simp add: table_eval demo_run_def)
  with table_run_bounds [OF demo_table_new _ _ demo_run_valid run] show ?thesis
    unfolding run by (simp add: demo_table_limits_def demo_limits_def usize_max_def)
qed

text \<open>C14. Integrity across interleaved trains: if every segment of every Cell is cut from the record
  its train carries under its record id, then every record the table ever delivers is the record
  sent in that train, complete and unmixed with records of the same id of other trains.\<close>

theorem table_run_integrity:
  assumes "table_new l = Inr t" and "tl_maximum_buffered_bytes l < usize_max"
    and "rl_maximum_buffered_bytes (tl_per_train l) < usize_max"
    and "list_all op_valid ops" and "list_all (op_cut_from D M) ops"
    and "run_ops table_step ops t = (t', outs)"
  shows "\<forall>(key, r)\<in>set (concat outs). coalesce r = D key (cr_record_id r) \<and>
    cr_metadata r = M key (cr_record_id r) \<and> cr_total_len r = length (D key (cr_record_id r))"
proof -
  let ?R = "\<lambda>k. is_record (D k) (M k)" and ?Q = "\<lambda>k. consistent (D k) (M k)"
  have "list_all (op_good ?R ?Q) ops" using assms(4,5) op_good_cut by (auto simp: list_all_iff)
  then have "list_all2 (\<lambda>_. list_all (\<lambda>(key, r). ?R key r)) ops outs"
    using table_runs.run_inv [OF table_new_ok [OF assms(1-3)] _ assms(6)] by blast
  then have "list_all (\<lambda>(key, r). ?R key r) (concat outs)" by (rule list_all2_concat)
  then show ?thesis by (simp add: list_all_iff is_record_def split_beta)
qed

theorem table_run_integrity_witness:
  "\<exists>key r. concat (snd (run_ops table_step demo_run demo_table)) = [(key, r)] \<and> coalesce r = [1, 2, 3, 4, 5]"
proof -
  obtain t' outs where run: "run_ops table_step demo_run demo_table = (t', outs)" by fastforce
  have "length (concat (snd (run_ops table_step demo_run demo_table))) = 1"
    by (simp add: table_eval demo_run_def)
  then obtain key r where kr: "concat outs = [(key, r)]" unfolding run by (auto simp: length_Suc_conv)
  have cut: "list_all (op_cut_from (\<lambda>_ _. [1, 2, 3, 4, 5]) (\<lambda>_ _. [9])) demo_run"
    by (simp add: demo_run_def demo_first_def demo_second_def demo_other_def demo_part_def cell_segments_def
        cut_from_def slice_def)
  from table_run_integrity [OF demo_table_new _ _ demo_run_valid cut run] kr show ?thesis
    unfolding run by (simp add: demo_table_limits_def demo_limits_def usize_max_def)
qed

text \<open>C15. A completed train stays closed in every run. Take any run from a new table in which a Cell
  completes its train at \<open>now\<close>, followed by any further operations (Cells of this and other trains,
  expiries, live resizes) before the train timeout has passed. Then no later Cell of the train delivers a
  record, and the next one is reported as a duplicate of a complete train and opens no state for it. This
  holds as long as the tombstone is not trimmed, which \<open>completed\<close> does oldest first: fewer than \<open>n\<close> other
  trains are reported complete meanwhile, where \<open>maximum_active_trains\<close> is never below \<open>n\<close>.\<close>

theorem completed_train_closed:
  assumes "table_new l = Inr t0" and "tl_maximum_buffered_bytes l < usize_max"
    and "rl_maximum_buffered_bytes (tl_per_train l) < usize_max"
    and "list_all op_valid (earlier @ AcceptAt c now # further)"
    and "run_ops table_step earlier t0 = (t, outs)" and "accept_at c now t = (t1, Inr out)"
    and "ro_train_complete out" and "\<not> ro_duplicate_cell out"
    and "run_ops table_step further t1 = (t2, outs2)"
    and "list_all (op_within now (tl_train_timeout (rt_limits t)) n) further"
    and "card (completed_in further t1 - {cell_train_key c}) < n"
    and "n \<le> tl_maximum_active_trains (rt_limits t)"
    and "cell_train_key c' = cell_train_key c" and "later - now < tl_train_timeout (rt_limits t)"
  shows "(\<forall>e\<in>set (concat outs2). fst e \<noteq> cell_train_key c) \<and>
    (\<exists>t3 out'. accept_at c' later t2 = (t3, Inr out') \<and> ro_records out' = [] \<and> ro_duplicate_cell out' \<and>
       ro_train_complete out' \<and> cell_train_key c \<notin> fst ` set (all_trains t3))"
proof -
  let ?k = "cell_train_key c" and ?Q = "\<lambda>_ _ _. True" and ?d = "tl_train_timeout (rt_limits t)"
  have v: "list_all op_valid earlier" "op_valid (AcceptAt c now)" "list_all op_valid further" using assms(4) by simp_all
  have "list_all (op_good (\<lambda>_ _. True) ?Q) earlier" using v(1) op_good_trivial by (auto simp: list_all_iff)
  then have ok: "table_ok ?Q t" using table_runs.run_inv [OF table_new_ok [OF assms(1-3)] _ assms(5)] by blast
  have "cell_good (\<lambda>_ _. True) ?Q c" using op_good_trivial [OF v(2)] by simp
  from accept_at_ok [OF ok this assms(6)] assms(7,8)
  have one: "table_ok ?Q t1" "rt_limits t1 = rt_limits t" "kept ?k now {} t1" by (auto simp: accept_good_def)
  have epoch: "tl_session_epoch (rt_limits t) = cell_session_epoch c"
    using assms(6) by (auto simp: accept_at_def split: if_splits)
  have start: "lasting ?k now ?d n {} t1" using one assms(12) epoch by (simp add: lasting_def cell_train_key_def)
  have few: "card ({} \<union> completed_in further t1 - {?k}) < n" using assms(11) by simp
  note run = lasting_run [OF start assms(10) v(3) finite.emptyI few assms(9)]
  have last: "lasting ?k now ?d n (completed_in further t1) t2" using run by simp
  obtain t3 res where acc: "accept_at c' later t2 = (t3, res)" by fastforce
  note closed = lasting_accept [OF last finite_completed_in assms(11) acc assms(13,14)]
  from closed run acc show ?thesis by auto
qed

theorem completed_train_closed_witness:
  "\<exists>t3 out'. accept_at demo_whole 800 (fst (run_ops table_step [AcceptAt demo_other 9, AcceptAt demo_first 20, Expire 30]
       (fst (accept_at demo_whole 7 demo_table)))) = (t3, Inr out') \<and>
     ro_records out' = [] \<and> ro_duplicate_cell out' \<and> ro_train_complete out'"
proof -
  let ?further = "[AcceptAt demo_other 9, AcceptAt demo_first 20, Expire 30]"
  have start: "\<exists>out. snd (accept_at demo_whole 7 demo_table) = Inr out \<and> ro_train_complete out \<and> \<not> ro_duplicate_cell out"
    by (simp add: table_eval demo_whole_def)
  then obtain t1 out where out: "accept_at demo_whole 7 demo_table = (t1, Inr out)"
    "ro_train_complete out" "\<not> ro_duplicate_cell out" by (metis prod.collapse)
  obtain t2 outs2 where run: "run_ops table_step ?further t1 = (t2, outs2)" by fastforce
  have "op_valid (AcceptAt demo_whole 7)"
    by (simp add: demo_whole_def demo_part_def cell_segments_def validate_segment_def segment_end_def cell_consts
        u16_max_def u32_max_def)
  then have v: "list_all op_valid ([] @ AcceptAt demo_whole 7 # ?further)"
    by (simp only: append_Nil list.pred_inject demo_cells_valid simp_thms) simp
  have within: "list_all (op_within 7 (tl_train_timeout (rt_limits demo_table)) 2) ?further"
    by (simp add: demo_table_def demo_table_limits_def)
  have "completed_in ?further (fst (accept_at demo_whole 7 demo_table)) = {cell_train_key demo_whole}"
    by (simp add: table_eval demo_whole_def reports_def)
  then have few: "card (completed_in ?further t1 - {cell_train_key demo_whole}) < 2" by (simp add: out)
  from completed_train_closed [OF demo_table_new _ _ v _ out run within few, of "[]" demo_whole 800] show ?thesis
    unfolding out fst_conv run by (auto simp: demo_table_def demo_table_limits_def demo_limits_def usize_max_def)
qed

text \<open>C16. Pressure eviction is least recently used: the trains evicted are never newer than those kept,
  the reported count is the number evicted, and eviction stops only when the budget test no longer
  fires or the table is empty.\<close>

theorem eviction_lru:
  assumes "table_ok Q t" and "evict_while over t 0 = (t', n)"
  shows "(\<forall>e\<in>set (all_trains t) - set (all_trains t'). \<forall>e'\<in>set (all_trains t').
       tt_last_update (snd e) \<le> tt_last_update (snd e')) \<and>
    n + active_trains t' = active_trains t \<and>
    (\<not> over (rt_buffered_bytes t') \<or> all_trains t' = []) \<and>
    (over (rt_buffered_bytes t) \<or> t' = t)"
  using evict_while_lru [OF table_ok_trains [OF assms(1)] assms(2)]
    evict_while_spec [OF table_ok_trains [OF assms(1)] assms(2)]
  by (auto simp: lru_rest_def)

theorem eviction_lru_witness:
  "active_trains (fst (evict_while (\<lambda>buffered. 2 < buffered)
      (fst (run_ops table_step (take 2 demo_run) demo_table)) 0)) = 1"
proof -
  let ?t = "fst (run_ops table_step (take 2 demo_run) demo_table)"
  obtain t outs where run: "run_ops table_step (take 2 demo_run) demo_table = (t, outs)" by fastforce
  obtain t' n where ev: "evict_while (\<lambda>buffered. 2 < buffered) t 0 = (t', n)" by fastforce
  have "list_all op_valid (take 2 demo_run)"
    using demo_run_valid by (auto simp: list_all_iff dest: in_set_takeD)
  then have adm: "list_all (op_good (\<lambda>_ _. True) (\<lambda>_ _ _. True)) (take 2 demo_run)"
    using op_good_trivial by (auto simp: list_all_iff)
  have "table_ok (\<lambda>_ _ _. True) demo_table"
    by (rule table_new_ok [OF demo_table_new]) (simp_all add: demo_table_limits_def demo_limits_def usize_max_def)
  then have ok: "table_ok (\<lambda>_ _ _. True) t" using table_runs.run_inv [OF _ adm run] by blast
  have "active_trains ?t = 2" "snd (evict_while (\<lambda>buffered. 2 < buffered) ?t 0) = 1"
    by (simp_all add: table_eval demo_run_def)
  with eviction_lru [OF ok ev] show ?thesis by (simp add: run ev)
qed

end
