(* ===== verification/Scheduler.thy ===== *)
theory Scheduler
  imports Train Hash_Map Interfaces
begin

text \<open>
  The per-peer send scheduler (\<open>V2Scheduler\<close> of \<open>src/src/protocol/v2/scheduler.rs\<close>): a control queue, an
  earliest-deadline-first latency queue with a strict local priority tier, per-flow bulk queues
  served by deficit round robin, and a probe queue. A datagram payload is its bytes, head and tail
  joined; \<open>Instant::now()\<close> is the argument \<open>now\<close> of the operations that read the clock; the byte and
  segment pools recycle allocations and carry no state of the model. The bulk hash map is an
  association list with distinct keys.
\<close>

section \<open>State\<close>

definition MAX_QUANTUM_BYTES :: nat where "MAX_QUANTUM_BYTES = 16384"
definition MAX_QUANTUM_CELLS :: nat where "MAX_QUANTUM_CELLS = 8"
definition DEFAULT_LATENCY_DEADLINE :: duration where "DEFAULT_LATENCY_DEADLINE = 100000000"

record scheduler_limits =
  sl_control_bytes :: nat
  sl_latency_bytes :: nat
  sl_bulk_bytes :: nat
  sl_probe_bytes :: nat
  sl_application_bytes :: nat
  sl_bulk_reserve_bytes :: nat
  sl_bulk_drr_quantum_bytes :: nat
  sl_latency_burst_bytes :: nat
  sl_maximum_quantum_cells :: nat
  sl_maximum_quantum_bytes :: nat

definition scheduler_limits_default :: scheduler_limits where
  "scheduler_limits_default = \<lparr> sl_control_bytes = 1024 * 1024, sl_latency_bytes = 2 * 1024 * 1024,
     sl_bulk_bytes = 8 * 1024 * 1024, sl_probe_bytes = 256 * 1024, sl_application_bytes = 8 * 1024 * 1024,
     sl_bulk_reserve_bytes = 1024 * 1024, sl_bulk_drr_quantum_bytes = 8 * 1400,
     sl_latency_burst_bytes = 64 * 1024, sl_maximum_quantum_cells = MAX_QUANTUM_CELLS,
     sl_maximum_quantum_bytes = MAX_QUANTUM_BYTES \<rparr>"

definition validate_scheduler_limits :: "scheduler_limits \<Rightarrow> unit result" where
  "validate_scheduler_limits l =
     ensure (0 < sl_control_bytes l) ''V2 control queue limit is zero'' (
     ensure (0 < sl_latency_bytes l) ''V2 latency queue limit is zero'' (
     ensure (0 < sl_bulk_bytes l) ''V2 bulk queue limit is zero'' (
     ensure (0 < sl_probe_bytes l) ''V2 probe queue limit is zero'' (
     ensure (sl_bulk_reserve_bytes l \<le> sl_application_bytes l) ''V2 bulk reserve exceeds application budget'' (
     ensure (0 < sl_bulk_drr_quantum_bytes l) ''V2 DRR quantum is zero'' (
     ensure (1 \<le> sl_maximum_quantum_cells l \<and> sl_maximum_quantum_cells l \<le> MAX_QUANTUM_CELLS)
       ''V2 cell quantum exceeds hard limit'' (
     ensure (1 \<le> sl_maximum_quantum_bytes l \<and> sl_maximum_quantum_bytes l \<le> MAX_QUANTUM_BYTES)
       ''V2 byte quantum exceeds hard limit'' (Inr ()))))))))"

record scheduler_depth =
  sd_control_bytes :: nat
  sd_latency_bytes :: nat
  sd_bulk_bytes :: nat
  sd_probe_bytes :: nat
  sd_latency_trains :: nat
  sd_bulk_trains :: nat
  sd_bulk_flows :: nat

record scheduler_stats =
  ss_quantum_count :: nat
  ss_quantum_bytes :: nat
  ss_bulk_quantum_count :: nat
  ss_latency_quantum_count :: nat
  ss_bulk_preemptions :: nat
  ss_bulk_forced_service :: nat
  ss_bulk_evicted_bytes :: nat
  ss_rejected_bytes :: nat
  ss_maximum_sojourn_micros :: nat
  ss_latency_deadline_misses :: nat

record scheduled_cell =
  sc_payload :: bytes
  sc_header :: route_header

definition sc_len :: "scheduled_cell \<Rightarrow> nat" where
  "sc_len c = length (sc_payload c)"

definition cells_len :: "scheduled_cell list \<Rightarrow> nat" where
  "cells_len cs = sum_list (map sc_len cs)"

record cell_quantum =
  cq_class :: traffic_class
  cq_priority :: bool
  cq_flow_id :: u64
  cq_train_id :: u64
  cq_cells :: "scheduled_cell list"
  cq_train_finished :: bool
  cq_sojourn :: duration
  cq_bulk_preemption :: bool
  cq_train_stats :: "train_build_stats option"

definition cq_bytes :: "cell_quantum \<Rightarrow> nat" where
  "cq_bytes q = cells_len (cq_cells q)"

datatype scheduled_work = WorkControl bytes | WorkCells cell_quantum | WorkProbe bytes

record train_cursor =
  tc_class :: traffic_class
  tc_flow_id :: u64
  tc_train_id :: u64
  tc_cells :: "scheduled_cell list"
  tc_bytes :: nat
  tc_enqueued :: instant
  tc_deadline :: "instant option"
  tc_priority :: bool
  tc_stats :: "train_build_stats option"

record bulk_flow =
  bf_deficit :: nat
  bf_trains :: "train_cursor list"

record scheduler =
  sch_limits :: scheduler_limits
  sch_control :: "bytes list"
  sch_latency :: "train_cursor list"
  sch_bulk :: "(u64 \<times> bulk_flow) list"
  sch_active_bulk :: "u64 list"
  sch_probes :: "bytes list"
  sch_depth :: scheduler_depth
  sch_stats :: scheduler_stats
  sch_latency_bytes_since_bulk :: nat
  sch_bulk_was_preemptible :: bool

definition scheduler_new :: "scheduler_limits \<Rightarrow> scheduler result" where
  "scheduler_new l =
     bindR (validate_scheduler_limits l) (\<lambda>_.
     Inr \<lparr> sch_limits = l, sch_control = [], sch_latency = [], sch_bulk = [], sch_active_bulk = [],
           sch_probes = [],
           sch_depth = \<lparr> sd_control_bytes = 0, sd_latency_bytes = 0, sd_bulk_bytes = 0, sd_probe_bytes = 0,
             sd_latency_trains = 0, sd_bulk_trains = 0, sd_bulk_flows = 0 \<rparr>,
           sch_stats = \<lparr> ss_quantum_count = 0, ss_quantum_bytes = 0, ss_bulk_quantum_count = 0,
             ss_latency_quantum_count = 0, ss_bulk_preemptions = 0, ss_bulk_forced_service = 0,
             ss_bulk_evicted_bytes = 0, ss_rejected_bytes = 0, ss_maximum_sojourn_micros = 0,
             ss_latency_deadline_misses = 0 \<rparr>,
           sch_latency_bytes_since_bulk = 0, sch_bulk_was_preemptible = False \<rparr>)"

section \<open>Cursors\<close>

fun cursor_cells :: "traffic_class \<Rightarrow> u64 \<Rightarrow> nat \<Rightarrow> nat \<Rightarrow> cell_v2 list \<Rightarrow> (scheduled_cell list \<times> nat) result" where
  "cursor_cells class train_id maximum bytes [] = Inr ([], bytes)"
| "cursor_cells class train_id maximum bytes (c # cs) =
     ensure (cell_class c = class) ''V2 train mixes traffic classes'' (
     ensure (cell_train_id c = train_id) ''V2 train mixes train IDs'' (
     bindR (encode_datagram_parts maximum c) (\<lambda>(head, tail, header).
       let payload = join_parts head tail in
       case checked_add bytes (length payload) of
         None \<Rightarrow> Inl (Err ''V2 scheduled train byte overflow'')
       | Some bytes \<Rightarrow>
           bindR (cursor_cells class train_id maximum bytes cs) (\<lambda>(rest, total).
           Inr (\<lparr> sc_payload = payload, sc_header = header \<rparr> # rest, total)))))"

definition cursor_new :: "u64 \<Rightarrow> packet_train \<Rightarrow> nat \<Rightarrow> instant option \<Rightarrow> instant \<Rightarrow> train_cursor result" where
  "cursor_new flow_id train maximum deadline now =
     (case pt_cells train of
        [] \<Rightarrow> Inl (Err ''cannot schedule an empty V2 train'')
      | c # _ \<Rightarrow>
          bindR (cursor_cells (cell_class c) (cell_train_id c) maximum 0 (pt_cells train)) (\<lambda>(cells, bytes).
          Inr \<lparr> tc_class = cell_class c, tc_flow_id = flow_id, tc_train_id = cell_train_id c, tc_cells = cells,
                tc_bytes = bytes, tc_enqueued = now, tc_deadline = deadline, tc_priority = False,
                tc_stats = Some (pt_stats train) \<rparr>))"

fun encoded_cells :: "traffic_class \<Rightarrow> u64 \<Rightarrow> nat \<Rightarrow> bytes list \<Rightarrow> (scheduled_cell list \<times> nat) result" where
  "encoded_cells class train_id bytes [] = Inr ([], bytes)"
| "encoded_cells class train_id bytes (b # bs) =
     bindR (decode_cell b) (\<lambda>c.
     ensure (cell_class c = class) ''encoded V2 train mixes traffic classes'' (
     ensure (cell_train_id c = train_id) ''encoded V2 train mixes train IDs'' (
     case checked_add bytes (length b) of
       None \<Rightarrow> Inl (Err ''encoded V2 train byte overflow'')
     | Some bytes \<Rightarrow>
         bindR (decode_route_header b) (\<lambda>h.
         bindR (encoded_cells class train_id bytes bs) (\<lambda>(rest, total).
         Inr (\<lparr> sc_payload = b, sc_header = h \<rparr> # rest, total))))))"

definition cursor_from_encoded :: "u64 \<Rightarrow> traffic_class \<Rightarrow> u64 \<Rightarrow> bytes list \<Rightarrow> train_build_stats option \<Rightarrow>
    instant \<Rightarrow> train_cursor result" where
  "cursor_from_encoded flow_id class train_id cells stats now =
     ensure (cells \<noteq> []) ''cannot schedule an empty encoded V2 train'' (
     bindR (encoded_cells class train_id 0 cells) (\<lambda>(scheduled, bytes).
     Inr \<lparr> tc_class = class, tc_flow_id = flow_id, tc_train_id = train_id, tc_cells = scheduled,
           tc_bytes = bytes, tc_enqueued = now, tc_deadline = None, tc_priority = False, tc_stats = stats \<rparr>))"

fun forwarded_cells :: "route_header \<Rightarrow> nat \<Rightarrow> bytes list \<Rightarrow> (scheduled_cell list \<times> nat) result" where
  "forwarded_cells first bytes [] = Inr ([], bytes)"
| "forwarded_cells first bytes (b # bs) =
     bindR (decode_route_header b) (\<lambda>h.
     ensure (hdr_class h = hdr_class first \<and> hdr_train_id h = hdr_train_id first)
       ''V2 transit batch mixes class or PacketTrain'' (
     case checked_add bytes (length b) of
       None \<Rightarrow> Inl (Err ''V2 transit batch byte overflow'')
     | Some bytes \<Rightarrow>
         bindR (forwarded_cells first bytes bs) (\<lambda>(rest, total).
         Inr (\<lparr> sc_payload = b, sc_header = h \<rparr> # rest, total))))"

definition cursor_from_forwarded :: "u64 \<Rightarrow> bytes list \<Rightarrow> instant \<Rightarrow> train_cursor result" where
  "cursor_from_forwarded flow_id cells now =
     (case cells of
        [] \<Rightarrow> Inl (Err ''cannot schedule an empty transit batch'')
      | b # _ \<Rightarrow>
          bindR (decode_route_header b) (\<lambda>first.
          bindR (forwarded_cells first 0 cells) (\<lambda>(scheduled, bytes).
          Inr \<lparr> tc_class = hdr_class first, tc_flow_id = flow_id, tc_train_id = hdr_train_id first,
                tc_cells = scheduled, tc_bytes = bytes, tc_enqueued = now, tc_deadline = None,
                tc_priority = False, tc_stats = None \<rparr>)))"

text \<open>The loop of \<open>pop_cells\<close>; \<open>first\<close> is \<open>output.is_empty()\<close>.\<close>

fun take_cells :: "nat \<Rightarrow> nat \<Rightarrow> nat \<Rightarrow> bool \<Rightarrow> scheduled_cell list \<Rightarrow> scheduled_cell list \<times> scheduled_cell list" where
  "take_cells 0 maximum bytes first cells = ([], cells)"
| "take_cells (Suc n) maximum bytes first [] = ([], [])"
| "take_cells (Suc n) maximum bytes first (c # cs) =
     (if \<not> first \<and> maximum < sat_add bytes (sc_len c) then ([], c # cs)
      else if first \<and> maximum < sc_len c then ([], c # cs)
      else (case take_cells n maximum (bytes + sc_len c) False cs of (out, rest) \<Rightarrow> (c # out, rest)))"

definition pop_cells :: "nat \<Rightarrow> nat \<Rightarrow> train_cursor \<Rightarrow> train_cursor \<times> scheduled_cell list" where
  "pop_cells maximum_cells maximum_bytes cur =
     (case take_cells maximum_cells maximum_bytes 0 True (tc_cells cur) of (out, rest) \<Rightarrow>
        (cur\<lparr> tc_cells := rest, tc_bytes := tc_bytes cur - cells_len out \<rparr>, out))"

section \<open>Enqueueing\<close>

definition reject :: "nat \<Rightarrow> scheduler \<Rightarrow> scheduler" where
  "reject bytes s =
     s\<lparr> sch_stats := (sch_stats s)\<lparr> ss_rejected_bytes := sat_add (ss_rejected_bytes (sch_stats s)) bytes \<rparr> \<rparr>"

datatype traffic_queue = ControlQueue | ProbeQueue

definition enqueue_bytes :: "bytes \<Rightarrow> traffic_queue \<Rightarrow> scheduler \<Rightarrow> scheduler \<times> bool" where
  "enqueue_bytes b queue s =
     (if b = [] then (s, False)
      else
        let d = sch_depth s;
            (current, maximum) = (case queue of
               ControlQueue \<Rightarrow> (sd_control_bytes d, sl_control_bytes (sch_limits s))
             | ProbeQueue \<Rightarrow> (sd_probe_bytes d, sl_probe_bytes (sch_limits s))) in
        if maximum < sat_add current (length b) then (reject (length b) s, False)
        else
          (case queue of
             ControlQueue \<Rightarrow> s\<lparr> sch_depth := d\<lparr> sd_control_bytes := current + length b \<rparr>,
                                sch_control := sch_control s @ [b] \<rparr>
           | ProbeQueue \<Rightarrow> s\<lparr> sch_depth := d\<lparr> sd_probe_bytes := current + length b \<rparr>,
                              sch_probes := sch_probes s @ [b] \<rparr>, True))"

definition enqueue_control :: "bytes \<Rightarrow> scheduler \<Rightarrow> scheduler \<times> bool" where
  "enqueue_control b = enqueue_bytes b ControlQueue"

definition enqueue_probe :: "bytes \<Rightarrow> scheduler \<Rightarrow> scheduler \<times> bool" where
  "enqueue_probe b = enqueue_bytes b ProbeQueue"

definition evict_train :: "u64 \<Rightarrow> bulk_flow \<Rightarrow> scheduler \<Rightarrow> scheduler" where
  "evict_train flow_id flow s =
     (let removed = last (bf_trains flow); flow = flow\<lparr> bf_trains := butlast (bf_trains flow) \<rparr>;
          d = sch_depth s; st = sch_stats s;
          d = d\<lparr> sd_bulk_bytes := sd_bulk_bytes d - tc_bytes removed, sd_bulk_trains := sd_bulk_trains d - 1 \<rparr>;
          st = st\<lparr> ss_bulk_evicted_bytes := sat_add (ss_bulk_evicted_bytes st) (tc_bytes removed) \<rparr> in
      if bf_trains flow = [] then
        s\<lparr> sch_bulk := AList.delete flow_id (sch_bulk s),
           sch_active_bulk := filter (\<lambda>candidate. candidate \<noteq> flow_id) (sch_active_bulk s),
           sch_depth := d\<lparr> sd_bulk_flows := sd_bulk_flows d - 1 \<rparr>, sch_stats := st \<rparr>
      else
        s\<lparr> sch_bulk := AList.update flow_id flow (sch_bulk s), sch_depth := d, sch_stats := st \<rparr>)"

fun evict_bulk_from :: "u64 list \<Rightarrow> scheduler \<Rightarrow> scheduler \<times> bool" where
  "evict_bulk_from [] s = (s, False)"
| "evict_bulk_from (flow_id # ids) s =
     (case map_of (sch_bulk s) flow_id of
        None \<Rightarrow> evict_bulk_from ids s
      | Some flow \<Rightarrow>
          if bf_trains flow = [] then evict_bulk_from ids s
          else if sd_bulk_bytes (sch_depth s) - tc_bytes (last (bf_trains flow))
                    < sl_bulk_reserve_bytes (sch_limits s) then evict_bulk_from ids s
          else (evict_train flow_id flow s, True))"

definition evict_bulk_elastic :: "scheduler \<Rightarrow> scheduler \<times> bool" where
  "evict_bulk_elastic s = evict_bulk_from (rev (sch_active_bulk s)) s"

text \<open>Each eviction removes a train, so the \<open>while\<close> loop around it ends.\<close>

definition bulk_train_count :: "(u64 \<times> bulk_flow) list \<Rightarrow> nat" where
  "bulk_train_count = alist_sum (\<lambda>f. length (bf_trains f))"

lemma evict_train_count:
  assumes "map_of (sch_bulk s) k = Some f" "bf_trains f \<noteq> []"
  shows "bulk_train_count (sch_bulk (evict_train k f s)) < bulk_train_count (sch_bulk s)"
proof -
  obtain m where m: "length (bf_trains f) = Suc m" using assms(2) by (cases "bf_trains f") auto
  from alist_sum_delete_some [OF assms(1), of "\<lambda>f. length (bf_trains f)"]
    alist_sum_update [OF assms(1), of "\<lambda>f. length (bf_trains f)" "f\<lparr> bf_trains := butlast (bf_trains f) \<rparr>"]
  show ?thesis by (auto simp: bulk_train_count_def evict_train_def Let_def m)
qed

lemma evict_bulk_from_count:
  "evict_bulk_from ids s = (s', True) \<Longrightarrow> bulk_train_count (sch_bulk s') < bulk_train_count (sch_bulk s)"
  by (induction ids) (auto split: option.splits if_splits intro: evict_train_count)

function make_latency_room :: "nat \<Rightarrow> scheduler \<Rightarrow> scheduler \<times> bool" where
  "make_latency_room bytes s =
     (if sl_application_bytes (sch_limits s) - sd_bulk_bytes (sch_depth s)
           < sat_add (sd_latency_bytes (sch_depth s)) bytes
      then (case evict_bulk_elastic s of
              (s', True) \<Rightarrow> make_latency_room bytes s'
            | (s', False) \<Rightarrow> (s', False))
      else (s, True))"
  by pat_completeness auto
termination
  by (relation "measure (\<lambda>(bytes, s). bulk_train_count (sch_bulk s))")
    (auto simp: evict_bulk_elastic_def intro: evict_bulk_from_count [OF sym])

declare make_latency_room.simps [simp del]

definition overtakes :: "bool \<Rightarrow> instant \<Rightarrow> train_cursor \<Rightarrow> bool" where
  "overtakes priority deadline queued \<longleftrightarrow>
     (priority \<and> \<not> tc_priority queued) \<or>
     (priority = tc_priority queued \<and>
      (case tc_deadline queued of None \<Rightarrow> False | Some at \<Rightarrow> deadline < at))"

text \<open>Insertion before the first queued train that \<open>position\<close> finds, or at the end.\<close>

fun insert_before :: "('a \<Rightarrow> bool) \<Rightarrow> 'a \<Rightarrow> 'a list \<Rightarrow> 'a list" where
  "insert_before p x [] = [x]"
| "insert_before p x (y # ys) = (if p y then x # y # ys else y # insert_before p x ys)"

definition enqueue_latency :: "train_cursor \<Rightarrow> scheduler \<Rightarrow> scheduler \<times> bool" where
  "enqueue_latency cur s =
     (let deadline = (case tc_deadline cur of Some at \<Rightarrow> at | None \<Rightarrow> tc_enqueued cur + DEFAULT_LATENCY_DEADLINE);
          cur = cur\<lparr> tc_deadline := Some deadline \<rparr>; bytes = tc_bytes cur in
      if sl_latency_bytes (sch_limits s) < bytes then (reject bytes s, False)
      else
        (case make_latency_room bytes s of
           (s, False) \<Rightarrow> (reject bytes s, False)
         | (s, True) \<Rightarrow>
             if sl_latency_bytes (sch_limits s) < sat_add (sd_latency_bytes (sch_depth s)) bytes
             then (reject bytes s, False)
             else
               let d = sch_depth s in
               (s\<lparr> sch_depth := d\<lparr> sd_latency_bytes := sd_latency_bytes d + bytes,
                                    sd_latency_trains := sd_latency_trains d + 1 \<rparr>,
                   sch_latency := insert_before (overtakes (tc_priority cur) deadline) cur (sch_latency s) \<rparr>, True)))"

definition enqueue_bulk :: "train_cursor \<Rightarrow> scheduler \<Rightarrow> scheduler \<times> bool" where
  "enqueue_bulk cur s =
     (let d = sch_depth s; bytes = tc_bytes cur; flow_id = tc_flow_id cur in
      if sl_bulk_bytes (sch_limits s) < sat_add (sd_bulk_bytes d) bytes \<or>
         sl_application_bytes (sch_limits s) < sat_add (sat_add (sd_bulk_bytes d) (sd_latency_bytes d)) bytes
      then (reject bytes s, False)
      else
        let flow = (case map_of (sch_bulk s) flow_id of Some f \<Rightarrow> f | None \<Rightarrow> \<lparr> bf_deficit = 0, bf_trains = [] \<rparr>);
            s = s\<lparr> sch_bulk := AList.update flow_id (flow\<lparr> bf_trains := bf_trains flow @ [cur] \<rparr>) (sch_bulk s) \<rparr>;
            s = (if bf_trains flow = []
                 then s\<lparr> sch_active_bulk := sch_active_bulk s @ [flow_id],
                         sch_depth := (sch_depth s)\<lparr> sd_bulk_flows := sd_bulk_flows d + 1 \<rparr> \<rparr>
                 else s) in
        (s\<lparr> sch_depth := (sch_depth s)\<lparr> sd_bulk_bytes := sd_bulk_bytes d + bytes,
                                          sd_bulk_trains := sd_bulk_trains d + 1 \<rparr> \<rparr>, True))"

definition enqueue_cursor :: "train_cursor \<Rightarrow> scheduler \<Rightarrow> scheduler \<times> bool result" where
  "enqueue_cursor cur s =
     (if \<not> list_all (\<lambda>c. sc_len c \<le> sl_maximum_quantum_bytes (sch_limits s)) (tc_cells cur)
      then (s, Inl (Err ''V2 Cell exceeds the scheduler quantum byte ceiling''))
      else
        (case (case tc_class cur of Latency \<Rightarrow> enqueue_latency cur s | Bulk \<Rightarrow> enqueue_bulk cur s) of
           (s, ok) \<Rightarrow> (s, Inr ok)))"

text \<open>The shared tail of the public entry points: flow zero is refused, a cursor that cannot be
  built leaves the scheduler unchanged.\<close>

definition enqueue_result :: "u64 \<Rightarrow> train_cursor result \<Rightarrow> scheduler \<Rightarrow> scheduler \<times> bool result" where
  "enqueue_result flow_id cur s =
     (if flow_id = 0 then (s, Inl (Err ''V2 flow ID zero is reserved''))
      else (case cur of Inl e \<Rightarrow> (s, Inl e) | Inr c \<Rightarrow> enqueue_cursor c s))"

definition enqueue_train_with_scheduling :: "u64 \<Rightarrow> packet_train \<Rightarrow> nat \<Rightarrow> instant option \<Rightarrow> bool \<Rightarrow> instant \<Rightarrow>
    scheduler \<Rightarrow> scheduler \<times> bool result" where
  "enqueue_train_with_scheduling flow_id train maximum deadline priority now =
     enqueue_result flow_id
       (bindR (cursor_new flow_id train maximum deadline now) (\<lambda>c. Inr (c\<lparr> tc_priority := priority \<rparr>)))"

definition enqueue_train_with_deadline :: "u64 \<Rightarrow> packet_train \<Rightarrow> nat \<Rightarrow> instant option \<Rightarrow> instant \<Rightarrow>
    scheduler \<Rightarrow> scheduler \<times> bool result" where
  "enqueue_train_with_deadline flow_id train maximum deadline =
     enqueue_train_with_scheduling flow_id train maximum deadline False"

definition enqueue_train :: "u64 \<Rightarrow> packet_train \<Rightarrow> nat \<Rightarrow> instant \<Rightarrow> scheduler \<Rightarrow> scheduler \<times> bool result" where
  "enqueue_train flow_id train maximum = enqueue_train_with_deadline flow_id train maximum None"

definition enqueue_encoded_train_with_scheduling :: "u64 \<Rightarrow> traffic_class \<Rightarrow> u64 \<Rightarrow> bytes list \<Rightarrow>
    train_build_stats option \<Rightarrow> instant option \<Rightarrow> bool \<Rightarrow> instant \<Rightarrow> scheduler \<Rightarrow> scheduler \<times> bool result" where
  "enqueue_encoded_train_with_scheduling flow_id class train_id cells stats deadline priority now =
     enqueue_result flow_id
       (bindR (cursor_from_encoded flow_id class train_id cells stats now)
         (\<lambda>c. Inr (c\<lparr> tc_deadline := deadline, tc_priority := priority \<rparr>)))"

definition enqueue_encoded_train_with_deadline :: "u64 \<Rightarrow> traffic_class \<Rightarrow> u64 \<Rightarrow> bytes list \<Rightarrow>
    train_build_stats option \<Rightarrow> instant option \<Rightarrow> instant \<Rightarrow> scheduler \<Rightarrow> scheduler \<times> bool result" where
  "enqueue_encoded_train_with_deadline flow_id class train_id cells stats deadline =
     enqueue_encoded_train_with_scheduling flow_id class train_id cells stats deadline False"

definition enqueue_encoded_train :: "u64 \<Rightarrow> traffic_class \<Rightarrow> u64 \<Rightarrow> bytes list \<Rightarrow> train_build_stats option \<Rightarrow>
    instant \<Rightarrow> scheduler \<Rightarrow> scheduler \<times> bool result" where
  "enqueue_encoded_train flow_id class train_id cells stats =
     enqueue_encoded_train_with_deadline flow_id class train_id cells stats None"

definition enqueue_forwarded_cells :: "u64 \<Rightarrow> bytes list \<Rightarrow> instant \<Rightarrow> scheduler \<Rightarrow> scheduler \<times> bool result" where
  "enqueue_forwarded_cells flow_id cells now = enqueue_result flow_id (cursor_from_forwarded flow_id cells now)"

section \<open>Dequeueing\<close>

definition record_quantum :: "cell_quantum \<Rightarrow> scheduler_stats \<Rightarrow> scheduler_stats" where
  "record_quantum q st =
     st\<lparr> ss_quantum_count := ss_quantum_count st + 1,
         ss_quantum_bytes := sat_add (ss_quantum_bytes st) (cq_bytes q),
         ss_maximum_sojourn_micros := max (ss_maximum_sojourn_micros st) (min (cq_sojourn q div 1000) usize_max) \<rparr>"

definition pop_latency :: "instant \<Rightarrow> scheduler \<Rightarrow> scheduler \<times> cell_quantum option" where
  "pop_latency now s =
     (case sch_latency s of
        [] \<Rightarrow> (s, None)
      | cursor # rest \<Rightarrow>
          (case pop_cells 1 (sl_maximum_quantum_bytes (sch_limits s)) cursor of (cur, cells) \<Rightarrow>
             if cells = [] then (s, None)
             else
               let bytes = cells_len cells;
                   quantum = \<lparr> cq_class = Latency, cq_priority = tc_priority cur, cq_flow_id = tc_flow_id cur,
                     cq_train_id = tc_train_id cur, cq_cells = cells, cq_train_finished = (tc_cells cur = []),
                     cq_sojourn = now - tc_enqueued cur, cq_bulk_preemption = sch_bulk_was_preemptible s,
                     cq_train_stats = tc_stats cur \<rparr>;
                   st = sch_stats s;
                   st = (if (case tc_deadline cur of None \<Rightarrow> False | Some at \<Rightarrow> at < now)
                         then st\<lparr> ss_latency_deadline_misses := ss_latency_deadline_misses st + 1 \<rparr> else st);
                   st = record_quantum quantum st;
                   st = st\<lparr> ss_latency_quantum_count := ss_latency_quantum_count st + 1 \<rparr>;
                   d = sch_depth s;
                   d = d\<lparr> sd_latency_bytes := sd_latency_bytes d - bytes \<rparr>;
                   d = (if cq_train_finished quantum then d\<lparr> sd_latency_trains := sd_latency_trains d - 1 \<rparr> else d) in
               (s\<lparr> sch_latency := (if cq_train_finished quantum then rest else cur\<lparr> tc_stats := None \<rparr> # rest),
                   sch_depth := d, sch_stats := st,
                   sch_latency_bytes_since_bulk := sat_add (sch_latency_bytes_since_bulk s) bytes \<rparr>, Some quantum)))"

definition serve_bulk :: "instant \<Rightarrow> u64 \<Rightarrow> bulk_flow \<Rightarrow> train_cursor \<Rightarrow> scheduled_cell list \<Rightarrow> scheduler \<Rightarrow> scheduler \<times> cell_quantum" where
  "serve_bulk now flow_id flow cur cells s =
     (let bytes = cells_len cells; finished = (tc_cells cur = []);
          quantum = \<lparr> cq_class = Bulk, cq_priority = False, cq_flow_id = flow_id, cq_train_id = tc_train_id cur,
            cq_cells = cells, cq_train_finished = finished, cq_sojourn = now - tc_enqueued cur,
            cq_bulk_preemption = False, cq_train_stats = tc_stats cur \<rparr>;
          flow = \<lparr> bf_deficit = bf_deficit flow - bytes,
                   bf_trains = (if finished then tl (bf_trains flow)
                                else cur\<lparr> tc_stats := None \<rparr> # tl (bf_trains flow)) \<rparr>;
          d = sch_depth s;
          d = d\<lparr> sd_bulk_bytes := sd_bulk_bytes d - bytes,
                 sd_bulk_trains := (if finished then sd_bulk_trains d - 1 else sd_bulk_trains d) \<rparr>;
          st = record_quantum quantum (sch_stats s);
          st = st\<lparr> ss_bulk_quantum_count := ss_bulk_quantum_count st + 1 \<rparr> in
      (if bf_trains flow = [] then
         s\<lparr> sch_bulk := AList.delete flow_id (sch_bulk s),
            sch_depth := d\<lparr> sd_bulk_flows := sd_bulk_flows d - 1 \<rparr>, sch_stats := st \<rparr>
       else
         s\<lparr> sch_bulk := AList.update flow_id flow (sch_bulk s),
            sch_active_bulk := sch_active_bulk s @ [flow_id], sch_depth := d, sch_stats := st \<rparr>, quantum))"

text \<open>The loop of \<open>pop_bulk\<close> with the visits left.\<close>

fun pop_bulk_visits :: "nat \<Rightarrow> instant \<Rightarrow> scheduler \<Rightarrow> scheduler \<times> cell_quantum option" where
  "pop_bulk_visits 0 now s = (s, None)"
| "pop_bulk_visits (Suc n) now s =
     (case sch_active_bulk s of
        [] \<Rightarrow> (s, None)
      | flow_id # active \<Rightarrow>
          let s = s\<lparr> sch_active_bulk := active \<rparr>; l = sch_limits s in
          (case map_of (sch_bulk s) flow_id of
             None \<Rightarrow> pop_bulk_visits n now s
           | Some flow \<Rightarrow>
               let flow = flow\<lparr> bf_deficit := min (sat_add (bf_deficit flow) (sl_bulk_drr_quantum_bytes l))
                                                (sl_maximum_quantum_bytes l * 2) \<rparr> in
               (case bf_trains flow of
                  [] \<Rightarrow>
                    pop_bulk_visits n now
                      (s\<lparr> sch_bulk := AList.delete flow_id (sch_bulk s),
                          sch_depth := (sch_depth s)\<lparr> sd_bulk_flows := sd_bulk_flows (sch_depth s) - 1 \<rparr> \<rparr>)
                | cursor # _ \<Rightarrow>
                    (case pop_cells (sl_maximum_quantum_cells l)
                            (min (bf_deficit flow) (sl_maximum_quantum_bytes l)) cursor of (cur, cells) \<Rightarrow>
                       if cells = [] then
                         pop_bulk_visits n now
                           (s\<lparr> sch_bulk := AList.update flow_id flow (sch_bulk s),
                               sch_active_bulk := active @ [flow_id] \<rparr>)
                       else (case serve_bulk now flow_id flow cur cells s of (s, q) \<Rightarrow> (s, Some q))))))"

definition pop_bulk :: "instant \<Rightarrow> scheduler \<Rightarrow> scheduler \<times> cell_quantum option" where
  "pop_bulk now s = pop_bulk_visits (length (sch_active_bulk s)) now s"

definition force_bulk :: "scheduler \<Rightarrow> bool" where
  "force_bulk s \<longleftrightarrow> sch_active_bulk s \<noteq> [] \<and> sch_latency s \<noteq> [] \<and>
     sl_latency_burst_bytes (sch_limits s) \<le> sch_latency_bytes_since_bulk s"

definition pop_probe :: "scheduler \<Rightarrow> scheduler \<times> scheduled_work option" where
  "pop_probe s =
     (case sch_probes s of
        [] \<Rightarrow> (s, None)
      | b # rest \<Rightarrow>
          (s\<lparr> sch_probes := rest,
              sch_depth := (sch_depth s)\<lparr> sd_probe_bytes := sd_probe_bytes (sch_depth s) - length b \<rparr> \<rparr>,
           Some (WorkProbe b)))"

definition note_preemption :: "scheduler \<Rightarrow> scheduler" where
  "note_preemption s =
     (if sch_bulk_was_preemptible s
      then s\<lparr> sch_stats := (sch_stats s)\<lparr> ss_bulk_preemptions := ss_bulk_preemptions (sch_stats s) + 1 \<rparr>,
              sch_bulk_was_preemptible := False \<rparr>
      else s)"

definition note_bulk :: "bool \<Rightarrow> scheduler \<Rightarrow> scheduler" where
  "note_bulk forced s =
     (let st = sch_stats s in
      s\<lparr> sch_stats := (if forced then st\<lparr> ss_bulk_forced_service := ss_bulk_forced_service st + 1 \<rparr> else st),
         sch_latency_bytes_since_bulk := 0,
         sch_bulk_was_preemptible := (sch_active_bulk s \<noteq> [] \<or> 0 < sd_bulk_bytes (sch_depth s)) \<rparr>)"

text \<open>\<open>pop\<close> after the control queue, in the order of its early returns.\<close>

definition pop_application :: "instant \<Rightarrow> scheduler \<Rightarrow> scheduler \<times> scheduled_work option" where
  "pop_application now s =
     (let forced = force_bulk s in
      case (if forced then (s, None) else pop_latency now s) of
        (s, Some q) \<Rightarrow> (note_preemption s, Some (WorkCells q))
      | (s, None) \<Rightarrow>
          (case pop_bulk now s of
             (s, Some q) \<Rightarrow> (note_bulk forced s, Some (WorkCells q))
           | (s, None) \<Rightarrow>
               (case pop_latency now s of
                  (s, Some q) \<Rightarrow> (s, Some (WorkCells q))
                | (s, None) \<Rightarrow> pop_probe s)))"

definition pop :: "instant \<Rightarrow> scheduler \<Rightarrow> scheduler \<times> scheduled_work option" where
  "pop now s =
     (case sch_control s of
        b # rest \<Rightarrow>
          (s\<lparr> sch_control := rest,
              sch_depth := (sch_depth s)\<lparr> sd_control_bytes := sd_control_bytes (sch_depth s) - length b \<rparr> \<rparr>,
           Some (WorkControl b))
      | [] \<Rightarrow> pop_application now s)"

definition has_strict_urgent :: "scheduler \<Rightarrow> bool" where
  "has_strict_urgent s \<longleftrightarrow> sch_control s \<noteq> [] \<or>
     (case sch_latency s of [] \<Rightarrow> False | cur # _ \<Rightarrow> tc_priority cur)"

definition set_bulk_quantum_cells :: "nat \<Rightarrow> scheduler \<Rightarrow> scheduler \<times> unit result" where
  "set_bulk_quantum_cells cells s =
     (if 1 \<le> cells \<and> cells \<le> MAX_QUANTUM_CELLS
      then (s\<lparr> sch_limits := (sch_limits s)\<lparr> sl_maximum_quantum_cells := cells \<rparr> \<rparr>, Inr ())
      else (s, Inl (Err ''V2 tuned Bulk quantum exceeds hard Cell limit'')))"


section \<open>Invariant\<close>

definition cursors_len :: "train_cursor list \<Rightarrow> nat" where
  "cursors_len cs = sum_list (map tc_bytes cs)"

definition cursor_ok :: "nat \<Rightarrow> train_cursor \<Rightarrow> bool" where
  "cursor_ok m c \<longleftrightarrow> tc_cells c \<noteq> [] \<and> tc_bytes c = cells_len (tc_cells c) \<and> list_all (\<lambda>x. sc_len x \<le> m) (tc_cells c)"

definition flow_ok :: "nat \<Rightarrow> bulk_flow \<Rightarrow> bool" where
  "flow_ok m f \<longleftrightarrow> bf_trains f \<noteq> [] \<and> list_all (cursor_ok m) (bf_trains f) \<and> bf_deficit f \<le> 2 * m"

text \<open>The service order of the latency queue: the priority tier first, then earliest deadline.\<close>

definition precedes :: "train_cursor \<Rightarrow> train_cursor \<Rightarrow> bool" where
  "precedes a b \<longleftrightarrow> (tc_priority a \<and> \<not> tc_priority b) \<or>
     (tc_priority a = tc_priority b \<and> the (tc_deadline a) \<le> the (tc_deadline b))"

definition latency_inv :: "nat \<Rightarrow> train_cursor list \<Rightarrow> scheduler_depth \<Rightarrow> bool" where
  "latency_inv m cs d \<longleftrightarrow> list_all (cursor_ok m) cs \<and> list_all (\<lambda>c. tc_deadline c \<noteq> None) cs \<and>
     sorted_wrt precedes cs \<and> sd_latency_bytes d = cursors_len cs \<and> sd_latency_trains d = length cs"

definition bulk_inv :: "nat \<Rightarrow> (u64 \<times> bulk_flow) list \<Rightarrow> u64 list \<Rightarrow> scheduler_depth \<Rightarrow> bool" where
  "bulk_inv m fs active d \<longleftrightarrow> distinct (map fst fs) \<and> list_all (flow_ok m \<circ> snd) fs \<and>
     distinct active \<and> set active = fst ` set fs \<and>
     sd_bulk_bytes d = alist_sum (cursors_len \<circ> bf_trains) fs \<and>
     sd_bulk_trains d = alist_sum (length \<circ> bf_trains) fs \<and> sd_bulk_flows d = length fs"

definition fifo_inv :: "scheduler \<Rightarrow> bool" where
  "fifo_inv s \<longleftrightarrow>
     sd_control_bytes (sch_depth s) = sum_list (map length (sch_control s)) \<and>
     sd_probe_bytes (sch_depth s) = sum_list (map length (sch_probes s)) \<and>
     sd_control_bytes (sch_depth s) \<le> sl_control_bytes (sch_limits s) \<and>
     sd_probe_bytes (sch_depth s) \<le> sl_probe_bytes (sch_limits s)"

definition budget_inv :: "scheduler_limits \<Rightarrow> scheduler_depth \<Rightarrow> bool" where
  "budget_inv l d \<longleftrightarrow> sd_latency_bytes d \<le> sl_latency_bytes l \<and> sd_bulk_bytes d \<le> sl_bulk_bytes l \<and>
     sd_latency_bytes d + sd_bulk_bytes d \<le> sl_application_bytes l"

definition limits_inv :: "scheduler_limits \<Rightarrow> bool" where
  "limits_inv l \<longleftrightarrow> validate_scheduler_limits l = Inr () \<and> sl_application_bytes l < usize_max \<and>
     sl_latency_bytes l < usize_max \<and> sl_bulk_bytes l < usize_max \<and>
     sl_control_bytes l < usize_max \<and> sl_probe_bytes l < usize_max"

definition sched_ok :: "scheduler \<Rightarrow> bool" where
  "sched_ok s \<longleftrightarrow> limits_inv (sch_limits s) \<and> fifo_inv s \<and> budget_inv (sch_limits s) (sch_depth s) \<and>
     latency_inv (sl_maximum_quantum_bytes (sch_limits s)) (sch_latency s) (sch_depth s) \<and>
     bulk_inv (sl_maximum_quantum_bytes (sch_limits s)) (sch_bulk s) (sch_active_bulk s) (sch_depth s)"

lemma cells_len_simps [simp]: "cells_len [] = 0" "cells_len (c # cs) = sc_len c + cells_len cs"
  "cells_len (cs @ cs') = cells_len cs + cells_len cs'"
  by (simp_all add: cells_len_def)

lemma cursors_len_simps [simp]: "cursors_len [] = 0" "cursors_len (c # cs) = tc_bytes c + cursors_len cs"
  "cursors_len (cs @ cs') = cursors_len cs + cursors_len cs'"
  by (simp_all add: cursors_len_def)

section \<open>Taking Cells from a train\<close>

lemma take_cells_split: "take_cells n m b first cs = (out, rest) \<Longrightarrow> cs = out @ rest \<and> length out \<le> n"
  by (induction n m b first cs arbitrary: out rest rule: take_cells.induct) (auto split: if_splits prod.splits)

lemma take_cells_later:
  "take_cells n m b False cs = (out, rest) \<Longrightarrow> b \<le> m \<Longrightarrow> m < usize_max \<Longrightarrow> b + cells_len out \<le> m"
proof (induction n m b False cs arbitrary: out rest rule: take_cells.induct)
  case (3 n m b c cs)
  then show ?case
    by (fastforce simp: not_less sat_add_le_iff split: if_splits prod.splits)
qed auto

lemma take_cells_bytes:
  assumes "take_cells n m 0 True cs = (out, rest)" "m < usize_max"
  shows "cells_len out \<le> m"
proof (cases "n = 0 \<or> cs = []")
  case True
  with assms(1) show ?thesis by (cases n) auto
next
  case False
  then obtain k c cs' where "n = Suc k" "cs = c # cs'" by (meson list.exhaust not0_implies_Suc)
  with assms take_cells_later [of k m "sc_len c" cs'] show ?thesis
    by (auto split: if_splits prod.splits)
qed

lemma take_cells_first:
  "0 < n \<Longrightarrow> sc_len c \<le> m \<Longrightarrow> take_cells n m 0 True (c # cs) = (out, rest) \<Longrightarrow> out \<noteq> []"
  by (cases n) (auto split: prod.splits)

text \<open>What a non-empty quantum taken from a train is, and what it leaves.\<close>

lemma pop_cells_spec:
  assumes ok: "cursor_ok m cur" and pop: "pop_cells n b cur = (cur', out)" and b: "b < usize_max"
  shows "tc_cells cur = out @ tc_cells cur'" "length out \<le> n" "cells_len out \<le> b"
    "tc_bytes cur = cells_len out + tc_bytes cur'" "tc_cells cur' \<noteq> [] \<Longrightarrow> cursor_ok m cur'"
    "tc_cells cur' = [] \<Longrightarrow> tc_bytes cur' = 0" "out = [] \<Longrightarrow> cur' = cur"
    "tc_deadline cur' = tc_deadline cur" "tc_priority cur' = tc_priority cur" "tc_train_id cur' = tc_train_id cur"
    "tc_flow_id cur' = tc_flow_id cur"
proof -
  obtain rest where t: "take_cells n b 0 True (tc_cells cur) = (out, rest)"
    and cur': "cur' = cur\<lparr> tc_cells := rest, tc_bytes := tc_bytes cur - cells_len out \<rparr>"
    using pop by (auto simp: pop_cells_def split: prod.splits)
  note sp = take_cells_split [OF t] and le = take_cells_bytes [OF t b]
  have bytes: "tc_bytes cur = cells_len (out @ rest)" using ok sp by (simp add: cursor_ok_def)
  show "tc_cells cur = out @ tc_cells cur'" "length out \<le> n" "cells_len out \<le> b"
    "tc_bytes cur = cells_len out + tc_bytes cur'" "tc_cells cur' = [] \<Longrightarrow> tc_bytes cur' = 0"
    "tc_deadline cur' = tc_deadline cur" "tc_priority cur' = tc_priority cur" "tc_train_id cur' = tc_train_id cur"
    "tc_flow_id cur' = tc_flow_id cur"
    using sp le bytes by (simp_all add: cur')
  show "tc_cells cur' \<noteq> [] \<Longrightarrow> cursor_ok m cur'"
    using ok sp bytes by (auto simp: cur' cursor_ok_def)
  show "out = [] \<Longrightarrow> cur' = cur" using sp by (simp add: cur')
qed

section \<open>Dequeueing keeps the invariant\<close>

text \<open>The Cells waiting in the latency and bulk queues.\<close>

definition train_cells :: "train_cursor list \<Rightarrow> scheduled_cell multiset" where
  "train_cells cs = (\<Sum>c\<leftarrow>cs. mset (tc_cells c))"

definition flow_cells :: "(u64 \<times> bulk_flow) list \<Rightarrow> scheduled_cell multiset" where
  "flow_cells fs = (\<Sum>e\<in>#mset fs. train_cells (bf_trains (snd e)))"

definition queued_cells :: "scheduler \<Rightarrow> scheduled_cell multiset" where
  "queued_cells s = train_cells (sch_latency s) + flow_cells (sch_bulk s)"

lemma train_cells_simps [simp]: "train_cells [] = {#}" "train_cells (c # cs) = mset (tc_cells c) + train_cells cs"
  "train_cells (cs @ cs') = train_cells cs + train_cells cs'"
  by (simp_all add: train_cells_def)

lemma flow_cells_delete:
  "distinct (map fst fs) \<Longrightarrow> map_of fs k = Some f \<Longrightarrow>
     flow_cells fs = train_cells (bf_trains f) + flow_cells (AList.delete k fs)"
  unfolding flow_cells_def by (subst mset_delete) auto

lemma flow_cells_update:
  "distinct (map fst fs) \<Longrightarrow> flow_cells (AList.update k f fs) = train_cells (bf_trains f) + flow_cells (AList.delete k fs)"
  unfolding flow_cells_def by (subst mset_update) auto

text \<open>A quantum within the hard limits.\<close>

definition quantum_ok :: "scheduler_limits \<Rightarrow> cell_quantum \<Rightarrow> bool" where
  "quantum_ok l q \<longleftrightarrow> cq_cells q \<noteq> [] \<and> length (cq_cells q) \<le> sl_maximum_quantum_cells l \<and>
     cq_bytes q \<le> sl_maximum_quantum_bytes l"

lemma limits_invD:
  assumes "limits_inv l"
  shows "0 < sl_maximum_quantum_cells l" "sl_maximum_quantum_cells l \<le> MAX_QUANTUM_CELLS"
    "0 < sl_maximum_quantum_bytes l" "sl_maximum_quantum_bytes l \<le> MAX_QUANTUM_BYTES"
    "sl_maximum_quantum_bytes l < usize_max" "0 < sl_bulk_drr_quantum_bytes l"
proof -
  show "0 < sl_maximum_quantum_cells l" "sl_maximum_quantum_cells l \<le> MAX_QUANTUM_CELLS"
    "0 < sl_maximum_quantum_bytes l" and le: "sl_maximum_quantum_bytes l \<le> MAX_QUANTUM_BYTES"
    "0 < sl_bulk_drr_quantum_bytes l"
    using assms by (simp_all add: limits_inv_def validate_scheduler_limits_def result_iff)
  from le(1) show "sl_maximum_quantum_bytes l < usize_max" by (simp add: MAX_QUANTUM_BYTES_def usize_max_def)
qed

lemma latency_inv_tail:
  assumes inv: "latency_inv m (cur # rest) d" and len: "tc_bytes cur = k"
    and d: "sd_latency_bytes d' = sd_latency_bytes d - k" "sd_latency_trains d' = sd_latency_trains d - 1"
  shows "latency_inv m rest d'"
  using inv len d by (simp add: latency_inv_def)

lemma latency_inv_head:
  assumes inv: "latency_inv m (cur # rest) d" and ok: "cursor_ok m cur'" and len: "tc_bytes cur = k + tc_bytes cur'"
    and same: "tc_deadline cur' = tc_deadline cur" "tc_priority cur' = tc_priority cur"
    and d: "sd_latency_bytes d' = sd_latency_bytes d - k" "sd_latency_trains d' = sd_latency_trains d"
  shows "latency_inv m (cur' # rest) d'"
  using inv ok len d same by (simp add: latency_inv_def precedes_def)

definition same_bulk :: "scheduler \<Rightarrow> scheduler \<Rightarrow> bool" where
  "same_bulk s s' \<longleftrightarrow> sch_limits s' = sch_limits s \<and> sch_control s' = sch_control s \<and> sch_probes s' = sch_probes s \<and>
     sch_bulk s' = sch_bulk s \<and> sch_active_bulk s' = sch_active_bulk s \<and>
     sd_bulk_bytes (sch_depth s') = sd_bulk_bytes (sch_depth s) \<and> sd_bulk_trains (sch_depth s') = sd_bulk_trains (sch_depth s) \<and>
     sd_bulk_flows (sch_depth s') = sd_bulk_flows (sch_depth s) \<and>
     sd_control_bytes (sch_depth s') = sd_control_bytes (sch_depth s) \<and>
     sd_probe_bytes (sch_depth s') = sd_probe_bytes (sch_depth s)"

lemma same_bulk_ok:
  assumes "sched_ok s" "same_bulk s s'"
    and "latency_inv (sl_maximum_quantum_bytes (sch_limits s)) (sch_latency s') (sch_depth s')"
    and "sd_latency_bytes (sch_depth s') \<le> sd_latency_bytes (sch_depth s)"
  shows "sched_ok s'"
  using assms by (simp add: sched_ok_def same_bulk_def fifo_inv_def budget_inv_def bulk_inv_def)

lemma pop_latency_spec:
  assumes ok: "sched_ok s" and pop: "pop_latency now s = (s', Some q)"
  shows "sched_ok s'" "quantum_ok (sch_limits s) q" "queued_cells s = mset (cq_cells q) + queued_cells s'"
    "same_bulk s s'" "cq_class q = Latency"
    "\<exists>cur rest. sch_latency s = cur # rest \<and> cq_train_id q = tc_train_id cur \<and> cq_flow_id q = tc_flow_id cur \<and>
       cq_priority q = tc_priority cur \<and> (\<exists>more. tc_cells cur = cq_cells q @ more)"
proof -
  let ?m = "sl_maximum_quantum_bytes (sch_limits s)"
  obtain cur rest where lat: "sch_latency s = cur # rest"
    using pop by (auto simp: pop_latency_def split: list.splits)
  obtain cur' out where pc: "pop_cells 1 ?m cur = (cur', out)" by fastforce
  have lim: "limits_inv (sch_limits s)" and inv: "latency_inv ?m (cur # rest) (sch_depth s)"
    using ok lat by (simp_all add: sched_ok_def)
  then have cok: "cursor_ok ?m cur" by (simp add: latency_inv_def)
  note pcs = pop_cells_spec [OF cok pc limits_invD(5) [OF lim]]
  have ne: "out \<noteq> []" and q: "cq_cells q = out" "cq_class q = Latency" "cq_train_id q = tc_train_id cur'"
    "cq_flow_id q = tc_flow_id cur'" "cq_priority q = tc_priority cur'"
    and same: "same_bulk s s'" and s': "sch_latency s' = (if tc_cells cur' = [] then rest else cur'\<lparr> tc_stats := None \<rparr> # rest)"
    "sd_latency_bytes (sch_depth s') = sd_latency_bytes (sch_depth s) - cells_len out"
    "sd_latency_trains (sch_depth s') = sd_latency_trains (sch_depth s) - (if tc_cells cur' = [] then 1 else 0)"
    using pop lat pc by (auto simp: pop_latency_def Let_def same_bulk_def split: if_splits)
  have "latency_inv ?m (sch_latency s') (sch_depth s')"
  proof (cases "tc_cells cur' = []")
    case True
    with pcs(4,6) have "tc_bytes cur = cells_len out" by simp
    from latency_inv_tail [OF inv this] True s' show ?thesis by simp
  next
    case False
    have "cursor_ok ?m (cur'\<lparr> tc_stats := None \<rparr>)" using pcs(5) [OF False] by (simp add: cursor_ok_def)
    from latency_inv_head [OF inv this, of "cells_len out"] pcs(4,8,9) False s' show ?thesis by simp
  qed
  then show "sched_ok s'" by (rule same_bulk_ok [OF ok same]) (simp add: s'(2))
  show "quantum_ok (sch_limits s) q"
    using ne pcs(2,3) limits_invD(1) [OF lim] by (simp add: quantum_ok_def cq_bytes_def q(1))
  show "queued_cells s = mset (cq_cells q) + queued_cells s'"
    using same pcs(1) by (simp add: queued_cells_def lat s'(1) same_bulk_def q(1) ac_simps)
  show "same_bulk s s'" "cq_class q = Latency" by (fact same, fact q(2))
  show "\<exists>cur rest. sch_latency s = cur # rest \<and> cq_train_id q = tc_train_id cur \<and> cq_flow_id q = tc_flow_id cur \<and>
       cq_priority q = tc_priority cur \<and> (\<exists>more. tc_cells cur = cq_cells q @ more)"
    using lat pcs(1,9,10,11) q by auto
qed

lemma pop_latency_None:
  assumes ok: "sched_ok s" and pop: "pop_latency now s = (s', None)"
  shows "s' = s" "sch_latency s = []"
proof -
  let ?m = "sl_maximum_quantum_bytes (sch_limits s)"
  show "s' = s" using pop by (auto simp: pop_latency_def Let_def split: list.splits prod.splits if_splits)
  show "sch_latency s = []"
  proof (cases "sch_latency s")
    case (Cons cur rest)
    obtain cur' out where pc: "pop_cells 1 ?m cur = (cur', out)" by fastforce
    have "cursor_ok ?m cur" using ok Cons by (simp add: sched_ok_def latency_inv_def)
    then obtain c cs where "tc_cells cur = c # cs" "sc_len c \<le> ?m"
      by (cases "tc_cells cur") (auto simp: cursor_ok_def)
    with pc take_cells_first [of 1 c ?m cs] have "out \<noteq> []" by (auto simp: pop_cells_def split: prod.splits)
    with pop Cons pc show ?thesis by (auto simp: pop_latency_def Let_def split: if_splits)
  qed simp
qed


lemma bulk_inv_delete:
  assumes inv: "bulk_inv m fs active d" and f: "map_of fs k = Some f"
    and act: "distinct active'" "set active' = set active - {k}"
    and d: "sd_bulk_bytes d' + cursors_len (bf_trains f) = sd_bulk_bytes d"
      "sd_bulk_trains d' + length (bf_trains f) = sd_bulk_trains d" "sd_bulk_flows d' = sd_bulk_flows d - 1"
  shows "bulk_inv m (AList.delete k fs) active' d'"
proof -
  have dist: "distinct (map fst fs)" using inv by (simp add: bulk_inv_def)
  have "list_all (flow_ok m \<circ> snd) (AList.delete k fs)" using inv by (auto simp: bulk_inv_def list_all_iff mem_delete)
  then show ?thesis
    using inv act d alist_sum_delete [OF dist f, of "cursors_len \<circ> bf_trains"]
      alist_sum_delete [OF dist f, of "length \<circ> bf_trains"] length_delete [OF dist f]
    by (auto simp: bulk_inv_def keys_delete distinct_delete)
qed

lemma bulk_inv_update:
  assumes inv: "bulk_inv m fs active d" and f: "map_of fs k = Some f" and f': "flow_ok m f'"
    and act: "distinct active'" "set active' = set active"
    and d: "sd_bulk_bytes d' + cursors_len (bf_trains f) = sd_bulk_bytes d + cursors_len (bf_trains f')"
      "sd_bulk_trains d' + length (bf_trains f) = sd_bulk_trains d + length (bf_trains f')"
      "sd_bulk_flows d' = sd_bulk_flows d"
  shows "bulk_inv m (AList.update k f' fs) active' d'"
proof -
  have dist: "distinct (map fst fs)" using inv by (simp add: bulk_inv_def)
  have k: "k \<in> fst ` set fs" using f by (force dest: map_of_SomeD)
  have "list_all (flow_ok m \<circ> snd) (AList.update k f' fs)"
    using inv f' by (auto simp: bulk_inv_def list_all_iff mem_update [OF dist])
  then show ?thesis
    using inv act d k alist_sum_update [OF f, of "cursors_len \<circ> bf_trains" f']
      alist_sum_update [OF f, of "length \<circ> bf_trains" f']
    by (auto simp: bulk_inv_def dom_update distinct_update length_update)
qed

definition same_latency :: "scheduler \<Rightarrow> scheduler \<Rightarrow> bool" where
  "same_latency s s' \<longleftrightarrow> sch_limits s' = sch_limits s \<and> sch_control s' = sch_control s \<and> sch_probes s' = sch_probes s \<and>
     sch_latency s' = sch_latency s \<and>
     sd_latency_bytes (sch_depth s') = sd_latency_bytes (sch_depth s) \<and>
     sd_latency_trains (sch_depth s') = sd_latency_trains (sch_depth s) \<and>
     sd_control_bytes (sch_depth s') = sd_control_bytes (sch_depth s) \<and>
     sd_probe_bytes (sch_depth s') = sd_probe_bytes (sch_depth s)"

lemma same_latency_refl [simp]: "same_latency s s"
  by (simp add: same_latency_def)

lemma same_latency_trans: "same_latency a b \<Longrightarrow> same_latency b c \<Longrightarrow> same_latency a c"
  by (simp add: same_latency_def)

lemma same_latency_ok:
  assumes "sched_ok s" "same_latency s s'"
    and "bulk_inv (sl_maximum_quantum_bytes (sch_limits s)) (sch_bulk s') (sch_active_bulk s') (sch_depth s')"
    and "sd_bulk_bytes (sch_depth s') \<le> sd_bulk_bytes (sch_depth s)"
  shows "sched_ok s'"
  using assms by (simp add: sched_ok_def same_latency_def fifo_inv_def budget_inv_def latency_inv_def)

lemma flow_of_active:
  assumes "bulk_inv m fs active d" "k \<in> set active"
  obtains f c cs where "map_of fs k = Some f" "flow_ok m f" "bf_trains f = c # cs" "cursor_ok m c"
proof -
  have "k \<in> fst ` set fs" "distinct (map fst fs)" using assms by (simp_all add: bulk_inv_def)
  then obtain f where f: "(k, f) \<in> set fs" "map_of fs k = Some f" by force
  then have ok: "flow_ok m f" using assms(1) by (force simp: bulk_inv_def list_all_iff)
  then obtain c cs where "bf_trains f = c # cs" "cursor_ok m c" by (cases "bf_trains f") (auto simp: flow_ok_def)
  with f(2) ok that show thesis by blast
qed

definition bulk_quantum :: "scheduler \<Rightarrow> cell_quantum \<Rightarrow> bool" where
  "bulk_quantum s q \<longleftrightarrow> cq_class q = Bulk \<and> quantum_ok (sch_limits s) q \<and>
     (\<exists>f c cs more. map_of (sch_bulk s) (cq_flow_id q) = Some f \<and> bf_trains f = c # cs \<and>
        cq_train_id q = tc_train_id c \<and> tc_cells c = cq_cells q @ more)"

lemma serve_bulk_spec:
  assumes ok: "sched_ok s" and act: "sch_active_bulk s = k # active" and f: "map_of (sch_bulk s) k = Some f"
    and tr: "bf_trains f = c # cs" and def: "def \<le> 2 * sl_maximum_quantum_bytes (sch_limits s)"
    and pc: "pop_cells (sl_maximum_quantum_cells (sch_limits s)) (min def (sl_maximum_quantum_bytes (sch_limits s))) c = (c', out)"
    and ne: "out \<noteq> []"
    and serve: "serve_bulk now k (f\<lparr> bf_deficit := def \<rparr>) c' out (s\<lparr> sch_active_bulk := active \<rparr>) = (s', q)"
  shows "sched_ok s'" "same_latency s s'" "bulk_quantum s q"
    "queued_cells s = mset (cq_cells q) + queued_cells s'"
proof -
  let ?m = "sl_maximum_quantum_bytes (sch_limits s)" and ?fs = "sch_bulk s"
  define rest where "rest = (if tc_cells c' = [] then cs else c'\<lparr> tc_stats := None \<rparr> # cs)"
  define f' where "f' = \<lparr> bf_deficit = def - cells_len out, bf_trains = rest \<rparr>"
  have lim: "limits_inv (sch_limits s)" and inv: "bulk_inv ?m ?fs (k # active) (sch_depth s)"
    using ok act by (simp_all add: sched_ok_def)
  have dist: "distinct (map fst ?fs)" and kact: "k \<notin> set active" "distinct active" using inv by (simp_all add: bulk_inv_def)
  have fok: "flow_ok ?m f" using inv f by (force simp: bulk_inv_def list_all_iff dest: map_of_SomeD)
  then have cok: "cursor_ok ?m c" and csok: "list_all (cursor_ok ?m) cs" by (simp_all add: flow_ok_def tr)
  have "min def ?m < usize_max" using limits_invD(5) [OF lim] by (simp add: min_def)
  note pcs = pop_cells_spec [OF cok pc this]
  have rest_len: "cursors_len rest + cells_len out = cursors_len (bf_trains f)"
    and rest_n: "length rest + (if tc_cells c' = [] then 1 else 0) = length (bf_trains f)"
    and rest_cells: "mset out + train_cells rest = train_cells (bf_trains f)"
    using pcs(1,4,6) by (auto simp: rest_def tr)
  have rest_ok: "list_all (cursor_ok ?m) rest" using csok pcs(5) by (auto simp: rest_def cursor_ok_def)
  have le: "cells_len out \<le> sd_bulk_bytes (sch_depth s)" "1 \<le> sd_bulk_trains (sch_depth s)"
    using inv rest_len alist_sum_mem [OF f, of "cursors_len \<circ> bf_trains"] alist_sum_mem [OF f, of "length \<circ> bf_trains"]
    by (simp_all add: bulk_inv_def tr)
  have q: "cq_class q = Bulk" "cq_flow_id q = k" "cq_train_id q = tc_train_id c" "cq_cells q = out"
    and lat: "same_latency s s'"
    and fs': "sch_bulk s' = (if rest = [] then AList.delete k ?fs else AList.update k f' ?fs)"
    and act': "sch_active_bulk s' = (if rest = [] then active else active @ [k])"
    and d': "sd_bulk_bytes (sch_depth s') = sd_bulk_bytes (sch_depth s) - cells_len out"
      "sd_bulk_trains (sch_depth s') = sd_bulk_trains (sch_depth s) - (if tc_cells c' = [] then 1 else 0)"
      "sd_bulk_flows (sch_depth s') = sd_bulk_flows (sch_depth s) - (if rest = [] then 1 else 0)"
    using serve pcs(10)
    by (auto simp: serve_bulk_def Let_def tr rest_def f'_def same_latency_def split: if_splits)
  have "bulk_inv ?m (sch_bulk s') (sch_active_bulk s') (sch_depth s')"
  proof (cases "rest = []")
    case True
    with rest_len rest_n le d' kact show ?thesis
      unfolding fs' act' by (simp, intro bulk_inv_delete [OF inv f]) (auto split: if_splits)
  next
    case False
    have "flow_ok ?m f'" using rest_ok False def by (simp add: f'_def flow_ok_def)
    moreover have "bf_trains f' = rest" by (simp add: f'_def)
    ultimately show ?thesis
      using False rest_len rest_n le d' kact
      unfolding fs' act' by (simp, intro bulk_inv_update [OF inv f]) (auto split: if_splits)
  qed
  then show "sched_ok s'" by (rule same_latency_ok [OF ok lat]) (simp add: d'(1))
  show "same_latency s s'" by (fact lat)
  show "bulk_quantum s q"
    using pcs(1,2,3) ne q f tr by (auto simp: bulk_quantum_def quantum_ok_def cq_bytes_def)
  show "queued_cells s = mset (cq_cells q) + queued_cells s'"
    using lat flow_cells_delete [OF dist f] flow_cells_update [OF dist, of k f'] rest_cells
    by (auto simp: queued_cells_def same_latency_def fs' q(4) f'_def ac_simps)
qed


lemma skip_flow_ok:
  assumes ok: "sched_ok s" and act: "sch_active_bulk s = k # active" and f: "map_of (sch_bulk s) k = Some f"
    and def: "def \<le> 2 * sl_maximum_quantum_bytes (sch_limits s)"
  defines "s1 \<equiv> s\<lparr> sch_bulk := AList.update k (f\<lparr> bf_deficit := def \<rparr>) (sch_bulk s), sch_active_bulk := active @ [k] \<rparr>"
  shows "sched_ok s1" "same_latency s s1" "queued_cells s1 = queued_cells s" "bulk_quantum s1 q \<Longrightarrow> bulk_quantum s q"
proof -
  let ?m = "sl_maximum_quantum_bytes (sch_limits s)"
  show lat: "same_latency s s1" by (simp add: s1_def same_latency_def)
  have inv: "bulk_inv ?m (sch_bulk s) (k # active) (sch_depth s)" using ok act by (simp add: sched_ok_def)
  then have dist: "distinct (map fst (sch_bulk s))" and kact: "k \<notin> set active" "distinct active"
    by (simp_all add: bulk_inv_def)
  have "flow_ok ?m f" using inv f by (force simp: bulk_inv_def list_all_iff dest: map_of_SomeD)
  then have "flow_ok ?m (f\<lparr> bf_deficit := def \<rparr>)" using def by (simp add: flow_ok_def)
  from bulk_inv_update [OF inv f this, of "active @ [k]" "sch_depth s"] kact
  have "bulk_inv ?m (sch_bulk s1) (sch_active_bulk s1) (sch_depth s1)" by (simp add: s1_def)
  then show "sched_ok s1" by (rule same_latency_ok [OF ok lat]) (simp add: s1_def)
  show "queued_cells s1 = queued_cells s"
    using flow_cells_delete [OF dist f] flow_cells_update [OF dist, of k "f\<lparr> bf_deficit := def \<rparr>"]
    by (simp add: s1_def queued_cells_def)
  show "bulk_quantum s1 q \<Longrightarrow> bulk_quantum s q"
    using f by (auto simp: bulk_quantum_def s1_def update_conv' split: if_splits)
qed

lemma pop_bulk_visits_spec:
  assumes "sched_ok s" "pop_bulk_visits n now s = (s', res)"
  shows "sched_ok s' \<and> same_latency s s' \<and>
    (case res of None \<Rightarrow> queued_cells s' = queued_cells s
     | Some q \<Rightarrow> bulk_quantum s q \<and> queued_cells s = mset (cq_cells q) + queued_cells s')"
  using assms
proof (induction n arbitrary: s)
  case (Suc n)
  let ?l = "sch_limits s"
  show ?case
  proof (cases "sch_active_bulk s")
    case Nil
    with Suc.prems show ?thesis by auto
  next
    case (Cons k active)
    have "bulk_inv (sl_maximum_quantum_bytes ?l) (sch_bulk s) (k # active) (sch_depth s)"
      using Suc.prems(1) Cons by (simp add: sched_ok_def)
    then obtain f c cs where f: "map_of (sch_bulk s) k = Some f" and tr: "bf_trains f = c # cs"
      by (rule flow_of_active [where k = k]) auto
    define def where "def = min (sat_add (bf_deficit f) (sl_bulk_drr_quantum_bytes ?l)) (sl_maximum_quantum_bytes ?l * 2)"
    have le: "def \<le> 2 * sl_maximum_quantum_bytes ?l" by (simp add: def_def)
    obtain c' out where pc: "pop_cells (sl_maximum_quantum_cells ?l) (min def (sl_maximum_quantum_bytes ?l)) c = (c', out)"
      by fastforce
    show ?thesis
    proof (cases "out = []")
      case True
      let ?s1 = "s\<lparr> sch_bulk := AList.update k (f\<lparr> bf_deficit := def \<rparr>) (sch_bulk s), sch_active_bulk := active @ [k] \<rparr>"
      note sk = skip_flow_ok [OF Suc.prems(1) Cons f le]
      have "pop_bulk_visits n now ?s1 = (s', res)"
        using Suc.prems(2) Cons f tr pc True by (simp add: Let_def def_def [symmetric])
      from Suc.IH [OF sk(1) this] sk(2,3,4) show ?thesis
        by (auto intro: same_latency_trans split: option.splits)
    next
      case False
      obtain q where serve: "serve_bulk now k (f\<lparr> bf_deficit := def \<rparr>) c' out (s\<lparr> sch_active_bulk := active \<rparr>) = (s', q)"
        and res: "res = Some q"
        using Suc.prems(2) Cons f tr pc False by (auto simp: Let_def def_def [symmetric] split: prod.splits)
      from serve_bulk_spec [OF Suc.prems(1) Cons f tr le pc False serve] show ?thesis by (simp add: res)
    qed
  qed
qed auto

text \<open>When the deficit quantum covers a Cell the first flow visited is served.\<close>

definition drr_covers :: "scheduler \<Rightarrow> bool" where
  "drr_covers s \<longleftrightarrow> (\<forall>e\<in>set (sch_bulk s). \<forall>c\<in>set (bf_trains (snd e)). \<forall>x\<in>set (tc_cells c).
     sc_len x \<le> sl_bulk_drr_quantum_bytes (sch_limits s))"

lemma pop_bulk_serves:
  assumes ok: "sched_ok s" and cov: "drr_covers s" and act: "sch_active_bulk s \<noteq> []"
    and pop: "pop_bulk now s = (s', res)"
  shows "res \<noteq> None"
proof -
  let ?l = "sch_limits s"
  obtain k active where Cons: "sch_active_bulk s = k # active" using act by (cases "sch_active_bulk s") auto
  have inv: "bulk_inv (sl_maximum_quantum_bytes ?l) (sch_bulk s) (k # active) (sch_depth s)"
    using ok Cons by (simp add: sched_ok_def)
  then obtain f c cs where f: "map_of (sch_bulk s) k = Some f" and tr: "bf_trains f = c # cs"
    and cok: "cursor_ok (sl_maximum_quantum_bytes ?l) c"
    by (rule flow_of_active [where k = k]) auto
  define def where "def = min (sat_add (bf_deficit f) (sl_bulk_drr_quantum_bytes ?l)) (sl_maximum_quantum_bytes ?l * 2)"
  obtain x xs where x: "tc_cells c = x # xs" "sc_len x \<le> sl_maximum_quantum_bytes ?l"
    using cok by (cases "tc_cells c") (auto simp: cursor_ok_def)
  have "sc_len x \<le> sl_bulk_drr_quantum_bytes ?l"
    using cov map_of_SomeD [OF f] tr x(1) by (force simp: drr_covers_def)
  moreover have "sc_len x \<le> usize_max"
    using x(2) limits_invD(5) [of ?l] ok by (simp add: sched_ok_def)
  ultimately have "sc_len x \<le> min def (sl_maximum_quantum_bytes ?l)"
    using x(2) by (auto simp: def_def sat_add_def)
  moreover obtain c' out where pc: "pop_cells (sl_maximum_quantum_cells ?l) (min def (sl_maximum_quantum_bytes ?l)) c = (c', out)"
    by fastforce
  moreover have "0 < sl_maximum_quantum_cells ?l" using ok limits_invD(1) by (simp add: sched_ok_def)
  ultimately have "out \<noteq> []"
    using x(1) take_cells_first [of "sl_maximum_quantum_cells ?l" x "min def (sl_maximum_quantum_bytes ?l)" xs]
    by (auto simp: pop_cells_def simp del: min.bounded_iff split: prod.splits)
  with pop show ?thesis
    using Cons f tr pc by (auto simp: pop_bulk_def Let_def def_def [symmetric] split: prod.splits)
qed


definition same_queues :: "scheduler \<Rightarrow> scheduler \<Rightarrow> bool" where
  "same_queues s s' \<longleftrightarrow> sch_limits s' = sch_limits s \<and> sch_control s' = sch_control s \<and> sch_probes s' = sch_probes s \<and>
     sch_latency s' = sch_latency s \<and> sch_bulk s' = sch_bulk s \<and> sch_active_bulk s' = sch_active_bulk s \<and>
     sch_depth s' = sch_depth s"

lemma same_queues_ok: "same_queues s s' \<Longrightarrow> sched_ok s \<Longrightarrow> sched_ok s'"
  "same_queues s s' \<Longrightarrow> queued_cells s' = queued_cells s" "same_queues s s' \<Longrightarrow> sch_limits s' = sch_limits s"
  by (simp_all add: same_queues_def sched_ok_def fifo_inv_def queued_cells_def)

lemma same_queues_notes [simp]:
  "same_queues s (note_preemption s)" "same_queues s (note_bulk forced s)" "same_queues s (reject n s)"
  by (simp_all add: same_queues_def note_preemption_def note_bulk_def reject_def Let_def)

lemma fifo_depth [simp]:
  "latency_inv m cs (d\<lparr> sd_control_bytes := x \<rparr>) = latency_inv m cs d" "latency_inv m cs (d\<lparr> sd_probe_bytes := x \<rparr>) = latency_inv m cs d"
  "bulk_inv m fs act (d\<lparr> sd_control_bytes := x \<rparr>) = bulk_inv m fs act d" "bulk_inv m fs act (d\<lparr> sd_probe_bytes := x \<rparr>) = bulk_inv m fs act d"
  "budget_inv l (d\<lparr> sd_control_bytes := x \<rparr>) = budget_inv l d" "budget_inv l (d\<lparr> sd_probe_bytes := x \<rparr>) = budget_inv l d"
  by (simp_all add: latency_inv_def bulk_inv_def budget_inv_def)

lemma pop_probe_spec:
  assumes "sched_ok s" "pop_probe s = (s', res)"
  shows "sched_ok s' \<and> sch_limits s' = sch_limits s \<and> queued_cells s' = queued_cells s \<and>
    (case sch_probes s of [] \<Rightarrow> res = None \<and> s' = s | b # bs \<Rightarrow> res = Some (WorkProbe b) \<and> sch_probes s' = bs)"
proof (cases "sch_probes s")
  case (Cons b bs)
  with assms show ?thesis
    by (auto simp: pop_probe_def sched_ok_def fifo_inv_def queued_cells_def)
qed (use assms in \<open>auto simp: pop_probe_def\<close>)

text \<open>What \<open>pop\<close> may return, against the queues before it.\<close>

definition work_ok :: "scheduler \<Rightarrow> scheduler \<Rightarrow> scheduled_work option \<Rightarrow> bool" where
  "work_ok s s' res \<longleftrightarrow>
     (case res of
        None \<Rightarrow> sch_control s = [] \<and> sch_latency s = [] \<and> sch_probes s = [] \<and> queued_cells s' = queued_cells s
      | Some (WorkControl b) \<Rightarrow> sch_control s = b # sch_control s' \<and> queued_cells s' = queued_cells s
      | Some (WorkCells q) \<Rightarrow> sch_control s = [] \<and> quantum_ok (sch_limits s) q \<and>
          queued_cells s = mset (cq_cells q) + queued_cells s' \<and>
          (case cq_class q of Bulk \<Rightarrow> bulk_quantum s q
           | Latency \<Rightarrow> \<exists>cur rest more. sch_latency s = cur # rest \<and> cq_train_id q = tc_train_id cur \<and>
               tc_cells cur = cq_cells q @ more)
      | Some (WorkProbe b) \<Rightarrow> sch_control s = [] \<and> sch_latency s = [] \<and> sch_probes s = b # sch_probes s' \<and>
          queued_cells s' = queued_cells s)"

lemma pop_bulk_spec:
  "sched_ok s \<Longrightarrow> pop_bulk now s = (s', res) \<Longrightarrow> sched_ok s' \<and> same_latency s s' \<and>
    (case res of None \<Rightarrow> queued_cells s' = queued_cells s
     | Some q \<Rightarrow> bulk_quantum s q \<and> queued_cells s = mset (cq_cells q) + queued_cells s')"
  unfolding pop_bulk_def by (rule pop_bulk_visits_spec)

lemma latency_work:
  assumes ok: "sched_ok s" and c: "sch_control s = []" and pop: "pop_latency now s = (s1, Some q)"
    and same: "same_queues s1 s'"
  shows "sched_ok s' \<and> sch_limits s' = sch_limits s \<and> work_ok s s' (Some (WorkCells q))"
  using pop_latency_spec [OF ok pop] same_queues_ok [OF same] c
  by (fastforce simp: work_ok_def same_bulk_def)

lemma pop_application_spec:
  assumes ok: "sched_ok s" and c: "sch_control s = []" and pop: "pop_application now s = (s', res)"
  shows "sched_ok s' \<and> sch_limits s' = sch_limits s \<and> work_ok s s' res"
proof (cases "force_bulk s \<or> sch_latency s = []")
  case False
  obtain s1 r where pl: "pop_latency now s = (s1, r)" by fastforce
  with pop_latency_None [OF ok] False obtain q where q: "r = Some q" by (cases r) auto
  with pop pl False have "s' = note_preemption s1" "res = Some (WorkCells q)" by (simp_all add: pop_application_def)
  with latency_work [OF ok c] pl q show ?thesis by simp
next
  case True
  obtain s1 r where pb: "pop_bulk now s = (s1, r)" by fastforce
  have "pop_latency now s = (s, None)" if "sch_latency s = []" using that by (simp add: pop_latency_def)
  then have first: "(if force_bulk s then (s, None) else pop_latency now s) = (s, None)" using True by auto
  note b = pop_bulk_spec [OF ok pb]
  show ?thesis
  proof (cases r)
    case (Some q)
    with pop pb first have s': "s' = note_bulk (force_bulk s) s1" "res = Some (WorkCells q)"
      by (simp_all add: pop_application_def Let_def)
    have "same_queues s1 s'" by (simp add: s'(1))
    from same_queues_ok [OF this] b Some c show ?thesis
      by (simp add: s'(2) work_ok_def bulk_quantum_def same_latency_def)
  next
    case None
    obtain s2 r2 where pl: "pop_latency now s1 = (s2, r2)" by fastforce
    have ok1: "sched_ok s1" and same: "same_latency s s1" and qs: "queued_cells s1 = queued_cells s" using b None by simp_all
    show ?thesis
    proof (cases r2)
      case (Some q)
      with pop pb first None pl have fin: "s' = s2" "res = Some (WorkCells q)" by (simp_all add: pop_application_def Let_def)
      have ctl: "sch_control s1 = []" using same c by (simp add: same_latency_def)
      have pl': "pop_latency now s1 = (s2, Some q)" using pl Some by simp
      have "same_queues s2 s'" by (simp add: same_queues_def fin)
      from latency_work [OF ok1 ctl pl' this] pop_latency_spec(5) [OF ok1 pl'] same qs show ?thesis
        unfolding fin(2) by (simp add: work_ok_def same_latency_def)
    next
      case None2: None
      with pop pb first None pl have pp: "pop_probe s2 = (s', res)" by (simp add: pop_application_def Let_def)
      have s2: "s2 = s1" "sch_latency s1 = []" using pop_latency_None [OF ok1 pl [unfolded None2]] by simp_all
      have ctl: "sch_control s = []" "sch_latency s = []" "sch_probes s1 = sch_probes s" "sch_limits s1 = sch_limits s"
        using same c s2(2) by (simp_all add: same_latency_def)
      from pop_probe_spec [OF ok1 pp [unfolded s2]] ctl qs show ?thesis
        by (auto simp: work_ok_def split: list.splits)
    qed
  qed
qed

lemma pop_spec:
  assumes ok: "sched_ok s" and pop: "pop now s = (s', res)"
  shows "sched_ok s' \<and> sch_limits s' = sch_limits s \<and> work_ok s s' res"
proof (cases "sch_control s")
  case Nil
  with pop pop_application_spec [OF ok Nil] show ?thesis by (simp add: pop_def)
next
  case (Cons b rest)
  with pop have s': "s' = s\<lparr> sch_control := rest,
      sch_depth := (sch_depth s)\<lparr> sd_control_bytes := sd_control_bytes (sch_depth s) - length b \<rparr> \<rparr>"
    and res: "res = Some (WorkControl b)" by (auto simp: pop_def)
  have "sched_ok s'" using ok Cons
    by (simp add: s' sched_ok_def fifo_inv_def)
  then show ?thesis using Cons by (simp add: res work_ok_def) (simp add: s' queued_cells_def)
qed


section \<open>Enqueueing keeps the invariant\<close>

lemma enqueue_bytes_spec:
  assumes ok: "sched_ok s" and enq: "enqueue_bytes b queue s = (s', r)"
  shows "sched_ok s' \<and> sch_limits s' = sch_limits s \<and> queued_cells s' = queued_cells s"
proof -
  let ?d = "sch_depth s" and ?l = "sch_limits s"
  have small: "sl_control_bytes ?l < usize_max" "sl_probe_bytes ?l < usize_max"
    using ok by (simp_all add: sched_ok_def limits_inv_def)
  have rej: "sched_ok (reject n s) \<and> sch_limits (reject n s) = ?l \<and> queued_cells (reject n s) = queued_cells s" for n
    using same_queues_ok [OF same_queues_notes(3)] ok by blast
  show ?thesis
  proof (cases queue)
    case ControlQueue
    show ?thesis
    proof (cases "b \<noteq> [] \<and> \<not> sl_control_bytes ?l < sat_add (sd_control_bytes ?d) (length b)")
      case True
      then have "s' = s\<lparr> sch_depth := ?d\<lparr> sd_control_bytes := sd_control_bytes ?d + length b \<rparr>, sch_control := sch_control s @ [b] \<rparr>"
        using enq ControlQueue by (auto simp: enqueue_bytes_def Let_def)
      then show ?thesis using ok True small
        by (simp add: sched_ok_def fifo_inv_def queued_cells_def not_less sat_add_le_iff)
    qed (use enq ControlQueue ok rej in \<open>auto simp: enqueue_bytes_def Let_def split: if_splits\<close>)
  next
    case ProbeQueue
    show ?thesis
    proof (cases "b \<noteq> [] \<and> \<not> sl_probe_bytes ?l < sat_add (sd_probe_bytes ?d) (length b)")
      case True
      then have "s' = s\<lparr> sch_depth := ?d\<lparr> sd_probe_bytes := sd_probe_bytes ?d + length b \<rparr>, sch_probes := sch_probes s @ [b] \<rparr>"
        using enq ProbeQueue by (auto simp: enqueue_bytes_def Let_def)
      then show ?thesis using ok True small
        by (simp add: sched_ok_def fifo_inv_def queued_cells_def not_less sat_add_le_iff)
    qed (use enq ProbeQueue ok rej in \<open>auto simp: enqueue_bytes_def Let_def split: if_splits\<close>)
  qed
qed

lemma cursors_len_butlast: "xs \<noteq> [] \<Longrightarrow> cursors_len xs = cursors_len (butlast xs) + tc_bytes (last xs)"
  by (subst append_butlast_last_id [symmetric, of xs]) (simp_all del: append_butlast_last_id)

lemma train_cells_butlast: "xs \<noteq> [] \<Longrightarrow> train_cells xs = train_cells (butlast xs) + mset (tc_cells (last xs))"
  by (subst append_butlast_last_id [symmetric, of xs]) (simp_all del: append_butlast_last_id)

lemma evict_train_spec:
  assumes ok: "sched_ok s" and f: "map_of (sch_bulk s) k = Some f" and ne: "bf_trains f \<noteq> []"
    and keep: "sl_bulk_reserve_bytes (sch_limits s) \<le> sd_bulk_bytes (sch_depth s) - tc_bytes (last (bf_trains f))"
  shows "sched_ok (evict_train k f s)" "same_latency s (evict_train k f s)"
    "sl_bulk_reserve_bytes (sch_limits s) \<le> sd_bulk_bytes (sch_depth (evict_train k f s))"
    "queued_cells (evict_train k f s) \<subseteq># queued_cells s"
proof -
  let ?m = "sl_maximum_quantum_bytes (sch_limits s)" and ?fs = "sch_bulk s" and ?s' = "evict_train k f s"
  let ?rest = "butlast (bf_trains f)" and ?c = "last (bf_trains f)"
  have inv: "bulk_inv ?m ?fs (sch_active_bulk s) (sch_depth s)" using ok by (simp add: sched_ok_def)
  then have dist: "distinct (map fst ?fs)" and act: "distinct (sch_active_bulk s)" by (simp_all add: bulk_inv_def)
  have fok: "flow_ok ?m f" using inv f by (force simp: bulk_inv_def list_all_iff dest: map_of_SomeD)
  have len: "cursors_len (bf_trains f) = cursors_len ?rest + tc_bytes ?c" by (rule cursors_len_butlast [OF ne])
  have le: "cursors_len (bf_trains f) \<le> sd_bulk_bytes (sch_depth s)" "length (bf_trains f) \<le> sd_bulk_trains (sch_depth s)"
    using inv alist_sum_mem [OF f, of "cursors_len \<circ> bf_trains"] alist_sum_mem [OF f, of "length \<circ> bf_trains"]
    by (simp_all add: bulk_inv_def)
  obtain n where n: "length (bf_trains f) = Suc n" using ne by (cases "bf_trains f") auto
  have lat: "same_latency s ?s'"
    and fs': "sch_bulk ?s' = (if ?rest = [] then AList.delete k ?fs else AList.update k (f\<lparr> bf_trains := ?rest \<rparr>) ?fs)"
    and act': "sch_active_bulk ?s' = (if ?rest = [] then filter (\<lambda>x. x \<noteq> k) (sch_active_bulk s) else sch_active_bulk s)"
    and d': "sd_bulk_bytes (sch_depth ?s') = sd_bulk_bytes (sch_depth s) - tc_bytes ?c"
      "sd_bulk_trains (sch_depth ?s') = sd_bulk_trains (sch_depth s) - 1"
      "sd_bulk_flows (sch_depth ?s') = sd_bulk_flows (sch_depth s) - (if ?rest = [] then 1 else 0)"
    by (simp_all add: evict_train_def Let_def same_latency_def)
  show "same_latency s ?s'" by (fact lat)
  show "sl_bulk_reserve_bytes (sch_limits s) \<le> sd_bulk_bytes (sch_depth ?s')" using keep d'(1) by simp
  have "bulk_inv ?m (sch_bulk ?s') (sch_active_bulk ?s') (sch_depth ?s')"
  proof (cases "?rest = []")
    case True
    then have one: "length (bf_trains f) = 1" using n by (metis One_nat_def diff_Suc_1 length_butlast list.size(3))
    show ?thesis
      unfolding fs' act' if_P [OF True]
      by (rule bulk_inv_delete [OF inv f]) (use True one len le d' act in \<open>auto\<close>)
  next
    case False
    have "list_all (cursor_ok ?m) ?rest" using fok by (auto simp: flow_ok_def list_all_iff dest: in_set_butlastD)
    then have "flow_ok ?m (f\<lparr> bf_trains := ?rest \<rparr>)" using fok False by (simp add: flow_ok_def)
    then show ?thesis
      unfolding fs' act' if_not_P [OF False]
      by (rule bulk_inv_update [OF inv f]) (use False len le d' act n in \<open>auto\<close>)
  qed
  then show "sched_ok ?s'" by (rule same_latency_ok [OF ok lat]) (simp add: d'(1))
  show "queued_cells ?s' \<subseteq># queued_cells s"
    using lat flow_cells_delete [OF dist f] flow_cells_update [OF dist, of k "f\<lparr> bf_trains := ?rest \<rparr>"] train_cells_butlast [OF ne]
    by (auto simp: queued_cells_def same_latency_def fs' ac_simps)
qed

lemma evict_bulk_from_spec:
  assumes "sched_ok s" "evict_bulk_from ids s = (s', b)"
  shows "sched_ok s' \<and> same_latency s s' \<and> queued_cells s' \<subseteq># queued_cells s \<and> (\<not> b \<longrightarrow> s' = s) \<and>
    (b \<longrightarrow> sl_bulk_reserve_bytes (sch_limits s) \<le> sd_bulk_bytes (sch_depth s'))"
  using assms
proof (induction ids)
  case (Cons k ids)
  then show ?case
    by (auto simp: not_less evict_train_spec split: option.splits if_splits)
qed auto

lemma make_latency_room_spec:
  assumes "sched_ok s" "make_latency_room n s = (s', b)"
  shows "sched_ok s' \<and> same_latency s s' \<and> queued_cells s' \<subseteq># queued_cells s \<and>
    (b \<longrightarrow> sat_add (sd_latency_bytes (sch_depth s')) n \<le> sl_application_bytes (sch_limits s') - sd_bulk_bytes (sch_depth s')) \<and>
    (s' = s \<or> sl_bulk_reserve_bytes (sch_limits s) \<le> sd_bulk_bytes (sch_depth s'))"
  using assms
proof (induction n s rule: make_latency_room.induct)
  case (1 n s)
  let ?over = "sl_application_bytes (sch_limits s) - sd_bulk_bytes (sch_depth s) < sat_add (sd_latency_bytes (sch_depth s)) n"
  show ?case
  proof (cases ?over)
    case False
    with 1(3) have "s' = s" "b" by (simp_all add: make_latency_room.simps [of n s])
    with 1(2) False show ?thesis by simp
  next
    case True
    obtain s1 e where ev: "evict_bulk_elastic s = (s1, e)" by fastforce
    then have spec: "sched_ok s1 \<and> same_latency s s1 \<and> queued_cells s1 \<subseteq># queued_cells s \<and> (\<not> e \<longrightarrow> s1 = s) \<and>
      (e \<longrightarrow> sl_bulk_reserve_bytes (sch_limits s) \<le> sd_bulk_bytes (sch_depth s1))"
      unfolding evict_bulk_elastic_def by (rule evict_bulk_from_spec [OF 1(2)])
    show ?thesis
    proof (cases e)
      case e: True
      then have rec: "make_latency_room n s1 = (s', b)"
        using 1(3) True ev by (simp add: make_latency_room.simps [of n s])
      from 1(1) [OF True ev [symmetric]] e spec rec show ?thesis
        by (auto simp: same_latency_def intro: subset_mset.order_trans)
    next
      case False
      with 1(3) True ev have "s' = s1" "\<not> b" by (simp_all add: make_latency_room.simps [of n s])
      with spec False 1(2) show ?thesis by auto
    qed
  qed
qed


lemma insert_before_mem [simp]: "set (insert_before p x xs) = insert x (set xs)"
  by (induction xs) auto

lemma insert_before_sums [simp]:
  "cursors_len (insert_before p x xs) = tc_bytes x + cursors_len xs"
  "length (insert_before p x xs) = Suc (length xs)"
  "train_cells (insert_before p x xs) = mset (tc_cells x) + train_cells xs"
  by (induction xs) (auto simp: ac_simps)

text \<open>Insertion keeps the service order.\<close>

lemma precedes_trans: "precedes a b \<Longrightarrow> precedes b c \<Longrightarrow> precedes a c"
  unfolding precedes_def by linarith

lemma insert_before_sorted:
  assumes "sorted_wrt precedes xs" "list_all (\<lambda>c. tc_deadline c \<noteq> None) xs" "tc_deadline x = Some at"
  shows "sorted_wrt precedes (insert_before (overtakes (tc_priority x) at) x xs)"
  using assms
proof (induction xs)
  case (Cons y ys)
  show ?case
  proof (cases "overtakes (tc_priority x) at y")
    case True
    then have xy: "precedes x y" using Cons.prems(3) by (auto simp: overtakes_def precedes_def split: option.splits)
    moreover have "precedes x z" if "z \<in> set ys" for z
      using precedes_trans [OF xy] that Cons.prems(1) by simp
    ultimately show ?thesis using True Cons.prems(1) by simp
  next
    case False
    have yx: "precedes y x"
      using False Cons.prems(2,3) by (auto simp: overtakes_def precedes_def split: option.splits)
    with False Cons show ?thesis by simp
  qed
qed simp

definition cursor_wf :: "train_cursor \<Rightarrow> bool" where
  "cursor_wf c \<longleftrightarrow> tc_cells c \<noteq> [] \<and> tc_bytes c = cells_len (tc_cells c)"

text \<open>The effect of an accepted or refused train on the queues.\<close>

definition enqueued :: "train_cursor \<Rightarrow> scheduler \<Rightarrow> scheduler \<Rightarrow> bool \<Rightarrow> bool" where
  "enqueued cur s s' r \<longleftrightarrow> sched_ok s' \<and> sch_limits s' = sch_limits s \<and>
     (\<exists>kept. kept \<subseteq># queued_cells s \<and> queued_cells s' = kept + (if r then mset (tc_cells cur) else {#})) \<and>
     (sd_bulk_bytes (sch_depth s) \<le> sd_bulk_bytes (sch_depth s') \<or>
      sl_bulk_reserve_bytes (sch_limits s) \<le> sd_bulk_bytes (sch_depth s'))"

lemma enqueue_latency_spec:
  assumes ok: "sched_ok s" and wf: "cursor_wf cur"
    and fit: "list_all (\<lambda>c. sc_len c \<le> sl_maximum_quantum_bytes (sch_limits s)) (tc_cells cur)"
    and enq: "enqueue_latency cur s = (s', r)"
  shows "enqueued cur s s' r"
proof -
  let ?m = "sl_maximum_quantum_bytes (sch_limits s)"
  define at where "at = (case tc_deadline cur of Some at \<Rightarrow> at | None \<Rightarrow> tc_enqueued cur + DEFAULT_LATENCY_DEADLINE)"
  define c where "c = cur\<lparr> tc_deadline := Some at \<rparr>"
  have c: "tc_bytes c = tc_bytes cur" "tc_cells c = tc_cells cur" "tc_deadline c = Some at" by (simp_all add: c_def)
  obtain s1 b where room: "make_latency_room (tc_bytes cur) s = (s1, b)" by fastforce
  note mr = make_latency_room_spec [OF ok room]
  have lim: "sch_limits s1 = sch_limits s" and ok1: "sched_ok s1" using mr by (simp_all add: same_latency_def)
  have rej: "enqueued cur s (reject n s1) False" "enqueued cur s (reject n s) False" for n
    using same_queues_ok [OF same_queues_notes(3)] ok ok1 mr lim by (auto simp: enqueued_def reject_def)
  show ?thesis
  proof (cases "sl_latency_bytes (sch_limits s) < tc_bytes cur \<or> \<not> b \<or>
      sl_latency_bytes (sch_limits s1) < sat_add (sd_latency_bytes (sch_depth s1)) (tc_bytes cur)")
    case True
    with enq room rej show ?thesis by (auto simp: enqueue_latency_def Let_def split: if_splits bool.splits)
  next
    case False
    let ?lat = "insert_before (overtakes (tc_priority c) at) c (sch_latency s1)"
    have r: "r" and s': "s' = s1\<lparr> sch_depth := (sch_depth s1)\<lparr> sd_latency_bytes := sd_latency_bytes (sch_depth s1) + tc_bytes cur,
          sd_latency_trains := sd_latency_trains (sch_depth s1) + 1 \<rparr>, sch_latency := ?lat \<rparr>"
      using enq room False by (auto simp: enqueue_latency_def Let_def at_def [symmetric] c_def)
    have small: "sl_latency_bytes (sch_limits s) < usize_max" "sl_application_bytes (sch_limits s) < usize_max"
      using ok by (simp_all add: sched_ok_def limits_inv_def)
    have cok: "cursor_ok ?m c" using wf fit by (simp add: cursor_wf_def cursor_ok_def c)
    have inv: "latency_inv ?m (sch_latency s1) (sch_depth s1)" and bulk: "bulk_inv ?m (sch_bulk s1) (sch_active_bulk s1) (sch_depth s1)"
      and bud: "budget_inv (sch_limits s) (sch_depth s1)" and fifo: "fifo_inv s1"
      using ok1 lim by (simp_all add: sched_ok_def)
    have "latency_inv ?m ?lat (sch_depth s')"
      using inv cok c insert_before_sorted [of "sch_latency s1" c at]
      by (simp add: latency_inv_def list_all_iff s')
    moreover have "bulk_inv ?m (sch_bulk s') (sch_active_bulk s') (sch_depth s')" using bulk by (simp add: s' bulk_inv_def)
    moreover have "budget_inv (sch_limits s) (sch_depth s')"
    proof -
      have "sd_latency_bytes (sch_depth s1) + tc_bytes cur \<le> sl_latency_bytes (sch_limits s)"
        using False small lim by (simp add: not_less sat_add_le_iff)
      moreover have "sat_add (sd_latency_bytes (sch_depth s1)) (tc_bytes cur) \<le>
          sl_application_bytes (sch_limits s) - sd_bulk_bytes (sch_depth s1)" using mr False lim by simp
      moreover have "sl_application_bytes (sch_limits s) - sd_bulk_bytes (sch_depth s1) < usize_max" using small by simp
      ultimately show ?thesis using bud by (simp add: budget_inv_def s' sat_add_le_iff) linarith
    qed
    moreover have "fifo_inv s'" using fifo by (simp add: fifo_inv_def s')
    ultimately have "sched_ok s'" using ok lim by (simp add: sched_ok_def) (simp add: s' lim)
    moreover have "queued_cells s' = queued_cells s1 + mset (tc_cells cur)" by (simp add: s' queued_cells_def c ac_simps)
    ultimately show ?thesis using mr lim r by (auto simp: enqueued_def) (simp_all add: s')
  qed
qed


lemma bulk_inv_insert:
  assumes inv: "bulk_inv m fs active d" and f: "map_of fs k = None" and f': "flow_ok m f'"
    and d: "sd_bulk_bytes d' = sd_bulk_bytes d + cursors_len (bf_trains f')"
      "sd_bulk_trains d' = sd_bulk_trains d + length (bf_trains f')" "sd_bulk_flows d' = sd_bulk_flows d + 1"
  shows "bulk_inv m (AList.update k f' fs) (active @ [k]) d'"
proof -
  have dist: "distinct (map fst fs)" using inv by (simp add: bulk_inv_def)
  have k: "k \<notin> fst ` set fs" using f by (simp add: map_of_eq_None_iff)
  have "list_all (flow_ok m \<circ> snd) (AList.update k f' fs)"
    using inv f' by (auto simp: bulk_inv_def list_all_iff mem_update [OF dist])
  then show ?thesis
    using inv d k alist_sum_update_new [OF f, of "cursors_len \<circ> bf_trains" f']
      alist_sum_update_new [OF f, of "length \<circ> bf_trains" f']
    by (auto simp: bulk_inv_def dom_update distinct_update length_update)
qed

lemma enqueue_bulk_spec:
  assumes ok: "sched_ok s" and wf: "cursor_wf cur"
    and fit: "list_all (\<lambda>c. sc_len c \<le> sl_maximum_quantum_bytes (sch_limits s)) (tc_cells cur)"
    and enq: "enqueue_bulk cur s = (s', r)"
  shows "enqueued cur s s' r"
proof -
  let ?m = "sl_maximum_quantum_bytes (sch_limits s)" and ?d = "sch_depth s" and ?l = "sch_limits s"
  let ?k = "tc_flow_id cur" and ?fs = "sch_bulk s"
  have rej: "enqueued cur s (reject n s) False" for n
    using same_queues_ok [OF same_queues_notes(3)] ok by (auto simp: enqueued_def reject_def)
  let ?full = "sl_bulk_bytes ?l < sat_add (sd_bulk_bytes ?d) (tc_bytes cur) \<or>
     sl_application_bytes ?l < sat_add (sat_add (sd_bulk_bytes ?d) (sd_latency_bytes ?d)) (tc_bytes cur)"
  show ?thesis
  proof (cases ?full)
    case True
    with enq rej show ?thesis by (auto simp: enqueue_bulk_def Let_def)
  next
    case False
    define f where "f = (case map_of ?fs ?k of Some f \<Rightarrow> f | None \<Rightarrow> \<lparr> bf_deficit = 0, bf_trains = [] \<rparr>)"
    define f' where "f' = f\<lparr> bf_trains := bf_trains f @ [cur] \<rparr>"
    have inv: "bulk_inv ?m ?fs (sch_active_bulk s) ?d" using ok by (simp add: sched_ok_def)
    then have dist: "distinct (map fst ?fs)" by (simp add: bulk_inv_def)
    have empty: "bf_trains f = [] \<longleftrightarrow> map_of ?fs ?k = None"
    proof (cases "map_of ?fs ?k")
      case (Some g)
      then have "flow_ok ?m g" using inv by (force simp: bulk_inv_def list_all_iff dest: map_of_SomeD)
      with Some show ?thesis by (simp add: f_def flow_ok_def)
    qed (simp add: f_def)
    have cok: "cursor_ok ?m cur" using wf fit by (simp add: cursor_wf_def cursor_ok_def)
    have "list_all (cursor_ok ?m) (bf_trains f) \<and> bf_deficit f \<le> 2 * ?m"
    proof (cases "map_of ?fs ?k")
      case (Some g)
      then have "flow_ok ?m g" using inv by (force simp: bulk_inv_def list_all_iff dest: map_of_SomeD)
      with Some show ?thesis by (simp add: f_def flow_ok_def)
    qed (simp add: f_def)
    then have fok: "flow_ok ?m f'" using cok by (simp add: f'_def flow_ok_def)
    have r: "r" and same: "sch_latency s' = sch_latency s" "sch_limits s' = ?l" "sch_control s' = sch_control s"
        "sch_probes s' = sch_probes s"
      and s': "sch_bulk s' = AList.update ?k f' ?fs"
        "sch_active_bulk s' = (if bf_trains f = [] then sch_active_bulk s @ [?k] else sch_active_bulk s)"
      and d': "sch_depth s' = ?d\<lparr> sd_bulk_flows := sd_bulk_flows ?d + (if bf_trains f = [] then 1 else 0),
        sd_bulk_bytes := sd_bulk_bytes ?d + tc_bytes cur, sd_bulk_trains := sd_bulk_trains ?d + 1 \<rparr>"
      using enq False by (auto simp: enqueue_bulk_def Let_def f_def [symmetric] f'_def split: if_splits)
    have bulk: "bulk_inv ?m (sch_bulk s') (sch_active_bulk s') (sch_depth s')"
    proof (cases "map_of ?fs ?k")
      case None
      with empty have e: "bf_trains f = []" by simp
      show ?thesis
        unfolding s' if_P [OF e] by (rule bulk_inv_insert [OF inv None fok]) (simp_all add: d' e f'_def)
    next
      case (Some g)
      with empty have e: "bf_trains f \<noteq> []" and g: "f = g" by (simp_all add: f_def)
      show ?thesis
        unfolding s' if_not_P [OF e]
        by (rule bulk_inv_update [OF inv Some fok]) (use inv in \<open>simp_all add: d' e f'_def g [symmetric] bulk_inv_def\<close>)
    qed
    have small: "sl_bulk_bytes ?l < usize_max" "sl_application_bytes ?l < usize_max" and bud: "budget_inv ?l ?d"
      using ok by (simp_all add: sched_ok_def limits_inv_def)
    have "sat_add (sd_bulk_bytes ?d) (sd_latency_bytes ?d) = sd_bulk_bytes ?d + sd_latency_bytes ?d"
      using bud small by (intro sat_add_exact) (simp add: budget_inv_def)
    with False have "sd_bulk_bytes ?d + tc_bytes cur \<le> sl_bulk_bytes ?l"
      "sd_bulk_bytes ?d + sd_latency_bytes ?d + tc_bytes cur \<le> sl_application_bytes ?l"
      using small by (simp_all add: not_less sat_add_le_iff)
    then have "budget_inv ?l (sch_depth s')" using bud by (simp add: budget_inv_def d')
    moreover have "latency_inv ?m (sch_latency s') (sch_depth s')"
      using ok by (simp add: sched_ok_def same latency_inv_def d')
    moreover have "fifo_inv s'" using ok by (simp add: sched_ok_def fifo_inv_def same d')
    ultimately have "sched_ok s'" using ok bulk by (simp add: sched_ok_def same)
    moreover have "queued_cells s' = queued_cells s + mset (tc_cells cur)"
    proof -
      have "flow_cells ?fs = train_cells (bf_trains f) + flow_cells (AList.delete ?k ?fs)"
      proof (cases "map_of ?fs ?k")
        case None
        then have "AList.delete ?k ?fs = ?fs" by (simp add: delete_absent map_of_eq_None_iff)
        with None empty show ?thesis by simp
      next
        case (Some g)
        with flow_cells_delete [OF dist Some] show ?thesis by (simp add: f_def)
      qed
      then show ?thesis
        using flow_cells_update [OF dist, of ?k f'] by (simp add: queued_cells_def same s' f'_def ac_simps)
    qed
    ultimately show ?thesis using r by (simp add: enqueued_def same d')
  qed
qed


lemma enqueue_cursor_spec:
  assumes "sched_ok s" "cursor_wf cur" "enqueue_cursor cur s = (s', res)"
  shows "case res of Inl _ \<Rightarrow> s' = s | Inr r \<Rightarrow> enqueued cur s s' r"
  using assms enqueue_latency_spec [OF assms(1,2)] enqueue_bulk_spec [OF assms(1,2)]
  by (auto simp: enqueue_cursor_def split: if_splits traffic_class.splits prod.splits)

lemma checked_add_Some: "checked_add a b = Some c \<Longrightarrow> c = a + b"
  by (simp add: checked_add_def split: if_splits)

lemma cursor_cells_spec:
  "cursor_cells cl t m n cs = Inr (out, k) \<Longrightarrow> k = n + cells_len out \<and> length out = length cs"
  by (induction cs arbitrary: n out k)
    (fastforce simp: result_iff sc_len_def Let_def split: option.splits prod.splits dest!: checked_add_Some)+

lemma encoded_cells_spec:
  "encoded_cells cl t n bs = Inr (out, k) \<Longrightarrow> k = n + cells_len out \<and> map sc_payload out = bs"
  by (induction bs arbitrary: n out k)
    (fastforce simp: result_iff sc_len_def Let_def split: option.splits prod.splits dest!: checked_add_Some)+

lemma forwarded_cells_spec:
  "forwarded_cells h n bs = Inr (out, k) \<Longrightarrow> k = n + cells_len out \<and> map sc_payload out = bs"
  by (induction bs arbitrary: n out k)
    (fastforce simp: result_iff sc_len_def Let_def split: option.splits prod.splits dest!: checked_add_Some)+

lemma cursor_wf_new: "cursor_new fl tr m dl now = Inr c \<Longrightarrow> cursor_wf c"
  by (auto simp: cursor_new_def result_iff cursor_wf_def simp del: cursor_cells.simps split: list.splits prod.splits dest!: cursor_cells_spec)

lemma cursor_wf_encoded: "cursor_from_encoded fl cl t bs st now = Inr c \<Longrightarrow> cursor_wf c"
  by (auto simp: cursor_from_encoded_def result_iff cursor_wf_def simp del: encoded_cells.simps split: prod.splits dest!: encoded_cells_spec)

lemma cursor_wf_forwarded: "cursor_from_forwarded fl bs now = Inr c \<Longrightarrow> cursor_wf c"
  by (auto simp: cursor_from_forwarded_def result_iff cursor_wf_def simp del: forwarded_cells.simps split: list.splits prod.splits dest!: forwarded_cells_spec)

lemma enqueue_result_spec:
  assumes ok: "sched_ok s" and wf: "\<And>c. cur = Inr c \<Longrightarrow> cursor_wf c" and enq: "enqueue_result fl cur s = (s', res)"
  shows "case res of Inl _ \<Rightarrow> s' = s | Inr r \<Rightarrow> \<exists>c. cur = Inr c \<and> enqueued c s s' r"
  using enq ok wf enqueue_cursor_spec [OF ok, of _ s' res]
  by (auto simp: enqueue_result_def split: if_splits sum.splits)

section \<open>Runs of scheduler operations\<close>

datatype sched_op =
    EnqueueControl bytes
  | EnqueueProbe bytes
  | EnqueueTrain u64 packet_train nat "instant option" bool instant
  | EnqueueEncoded u64 traffic_class u64 "bytes list" "train_build_stats option" "instant option" bool instant
  | EnqueueForwarded u64 "bytes list" instant
  | SetBulkQuantumCells nat
  | Pop instant

fun sched_step :: "sched_op \<Rightarrow> scheduler \<Rightarrow> scheduler \<times> scheduled_work option" where
  "sched_step (EnqueueControl b) s = (fst (enqueue_control b s), None)"
| "sched_step (EnqueueProbe b) s = (fst (enqueue_probe b s), None)"
| "sched_step (EnqueueTrain fl tr m dl pr now) s = (fst (enqueue_train_with_scheduling fl tr m dl pr now s), None)"
| "sched_step (EnqueueEncoded fl cl t bs st dl pr now) s =
     (fst (enqueue_encoded_train_with_scheduling fl cl t bs st dl pr now s), None)"
| "sched_step (EnqueueForwarded fl bs now) s = (fst (enqueue_forwarded_cells fl bs now s), None)"
| "sched_step (SetBulkQuantumCells n) s = (fst (set_bulk_quantum_cells n s), None)"
| "sched_step (Pop now) s = pop now s"

definition work_within :: "scheduled_work option \<Rightarrow> bool" where
  "work_within res = (case res of Some (WorkCells q) \<Rightarrow>
     cq_cells q \<noteq> [] \<and> length (cq_cells q) \<le> MAX_QUANTUM_CELLS \<and> cq_bytes q \<le> MAX_QUANTUM_BYTES | _ \<Rightarrow> True)"

lemma enqueue_bytes_ok: "sched_ok s \<Longrightarrow> sched_ok (fst (enqueue_bytes b queue s))"
  by (cases "enqueue_bytes b queue s") (simp add: enqueue_bytes_spec)

lemma enqueue_result_ok:
  assumes "sched_ok s" "\<And>c. cur = Inr c \<Longrightarrow> cursor_wf c"
  shows "sched_ok (fst (enqueue_result fl cur s))"
proof -
  obtain s' res where e: "enqueue_result fl cur s = (s', res)" by fastforce
  from enqueue_result_spec [OF assms e] assms(1) show ?thesis
    by (auto simp: e enqueued_def split: sum.splits)
qed

interpretation sched_runs: invariant_system sched_ok sched_step "\<lambda>_. True" "\<lambda>_. work_within"
proof
  fix s s' :: scheduler and x r
  assume ok: "sched_ok s" and step: "sched_step x s = (s', r)"
  have "sched_ok s' \<and> work_within r"
  proof (cases x)
    case (Pop now)
    with step have "pop now s = (s', r)" by simp
    from pop_spec [OF ok this] have "sched_ok s'" "work_ok s s' r" by blast+
    moreover have "work_within r"
    proof (cases "\<exists>q. r = Some (WorkCells q)")
      case True
      then obtain q where q: "r = Some (WorkCells q)" ..
      have "limits_inv (sch_limits s)" using ok by (simp add: sched_ok_def)
      note limits_invD(2,4) [OF this]
      moreover have "quantum_ok (sch_limits s) q" using \<open>work_ok s s' r\<close> by (simp add: work_ok_def q)
      ultimately show ?thesis by (simp add: work_within_def q quantum_ok_def)
    qed (simp add: work_within_def split: option.splits scheduled_work.splits)
    ultimately show ?thesis by blast
  next
    case (EnqueueControl b)
    with step enqueue_bytes_ok [OF ok] show ?thesis by (auto simp: work_within_def enqueue_control_def)
  next
    case (EnqueueProbe b)
    with step enqueue_bytes_ok [OF ok] show ?thesis by (auto simp: work_within_def enqueue_probe_def)
  next
    case (EnqueueTrain fl tr m dl pr now)
    have "cursor_wf c" if "bindR (cursor_new fl tr m dl now) (\<lambda>c. Inr (c\<lparr> tc_priority := pr \<rparr>)) = Inr c" for c
      using that by (auto simp: result_iff cursor_wf_def dest!: cursor_wf_new)
    from enqueue_result_ok [OF ok this] EnqueueTrain step show ?thesis
      by (auto simp: work_within_def enqueue_train_with_scheduling_def)
  next
    case (EnqueueEncoded fl cl t bs st dl pr now)
    have "cursor_wf c" if "bindR (cursor_from_encoded fl cl t bs st now)
        (\<lambda>c. Inr (c\<lparr> tc_deadline := dl, tc_priority := pr \<rparr>)) = Inr c" for c
      using that by (auto simp: result_iff cursor_wf_def dest!: cursor_wf_encoded)
    from enqueue_result_ok [OF ok this] EnqueueEncoded step show ?thesis
      by (auto simp: work_within_def enqueue_encoded_train_with_scheduling_def)
  next
    case (EnqueueForwarded fl bs now)
    from enqueue_result_ok [OF ok cursor_wf_forwarded] EnqueueForwarded step show ?thesis
      by (auto simp: work_within_def enqueue_forwarded_cells_def)
  next
    case (SetBulkQuantumCells n)
    with step ok show ?thesis
      by (auto simp: work_within_def set_bulk_quantum_cells_def sched_ok_def limits_inv_def validate_scheduler_limits_def
          result_iff fifo_inv_def budget_inv_def split: if_splits)
  qed
  then show "sched_ok s'" "work_within r" by blast+
qed

lemma scheduler_new_ok:
  assumes "scheduler_new l = Inr s" "limits_inv l"
  shows "sched_ok s"
  using assms
  by (auto simp: scheduler_new_def result_iff sched_ok_def fifo_inv_def budget_inv_def latency_inv_def bulk_inv_def)


section \<open>Properties\<close>

definition demo_scheduled :: "nat \<Rightarrow> scheduled_cell" where
  "demo_scheduled n = \<lparr> sc_payload = replicate n 7, sc_header = \<lparr> hdr_kind = Data, hdr_class = Bulk, hdr_session_epoch = 7,
     hdr_route_label = 9, hdr_train_id = 11, hdr_cell_sequence = 0, hdr_stripe_id = 0, hdr_segment_count = 1,
     hdr_payload_len = 0, hdr_overlay_hop_limit = 3, hdr_overlay_hops = 0 \<rparr> \<rparr>"

definition demo_cursor :: "traffic_class \<Rightarrow> u64 \<Rightarrow> bool \<Rightarrow> nat \<Rightarrow> nat list \<Rightarrow> train_cursor" where
  "demo_cursor class train priority deadline lens = \<lparr> tc_class = class, tc_flow_id = 5, tc_train_id = train,
     tc_cells = map demo_scheduled lens, tc_bytes = sum_list lens, tc_enqueued = 0, tc_deadline = Some deadline,
     tc_priority = priority, tc_stats = None \<rparr>"

definition demo_scheduler :: "nat \<Rightarrow> scheduler" where
  "demo_scheduler since = \<lparr> sch_limits = scheduler_limits_default, sch_control = [],
     sch_latency = [demo_cursor Latency 1 True 90 [2], demo_cursor Latency 2 False 50 [3]],
     sch_bulk = [(5, \<lparr> bf_deficit = 0, bf_trains = [demo_cursor Bulk 3 False 0 [4, 4]] \<rparr>)],
     sch_active_bulk = [5], sch_probes = [[1]],
     sch_depth = \<lparr> sd_control_bytes = 0, sd_latency_bytes = 5, sd_bulk_bytes = 8, sd_probe_bytes = 1,
       sd_latency_trains = 2, sd_bulk_trains = 1, sd_bulk_flows = 1 \<rparr>,
     sch_stats = \<lparr> ss_quantum_count = 0, ss_quantum_bytes = 0, ss_bulk_quantum_count = 0,
       ss_latency_quantum_count = 0, ss_bulk_preemptions = 0, ss_bulk_forced_service = 0,
       ss_bulk_evicted_bytes = 0, ss_rejected_bytes = 0, ss_maximum_sojourn_micros = 0,
       ss_latency_deadline_misses = 0 \<rparr>,
     sch_latency_bytes_since_bulk = since, sch_bulk_was_preemptible = False \<rparr>"

lemma limits_inv_default: "limits_inv scheduler_limits_default"
  by (simp add: limits_inv_def scheduler_limits_default_def validate_scheduler_limits_def usize_max_def
      MAX_QUANTUM_CELLS_def MAX_QUANTUM_BYTES_def)

lemma demo_scheduler_ok: "sched_ok (demo_scheduler n)"
  by (simp add: sched_ok_def demo_scheduler_def limits_inv_default fifo_inv_def budget_inv_def latency_inv_def
      bulk_inv_def flow_ok_def cursor_ok_def demo_cursor_def demo_scheduled_def sc_len_def precedes_def)
    (simp add: scheduler_limits_default_def MAX_QUANTUM_BYTES_def)

definition demo_idle :: scheduler where
  "demo_idle = (demo_scheduler 0)\<lparr> sch_latency := [], sch_bulk := [], sch_active_bulk := [], sch_probes := [],
     sch_depth := \<lparr> sd_control_bytes = 0, sd_latency_bytes = 0, sd_bulk_bytes = 0, sd_probe_bytes = 0,
       sd_latency_trains = 0, sd_bulk_trains = 0, sd_bulk_flows = 0 \<rparr> \<rparr>"

lemma demo_idle_new: "scheduler_new scheduler_limits_default = Inr demo_idle"
  using limits_inv_default by (simp add: scheduler_new_def limits_inv_def demo_idle_def demo_scheduler_def)

definition demo_ops :: "sched_op list" where
  "demo_ops = [EnqueueControl [1, 2], EnqueueForwarded 5 [demo_bytes] 3, EnqueueProbe [3], Pop 4, Pop 5]"

lemma demo_forwarded: "\<exists>h. cursor_from_forwarded 5 [demo_bytes] 3 = Inr \<lparr> tc_class = Bulk, tc_flow_id = 5,
    tc_train_id = 11, tc_cells = [\<lparr> sc_payload = demo_bytes, sc_header = h \<rparr>], tc_bytes = 56, tc_enqueued = 3,
    tc_deadline = None, tc_priority = False, tc_stats = None \<rparr>"
  by (simp add: cursor_from_forwarded_def checked_add_def usize_max_def)
    (simp add: demo_bytes_def cell_eval wire_eval)

lemma take_cells_numeral [simp]:
  "take_cells (numeral k) m b first [] = ([], [])"
  "take_cells (numeral k) m b first (c # cs) =
     (if \<not> first \<and> m < sat_add b (sc_len c) then ([], c # cs)
      else if first \<and> m < sc_len c then ([], c # cs)
      else (case take_cells (pred_numeral k) m (b + sc_len c) False cs of (out, rest) \<Rightarrow> (c # out, rest)))"
  by (simp_all add: numeral_eq_Suc)

lemma demo_sched_run:
  obtains s' q where "run_ops sched_step demo_ops demo_idle = (s', [None, None, None, Some (WorkControl [1, 2]), Some (WorkCells q)])"
    "sch_control s' = []" "sch_probes s' = [[3]]" "cq_class q = Bulk"
proof -
  obtain h where h: "cursor_from_forwarded 5 [demo_bytes] 3 = Inr \<lparr> tc_class = Bulk, tc_flow_id = 5,
    tc_train_id = 11, tc_cells = [\<lparr> sc_payload = demo_bytes, sc_header = h \<rparr>], tc_bytes = 56, tc_enqueued = 3,
    tc_deadline = None, tc_priority = False, tc_stats = None \<rparr>" using demo_forwarded by blast
  have len: "length demo_bytes = 56" by (simp add: demo_bytes_def)
  note eval = demo_ops_def demo_idle_def demo_scheduler_def scheduler_limits_default_def MAX_QUANTUM_BYTES_def
    MAX_QUANTUM_CELLS_def enqueue_control_def enqueue_probe_def enqueue_bytes_def enqueue_forwarded_cells_def
    enqueue_result_def h enqueue_cursor_def enqueue_bulk_def sc_len_def len sat_add_def usize_max_def Let_def
    pop_def pop_application_def force_bulk_def pop_latency_def pop_bulk_def pop_cells_def serve_bulk_def note_bulk_def
  obtain s' outs where run: "run_ops sched_step demo_ops demo_idle = (s', outs)" by fastforce
  have "\<exists>q. snd (run_ops sched_step demo_ops demo_idle) = [None, None, None, Some (WorkControl [1, 2]), Some (WorkCells q)] \<and>
      cq_class q = Bulk"
    by (simp add: eval)
  moreover have "sch_control (fst (run_ops sched_step demo_ops demo_idle)) = []"
    "sch_probes (fst (run_ops sched_step demo_ops demo_idle)) = [[3]]"
    by (simp_all add: eval)
  ultimately show thesis using that unfolding run by auto
qed

text \<open>C17. In every run of the scheduler all seven depth counters are exact (the bytes of the four queues,
  the latency trains, the bulk trains and the bulk flows), the byte budgets of all queues hold (latency and bulk
  together stay within the application budget), and exactly the flows with queued trains are in the round-robin
  ring, each once.\<close>

theorem scheduler_run_budgets:
  assumes "scheduler_new l = Inr s" and "limits_inv l" and "run_ops sched_step ops s = (s', outs)"
  shows "sd_control_bytes (sch_depth s') = sum_list (map length (sch_control s')) \<and>
    sd_probe_bytes (sch_depth s') = sum_list (map length (sch_probes s')) \<and>
    sd_latency_bytes (sch_depth s') = (\<Sum>c\<leftarrow>sch_latency s'. cells_len (tc_cells c)) \<and>
    sd_bulk_bytes (sch_depth s') = (\<Sum>e\<leftarrow>sch_bulk s'. \<Sum>c\<leftarrow>bf_trains (snd e). cells_len (tc_cells c)) \<and>
    sd_latency_trains (sch_depth s') = length (sch_latency s') \<and>
    sd_bulk_trains (sch_depth s') = (\<Sum>e\<leftarrow>sch_bulk s'. length (bf_trains (snd e))) \<and>
    sd_bulk_flows (sch_depth s') = length (sch_bulk s') \<and>
    sd_control_bytes (sch_depth s') \<le> sl_control_bytes (sch_limits s') \<and>
    sd_probe_bytes (sch_depth s') \<le> sl_probe_bytes (sch_limits s') \<and>
    sd_latency_bytes (sch_depth s') \<le> sl_latency_bytes (sch_limits s') \<and>
    sd_bulk_bytes (sch_depth s') \<le> sl_bulk_bytes (sch_limits s') \<and>
    sd_latency_bytes (sch_depth s') + sd_bulk_bytes (sch_depth s') \<le> sl_application_bytes (sch_limits s') \<and>
    distinct (sch_active_bulk s') \<and> set (sch_active_bulk s') = fst ` set (sch_bulk s') \<and>
    distinct (map fst (sch_bulk s')) \<and> list_all (\<lambda>e. bf_trains (snd e) \<noteq> []) (sch_bulk s')"
proof -
  let ?m = "sl_maximum_quantum_bytes (sch_limits s')"
  have ok: "sched_ok s'"
    using sched_runs.run_inv [OF scheduler_new_ok [OF assms(1,2)] _ assms(3)] by (simp add: list_all_iff)
  have len: "cursors_len cs = (\<Sum>c\<leftarrow>cs. cells_len (tc_cells c))" if "list_all (cursor_ok ?m) cs" for cs
    using that by (induction cs) (auto simp: cursor_ok_def)
  have "list_all (cursor_ok ?m) (sch_latency s')" and fl: "list_all (flow_ok ?m \<circ> snd) (sch_bulk s')"
    using ok by (simp_all add: sched_ok_def latency_inv_def bulk_inv_def)
  note lat = len [OF this(1)]
  have "alist_sum (cursors_len \<circ> bf_trains) fs = (\<Sum>e\<leftarrow>fs. \<Sum>c\<leftarrow>bf_trains (snd e). cells_len (tc_cells c))"
    if "list_all (flow_ok ?m \<circ> snd) fs" for fs :: "(u64 \<times> bulk_flow) list"
    using that by (induction fs) (auto simp: flow_ok_def len)
  note bulk = this [OF fl]
  have trains: "alist_sum (length \<circ> bf_trains) fs = (\<Sum>e\<leftarrow>fs. length (bf_trains (snd e)))"
    for fs :: "(u64 \<times> bulk_flow) list"
    by (induction fs) auto
  have flows: "list_all (\<lambda>e. bf_trains (snd e) \<noteq> []) (sch_bulk s')" using fl by (auto simp: list_all_iff flow_ok_def)
  have set: "set (sch_active_bulk s') = fst ` set (sch_bulk s')" using ok by (simp add: sched_ok_def bulk_inv_def)
  show ?thesis
    using ok lat bulk flows unfolding set
    by (simp add: sched_ok_def fifo_inv_def budget_inv_def latency_inv_def bulk_inv_def trains)
qed

theorem scheduler_run_budgets_witness:
  "sd_control_bytes (sch_depth (fst (run_ops sched_step demo_ops demo_idle))) = 0 \<and>
   sd_probe_bytes (sch_depth (fst (run_ops sched_step demo_ops demo_idle))) = 1"
proof -
  obtain s' q where run: "run_ops sched_step demo_ops demo_idle = (s', [None, None, None, Some (WorkControl [1, 2]), Some (WorkCells q)])"
    "sch_control s' = []" "sch_probes s' = [[3]]" by (rule demo_sched_run)
  with scheduler_run_budgets [OF demo_idle_new limits_inv_default run(1)] show ?thesis unfolding run(1) by simp
qed



text \<open>C19. Nothing is lost or reordered on the way out: a quantum of Cells is a prefix of the train at the
  head of its queue, and the queues afterwards hold exactly the Cells that were there minus
  those of the quantum.\<close>

theorem pop_conserves:
  assumes "sched_ok s" and "pop now s = (s', Some (WorkCells q))"
  shows "queued_cells s = mset (cq_cells q) + queued_cells s' \<and> sch_control s = [] \<and>
    (\<exists>cur more. tc_cells cur = cq_cells q @ more \<and> tc_train_id cur = cq_train_id q \<and>
       (case cq_class q of Latency \<Rightarrow> \<exists>rest. sch_latency s = cur # rest
        | Bulk \<Rightarrow> \<exists>f rest. map_of (sch_bulk s) (cq_flow_id q) = Some f \<and> bf_trains f = cur # rest))"
proof -
  have w: "work_ok s s' (Some (WorkCells q))" using pop_spec [OF assms] by blast
  show ?thesis
  proof (cases "cq_class q")
    case Latency
    with w show ?thesis by (auto simp: work_ok_def)
  next
    case Bulk
    with w show ?thesis by (auto simp: work_ok_def bulk_quantum_def)
  qed
qed

lemma demo_pop_latency:
  obtains q where "pop 100 (demo_scheduler 0) = (fst (pop 100 (demo_scheduler 0)), Some (WorkCells q))" "cq_class q = Latency"
proof -
  have "\<exists>q. snd (pop 100 (demo_scheduler 0)) = Some (WorkCells q) \<and> cq_class q = Latency"
    by (simp add: demo_scheduler_def pop_def pop_application_def force_bulk_def scheduler_limits_default_def pop_latency_def
        pop_cells_def demo_cursor_def demo_scheduled_def sc_len_def MAX_QUANTUM_BYTES_def Let_def)
  then obtain q where "snd (pop 100 (demo_scheduler 0)) = Some (WorkCells q)" "cq_class q = Latency" by blast
  then show thesis by (intro that) (simp_all add: prod_eq_iff)
qed

theorem pop_conserves_witness:
  "\<exists>q. snd (pop 100 (demo_scheduler 0)) = Some (WorkCells q) \<and>
     queued_cells (demo_scheduler 0) = mset (cq_cells q) + queued_cells (fst (pop 100 (demo_scheduler 0)))"
proof -
  obtain q where q: "pop 100 (demo_scheduler 0) = (fst (pop 100 (demo_scheduler 0)), Some (WorkCells q))" by (rule demo_pop_latency)
  from pop_conserves [OF demo_scheduler_ok q] q show ?thesis by (metis snd_conv)
qed

text \<open>C20. Latency service order, in every run from a new scheduler (any trains enqueued with any deadlines and
  priorities in any order, with pops and tuning between them): every queued latency train has a deadline, and a
  latency quantum is a prefix of a queued train that no other queued one precedes. It is of the priority tier
  while one of that tier is queued, and no train of its tier has an earlier deadline.\<close>

theorem latency_order:
  assumes "scheduler_new l = Inr s0" and "limits_inv l" and "run_ops sched_step ops s0 = (s, outs)"
    and "pop now s = (s', Some (WorkCells q))" and "cq_class q = Latency"
  shows "\<exists>cur\<in>set (sch_latency s). cq_train_id q = tc_train_id cur \<and> (\<exists>more. tc_cells cur = cq_cells q @ more) \<and>
    (\<exists>at. tc_deadline cur = Some at \<and>
      (\<forall>other\<in>set (sch_latency s). (tc_priority other \<longrightarrow> tc_priority cur) \<and>
         (\<exists>at'. tc_deadline other = Some at' \<and> (tc_priority other = tc_priority cur \<longrightarrow> at \<le> at'))))"
proof -
  have ok: "sched_ok s"
    using sched_runs.run_inv [OF scheduler_new_ok [OF assms(1,2)] _ assms(3)] by (simp add: list_all_iff)
  have "work_ok s s' (Some (WorkCells q))" using pop_spec [OF ok assms(4)] by blast
  then obtain cur rest more where lat: "sch_latency s = cur # rest" "cq_train_id q = tc_train_id cur"
    "tc_cells cur = cq_cells q @ more" using assms(5) by (auto simp: work_ok_def)
  have "sorted_wrt precedes (cur # rest)" and dl: "list_all (\<lambda>c. tc_deadline c \<noteq> None) (cur # rest)"
    using ok lat(1) by (simp_all add: sched_ok_def latency_inv_def)
  then have first: "other = cur \<or> precedes cur other" if "other \<in> set (cur # rest)" for other using that by auto
  obtain at where at: "tc_deadline cur = Some at" using dl by auto
  have "(tc_priority other \<longrightarrow> tc_priority cur) \<and>
      (\<exists>at'. tc_deadline other = Some at' \<and> (tc_priority other = tc_priority cur \<longrightarrow> at \<le> at'))"
    if mem: "other \<in> set (sch_latency s)" for other
  proof -
    obtain at' where "tc_deadline other = Some at'" using dl mem by (auto simp: lat(1) list_all_iff)
    with first [of other] mem at show ?thesis by (auto simp: lat(1) precedes_def)
  qed
  then have all: "\<forall>other\<in>set (sch_latency s). (tc_priority other \<longrightarrow> tc_priority cur) \<and>
      (\<exists>at'. tc_deadline other = Some at' \<and> (tc_priority other = tc_priority cur \<longrightarrow> at \<le> at'))" by blast
  have "cur \<in> set (sch_latency s)" by (simp add: lat(1))
  moreover have "\<exists>more. tc_cells cur = cq_cells q @ more" using lat(3) by blast
  ultimately show ?thesis using lat(2) at all by (intro bexI [of _ cur] conjI exI [of _ at])
qed

definition demo_urgent :: "u64 \<Rightarrow> packet_train" where
  "demo_urgent t = \<lparr> pt_cells = [demo_cell\<lparr> cell_class := Latency, cell_train_id := t \<rparr>],
     pt_stats = train_build_stats_default \<rparr>"

definition demo_latency_ops :: "sched_op list" where
  "demo_latency_ops = [EnqueueTrain 5 (demo_urgent 1) 1200 (Some 50) False 0,
     EnqueueTrain 6 (demo_urgent 2) 1200 (Some 90) True 0, EnqueueTrain 7 (demo_urgent 3) 1200 (Some 70) True 0]"

lemma demo_urgent_cursor:
  "t \<noteq> 0 \<Longrightarrow> \<exists>x. sc_len x = 56 \<and> cursor_new fl (demo_urgent t) 1200 dl now = Inr \<lparr> tc_class = Latency,
    tc_flow_id = fl, tc_train_id = t, tc_cells = [x], tc_bytes = 56, tc_enqueued = now,
    tc_deadline = dl, tc_priority = False, tc_stats = Some train_build_stats_default \<rparr>"
  by (simp add: cursor_new_def demo_urgent_def demo_cell_def encode_datagram_parts_def sc_len_def join_parts_def
      cell_eval wire_eval)

theorem latency_order_witness:
  "\<exists>s outs s' q. run_ops sched_step demo_latency_ops demo_idle = (s, outs) \<and>
     pop 100 s = (s', Some (WorkCells q)) \<and> cq_train_id q = 3"
proof -
  obtain x1 where x1: "sc_len x1 = 56" "cursor_new 5 (demo_urgent 1) 1200 (Some 50) 0 = Inr \<lparr> tc_class = Latency,
    tc_flow_id = 5, tc_train_id = 1, tc_cells = [x1], tc_bytes = 56, tc_enqueued = 0,
    tc_deadline = Some 50, tc_priority = False, tc_stats = Some train_build_stats_default \<rparr>"
    using demo_urgent_cursor [of 1 5 "Some 50" 0] by auto
  obtain x2 where x2: "sc_len x2 = 56" "cursor_new 6 (demo_urgent 2) 1200 (Some 90) 0 = Inr \<lparr> tc_class = Latency,
    tc_flow_id = 6, tc_train_id = 2, tc_cells = [x2], tc_bytes = 56, tc_enqueued = 0,
    tc_deadline = Some 90, tc_priority = False, tc_stats = Some train_build_stats_default \<rparr>"
    using demo_urgent_cursor [of 2 6 "Some 90" 0] by auto
  obtain x3 where x3: "sc_len x3 = 56" "cursor_new 7 (demo_urgent 3) 1200 (Some 70) 0 = Inr \<lparr> tc_class = Latency,
    tc_flow_id = 7, tc_train_id = 3, tc_cells = [x3], tc_bytes = 56, tc_enqueued = 0,
    tc_deadline = Some 70, tc_priority = False, tc_stats = Some train_build_stats_default \<rparr>"
    using demo_urgent_cursor [of 3 7 "Some 70" 0] by auto
  note eval = demo_latency_ops_def demo_idle_def demo_scheduler_def scheduler_limits_default_def MAX_QUANTUM_BYTES_def
    MAX_QUANTUM_CELLS_def enqueue_train_with_scheduling_def enqueue_result_def x1 x2 x3 enqueue_cursor_def
    enqueue_latency_def make_latency_room.simps overtakes_def sat_add_def usize_max_def Let_def
    pop_def pop_application_def force_bulk_def pop_latency_def pop_cells_def
  let ?s = "fst (run_ops sched_step demo_latency_ops demo_idle)"
  have "\<exists>q. snd (pop 100 ?s) = Some (WorkCells q) \<and> cq_class q = Latency" by (simp add: eval)
  then obtain s' q where q: "pop 100 ?s = (s', Some (WorkCells q))" "cq_class q = Latency" by (metis prod.collapse)
  have run: "run_ops sched_step demo_latency_ops demo_idle = (?s, snd (run_ops sched_step demo_latency_ops demo_idle))"
    by simp
  have tag: "map (\<lambda>c. (tc_train_id c, tc_priority c, tc_deadline c)) (sch_latency ?s) =
      [(3, True, Some 70), (2, True, Some 90), (1, False, Some 50)]" by (simp add: eval)
  have mem: "(tc_train_id c, tc_priority c, tc_deadline c) \<in> {(3, True, Some 70), (2, True, Some 90), (1, False, Some 50)}"
    if "c \<in> set (sch_latency ?s)" for c
    using imageI [OF that, of "\<lambda>c. (tc_train_id c, tc_priority c, tc_deadline c)"] unfolding set_map [symmetric] tag by simp
  have "(3, True, Some 70) \<in> (\<lambda>c. (tc_train_id c, tc_priority c, tc_deadline c)) ` set (sch_latency ?s)"
    unfolding set_map [symmetric] tag by simp
  then have has: "\<exists>c\<in>set (sch_latency ?s). tc_priority c \<and> tc_deadline c = Some 70" by auto
  obtain cur at where cur: "cur \<in> set (sch_latency ?s)" "cq_train_id q = tc_train_id cur" "tc_deadline cur = Some at"
    "\<forall>other\<in>set (sch_latency ?s). (tc_priority other \<longrightarrow> tc_priority cur) \<and>
       (\<exists>at'. tc_deadline other = Some at' \<and> (tc_priority other = tc_priority cur \<longrightarrow> at \<le> at'))"
    using latency_order [OF demo_idle_new limits_inv_default run q] by blast
  from has cur(4) have "tc_priority cur" "at \<le> 70" by auto
  with mem [OF cur(1)] cur(2,3) have "cq_train_id q = 3" by auto
  with run q(1) show ?thesis by blast
qed

text \<open>C21. Work conservation: while the round-robin quantum covers the queued bulk Cells, \<open>pop\<close> returns
  work whenever any queue holds some.\<close>

theorem pop_work_conserving:
  assumes "sched_ok s" and "drr_covers s"
    and "sch_control s \<noteq> [] \<or> sch_latency s \<noteq> [] \<or> sch_bulk s \<noteq> [] \<or> sch_probes s \<noteq> []"
  shows "snd (pop now s) \<noteq> None"
proof
  assume none: "snd (pop now s) = None"
  then obtain s' where pop: "pop now s = (s', None)" by (metis prod.collapse)
  have "work_ok s s' None" using pop_spec [OF assms(1) pop] by blast
  then have empty: "sch_control s = []" "sch_latency s = []" "sch_probes s = []" by (simp_all add: work_ok_def)
  then have "sch_bulk s \<noteq> []" using assms(3) by simp
  then have act: "sch_active_bulk s \<noteq> []" using assms(1) by (force simp: sched_ok_def bulk_inv_def)
  obtain s1 r where pb: "pop_bulk now s = (s1, r)" by fastforce
  with pop_bulk_serves [OF assms(1,2) act] obtain q where "r = Some q" by blast
  with pop pb empty show False
    by (simp add: pop_def pop_application_def force_bulk_def pop_latency_def)
qed

lemma demo_drr_covers: "drr_covers (demo_scheduler n)"
  by (simp add: drr_covers_def demo_scheduler_def demo_cursor_def demo_scheduled_def sc_len_def scheduler_limits_default_def)

theorem pop_work_conserving_witness: "snd (pop 100 (demo_scheduler 0)) \<noteq> None"
  by (rule pop_work_conserving [OF demo_scheduler_ok demo_drr_covers]) (simp add: demo_scheduler_def)

text \<open>C22. Latency work does not starve bulk: with an empty control queue, and while the round-robin quantum covers
  the queued bulk Cells, once the latency bytes served since the last bulk quantum reach the burst limit and bulk
  work is queued, the next quantum is a bulk quantum however much latency work is queued, and the count of
  latency bytes restarts. (Control datagrams go first unconditionally; a bulk Cell larger than the round-robin
  quantum may need further rotations to save up its deficit.)\<close>

theorem bulk_not_starved:
  assumes "sched_ok s" and "drr_covers s" and "sch_control s = []" and "sch_bulk s \<noteq> []" and "sch_latency s \<noteq> []"
    and "sl_latency_burst_bytes (sch_limits s) \<le> sch_latency_bytes_since_bulk s"
  shows "\<exists>s' q. pop now s = (s', Some (WorkCells q)) \<and> cq_class q = Bulk \<and> sch_latency_bytes_since_bulk s' = 0"
proof -
  have act: "sch_active_bulk s \<noteq> []" using assms(1,4) by (force simp: sched_ok_def bulk_inv_def)
  obtain s1 r where pb: "pop_bulk now s = (s1, r)" by fastforce
  with pop_bulk_serves [OF assms(1,2) act] obtain q where q: "r = Some q" by blast
  have "bulk_quantum s q" using pop_bulk_spec [OF assms(1) pb] q by simp
  moreover have "pop now s = (note_bulk True s1, Some (WorkCells q))"
    using assms(3,5,6) act pb q by (simp add: pop_def pop_application_def force_bulk_def)
  ultimately show ?thesis by (simp add: bulk_quantum_def note_bulk_def Let_def)
qed

theorem bulk_not_starved_witness:
  "\<exists>s' q. pop 100 (demo_scheduler 65536) = (s', Some (WorkCells q)) \<and> cq_class q = Bulk \<and> sch_latency_bytes_since_bulk s' = 0"
  by (rule bulk_not_starved [OF demo_scheduler_ok demo_drr_covers])
    (simp_all add: demo_scheduler_def scheduler_limits_default_def)

text \<open>C23. Admission: an accepted train is queued whole next to Cells that were already there, a refused
  one adds nothing, and the bulk bytes displaced by latency work never fall below the bulk
  reserve.\<close>

theorem enqueue_admission:
  assumes "sched_ok s" and "cursor_wf cur" and "enqueue_cursor cur s = (s', Inr r)"
  shows "(\<exists>kept. kept \<subseteq># queued_cells s \<and> queued_cells s' = kept + (if r then mset (tc_cells cur) else {#})) \<and>
    min (sd_bulk_bytes (sch_depth s)) (sl_bulk_reserve_bytes (sch_limits s)) \<le> sd_bulk_bytes (sch_depth s') \<and>
    sd_latency_bytes (sch_depth s') + sd_bulk_bytes (sch_depth s') \<le> sl_application_bytes (sch_limits s')"
proof -
  have e: "enqueued cur s s' r" using enqueue_cursor_spec [OF assms] by simp
  then have "sched_ok s'" by (simp add: enqueued_def)
  with e show ?thesis by (auto simp: enqueued_def sched_ok_def budget_inv_def min_le_iff_disj)
qed

theorem enqueue_admission_witness:
  "\<exists>s'. enqueue_cursor (demo_cursor Latency 9 False 70 [5]) (demo_scheduler 0) = (s', Inr True) \<and>
     sd_latency_bytes (sch_depth s') + sd_bulk_bytes (sch_depth s') \<le> 8388608"
proof -
  let ?c = "demo_cursor Latency 9 False 70 [5]"
  have wf: "cursor_wf ?c" by (simp add: cursor_wf_def demo_cursor_def demo_scheduled_def sc_len_def)
  have "snd (enqueue_cursor ?c (demo_scheduler 0)) = Inr True"
    "sl_application_bytes (sch_limits (fst (enqueue_cursor ?c (demo_scheduler 0)))) = 8388608"
    by (simp_all add: enqueue_cursor_def enqueue_latency_def make_latency_room.simps demo_cursor_def demo_scheduled_def sc_len_def
        demo_scheduler_def scheduler_limits_default_def MAX_QUANTUM_BYTES_def sat_add_def usize_max_def Let_def)
  then obtain s' where s': "enqueue_cursor ?c (demo_scheduler 0) = (s', Inr True)" "sl_application_bytes (sch_limits s') = 8388608"
    by (metis prod.collapse)
  from enqueue_admission [OF demo_scheduler_ok wf s'(1)] s' show ?thesis by auto
qed

end
