(* ===== verification/Prefixes.thy ===== *)
theory Prefixes
  imports Hash_Map "HOL-Library.Product_Lexorder"
begin

text \<open>
  IP prefixes and the precompiled prefix tables of \<open>src/src/protocol/v2/routing.rs\<close>: the index of overlay
  routes and the set of underlay exclusions, both looked up by masking the address with each prefix
  length in use, longest first.  The prefix type \<open>IpNet\<close> is the \<open>ipnet\<close> package and a parameter of the
  model; \<open>ipnet_ok\<close> states what the package documents of it.
\<close>

section \<open>Addresses\<close>

type_synonym u128 = "128 word"

text \<open>An address is the integer its octets spell; the derived order puts every IPv4 address first.\<close>

datatype ip_addr = V4 u32 | V6 u128

instantiation ip_addr :: linorder
begin

definition less_eq_ip_addr :: "ip_addr \<Rightarrow> ip_addr \<Rightarrow> bool" where
  "less_eq_ip_addr a b = (case (a, b) of (V4 x, V4 y) \<Rightarrow> x \<le> y | (V4 _, V6 _) \<Rightarrow> True | (V6 _, V4 _) \<Rightarrow> False | (V6 x, V6 y) \<Rightarrow> x \<le> y)"

definition less_ip_addr :: "ip_addr \<Rightarrow> ip_addr \<Rightarrow> bool" where
  "less_ip_addr a b \<longleftrightarrow> a \<le> b \<and> \<not> b \<le> a"

instance
  by standard (auto simp: less_eq_ip_addr_def less_ip_addr_def split: ip_addr.splits)

end

fun is_ipv4 :: "ip_addr \<Rightarrow> bool" where
  "is_ipv4 (V4 _) = True"
| "is_ipv4 (V6 _) = False"

fun is_unspecified :: "ip_addr \<Rightarrow> bool" where
  "is_unspecified (V4 a) \<longleftrightarrow> a = 0"
| "is_unspecified (V6 a) \<longleftrightarrow> a = 0"

definition checked_shl :: "'a::len word \<Rightarrow> u32 \<Rightarrow> 'a word option" where
  "checked_shl x n = (if unat n < LENGTH('a) then Some (push_bit (unat n) x) else None)"

definition or_zero :: "'a::len word option \<Rightarrow> 'a word" where
  "or_zero m = (case m of None \<Rightarrow> 0 | Some x \<Rightarrow> x)"

text \<open>The shift distance is a \<open>u32\<close> difference, which wraps for a prefix longer than the address.\<close>

fun masked_address :: "ip_addr \<Rightarrow> u8 \<Rightarrow> ip_addr" where
  "masked_address (V4 a) prefix_len = V4 (and a (or_zero (checked_shl (- 1) (32 - ucast prefix_len))))"
| "masked_address (V6 a) prefix_len = V6 (and a (or_zero (checked_shl (- 1) (128 - ucast prefix_len))))"

section \<open>The \<open>ipnet\<close> package\<close>

record 'n ipnet =
  net_addr :: "'n \<Rightarrow> ip_addr"
  net_prefix_len :: "'n \<Rightarrow> u8"
  net_network :: "'n \<Rightarrow> ip_addr"
  net_contains :: "'n \<Rightarrow> ip_addr \<Rightarrow> bool"
  net_new :: "ip_addr \<Rightarrow> u8 \<Rightarrow> 'n result"

text \<open>\<open>same_prefix k a b\<close>: the addresses are of one family and agree on their first \<open>k\<close> bits.\<close>

fun addr_width :: "ip_addr \<Rightarrow> nat" where
  "addr_width (V4 _) = 32"
| "addr_width (V6 _) = 128"

fun addr_bits :: "ip_addr \<Rightarrow> nat" where
  "addr_bits (V4 a) = unat a"
| "addr_bits (V6 a) = unat a"

definition same_prefix :: "nat \<Rightarrow> ip_addr \<Rightarrow> ip_addr \<Rightarrow> bool" where
  "same_prefix k a b \<longleftrightarrow> is_ipv4 a = is_ipv4 b \<and>
     addr_bits a div 2 ^ (addr_width a - k) = addr_bits b div 2 ^ (addr_width b - k)"

definition host_bits_zero :: "nat \<Rightarrow> ip_addr \<Rightarrow> bool" where
  "host_bits_zero k a \<longleftrightarrow> addr_bits a mod 2 ^ (addr_width a - k) = 0"

text \<open>What the package documents: a network is an address and a prefix length within the address
  width, and is determined by them; its network address has the same prefix and zero host bits; it
  contains the addresses with its prefix; and the constructor accepts every valid length.\<close>

definition ipnet_ok :: "'n ipnet \<Rightarrow> bool" where
  "ipnet_ok N \<longleftrightarrow>
     (\<forall>n. unat (net_prefix_len N n) \<le> addr_width (net_addr N n)) \<and>
     (\<forall>m n. net_addr N m = net_addr N n \<and> net_prefix_len N m = net_prefix_len N n \<longrightarrow> m = n) \<and>
     (\<forall>n. same_prefix (unat (net_prefix_len N n)) (net_network N n) (net_addr N n) \<and>
        host_bits_zero (unat (net_prefix_len N n)) (net_network N n)) \<and>
     (\<forall>n a. net_contains N n a \<longleftrightarrow> same_prefix (unat (net_prefix_len N n)) a (net_addr N n)) \<and>
     (\<forall>a k. unat k \<le> addr_width a \<longrightarrow> (\<exists>n. net_new N a k = Inr n \<and> net_addr N n = a \<and> net_prefix_len N n = k))"

section \<open>Prefix tables\<close>

text \<open>\<open>prepare_prefix_lengths\<close>: sorted descending, without repetitions.\<close>

definition prepare_prefix_lengths :: "u8 list \<Rightarrow> u8 list" where
  "prepare_prefix_lengths lengths = remdups_adj (rev (sort lengths))"

type_synonym adjacency_id = u32
type_synonym route_label = u32

record resolved_route =
  rr_adjacency :: adjacency_id
  rr_route_label :: route_label
  rr_route_epoch :: u32
  rr_maximum_datagram_size :: u16

record 'n prefix_route =
  pr_prefix :: 'n
  pr_route :: resolved_route
  pr_startup_latency :: duration

record 'n prefix_index =
  px_routes :: "((u8 \<times> ip_addr) \<times> 'n prefix_route list) list"
  px_v4_lengths :: "u8 list"
  px_v6_lengths :: "u8 list"
  px_route_count :: nat

definition index_add :: "'n ipnet \<Rightarrow> 'n prefix_route \<Rightarrow> 'n prefix_index \<Rightarrow> 'n prefix_index" where
  "index_add N route index =
     (let len = net_prefix_len N (pr_prefix route);
          key = (len, net_network N (pr_prefix route));
          index = (if is_ipv4 (net_addr N (pr_prefix route)) then index\<lparr> px_v4_lengths := px_v4_lengths index @ [len] \<rparr>
                   else index\<lparr> px_v6_lengths := px_v6_lengths index @ [len] \<rparr>);
          bucket = (case map_of (px_routes index) key of None \<Rightarrow> [] | Some routes \<Rightarrow> routes) in
      index\<lparr> px_routes := AList.update key (bucket @ [route]) (px_routes index) \<rparr>)"

definition index_compile :: "'n ipnet \<Rightarrow> 'n prefix_route list \<Rightarrow> 'n prefix_index" where
  "index_compile N routes =
     (let index = fold (index_add N) routes
            \<lparr> px_routes = [], px_v4_lengths = [], px_v6_lengths = [], px_route_count = length routes \<rparr> in
      index\<lparr> px_v4_lengths := prepare_prefix_lengths (px_v4_lengths index),
        px_v6_lengths := prepare_prefix_lengths (px_v6_lengths index) \<rparr>)"

fun index_search :: "((u8 \<times> ip_addr) \<times> 'n prefix_route list) list \<Rightarrow> ip_addr \<Rightarrow> u8 list \<Rightarrow> 'n prefix_route list option" where
  "index_search routes destination [] = None"
| "index_search routes destination (k # ks) =
     (case map_of routes (k, masked_address destination k) of
        Some found \<Rightarrow> Some found
      | None \<Rightarrow> index_search routes destination ks)"

definition index_lookup :: "'n prefix_index \<Rightarrow> ip_addr \<Rightarrow> 'n prefix_route list option" where
  "index_lookup index destination =
     index_search (px_routes index) destination
       (if is_ipv4 destination then px_v4_lengths index else px_v6_lengths index)"

record prefix_set =
  ps_prefixes :: "(u8 \<times> ip_addr) set"
  ps_v4_lengths :: "u8 list"
  ps_v6_lengths :: "u8 list"

definition prefix_set_add :: "'n ipnet \<Rightarrow> 'n \<Rightarrow> prefix_set \<Rightarrow> prefix_set" where
  "prefix_set_add N n ps =
     (let len = net_prefix_len N n;
          ps = (if is_ipv4 (net_addr N n) then ps\<lparr> ps_v4_lengths := ps_v4_lengths ps @ [len] \<rparr>
                else ps\<lparr> ps_v6_lengths := ps_v6_lengths ps @ [len] \<rparr>) in
      ps\<lparr> ps_prefixes := insert (len, net_network N n) (ps_prefixes ps) \<rparr>)"

definition prefix_set_compile :: "'n ipnet \<Rightarrow> 'n list \<Rightarrow> prefix_set" where
  "prefix_set_compile N prefixes =
     (let ps = fold (prefix_set_add N) prefixes \<lparr> ps_prefixes = {}, ps_v4_lengths = [], ps_v6_lengths = [] \<rparr> in
      ps\<lparr> ps_v4_lengths := prepare_prefix_lengths (ps_v4_lengths ps),
        ps_v6_lengths := prepare_prefix_lengths (ps_v6_lengths ps) \<rparr>)"

definition prefix_set_contains :: "prefix_set \<Rightarrow> ip_addr \<Rightarrow> bool" where
  "prefix_set_contains ps address =
     list_ex (\<lambda>k. (k, masked_address address k) \<in> ps_prefixes ps)
       (if is_ipv4 address then ps_v4_lengths ps else ps_v6_lengths ps)"

text \<open>\<open>family\<close>, the sort key of the duplicate checks, and \<open>validate_prefix_set\<close>.\<close>

definition family :: "'n ipnet \<Rightarrow> 'n \<Rightarrow> u8" where
  "family N n = (if is_ipv4 (net_addr N n) then 4 else 6)"

definition prefix_key :: "'n ipnet \<Rightarrow> 'n \<Rightarrow> u8 \<times> ip_addr \<times> u8" where
  "prefix_key N n = (family N n, net_addr N n, net_prefix_len N n)"

definition validate_prefix_set :: "'n ipnet \<Rightarrow> 'n list \<Rightarrow> bool \<Rightarrow> unit result" where
  "validate_prefix_set N prefixes allow_default_routes =
     bindR (allR (\<lambda>n.
       ensure (net_addr N n = net_network N n) ''non-canonical V2 prefix'' (
       ensure (allow_default_routes \<or> net_prefix_len N n \<noteq> 0) ''V2 default route was not explicitly enabled'' (Inr ()))) prefixes) (\<lambda>_.
     let canonical = sort_key (prefix_key N) prefixes in
     ensure (length (remdups_adj canonical) = length canonical) ''duplicate V2 prefix'' (Inr ()))"

definition prefixes_overlap :: "'n ipnet \<Rightarrow> 'n \<Rightarrow> 'n \<Rightarrow> bool" where
  "prefixes_overlap N l r \<longleftrightarrow> is_ipv4 (net_addr N l) = is_ipv4 (net_addr N r) \<and>
     (net_contains N l (net_network N r) \<or> net_contains N r (net_network N l))"

section \<open>Masks\<close>

lemma and_high_bits:
  fixes a :: "'a::len word"
  assumes "n \<le> LENGTH('a)"
  shows "unat (and a (if n < LENGTH('a) then push_bit n (- 1) else 0)) = unat a div 2 ^ n * 2 ^ n"
proof (cases "n < LENGTH('a)")
  case True
  have "and a (push_bit n (- 1)) = push_bit n (drop_bit n a)"
    by (rule bit_eqI) (auto simp: bit_simps)
  moreover have "unat a div 2 ^ n * 2 ^ n < 2 ^ LENGTH('a)"
    by (rule le_less_trans [OF _ unat_less_length [of a]]) simp
  moreover have "unat (push_bit n (drop_bit n a)) = take_bit LENGTH('a) (push_bit n (drop_bit n (unat a)))"
    by (simp only: unsigned_push_bit_eq unsigned_drop_bit_eq take_bit_nat_eq_self [OF unat_less_length])
  ultimately show ?thesis
    using True by (simp only: if_True) (simp only: push_bit_eq_mult drop_bit_eq_div take_bit_nat_eq_self)
next
  case False
  then have "unat a < 2 ^ n" using assms unat_less_length [of a] by simp
  then show ?thesis using False by simp
qed

lemma mask_distance:
  fixes w :: u32
  assumes "unat (k :: u8) \<le> unat w" "unat w \<le> 128"
  shows "unat (w - ucast k) = unat w - unat k"
proof -
  have "unat (ucast k :: u32) = unat k" by (simp add: unsigned_ucast_eq take_bit_nat_eq_self unat_less_length [of k, THEN less_le_trans])
  then show ?thesis using assms by (subst unat_sub) (simp_all add: word_le_nat_alt)
qed

lemma masked_bits:
  assumes "unat k \<le> addr_width a"
  shows "addr_bits (masked_address a k) = addr_bits a div 2 ^ (addr_width a - unat k) * 2 ^ (addr_width a - unat k)"
proof (cases a)
  case (V4 x)
  have "unat (32 - ucast k :: u32) = 32 - unat k" using mask_distance [of k 32] assms V4 by simp
  then have "masked_address a k = V4 (and x (if 32 - unat k < LENGTH(32) then push_bit (32 - unat k) (- 1) else 0))"
    by (simp only: V4 masked_address.simps checked_shl_def or_zero_def) (simp only: option.case split: if_split, simp)
  then show ?thesis using and_high_bits [of "32 - unat k" x] V4 by (simp only: addr_bits.simps addr_width.simps) simp
next
  case (V6 x)
  have "unat (128 - ucast k :: u32) = 128 - unat k" using mask_distance [of k 128] assms V6 by simp
  then have "masked_address a k = V6 (and x (if 128 - unat k < LENGTH(128) then push_bit (128 - unat k) (- 1) else 0))"
    by (simp only: V6 masked_address.simps checked_shl_def or_zero_def) (simp only: option.case split: if_split, simp)
  then show ?thesis using and_high_bits [of "128 - unat k" x] V6 by (simp only: addr_bits.simps addr_width.simps) simp
qed

lemma masked_family [simp]: "is_ipv4 (masked_address a k) = is_ipv4 a" "addr_width (masked_address a k) = addr_width a"
  by (cases a; simp)+

lemma addr_eqI: "is_ipv4 a = is_ipv4 b \<Longrightarrow> addr_bits a = addr_bits b \<Longrightarrow> a = b"
  by (cases a; cases b) (simp_all add: word_unat_eq_iff)

lemma addr_width_family: "is_ipv4 a = is_ipv4 b \<Longrightarrow> addr_width a = addr_width b"
  by (cases a; cases b) simp_all

lemma masked_address_iff:
  assumes "unat k \<le> addr_width a"
  shows "masked_address a k = b \<longleftrightarrow> same_prefix (unat k) a b \<and> host_bits_zero (unat k) b"
proof -
  let ?n = "addr_width a - unat k"
  have "addr_bits b = addr_bits a div 2 ^ ?n * 2 ^ ?n \<longleftrightarrow> addr_bits a div 2 ^ ?n = addr_bits b div 2 ^ ?n \<and> addr_bits b mod 2 ^ ?n = 0"
    using div_mult_mod_eq [of "addr_bits b" "2 ^ ?n"] by auto
  moreover have "masked_address a k = b \<longleftrightarrow> is_ipv4 a = is_ipv4 b \<and> addr_bits b = addr_bits (masked_address a k)"
    using addr_eqI [of "masked_address a k" b] masked_family(1) [of a k] by metis
  moreover have "is_ipv4 a = is_ipv4 b \<Longrightarrow> addr_width b = addr_width a" by (rule addr_width_family [symmetric])
  ultimately show ?thesis unfolding same_prefix_def host_bits_zero_def masked_bits [OF assms] by (cases "is_ipv4 a = is_ipv4 b") metis+
qed

lemma same_prefix_sym: "same_prefix k a b \<longleftrightarrow> same_prefix k b a"
  by (auto simp: same_prefix_def)

lemma same_prefix_trans: "same_prefix k a b \<Longrightarrow> same_prefix k b c \<Longrightarrow> same_prefix k a c"
  by (auto simp: same_prefix_def)

lemma same_prefix_mono:
  assumes "same_prefix k a b" "j \<le> k" "k \<le> addr_width a"
  shows "same_prefix j a b"
proof -
  have w: "addr_width a = addr_width b" using assms(1) addr_width_family [of a b] by (simp add: same_prefix_def)
  have split: "x div 2 ^ (addr_width b - j) = x div 2 ^ (addr_width b - k) div 2 ^ (k - j)" for x :: nat
  proof -
    have "addr_width b - j = (addr_width b - k) + (k - j)" using assms(2,3) w by simp
    then show ?thesis by (simp add: div_mult2_eq power_add)
  qed
  show ?thesis using assms(1) unfolding same_prefix_def w split [of "addr_bits a"] split [of "addr_bits b"] by simp
qed

lemma ipnet_okD:
  assumes "ipnet_ok N"
  shows net_len: "unat (net_prefix_len N n) \<le> addr_width (net_addr N n)"
    and net_eqI: "net_addr N m = net_addr N n \<Longrightarrow> net_prefix_len N m = net_prefix_len N n \<Longrightarrow> m = n"
    and net_network_masked: "net_network N n = masked_address (net_addr N n) (net_prefix_len N n)"
    and net_contains_iff: "net_contains N n a \<longleftrightarrow> same_prefix (unat (net_prefix_len N n)) a (net_addr N n)"
    and net_new_ok: "unat k \<le> addr_width a \<Longrightarrow> \<exists>n. net_new N a k = Inr n \<and> net_addr N n = a \<and> net_prefix_len N n = k"
proof -
  show len: "unat (net_prefix_len N n) \<le> addr_width (net_addr N n)" for n using assms by (auto simp: ipnet_ok_def)
  show "net_addr N m = net_addr N n \<Longrightarrow> net_prefix_len N m = net_prefix_len N n \<Longrightarrow> m = n" using assms by (auto simp: ipnet_ok_def)
  show "net_network N n = masked_address (net_addr N n) (net_prefix_len N n)"
    using assms masked_address_iff [OF len] same_prefix_sym unfolding ipnet_ok_def by metis
  show "net_contains N n a \<longleftrightarrow> same_prefix (unat (net_prefix_len N n)) a (net_addr N n)" using assms by (auto simp: ipnet_ok_def)
  show "unat k \<le> addr_width a \<Longrightarrow> \<exists>n. net_new N a k = Inr n \<and> net_addr N n = a \<and> net_prefix_len N n = k" using assms by (auto simp: ipnet_ok_def)
qed

lemma net_contains_masked:
  assumes N: "ipnet_ok N"
  shows "net_contains N n a \<longleftrightarrow> is_ipv4 a = is_ipv4 (net_addr N n) \<and> masked_address a (net_prefix_len N n) = net_network N n"
proof -
  let ?k = "net_prefix_len N n"
  have len: "unat ?k \<le> addr_width (net_addr N n)" by (rule net_len [OF N])
  have net: "same_prefix (unat ?k) (net_addr N n) (net_network N n)" "host_bits_zero (unat ?k) (net_network N n)"
    using masked_address_iff [OF len] net_network_masked [OF N] by metis+
  show ?thesis
  proof (cases "is_ipv4 a = is_ipv4 (net_addr N n)")
    case True
    then have "unat ?k \<le> addr_width a" using len addr_width_family by metis
    from masked_address_iff [OF this, of "net_network N n"] net True show ?thesis
      unfolding net_contains_iff [OF N] by (meson same_prefix_sym same_prefix_trans)
  qed (auto simp: net_contains_iff [OF N] same_prefix_def)
qed

section \<open>Longest-prefix match\<close>

text \<open>The specification: among the routes whose prefix contains the address, those with the longest
  prefix, in the order they were given.\<close>

definition longest_match :: "'n ipnet \<Rightarrow> 'n prefix_route list \<Rightarrow> ip_addr \<Rightarrow> 'n prefix_route list" where
  "longest_match N routes a =
     (let matching = filter (\<lambda>r. net_contains N (pr_prefix r) a) routes in
      filter (\<lambda>r. net_prefix_len N (pr_prefix r) = Max ((net_prefix_len N \<circ> pr_prefix) ` set matching)) matching)"

definition route_key :: "'n ipnet \<Rightarrow> 'n prefix_route \<Rightarrow> u8 \<times> ip_addr" where
  "route_key N r = (net_prefix_len N (pr_prefix r), net_network N (pr_prefix r))"

definition bucket :: "'n ipnet \<Rightarrow> u8 \<times> ip_addr \<Rightarrow> 'n prefix_route list \<Rightarrow> 'n prefix_route list option" where
  "bucket N key routes = (let rs = filter (\<lambda>r. route_key N r = key) routes in if rs = [] then None else Some rs)"

lemma strict_remdups_adj: "sorted_wrt (\<ge>) xs \<Longrightarrow> sorted_wrt (>) (remdups_adj xs)"
  for xs :: "'a::linorder list"
proof (induction xs rule: remdups_adj.induct)
  case (3 x y xs)
  then show ?case by (auto dest: order_antisym)
qed simp_all

lemma prepare_prefix_lengths_spec:
  "sorted_wrt (>) (prepare_prefix_lengths ls)" "set (prepare_prefix_lengths ls) = set ls"
  unfolding prepare_prefix_lengths_def by (rule strict_remdups_adj) (simp_all add: sorted_wrt_rev)

lemma index_fold:
  fixes routes :: "'n prefix_route list"
  assumes "\<forall>key. map_of (px_routes index) key = bucket N key given"
  shows "(\<forall>key. map_of (px_routes (fold (index_add N) routes index)) key = bucket N key (given @ routes)) \<and>
    set (px_v4_lengths (fold (index_add N) routes index)) = set (px_v4_lengths index) \<union>
       {net_prefix_len N (pr_prefix r) | r. r \<in> set routes \<and> is_ipv4 (net_addr N (pr_prefix r))} \<and>
    set (px_v6_lengths (fold (index_add N) routes index)) = set (px_v6_lengths index) \<union>
       {net_prefix_len N (pr_prefix r) | r. r \<in> set routes \<and> \<not> is_ipv4 (net_addr N (pr_prefix r))}"
  using assms
proof (induction routes arbitrary: index given)
  case (Cons r routes)
  have step: "\<forall>key. map_of (px_routes (index_add N r index)) key = bucket N key (given @ [r])"
    using Cons.prems by (auto simp: index_add_def Let_def update_conv' bucket_def route_key_def)
  have "set (px_v4_lengths (index_add N r index)) =
      set (px_v4_lengths index) \<union> (if is_ipv4 (net_addr N (pr_prefix r)) then {net_prefix_len N (pr_prefix r)} else {})"
    "set (px_v6_lengths (index_add N r index)) =
      set (px_v6_lengths index) \<union> (if is_ipv4 (net_addr N (pr_prefix r)) then {} else {net_prefix_len N (pr_prefix r)})"
    by (auto simp: index_add_def Let_def)
  then show ?case using Cons.IH [OF step] by auto
qed simp

lemma index_compiled:
  fixes routes :: "'n prefix_route list"
  shows "map_of (px_routes (index_compile N routes)) key = bucket N key routes"
    "sorted_wrt (>) (px_v4_lengths (index_compile N routes))" "sorted_wrt (>) (px_v6_lengths (index_compile N routes))"
    "set (px_v4_lengths (index_compile N routes)) = {net_prefix_len N (pr_prefix r) | r. r \<in> set routes \<and> is_ipv4 (net_addr N (pr_prefix r))}"
    "set (px_v6_lengths (index_compile N routes)) = {net_prefix_len N (pr_prefix r) | r. r \<in> set routes \<and> \<not> is_ipv4 (net_addr N (pr_prefix r))}"
proof -
  have "\<forall>key. map_of (px_routes \<lparr> px_routes = [], px_v4_lengths = [], px_v6_lengths = [], px_route_count = length routes \<rparr>) key = bucket N key []"
    by (simp add: bucket_def)
  from index_fold [OF this, of routes]
  show "map_of (px_routes (index_compile N routes)) key = bucket N key routes"
    "sorted_wrt (>) (px_v4_lengths (index_compile N routes))" "sorted_wrt (>) (px_v6_lengths (index_compile N routes))"
    "set (px_v4_lengths (index_compile N routes)) = {net_prefix_len N (pr_prefix r) | r. r \<in> set routes \<and> is_ipv4 (net_addr N (pr_prefix r))}"
    "set (px_v6_lengths (index_compile N routes)) = {net_prefix_len N (pr_prefix r) | r. r \<in> set routes \<and> \<not> is_ipv4 (net_addr N (pr_prefix r))}"
    by (simp_all add: index_compile_def Let_def prepare_prefix_lengths_spec del: split_paired_All)
qed

lemma index_search_spec:
  assumes "sorted_wrt (>) ks"
  shows "index_search routes a ks = None \<Longrightarrow> k \<in> set ks \<Longrightarrow> map_of routes (k, masked_address a k) = None"
    "index_search routes a ks = Some rs \<Longrightarrow> \<exists>k\<in>set ks. map_of routes (k, masked_address a k) = Some rs \<and>
       (\<forall>j\<in>set ks. k < j \<longrightarrow> map_of routes (j, masked_address a j) = None)"
  using assms by (induction ks) (auto split: option.splits)

lemma route_matches:
  assumes "ipnet_ok N" "is_ipv4 a = is_ipv4 (net_addr N (pr_prefix r))"
  shows "route_key N r = (k, masked_address a k) \<longleftrightarrow> net_prefix_len N (pr_prefix r) = k \<and> net_contains N (pr_prefix r) a"
  using assms by (auto simp: route_key_def net_contains_masked)

lemma index_lookup_longest:
  assumes N: "ipnet_ok N"
  shows "index_lookup (index_compile N routes) a =
    (if longest_match N routes a = [] then None else Some (longest_match N routes a))"
proof -
  let ?ix = "index_compile N routes"
  let ?ks = "if is_ipv4 a then px_v4_lengths ?ix else px_v6_lengths ?ix"
  let ?here = "\<lambda>r. is_ipv4 (net_addr N (pr_prefix r)) = is_ipv4 a"
  let ?len = "\<lambda>r. net_prefix_len N (pr_prefix r)"
  let ?ms = "filter (\<lambda>r. net_contains N (pr_prefix r) a) routes"
  have sorted: "sorted_wrt (>) ?ks" by (simp add: index_compiled)
  have ks: "set ?ks = ?len ` {r \<in> set routes. ?here r}" by (auto simp: index_compiled)
  have fam: "net_contains N (pr_prefix r) a \<Longrightarrow> ?here r" for r using net_contains_masked [OF N] by blast
  have mask_fam: "?here r" if "route_key N r = (k, masked_address a k)" for r k
  proof -
    have "is_ipv4 (net_network N (pr_prefix r)) = is_ipv4 (net_addr N (pr_prefix r))" by (simp add: net_network_masked [OF N])
    then show ?thesis using that masked_family(1) [of a k] by (metis prod.inject route_key_def)
  qed
  have "(route_key N r = (k, masked_address a k)) = (?len r = k \<and> net_contains N (pr_prefix r) a)" for r k
    using mask_fam fam route_matches [OF N] by metis
  then have found: "bucket N (k, masked_address a k) routes =
      (let rs = filter (\<lambda>r. ?len r = k) ?ms in if rs = [] then None else Some rs)" for k
    by (simp add: bucket_def conj_commute)
  have lk: "index_lookup ?ix a = index_search (px_routes ?ix) a ?ks" by (simp add: index_lookup_def)
  show ?thesis
  proof (cases "index_lookup ?ix a")
    case None
    have "?ms = []"
    proof (rule ccontr)
      assume "?ms \<noteq> []"
      then obtain r where r: "r \<in> set routes" "net_contains N (pr_prefix r) a" by (auto simp: filter_empty_conv)
      then have "?len r \<in> set ?ks" using ks fam by blast
      from index_search_spec(1) [OF sorted None [unfolded lk] this] have "bucket N (?len r, masked_address a (?len r)) routes = None"
        by (simp add: index_compiled)
      then show False using r by (auto simp: found Let_def filter_empty_conv split: if_splits)
    qed
    then show ?thesis using None by (simp add: longest_match_def)
  next
    case (Some rs)
    from index_search_spec(2) [OF sorted Some [unfolded lk]] obtain k where k: "bucket N (k, masked_address a k) routes = Some rs"
      and above: "\<forall>j\<in>set ?ks. k < j \<longrightarrow> bucket N (j, masked_address a j) routes = None" by (auto simp: index_compiled)
    have rs: "rs = filter (\<lambda>r. ?len r = k) ?ms" "rs \<noteq> []" using k by (auto simp: found Let_def split: if_splits)
    then obtain r where r: "r \<in> set ?ms" "?len r = k" by (auto simp: filter_empty_conv)
    have "?len q \<le> k" if q: "q \<in> set ?ms" for q
    proof (rule ccontr)
      assume "\<not> ?len q \<le> k"
      moreover have "?len q \<in> set ?ks" using ks fam q by auto
      ultimately have "bucket N (?len q, masked_address a (?len q)) routes = None" using above by auto
      then show False using q by (auto simp: found Let_def filter_empty_conv split: if_splits)
    qed
    then have "Max ((net_prefix_len N \<circ> pr_prefix) ` set ?ms) = k" using r by (intro Max_eqI) auto
    then show ?thesis using Some rs by (simp add: longest_match_def Let_def)
  qed
qed

lemma prefix_set_fold:
  shows "ps_prefixes (fold (prefix_set_add N) ns ps) = ps_prefixes ps \<union> {(net_prefix_len N n, net_network N n) | n. n \<in> set ns}"
    "set (ps_v4_lengths (fold (prefix_set_add N) ns ps)) = set (ps_v4_lengths ps) \<union> {net_prefix_len N n | n. n \<in> set ns \<and> is_ipv4 (net_addr N n)}"
    "set (ps_v6_lengths (fold (prefix_set_add N) ns ps)) = set (ps_v6_lengths ps) \<union> {net_prefix_len N n | n. n \<in> set ns \<and> \<not> is_ipv4 (net_addr N n)}"
  by (induction ns arbitrary: ps) (auto simp: prefix_set_add_def Let_def)

lemma prefix_set_contains_iff:
  assumes N: "ipnet_ok N"
  shows "prefix_set_contains (prefix_set_compile N ns) a \<longleftrightarrow> (\<exists>n\<in>set ns. net_contains N n a)"
proof -
  let ?ps = "prefix_set_compile N ns"
  have ks: "set (if is_ipv4 a then ps_v4_lengths ?ps else ps_v6_lengths ?ps) = {net_prefix_len N n | n. n \<in> set ns \<and> is_ipv4 (net_addr N n) = is_ipv4 a}"
    "ps_prefixes ?ps = {(net_prefix_len N n, net_network N n) | n. n \<in> set ns}"
    by (auto simp: prefix_set_compile_def Let_def prepare_prefix_lengths_spec prefix_set_fold)
  have fam: "is_ipv4 (net_network N n) = is_ipv4 (net_addr N n)" for n by (simp add: net_network_masked [OF N])
  show ?thesis (is "?lhs = ?rhs")
  proof
    assume ?lhs
    then obtain k n where "n \<in> set ns" "k = net_prefix_len N n" "masked_address a k = net_network N n"
      by (auto simp: prefix_set_contains_def list_ex_iff ks simp del: if_image_distrib)
    then show ?rhs using fam [of n] masked_family(1) [of a k] net_contains_masked [OF N, of n a] by auto
  next
    assume ?rhs
    then obtain n where n: "n \<in> set ns" "net_contains N n a" by blast
    then have "net_prefix_len N n \<in> set (if is_ipv4 a then ps_v4_lengths ?ps else ps_v6_lengths ?ps)"
      "(net_prefix_len N n, masked_address a (net_prefix_len N n)) \<in> ps_prefixes ?ps"
      unfolding ks using net_contains_masked [OF N, of n a] by auto
    then show ?lhs unfolding prefix_set_contains_def list_ex_iff by blast
  qed
qed

section \<open>Duplicate checks\<close>

lemma remdups_adj_same_length: "length (remdups_adj xs) = length xs \<Longrightarrow> remdups_adj xs = xs"
proof (induction xs rule: remdups_adj.induct)
  case (3 x y xs)
  then show ?case using remdups_adj_length [of "y # xs"] by (auto split: if_splits)
qed simp_all

lemma distinct_sort_key:
  fixes k :: "'a \<Rightarrow> 'b::linorder"
  assumes "inj k"
  shows "length (remdups_adj (sort_key k xs)) = length (sort_key k xs) \<longleftrightarrow> distinct xs"
    "distinct (remdups_adj (sort_key k xs))"
proof -
  have "sorted (map k ys) \<Longrightarrow> distinct (remdups_adj ys)" for ys
  proof (induction ys rule: remdups_adj.induct)
    case (3 x y ys)
    have "x \<notin> set (y # ys)" if "x \<noteq> y"
    proof
      assume "x \<in> set (y # ys)"
      then have "k y \<le> k x" "k x \<le> k y" using 3(3) by auto
      then show False using injD [OF assms, of x y] that by simp
    qed
    then show ?case using 3 by auto
  qed simp_all
  then show d: "distinct (remdups_adj (sort_key k xs))" by simp
  show "length (remdups_adj (sort_key k xs)) = length (sort_key k xs) \<longleftrightarrow> distinct xs"
    using d remdups_adj_same_length [of "sort_key k xs"] by (metis distinct_sort remdups_adj_distinct)
qed

lemma prefix_key_inj: "ipnet_ok N \<Longrightarrow> inj (prefix_key N)"
  by (auto intro!: injI dest: net_eqI simp: prefix_key_def)

lemma validate_prefix_set_Inr:
  assumes "ipnet_ok N"
  shows "validate_prefix_set N ns allow = Inr u \<longleftrightarrow> distinct ns \<and>
    (\<forall>n\<in>set ns. net_addr N n = net_network N n \<and> (allow \<or> net_prefix_len N n \<noteq> 0))"
  using distinct_sort_key(1) [OF prefix_key_inj [OF assms], of ns]
  by (auto simp: validate_prefix_set_def result_iff Let_def)

end
