(* ===== verification/Feedback.thy ===== *)
theory Feedback
  imports Prelude Interfaces
begin

text \<open>
  The fixed-layout control records: cumulative receive-side counters (\<open>FecFeedbackV2\<close> of
  \<open>src/src/protocol/v2/feedback.rs\<close>), destination-confirmed route delivery
  (\<open>RouteDeliveryFeedbackV2\<close> of \<open>route_feedback.rs\<close>) and cover padding (\<open>CoverPaddingV2\<close> of
  \<open>cover.rs\<close>), with their round trips, the legacy length of the first and the sizes of the last.
\<close>

section \<open>Receive-side counters\<close>

definition FEEDBACK_MAGIC :: bytes where "FEEDBACK_MAGIC = [0x46, 0x42, 0x56, 0x32]"
definition LEGACY_WIRE_LEN :: nat where "LEGACY_WIRE_LEN = 84"
definition FEEDBACK_WIRE_LEN :: nat where "FEEDBACK_WIRE_LEN = 148"

record fec_feedback =
  fb_sequence :: u64
  fb_parity_received :: u64
  fb_recovered_cells :: u64
  fb_wasted_parity :: u64
  fb_repair_requested_cells :: u64
  fb_repair_received_cells :: u64
  fb_repair_completed_requests :: u64
  fb_repair_completed_requested_cells :: u64
  fb_repair_latency_micros :: u64
  fb_expired_stripes :: u64
  fb_delivered_payload_bytes :: u64
  fb_reorder_cells :: u64
  fb_missing_cells :: u64
  fb_loss_run_1 :: u64
  fb_loss_run_2 :: u64
  fb_loss_run_3_4 :: u64
  fb_loss_run_5_plus :: u64
  fb_reassembly_expired_trains :: u64

definition feedback_is_record :: "bytes \<Rightarrow> bool" where
  "feedback_is_record bs = (take 4 bs = FEEDBACK_MAGIC)"

definition feedback_encode :: "fec_feedback \<Rightarrow> bytes result" where
  "feedback_encode f =
     ensure (fb_sequence f \<noteq> 0) ''V2 FEC feedback sequence zero is reserved'' (
     Inr (FEEDBACK_MAGIC @ put_u64 (fb_sequence f) @ put_u64 (fb_parity_received f) @
       put_u64 (fb_recovered_cells f) @ put_u64 (fb_wasted_parity f) @
       put_u64 (fb_repair_requested_cells f) @ put_u64 (fb_repair_received_cells f) @
       put_u64 (fb_repair_completed_requests f) @ put_u64 (fb_repair_completed_requested_cells f) @
       put_u64 (fb_repair_latency_micros f) @ put_u64 (fb_expired_stripes f) @
       put_u64 (fb_delivered_payload_bytes f) @ put_u64 (fb_reorder_cells f) @
       put_u64 (fb_missing_cells f) @ put_u64 (fb_loss_run_1 f) @ put_u64 (fb_loss_run_2 f) @
       put_u64 (fb_loss_run_3_4 f) @ put_u64 (fb_loss_run_5_plus f) @
       put_u64 (fb_reassembly_expired_trains f)))"

text \<open>The closure \<open>next\<close> of the decoder: the \<open>i\<close>-th counter after the magic.\<close>

definition counter_at :: "bytes \<Rightarrow> nat \<Rightarrow> u64" where
  "counter_at bs i = get_u64 (slice (4 + 8 * i) (12 + 8 * i) bs)"

definition feedback_decode :: "bytes \<Rightarrow> fec_feedback result" where
  "feedback_decode bs =
     ensure (length bs = LEGACY_WIRE_LEN \<or> length bs = FEEDBACK_WIRE_LEN) ''invalid V2 FEC feedback length'' (
     ensure (slice 0 4 bs = FEEDBACK_MAGIC) ''invalid V2 FEC feedback magic'' (
     let full = (length bs = FEEDBACK_WIRE_LEN);
         f = \<lparr> fb_sequence = counter_at bs 0, fb_parity_received = counter_at bs 1,
           fb_recovered_cells = counter_at bs 2, fb_wasted_parity = counter_at bs 3,
           fb_repair_requested_cells = counter_at bs 4, fb_repair_received_cells = counter_at bs 5,
           fb_repair_completed_requests = counter_at bs 6, fb_repair_completed_requested_cells = counter_at bs 7,
           fb_repair_latency_micros = counter_at bs 8, fb_expired_stripes = counter_at bs 9,
           fb_delivered_payload_bytes = (if full then counter_at bs 10 else 0),
           fb_reorder_cells = (if full then counter_at bs 11 else 0),
           fb_missing_cells = (if full then counter_at bs 12 else 0),
           fb_loss_run_1 = (if full then counter_at bs 13 else 0),
           fb_loss_run_2 = (if full then counter_at bs 14 else 0),
           fb_loss_run_3_4 = (if full then counter_at bs 15 else 0),
           fb_loss_run_5_plus = (if full then counter_at bs 16 else 0),
           fb_reassembly_expired_trains = (if full then counter_at bs 17 else 0) \<rparr> in
     ensure (fb_sequence f \<noteq> 0) ''V2 FEC feedback sequence zero is reserved'' (Inr f)))"

section \<open>Route delivery feedback\<close>

definition ROUTE_FEEDBACK_MAGIC :: bytes where "ROUTE_FEEDBACK_MAGIC = [0x52, 0x44, 0x56, 0x32]"
definition ROUTE_FEEDBACK_WIRE_LEN :: nat where "ROUTE_FEEDBACK_WIRE_LEN = 36"

text \<open>\<open>RouteLabelV2\<close> is its number.\<close>

definition route_label_new :: "u32 \<Rightarrow> u32 result" where
  "route_label_new v = ensure (v \<noteq> 0) ''V2 route label zero is reserved'' (Inr v)"

record route_feedback =
  rf_sequence :: u64
  rf_route_epoch :: u32
  rf_route_label :: u32
  rf_delivered_payload_bytes :: u64
  rf_interval_micros :: u64

definition route_feedback_is_record :: "bytes \<Rightarrow> bool" where
  "route_feedback_is_record bs = (take 4 bs = ROUTE_FEEDBACK_MAGIC)"

definition route_feedback_encode :: "route_feedback \<Rightarrow> bytes result" where
  "route_feedback_encode f =
     ensure (rf_sequence f \<noteq> 0) ''V2 route feedback sequence zero is reserved'' (
     ensure (rf_route_epoch f \<noteq> 0) ''V2 route feedback epoch zero is reserved'' (
     bindR (route_label_new (rf_route_label f)) (\<lambda>_.
     ensure (rf_interval_micros f \<noteq> 0) ''V2 route feedback interval is zero'' (
     Inr (ROUTE_FEEDBACK_MAGIC @ put_u64 (rf_sequence f) @ put_u32 (rf_route_epoch f) @
       put_u32 (rf_route_label f) @ put_u64 (rf_delivered_payload_bytes f) @ put_u64 (rf_interval_micros f))))))"

definition route_feedback_decode :: "bytes \<Rightarrow> route_feedback result" where
  "route_feedback_decode bs =
     ensure (length bs = ROUTE_FEEDBACK_WIRE_LEN) ''invalid V2 route feedback length'' (
     ensure (slice 0 4 bs = ROUTE_FEEDBACK_MAGIC) ''invalid V2 route feedback magic'' (
     bindR (route_label_new (get_u32 (slice 16 20 bs))) (\<lambda>label.
     let f = \<lparr> rf_sequence = get_u64 (slice 4 12 bs), rf_route_epoch = get_u32 (slice 12 16 bs),
               rf_route_label = label, rf_delivered_payload_bytes = get_u64 (slice 20 28 bs),
               rf_interval_micros = get_u64 (slice 28 36 bs) \<rparr> in
     ensure (rf_sequence f \<noteq> 0) ''V2 route feedback sequence zero is reserved'' (
     ensure (rf_route_epoch f \<noteq> 0) ''V2 route feedback epoch zero is reserved'' (
     ensure (rf_interval_micros f \<noteq> 0) ''V2 route feedback interval is zero'' (Inr f))))))"

text \<open>The product is computed in \<open>u128\<close>, where \<open>(2 ^ 64 - 1) * 8000000\<close> does not saturate.\<close>

definition delivery_rate_bps :: "route_feedback \<Rightarrow> nat" where
  "delivery_rate_bps f = min (unat (rf_delivered_payload_bytes f) * 8000000 div unat (rf_interval_micros f)) (2 ^ 64 - 1)"

section \<open>Cover padding\<close>

definition COVER_MAGIC :: bytes where "COVER_MAGIC = [0x50, 0x43, 0x56, 0x32]"
definition COVER_HEADER_LEN :: nat where "COVER_HEADER_LEN = 20"
definition SMALL_FEEDBACK_BYTES :: nat where "SMALL_FEEDBACK_BYTES = 128"
definition MEDIUM_CONTROL_BYTES :: nat where "MEDIUM_CONTROL_BYTES = 512"

datatype cover_profile = Idle | LiveBroadcast | InteractiveVideo | GenericH3Bulk

record cover_padding =
  cp_profile :: cover_profile
  cp_session_epoch :: u32
  cp_sequence :: u64

definition cover_is_record :: "bytes \<Rightarrow> bool" where
  "cover_is_record bs = (take 4 bs = COVER_MAGIC)"

fun profile_to_wire :: "cover_profile \<Rightarrow> u8" where
  "profile_to_wire Idle = 0"
| "profile_to_wire LiveBroadcast = 1"
| "profile_to_wire InteractiveVideo = 2"
| "profile_to_wire GenericH3Bulk = 3"

definition profile_from_wire :: "u8 \<Rightarrow> cover_profile result" where
  "profile_from_wire v =
     (if v = 0 then Inr Idle else if v = 1 then Inr LiveBroadcast else if v = 2 then Inr InteractiveVideo
      else if v = 3 then Inr GenericH3Bulk else Inl (Err ''unknown V2 cover traffic profile''))"

definition cover_header :: "cover_padding \<Rightarrow> bytes" where
  "cover_header c = COVER_MAGIC @ put_u8 1 @ put_u8 (profile_to_wire (cp_profile c)) @ put_u16 0 @
     put_u32 (cp_session_epoch c) @ put_u64 (cp_sequence c)"

definition cover_encode :: "nat \<Rightarrow> nat \<Rightarrow> cover_padding \<Rightarrow> bytes result" where
  "cover_encode target maximum c =
     ensure (cp_session_epoch c \<noteq> 0) ''V2 cover session epoch zero is reserved'' (
     ensure (COVER_HEADER_LEN \<le> target \<and> target \<le> maximum) ''V2 cover padding size is outside the path limit'' (
     Inr (cover_header c @ replicate (target - COVER_HEADER_LEN) 0)))"

definition cover_decode :: "u32 \<Rightarrow> bytes \<Rightarrow> cover_padding result" where
  "cover_decode expected bs =
     ensure (COVER_HEADER_LEN \<le> length bs) ''truncated V2 cover padding'' (
     ensure (slice 0 4 bs = COVER_MAGIC) ''invalid V2 cover padding magic'' (
     ensure (bs ! 4 = 1) ''unsupported V2 cover padding version'' (
     ensure (slice 6 8 bs = [0, 0]) ''unsupported V2 cover padding flags'' (
     let epoch = get_u32 (slice 8 12 bs) in
     ensure (epoch = expected) ''V2 cover padding belongs to another session epoch'' (
     bindR (profile_from_wire (bs ! 5)) (\<lambda>profile.
     Inr \<lparr> cp_profile = profile, cp_session_epoch = epoch, cp_sequence = get_u64 (slice 12 20 bs) \<rparr>))))))"

definition target_size :: "nat \<Rightarrow> cover_padding \<Rightarrow> nat" where
  "target_size maximum c =
     (let small = min SMALL_FEEDBACK_BYTES maximum; medium = min MEDIUM_CONTROL_BYTES maximum;
          q = unat (cp_sequence c) in
      max (case cp_profile c of
             Idle \<Rightarrow> COVER_HEADER_LEN
           | LiveBroadcast \<Rightarrow> if q mod 8 = 0 then small else maximum
           | InteractiveVideo \<Rightarrow> if q mod 3 = 0 then medium else maximum
           | GenericH3Bulk \<Rightarrow> if q mod 4 = 0 then medium else maximum) COVER_HEADER_LEN)"

section \<open>Round trips\<close>

lemma magic_length [simp]:
  "length FEEDBACK_MAGIC = 4" "length ROUTE_FEEDBACK_MAGIC = 4" "length COVER_MAGIC = 4"
  by (simp_all add: FEEDBACK_MAGIC_def ROUTE_FEEDBACK_MAGIC_def COVER_MAGIC_def)

lemma feedback_encode_Inr:
  "feedback_encode f = Inr bs \<Longrightarrow> length bs = FEEDBACK_WIRE_LEN \<and> slice 0 4 bs = FEEDBACK_MAGIC \<and> fb_sequence f \<noteq> 0"
  by (auto simp: feedback_encode_def result_iff FEEDBACK_WIRE_LEN_def slice_layout)

interpretation feedback_wire: wire_format feedback_encode feedback_decode
proof
  fix f bs assume enc: "feedback_encode f = Inr bs"
  note e = feedback_encode_Inr [OF enc]
  have bs: "bs = FEEDBACK_MAGIC @ put_u64 (fb_sequence f) @ put_u64 (fb_parity_received f) @
       put_u64 (fb_recovered_cells f) @ put_u64 (fb_wasted_parity f) @
       put_u64 (fb_repair_requested_cells f) @ put_u64 (fb_repair_received_cells f) @
       put_u64 (fb_repair_completed_requests f) @ put_u64 (fb_repair_completed_requested_cells f) @
       put_u64 (fb_repair_latency_micros f) @ put_u64 (fb_expired_stripes f) @
       put_u64 (fb_delivered_payload_bytes f) @ put_u64 (fb_reorder_cells f) @
       put_u64 (fb_missing_cells f) @ put_u64 (fb_loss_run_1 f) @ put_u64 (fb_loss_run_2 f) @
       put_u64 (fb_loss_run_3_4 f) @ put_u64 (fb_loss_run_5_plus f) @
       put_u64 (fb_reassembly_expired_trains f)"
    using enc by (auto simp: feedback_encode_def result_iff)
  have "counter_at bs 0 = fb_sequence f" "counter_at bs 1 = fb_parity_received f" "counter_at bs 2 = fb_recovered_cells f"
    "counter_at bs 3 = fb_wasted_parity f" "counter_at bs 4 = fb_repair_requested_cells f" "counter_at bs 5 = fb_repair_received_cells f"
    "counter_at bs 6 = fb_repair_completed_requests f" "counter_at bs 7 = fb_repair_completed_requested_cells f"
    "counter_at bs 8 = fb_repair_latency_micros f" "counter_at bs 9 = fb_expired_stripes f"
    "counter_at bs 10 = fb_delivered_payload_bytes f" "counter_at bs 11 = fb_reorder_cells f" "counter_at bs 12 = fb_missing_cells f"
    "counter_at bs 13 = fb_loss_run_1 f" "counter_at bs 14 = fb_loss_run_2 f" "counter_at bs 15 = fb_loss_run_3_4 f"
    "counter_at bs 16 = fb_loss_run_5_plus f" "counter_at bs 17 = fb_reassembly_expired_trains f"
    unfolding bs counter_at_def by (simp_all add: slice_layout)
  with e show "feedback_decode bs = Inr f" by (simp add: feedback_decode_def)
qed


lemma put_counter: "12 + 8 * i \<le> length bs \<Longrightarrow> put_u64 (counter_at bs i) = slice (4 + 8 * i) (12 + 8 * i) bs"
  by (simp add: counter_at_def put_get_u64)

lemma feedback_encode_decode:
  assumes "feedback_decode bs = Inr f" "length bs = FEEDBACK_WIRE_LEN"
  shows "feedback_encode f = Inr bs"
proof -
  have len: "length bs = 148" using assms(2) by (simp add: FEEDBACK_WIRE_LEN_def)
  have join: "slice 0 4 bs @ slice 4 12 bs @ slice 12 20 bs @ slice 20 28 bs @ slice 28 36 bs @ slice 36 44 bs @
    slice 44 52 bs @ slice 52 60 bs @ slice 60 68 bs @ slice 68 76 bs @ slice 76 84 bs @ slice 84 92 bs @
    slice 92 100 bs @ slice 100 108 bs @ slice 108 116 bs @ slice 116 124 bs @ slice 124 132 bs @
    slice 132 140 bs @ slice 140 148 bs = bs"
    by (simp add: slice_join slice_full len)
  have "slice 0 4 bs = FEEDBACK_MAGIC" using assms(1) by (simp add: feedback_decode_def result_iff)
  note join = join [unfolded this]
  from assms(1) show ?thesis
    by (auto simp: feedback_encode_def feedback_decode_def result_iff Let_def put_counter len join FEEDBACK_WIRE_LEN_def
        simp del: One_nat_def)
qed

interpretation route_feedback_wire: canonical_format route_feedback_encode route_feedback_decode
proof
  fix f bs assume "route_feedback_encode f = Inr bs"
  then show "route_feedback_decode bs = Inr f"
    by (auto simp: route_feedback_encode_def route_feedback_decode_def route_label_new_def result_iff
        ROUTE_FEEDBACK_WIRE_LEN_def slice_layout)
next
  fix f bs assume dec: "route_feedback_decode bs = Inr f"
  then have len: "length bs = 36" by (simp add: route_feedback_decode_def result_iff ROUTE_FEEDBACK_WIRE_LEN_def)
  have join: "slice 0 4 bs @ slice 4 12 bs @ slice 12 16 bs @ slice 16 20 bs @ slice 20 28 bs @ slice 28 36 bs = bs"
    by (simp add: slice_join slice_full len)
  have "slice 0 4 bs = ROUTE_FEEDBACK_MAGIC" using dec by (simp add: route_feedback_decode_def result_iff)
  note join = join [unfolded this]
  from dec show "route_feedback_encode f = Inr bs"
    by (auto simp: route_feedback_encode_def route_feedback_decode_def route_label_new_def result_iff Let_def
        put_get_u64 put_get_u32 len join ROUTE_FEEDBACK_WIRE_LEN_def)
qed

lemma profile_wire [simp]: "profile_from_wire (profile_to_wire p) = Inr p"
  by (cases p) (simp_all add: profile_from_wire_def)

lemma cover_decode_encode:
  assumes "cover_encode target maximum c = Inr bs"
  shows "cover_decode (cp_session_epoch c) bs = Inr c \<and> length bs = target \<and> cover_is_record bs"
proof -
  have bs: "bs = COVER_MAGIC @ put_u8 1 @ put_u8 (profile_to_wire (cp_profile c)) @ put_u16 0 @
     put_u32 (cp_session_epoch c) @ put_u64 (cp_sequence c) @ replicate (target - 20) 0" and t: "20 \<le> target"
    using assms by (auto simp: cover_encode_def cover_header_def result_iff COVER_HEADER_LEN_def)
  have "bs ! 4 = 1" "bs ! 5 = profile_to_wire (cp_profile c)" "slice 6 8 bs = [0, 0]"
    unfolding bs by (simp_all add: nth_append put_u8_def slice_layout) (simp add: put_u16_def be_of_nat_eval slice_def)
  moreover have "slice 0 4 bs = COVER_MAGIC" "get_u32 (slice 8 12 bs) = cp_session_epoch c"
    "get_u64 (slice 12 20 bs) = cp_sequence c"
    unfolding bs by (simp_all add: slice_layout)
  moreover have "length bs = target" using t by (simp add: bs)
  moreover have "take 4 bs = COVER_MAGIC" by (simp add: bs)
  ultimately show ?thesis
    using t by (simp add: cover_decode_def COVER_HEADER_LEN_def cover_is_record_def)
qed

lemma target_size_bounds:
  assumes "COVER_HEADER_LEN \<le> maximum"
  shows "COVER_HEADER_LEN \<le> target_size maximum c \<and> target_size maximum c \<le> maximum"
  using assms by (auto simp: target_size_def Let_def split: cover_profile.splits)


section \<open>Properties\<close>

definition demo_feedback :: fec_feedback where
  "demo_feedback = \<lparr> fb_sequence = 1, fb_parity_received = 2, fb_recovered_cells = 3, fb_wasted_parity = 4,
     fb_repair_requested_cells = 5, fb_repair_received_cells = 6, fb_repair_completed_requests = 7,
     fb_repair_completed_requested_cells = 8, fb_repair_latency_micros = 9, fb_expired_stripes = 10,
     fb_delivered_payload_bytes = 11, fb_reorder_cells = 12, fb_missing_cells = 13, fb_loss_run_1 = 14,
     fb_loss_run_2 = 15, fb_loss_run_3_4 = 16, fb_loss_run_5_plus = 17, fb_reassembly_expired_trains = 18 \<rparr>"

lemma demo_feedback_encodes: "\<exists>bs. feedback_encode demo_feedback = Inr bs"
  by (simp add: feedback_encode_def demo_feedback_def)

lemma counter_at_take: "12 + 8 * i \<le> n \<Longrightarrow> counter_at (take n bs) i = counter_at bs i"
  by (simp add: counter_at_def slice_def drop_take min_def)

text \<open>C24. Feedback records survive the wire and the version change: decoding an encoded record gives it
  back, a full-length record is the unique encoding of what it decodes to, and a receiver handed
  the legacy prefix reads the same first ten counters and zero for the rest.\<close>

theorem feedback_versions:
  assumes "feedback_encode f = Inr bs"
  shows "feedback_decode bs = Inr f \<and> (\<forall>other. length other = FEEDBACK_WIRE_LEN \<and> feedback_decode other = Inr f \<longrightarrow> other = bs) \<and>
    feedback_decode (take LEGACY_WIRE_LEN bs) = Inr (f\<lparr> fb_delivered_payload_bytes := 0, fb_reorder_cells := 0,
      fb_missing_cells := 0, fb_loss_run_1 := 0, fb_loss_run_2 := 0, fb_loss_run_3_4 := 0, fb_loss_run_5_plus := 0,
      fb_reassembly_expired_trains := 0 \<rparr>)"
proof -
  have dec: "feedback_decode bs = Inr f" by (rule feedback_wire.dec_enc [OF assms])
  note e = feedback_encode_Inr [OF assms]
  have "slice 0 4 (take 84 bs) = slice 0 4 bs" by (simp add: slice_def)
  then have "feedback_decode (take LEGACY_WIRE_LEN bs) = Inr (f\<lparr> fb_delivered_payload_bytes := 0, fb_reorder_cells := 0,
      fb_missing_cells := 0, fb_loss_run_1 := 0, fb_loss_run_2 := 0, fb_loss_run_3_4 := 0, fb_loss_run_5_plus := 0,
      fb_reassembly_expired_trains := 0 \<rparr>)"
    using dec e
    by (auto simp: feedback_decode_def LEGACY_WIRE_LEN_def FEEDBACK_WIRE_LEN_def counter_at_take Let_def result_iff
        simp del: One_nat_def)
  with dec feedback_encode_decode assms show ?thesis by auto
qed

theorem feedback_versions_witness:
  "\<exists>bs. feedback_encode demo_feedback = Inr bs \<and> feedback_decode bs = Inr demo_feedback \<and>
     (\<exists>old. feedback_decode (take 84 bs) = Inr old \<and> fb_expired_stripes old = 10 \<and> fb_loss_run_1 old = 0)"
proof -
  obtain bs where bs: "feedback_encode demo_feedback = Inr bs" using demo_feedback_encodes ..
  from feedback_versions [OF bs] bs show ?thesis by (auto simp: LEGACY_WIRE_LEN_def demo_feedback_def)
qed

text \<open>C25. Cover padding: for every profile and sequence number the chosen size lies between the header
  and the path limit, encoding at that size succeeds within the limit, and the peer in the same
  session recovers the header while one in another session rejects it.\<close>

theorem cover_padding_roundtrip:
  assumes "COVER_HEADER_LEN \<le> maximum" and "cp_session_epoch c \<noteq> 0"
  shows "\<exists>bs. cover_encode (target_size maximum c) maximum c = Inr bs \<and> length bs = target_size maximum c \<and>
    length bs \<le> maximum \<and> cover_is_record bs \<and> cover_decode (cp_session_epoch c) bs = Inr c \<and>
    (\<forall>epoch. epoch \<noteq> cp_session_epoch c \<longrightarrow> \<not> is_ok (cover_decode epoch bs))"
proof -
  have t: "COVER_HEADER_LEN \<le> target_size maximum c" "target_size maximum c \<le> maximum"
    using target_size_bounds [OF assms(1)] by auto
  then obtain bs where enc: "cover_encode (target_size maximum c) maximum c = Inr bs"
    using assms(2) by (simp add: cover_encode_def)
  note dec = cover_decode_encode [OF enc]
  then have "get_u32 (slice 8 12 bs) = cp_session_epoch c" by (auto simp: cover_decode_def result_iff Let_def)
  then have "\<not> is_ok (cover_decode epoch bs)" if "epoch \<noteq> cp_session_epoch c" for epoch
    using that by (simp add: cover_decode_def result_iff Let_def)
  with enc dec t show ?thesis by auto
qed

theorem cover_padding_roundtrip_witness:
  "\<exists>bs. cover_encode (target_size 1200 \<lparr> cp_profile = LiveBroadcast, cp_session_epoch = 7, cp_sequence = 16 \<rparr>) 1200
       \<lparr> cp_profile = LiveBroadcast, cp_session_epoch = 7, cp_sequence = 16 \<rparr> = Inr bs \<and> length bs = 128"
proof -
  let ?c = "\<lparr> cp_profile = LiveBroadcast, cp_session_epoch = 7, cp_sequence = 16 \<rparr>"
  have "target_size 1200 ?c = 128" by (simp add: target_size_def SMALL_FEEDBACK_BYTES_def COVER_HEADER_LEN_def Let_def)
  with cover_padding_roundtrip [of 1200 ?c] show ?thesis by (auto simp: COVER_HEADER_LEN_def)
qed

end
