(* ===== verification/Snapshot.thy ===== *)
theory Snapshot
  imports Prefixes Feedback Cell
begin

text \<open>
  The immutable data-plane view of \<open>src/src/protocol/v2/routing.rs\<close>: operation and maintenance (OAM) records,
  route advertisements, the compiled snapshot with its prefix lookup and its label dispatch, and
  the store that publishes snapshots and keeps two drained ones.
\<close>

section \<open>OAM records\<close>

definition OAM_MAGIC :: bytes where "OAM_MAGIC = [0x4F, 0x45, 0x56, 0x32]"
definition OAM_VERSION :: u8 where "OAM_VERSION = 1"
definition OAM_TTL_EXPIRED :: u8 where "OAM_TTL_EXPIRED = 1"
definition OAM_PATH_MTU_EXCEEDED :: u8 where "OAM_PATH_MTU_EXCEEDED = 2"
definition OAM_TTL_EXPIRED_LEN :: nat where "OAM_TTL_EXPIRED_LEN = 72"
definition OAM_PATH_MTU_EXCEEDED_LEN :: nat where "OAM_PATH_MTU_EXCEEDED_LEN = 76"

definition adjacency_new :: "u32 \<Rightarrow> adjacency_id result" where
  "adjacency_new v = ensure (v \<noteq> 0) ''V2 adjacency ID zero is reserved'' (Inr v)"

text \<open>A node identifier is the 32 bytes of a public key.\<close>

type_synonym node_id = bytes

record oam_ttl_expired =
  ot_snapshot_generation :: u64
  ot_route_epoch :: u32
  ot_route_label :: route_label
  ot_train_id :: u64
  ot_cell_sequence :: u16
  ot_ingress_hop_limit :: u8
  ot_traversed_hops :: u8
  ot_incoming :: adjacency_id
  ot_reporter :: node_id

definition oam_ttl_validate :: "oam_ttl_expired \<Rightarrow> unit result" where
  "oam_ttl_validate r =
     ensure (ot_snapshot_generation r \<noteq> 0) ''V2 OAM generation zero is reserved'' (
     ensure (ot_route_epoch r \<noteq> 0) ''V2 OAM route epoch zero is reserved'' (
     bindR (route_label_new (ot_route_label r)) (\<lambda>_.
     bindR (adjacency_new (ot_incoming r)) (\<lambda>_.
     ensure (ot_train_id r \<noteq> 0) ''V2 OAM train ID zero is reserved'' (
     ensure (ot_ingress_hop_limit r \<noteq> 0) ''V2 OAM ingress hop limit is zero'' (
     ensure (ot_ingress_hop_limit r \<le> ot_traversed_hops r) ''V2 TTL-expired OAM was emitted before expiry'' (
     Inr ())))))))"

definition oam_ttl_encode :: "oam_ttl_expired \<Rightarrow> bytes result" where
  "oam_ttl_encode r =
     bindR (oam_ttl_validate r) (\<lambda>_.
     Inr (OAM_MAGIC @ put_u8 OAM_VERSION @ put_u8 OAM_TTL_EXPIRED @ put_u16 0 @ put_u64 (ot_snapshot_generation r) @
       put_u32 (ot_route_epoch r) @ put_u32 (ot_route_label r) @ put_u64 (ot_train_id r) @ put_u16 (ot_cell_sequence r) @
       put_u8 (ot_ingress_hop_limit r) @ put_u8 (ot_traversed_hops r) @ put_u32 (ot_incoming r) @ ot_reporter r))"

definition oam_ttl_decode :: "bytes \<Rightarrow> oam_ttl_expired result" where
  "oam_ttl_decode bs =
     ensure (length bs = OAM_TTL_EXPIRED_LEN) ''invalid V2 OAM length'' (
     ensure (slice 0 4 bs = OAM_MAGIC) ''invalid V2 OAM magic'' (
     ensure (bs ! 4 = OAM_VERSION) ''unsupported V2 OAM version'' (
     ensure (bs ! 5 = OAM_TTL_EXPIRED) ''unsupported V2 OAM reason'' (
     ensure (slice 6 8 bs = [0, 0]) ''non-zero V2 OAM reserved field'' (
     let value = \<lparr> ot_snapshot_generation = get_u64 (slice 8 16 bs), ot_route_epoch = get_u32 (slice 16 20 bs),
           ot_route_label = get_u32 (slice 20 24 bs), ot_train_id = get_u64 (slice 24 32 bs),
           ot_cell_sequence = get_u16 (slice 32 34 bs), ot_ingress_hop_limit = bs ! 34, ot_traversed_hops = bs ! 35,
           ot_incoming = get_u32 (slice 36 40 bs), ot_reporter = slice 40 72 bs \<rparr> in
     bindR (oam_ttl_validate value) (\<lambda>_. Inr value))))))"

record oam_path_mtu =
  om_snapshot_generation :: u64
  om_route_epoch :: u32
  om_route_label :: route_label
  om_train_id :: u64
  om_cell_sequence :: u16
  om_observed_datagram_size :: u16
  om_maximum_datagram_size :: u16
  om_incoming :: adjacency_id
  om_reporter :: node_id

definition oam_mtu_validate :: "oam_path_mtu \<Rightarrow> unit result" where
  "oam_mtu_validate r =
     ensure (om_snapshot_generation r \<noteq> 0) ''V2 path-MTU OAM generation zero is reserved'' (
     ensure (om_route_epoch r \<noteq> 0) ''V2 path-MTU OAM route epoch zero is reserved'' (
     bindR (route_label_new (om_route_label r)) (\<lambda>_.
     bindR (adjacency_new (om_incoming r)) (\<lambda>_.
     ensure (om_train_id r \<noteq> 0) ''V2 path-MTU OAM train ID zero is reserved'' (
     ensure (HEADER_LEN < unat (om_maximum_datagram_size r)) ''V2 path-MTU OAM ceiling is too small'' (
     ensure (om_maximum_datagram_size r < om_observed_datagram_size r) ''V2 path-MTU OAM did not exceed the path ceiling'' (
     Inr ())))))))"

definition oam_mtu_encode :: "oam_path_mtu \<Rightarrow> bytes result" where
  "oam_mtu_encode r =
     bindR (oam_mtu_validate r) (\<lambda>_.
     Inr (OAM_MAGIC @ put_u8 OAM_VERSION @ put_u8 OAM_PATH_MTU_EXCEEDED @ put_u16 0 @ put_u64 (om_snapshot_generation r) @
       put_u32 (om_route_epoch r) @ put_u32 (om_route_label r) @ put_u64 (om_train_id r) @ put_u16 (om_cell_sequence r) @
       put_u16 (om_observed_datagram_size r) @ put_u16 (om_maximum_datagram_size r) @ put_u16 0 @
       put_u32 (om_incoming r) @ om_reporter r))"

definition oam_mtu_decode :: "bytes \<Rightarrow> oam_path_mtu result" where
  "oam_mtu_decode bs =
     ensure (length bs = OAM_PATH_MTU_EXCEEDED_LEN) ''invalid V2 path-MTU OAM length'' (
     ensure (slice 0 4 bs = OAM_MAGIC) ''invalid V2 OAM magic'' (
     ensure (bs ! 4 = OAM_VERSION) ''unsupported V2 OAM version'' (
     ensure (bs ! 5 = OAM_PATH_MTU_EXCEEDED) ''unsupported V2 OAM reason'' (
     ensure (slice 6 8 bs = [0, 0]) ''non-zero V2 OAM reserved field'' (
     ensure (slice 38 40 bs = [0, 0]) ''non-zero V2 path-MTU OAM reserved field'' (
     let value = \<lparr> om_snapshot_generation = get_u64 (slice 8 16 bs), om_route_epoch = get_u32 (slice 16 20 bs),
           om_route_label = get_u32 (slice 20 24 bs), om_train_id = get_u64 (slice 24 32 bs),
           om_cell_sequence = get_u16 (slice 32 34 bs), om_observed_datagram_size = get_u16 (slice 34 36 bs),
           om_maximum_datagram_size = get_u16 (slice 36 38 bs), om_incoming = get_u32 (slice 40 44 bs),
           om_reporter = slice 44 76 bs \<rparr> in
     bindR (oam_mtu_validate value) (\<lambda>_. Inr value)))))))"

datatype oam_control = TtlExpired oam_ttl_expired | PathMtuExceeded oam_path_mtu

definition oam_is_record :: "bytes \<Rightarrow> bool" where
  "oam_is_record bs \<longleftrightarrow> take 4 bs = OAM_MAGIC"

definition oam_decode :: "bytes \<Rightarrow> oam_control result" where
  "oam_decode bs =
     ensure (6 \<le> length bs) ''truncated V2 OAM record'' (
     ensure (slice 0 4 bs = OAM_MAGIC) ''invalid V2 OAM magic'' (
     ensure (bs ! 4 = OAM_VERSION) ''unsupported V2 OAM version'' (
     if bs ! 5 = OAM_TTL_EXPIRED then bindR (oam_ttl_decode bs) (\<lambda>r. Inr (TtlExpired r))
     else if bs ! 5 = OAM_PATH_MTU_EXCEEDED then bindR (oam_mtu_decode bs) (\<lambda>r. Inr (PathMtuExceeded r))
     else Inl (Err ''unsupported V2 OAM reason''))))"

section \<open>Route advertisements\<close>

definition ROUTE_MAGIC :: bytes where "ROUTE_MAGIC = [0x52, 0x41, 0x56, 0x32]"
definition ROUTE_VERSION :: u8 where "ROUTE_VERSION = 1"
definition ROUTE_HEADER_LEN :: nat where "ROUTE_HEADER_LEN = 16"
definition ENTRY_LEN :: nat where "ENTRY_LEN = 20"
definition MAX_ADVERTISED_PREFIXES :: nat where "MAX_ADVERTISED_PREFIXES = 256"
definition MAX_ROUTE_LABELS :: nat where "MAX_ROUTE_LABELS = 65536"
definition MAX_RETIRED_SNAPSHOTS :: nat where "MAX_RETIRED_SNAPSHOTS = 2"

record 'n route_advertisement =
  adv_generation :: u64
  adv_prefixes :: "'n list"

definition advertisement_validate :: "'n ipnet \<Rightarrow> bool \<Rightarrow> 'n route_advertisement \<Rightarrow> unit result" where
  "advertisement_validate N allow_default_routes adv =
     ensure (adv_generation adv \<noteq> 0) ''V2 route generation zero is reserved'' (
     ensure (length (adv_prefixes adv) \<le> MAX_ADVERTISED_PREFIXES) ''too many V2 advertised prefixes'' (
     let canonical = remdups_adj (sort_key (prefix_key N) (adv_prefixes adv)) in
     ensure (length canonical = length (adv_prefixes adv)) ''duplicate V2 advertised prefix'' (
     allR (\<lambda>n.
       ensure (net_addr N n = net_network N n) ''non-canonical V2 advertised prefix'' (
       ensure (allow_default_routes \<or> net_prefix_len N n \<noteq> 0) ''V2 default route was not explicitly enabled'' (
       ensure (\<not> is_unspecified (net_addr N n) \<or> net_prefix_len N n = 0) ''invalid V2 unspecified advertised prefix'' (
       Inr ())))) (adv_prefixes adv))))"

text \<open>The octets of an address, in network order, and back.\<close>

fun addr_octets :: "ip_addr \<Rightarrow> bytes" where
  "addr_octets (V4 a) = be_of_nat 4 (unat a)"
| "addr_octets (V6 a) = be_of_nat 16 (unat a)"

definition encode_prefix :: "'n ipnet \<Rightarrow> 'n \<Rightarrow> bytes" where
  "encode_prefix N n =
     (if is_ipv4 (net_addr N n) then
        put_u8 4 @ put_u8 (net_prefix_len N n) @ put_u16 0 @ addr_octets (net_network N n) @ replicate 12 0
      else put_u8 6 @ put_u8 (net_prefix_len N n) @ put_u16 0 @ addr_octets (net_network N n))"

definition advertisement_encode :: "'n ipnet \<Rightarrow> 'n route_advertisement \<Rightarrow> bytes result" where
  "advertisement_encode N adv =
     bindR (advertisement_validate N True adv) (\<lambda>_.
     Inr (ROUTE_MAGIC @ put_u8 ROUTE_VERSION @ put_u8 0 @ put_u16 (word_of_nat (length (adv_prefixes adv))) @
       put_u64 (adv_generation adv) @ concat (map (encode_prefix N) (adv_prefixes adv))))"

definition decode_prefix :: "'n ipnet \<Rightarrow> bytes \<Rightarrow> 'n result" where
  "decode_prefix N entry =
     ensure (slice 2 4 entry = [0, 0]) ''non-zero V2 route reserved field'' (
     if entry ! 0 = 4 then
       ensure (entry ! 1 \<le> 32) ''invalid V2 IPv4 prefix length'' (
       ensure (slice 8 20 entry = replicate 12 0) ''invalid V2 IPv4 padding'' (
       net_new N (V4 (word_of_nat (nat_of_be (slice 4 8 entry)))) (entry ! 1)))
     else if entry ! 0 = 6 then
       ensure (entry ! 1 \<le> 128) ''invalid V2 IPv6 prefix length'' (
       net_new N (V6 (word_of_nat (nat_of_be (slice 4 20 entry)))) (entry ! 1))
     else Inl (Err ''invalid V2 route address family''))"

text \<open>\<open>as_chunks\<close> on a byte string whose length is a multiple of the entry length.\<close>

fun prefix_chunks :: "nat \<Rightarrow> bytes \<Rightarrow> bytes list" where
  "prefix_chunks 0 bs = []"
| "prefix_chunks (Suc n) bs = take ENTRY_LEN bs # prefix_chunks n (drop ENTRY_LEN bs)"

definition advertisement_decode :: "'n ipnet \<Rightarrow> bytes \<Rightarrow> bool \<Rightarrow> 'n route_advertisement result" where
  "advertisement_decode N bs allow_default_routes =
     ensure (ROUTE_HEADER_LEN \<le> length bs) ''truncated V2 route advertisement'' (
     ensure (slice 0 4 bs = ROUTE_MAGIC) ''invalid V2 route advertisement magic'' (
     ensure (bs ! 4 = ROUTE_VERSION) ''unsupported V2 route advertisement version'' (
     ensure (bs ! 5 = 0) ''unsupported V2 route advertisement flags'' (
     let count = unat (get_u16 (slice 6 8 bs)) in
     ensure (count \<le> MAX_ADVERTISED_PREFIXES \<and> length bs = ROUTE_HEADER_LEN + count * ENTRY_LEN)
       ''invalid V2 route advertisement length'' (
     let generation = get_u64 (slice 8 16 bs) in
     bindR (mapR (decode_prefix N) (prefix_chunks count (drop ROUTE_HEADER_LEN bs))) (\<lambda>prefixes.
     let advertisement = \<lparr> adv_generation = generation, adv_prefixes = prefixes \<rparr> in
     bindR (advertisement_validate N allow_default_routes advertisement) (\<lambda>_. Inr advertisement)))))))"

definition advertisement_is_record :: "bytes \<Rightarrow> bool" where
  "advertisement_is_record bs \<longleftrightarrow> take 4 bs = ROUTE_MAGIC"

section \<open>Snapshots\<close>

datatype label_action = Local adjacency_id | Forward adjacency_id adjacency_id

record label_route =
  lr_route_label :: route_label
  lr_route_epoch :: u32
  lr_action :: label_action

datatype drop_reason = UnderlayDestination | NoRoute | UnknownLabel | StaleRouteEpoch | UnexpectedIngress | ImmediateReflection

datatype disposition =
    LocalCell route_header bytes
  | ForwardCell adjacency_id "bytes \<times> route_header"
  | ExpiredCell oam_ttl_expired
  | DropCell drop_reason

record 'n snapshot =
  ss_generation :: u64
  ss_local_node :: node_id
  ss_prefixes :: "'n prefix_index"
  ss_underlay_exclusions :: prefix_set
  ss_labels :: "(route_label \<times> label_route) list"
  ss_source_routes :: "((u32 \<times> route_label) \<times> resolved_route) list"

definition check_label :: "label_route \<Rightarrow> unit result" where
  "check_label entry =
     bindR (route_label_new (lr_route_label entry)) (\<lambda>_.
     ensure (lr_route_epoch entry \<noteq> 0) ''V2 route epoch zero is reserved'' (
     case lr_action entry of
       Local expected_ingress \<Rightarrow> bindR (adjacency_new expected_ingress) (\<lambda>_. Inr ())
     | Forward expected_ingress next_hop \<Rightarrow>
         bindR (adjacency_new expected_ingress) (\<lambda>_.
         bindR (adjacency_new next_hop) (\<lambda>_.
         ensure (expected_ingress \<noteq> next_hop) ''V2 route label immediately reflects to its ingress'' (Inr ())))))"

fun compile_labels :: "label_route list \<Rightarrow> (route_label \<times> label_route) list \<Rightarrow> (route_label \<times> label_route) list result" where
  "compile_labels [] m = Inr m"
| "compile_labels (entry # labels) m =
     bindR (check_label entry) (\<lambda>_.
     ensure (map_of m (lr_route_label entry) = None) ''duplicate V2 route label'' (
     compile_labels labels (AList.update (lr_route_label entry) entry m)))"

definition check_source_route :: "resolved_route \<Rightarrow> unit result" where
  "check_source_route r =
     bindR (adjacency_new (rr_adjacency r)) (\<lambda>_.
     bindR (route_label_new (rr_route_label r)) (\<lambda>_.
     ensure (rr_route_epoch r \<noteq> 0) ''V2 route epoch zero is reserved'' (
     ensure (HEADER_LEN < unat (rr_maximum_datagram_size r)) ''V2 route DATAGRAM ceiling is too small'' (Inr ()))))"

fun compile_sources :: "resolved_route list \<Rightarrow> ((u32 \<times> route_label) \<times> resolved_route) list \<Rightarrow> ((u32 \<times> route_label) \<times> resolved_route) list result" where
  "compile_sources [] m = Inr m"
| "compile_sources (route # routes) m =
     (let key = (rr_route_epoch route, rr_route_label route) in
      ensure (case map_of m key of None \<Rightarrow> True | Some existing \<Rightarrow> existing = route)
        ''V2 source route label resolves to multiple paths'' (
      compile_sources routes (AList.update key route m)))"

definition snapshot_compile :: "'n ipnet \<Rightarrow> u64 \<Rightarrow> node_id \<Rightarrow> 'n prefix_route list \<Rightarrow> label_route list \<Rightarrow> 'n list \<Rightarrow> bool \<Rightarrow> 'n snapshot result" where
  "snapshot_compile N generation local_node prefixes labels exclusions allow_default_routes =
     ensure (generation \<noteq> 0) ''V2 snapshot generation zero is reserved'' (
     ensure (length labels \<le> MAX_ROUTE_LABELS) ''too many V2 route labels'' (
     bindR (validate_prefix_set N exclusions True) (\<lambda>_.
     bindR (compile_labels labels []) (\<lambda>label_map.
     let unique_prefixes = remdups_adj (sort_key (prefix_key N) (map pr_prefix prefixes)) in
     bindR (validate_prefix_set N unique_prefixes allow_default_routes) (\<lambda>_.
     bindR (allR (check_source_route \<circ> pr_route) prefixes) (\<lambda>_.
     bindR (compile_sources (map pr_route prefixes) []) (\<lambda>source_routes.
     Inr \<lparr> ss_generation = generation, ss_local_node = local_node, ss_prefixes = index_compile N prefixes,
       ss_underlay_exclusions = prefix_set_compile N exclusions, ss_labels = label_map,
       ss_source_routes = source_routes \<rparr>)))))))"

definition snapshot_empty :: "'n ipnet \<Rightarrow> u64 \<Rightarrow> node_id \<Rightarrow> 'n snapshot result" where
  "snapshot_empty N generation local_node = snapshot_compile N generation local_node [] [] [] False"

definition snapshot_label_action :: "'n snapshot \<Rightarrow> u32 \<Rightarrow> route_label \<Rightarrow> label_action option" where
  "snapshot_label_action s route_epoch label =
     (case map_of (ss_labels s) label of
        None \<Rightarrow> None
      | Some entry \<Rightarrow> if lr_route_epoch entry = route_epoch then Some (lr_action entry) else None)"

definition snapshot_source_route :: "'n snapshot \<Rightarrow> u32 \<Rightarrow> route_label \<Rightarrow> resolved_route option" where
  "snapshot_source_route s route_epoch label = map_of (ss_source_routes s) (route_epoch, label)"

definition route_epochs :: "'n snapshot \<Rightarrow> u32 set" where
  "route_epochs s = (lr_route_epoch \<circ> snd) ` set (ss_labels s) \<union> (fst \<circ> fst) ` set (ss_source_routes s)"

definition lookup_destination :: "'n snapshot \<Rightarrow> ip_addr \<Rightarrow> drop_reason + resolved_route" where
  "lookup_destination s destination =
     (if prefix_set_contains (ss_underlay_exclusions s) destination then Inl UnderlayDestination
      else (case index_lookup (ss_prefixes s) destination of
          None \<Rightarrow> Inl NoRoute
        | Some [] \<Rightarrow> Inl NoRoute
        | Some (entry # _) \<Rightarrow> Inr (pr_route entry)))"

definition lookup_destination_candidates :: "'n snapshot \<Rightarrow> ip_addr \<Rightarrow> drop_reason + (resolved_route \<times> duration) list" where
  "lookup_destination_candidates s destination =
     (if prefix_set_contains (ss_underlay_exclusions s) destination then Inl UnderlayDestination
      else (case index_lookup (ss_prefixes s) destination of
          None \<Rightarrow> Inl NoRoute
        | Some routes \<Rightarrow> Inr (map (\<lambda>entry. (pr_route entry, pr_startup_latency entry)) routes)))"

definition snapshot_dispatch :: "'n snapshot \<Rightarrow> adjacency_id \<Rightarrow> bytes \<Rightarrow> disposition result" where
  "snapshot_dispatch s incoming bs =
     bindR (adjacency_new incoming) (\<lambda>_.
     bindR (decode_route_header bs) (\<lambda>header.
     case map_of (ss_labels s) (hdr_route_label header) of
       None \<Rightarrow> Inr (DropCell UnknownLabel)
     | Some entry \<Rightarrow>
         if lr_route_epoch entry \<noteq> hdr_session_epoch header then Inr (DropCell StaleRouteEpoch)
         else (case lr_action entry of
             Local expected_ingress \<Rightarrow>
               if incoming \<noteq> expected_ingress then Inr (DropCell UnexpectedIngress)
               else Inr (LocalCell header bs)
           | Forward expected_ingress next_hop \<Rightarrow>
               if incoming \<noteq> expected_ingress then Inr (DropCell UnexpectedIngress)
               else if incoming = next_hop then Inr (DropCell ImmediateReflection)
               else if hdr_overlay_hop_limit header \<le> 1 then
                 Inr (ExpiredCell \<lparr> ot_snapshot_generation = ss_generation s, ot_route_epoch = lr_route_epoch entry,
                   ot_route_label = hdr_route_label header, ot_train_id = hdr_train_id header,
                   ot_cell_sequence = hdr_cell_sequence header, ot_ingress_hop_limit = ingress_hop_limit header,
                   ot_traversed_hops = u8_sat_add (hdr_overlay_hops header) 1, ot_incoming = incoming,
                   ot_reporter = ss_local_node s \<rparr>)
               else bindR (advance_overlay_hop bs) (\<lambda>cell. Inr (ForwardCell next_hop cell)))))"

section \<open>The snapshot store\<close>

record 'n snapshot_store =
  st_current :: "'n snapshot"
  st_retired :: "'n snapshot list"

definition store_new :: "'n snapshot \<Rightarrow> 'n snapshot_store" where
  "store_new initial = \<lparr> st_current = initial, st_retired = [] \<rparr>"

definition store_publish :: "'n snapshot \<Rightarrow> 'n snapshot_store \<Rightarrow> 'n snapshot_store \<times> 'n snapshot result" where
  "store_publish nxt store =
     (let previous = st_current store in
      if \<not> ss_generation previous < ss_generation nxt then (store, Inl (Err ''V2 snapshot generation did not advance''))
      else if \<not> (route_epochs previous \<inter> route_epochs nxt = {} \<or> route_epochs nxt = {}) then
        (store, Inl (Err ''V2 snapshot reused a live route epoch''))
      else (\<lparr> st_current = nxt, st_retired = previous # take (MAX_RETIRED_SNAPSHOTS - 1) (st_retired store) \<rparr>, Inr previous))"

definition unresolved :: "disposition \<Rightarrow> bool" where
  "unresolved d \<longleftrightarrow> d = DropCell UnknownLabel \<or> d = DropCell StaleRouteEpoch"

fun dispatch_retired :: "'n snapshot list \<Rightarrow> adjacency_id \<Rightarrow> bytes \<Rightarrow> disposition \<Rightarrow> disposition result" where
  "dispatch_retired [] incoming bs current = Inr current"
| "dispatch_retired (s # retired) incoming bs current =
     bindR (snapshot_dispatch s incoming bs) (\<lambda>d.
     if unresolved d then dispatch_retired retired incoming bs current else Inr d)"

definition store_dispatch :: "'n snapshot_store \<Rightarrow> adjacency_id \<Rightarrow> bytes \<Rightarrow> disposition result" where
  "store_dispatch store incoming bs =
     bindR (snapshot_dispatch (st_current store) incoming bs) (\<lambda>current.
     if unresolved current then dispatch_retired (st_retired store) incoming bs current else Inr current)"

definition find_map :: "('a \<Rightarrow> 'b option) \<Rightarrow> 'a list \<Rightarrow> 'b option" where
  "find_map f xs = (case List.map_filter f xs of [] \<Rightarrow> None | y # _ \<Rightarrow> Some y)"

definition store_label_action :: "'n snapshot_store \<Rightarrow> u32 \<Rightarrow> route_label \<Rightarrow> label_action option" where
  "store_label_action store route_epoch label =
     (case snapshot_label_action (st_current store) route_epoch label of
        Some a \<Rightarrow> Some a
      | None \<Rightarrow> find_map (\<lambda>s. snapshot_label_action s route_epoch label) (st_retired store))"

definition store_source_route :: "'n snapshot_store \<Rightarrow> u32 \<Rightarrow> route_label \<Rightarrow> resolved_route option" where
  "store_source_route store route_epoch label =
     (case snapshot_source_route (st_current store) route_epoch label of
        Some r \<Rightarrow> Some r
      | None \<Rightarrow> find_map (\<lambda>s. snapshot_source_route s route_epoch label) (st_retired store))"

section \<open>The records on the wire\<close>

fun oam_reporter :: "oam_control \<Rightarrow> node_id" where
  "oam_reporter (TtlExpired r) = ot_reporter r"
| "oam_reporter (PathMtuExceeded r) = om_reporter r"

fun oam_encode :: "oam_control \<Rightarrow> bytes result" where
  "oam_encode (TtlExpired r) = oam_ttl_encode r"
| "oam_encode (PathMtuExceeded r) = oam_mtu_encode r"

text \<open>A reporter is an array of 32 bytes in the source.\<close>

definition oam_write :: "oam_control \<Rightarrow> bytes result" where
  "oam_write c = ensure (length (oam_reporter c) = 32) ''reporter length'' (oam_encode c)"

lemma oam_magic: "length OAM_MAGIC = 4" "slice 0 4 OAM_MAGIC = OAM_MAGIC"
  by (simp_all add: OAM_MAGIC_def slice_def)

lemma put_u8_nth: "put_u8 w ! 0 = w"
  by (simp add: put_u8_def)

lemmas oam_consts = OAM_VERSION_def OAM_TTL_EXPIRED_def OAM_PATH_MTU_EXCEEDED_def OAM_TTL_EXPIRED_LEN_def OAM_PATH_MTU_EXCEEDED_LEN_def

lemma oam_ttl_decode_encode:
  assumes "oam_ttl_encode r = Inr bs" "length (ot_reporter r) = 32"
  shows "oam_ttl_decode bs = Inr r \<and> 6 \<le> length bs \<and> slice 0 4 bs = OAM_MAGIC \<and> bs ! 4 = OAM_VERSION \<and> bs ! 5 = OAM_TTL_EXPIRED"
proof -
  have bs: "bs = OAM_MAGIC @ put_u8 1 @ put_u8 1 @ put_u16 0 @ put_u64 (ot_snapshot_generation r) @
       put_u32 (ot_route_epoch r) @ put_u32 (ot_route_label r) @ put_u64 (ot_train_id r) @ put_u16 (ot_cell_sequence r) @
       put_u8 (ot_ingress_hop_limit r) @ put_u8 (ot_traversed_hops r) @ put_u32 (ot_incoming r) @ ot_reporter r"
    and v: "oam_ttl_validate r = Inr ()"
    using assms by (auto simp: oam_ttl_encode_def result_iff oam_consts)
  have "length bs = 72" "bs ! 4 = 1" "bs ! 5 = 1" "slice 0 4 bs = OAM_MAGIC" "slice 6 8 bs = put_u16 0"
    "get_u64 (slice 8 16 bs) = ot_snapshot_generation r" "get_u32 (slice 16 20 bs) = ot_route_epoch r"
    "get_u32 (slice 20 24 bs) = ot_route_label r" "get_u64 (slice 24 32 bs) = ot_train_id r"
    "get_u16 (slice 32 34 bs) = ot_cell_sequence r" "bs ! 34 = ot_ingress_hop_limit r" "bs ! 35 = ot_traversed_hops r"
    "get_u32 (slice 36 40 bs) = ot_incoming r" "slice 40 72 bs = ot_reporter r"
    unfolding bs by (simp_all add: assms(2) oam_magic slice_layout nth_append put_u8_nth)
  then show ?thesis using v by (cases r) (simp add: oam_ttl_decode_def oam_consts Let_def put_zero)
qed

lemma oam_mtu_decode_encode:
  assumes "oam_mtu_encode r = Inr bs" "length (om_reporter r) = 32"
  shows "oam_mtu_decode bs = Inr r \<and> 6 \<le> length bs \<and> slice 0 4 bs = OAM_MAGIC \<and> bs ! 4 = OAM_VERSION \<and> bs ! 5 = OAM_PATH_MTU_EXCEEDED"
proof -
  have bs: "bs = OAM_MAGIC @ put_u8 1 @ put_u8 2 @ put_u16 0 @ put_u64 (om_snapshot_generation r) @
       put_u32 (om_route_epoch r) @ put_u32 (om_route_label r) @ put_u64 (om_train_id r) @ put_u16 (om_cell_sequence r) @
       put_u16 (om_observed_datagram_size r) @ put_u16 (om_maximum_datagram_size r) @ put_u16 0 @
       put_u32 (om_incoming r) @ om_reporter r"
    and v: "oam_mtu_validate r = Inr ()"
    using assms by (auto simp: oam_mtu_encode_def result_iff oam_consts)
  have "length bs = 76" "bs ! 4 = 1" "bs ! 5 = 2" "slice 0 4 bs = OAM_MAGIC" "slice 6 8 bs = put_u16 0" "slice 38 40 bs = put_u16 0"
    "get_u64 (slice 8 16 bs) = om_snapshot_generation r" "get_u32 (slice 16 20 bs) = om_route_epoch r"
    "get_u32 (slice 20 24 bs) = om_route_label r" "get_u64 (slice 24 32 bs) = om_train_id r"
    "get_u16 (slice 32 34 bs) = om_cell_sequence r" "get_u16 (slice 34 36 bs) = om_observed_datagram_size r"
    "get_u16 (slice 36 38 bs) = om_maximum_datagram_size r"
    "get_u32 (slice 40 44 bs) = om_incoming r" "slice 44 76 bs = om_reporter r"
    unfolding bs by (simp_all add: assms(2) oam_magic slice_layout nth_append put_u8_nth)
  then show ?thesis using v by (cases r) (simp add: oam_mtu_decode_def oam_consts Let_def put_zero)
qed

lemma oam_header_join:
  assumes "8 \<le> length bs" "slice 0 4 bs = OAM_MAGIC" "slice 6 8 bs = [0, 0]"
  shows "OAM_MAGIC @ put_u8 (bs ! 4) @ put_u8 (bs ! 5) @ put_u16 0 @ drop 8 bs = bs"
proof -
  have "slice 0 4 bs @ slice 4 5 bs @ slice 5 6 bs @ slice 6 8 bs @ slice 8 (length bs) bs = bs"
    using assms(1) by (simp add: slice_join slice_full)
  moreover have "slice 4 5 bs = [bs ! 4]" "slice 5 6 bs = [bs ! 5]" using assms(1) slice_one [of 4 bs] slice_one [of 5 bs] by simp_all
  ultimately show ?thesis using assms(2,3) by (simp add: put_u8_def put_zero slice_drop)
qed

lemma oam_ttl_encode_decode:
  assumes "oam_ttl_decode bs = Inr r"
  shows "oam_ttl_encode r = Inr bs \<and> length (ot_reporter r) = 32"
proof -
  note d = assms [unfolded oam_ttl_decode_def Let_def result_iff oam_consts]
  have len: "length bs = 72" using d by blast
  have "slice 8 16 bs @ slice 16 20 bs @ slice 20 24 bs @ slice 24 32 bs @ slice 32 34 bs @ slice 34 35 bs @ slice 35 36 bs @
      slice 36 40 bs @ slice 40 72 bs = drop 8 bs" using slice_drop [of 8 bs] by (simp add: slice_join len)
  moreover have "slice 34 35 bs = [bs ! 34]" "slice 35 36 bs = [bs ! 35]" using slice_one [of 34 bs] slice_one [of 35 bs] len by simp_all
  moreover have "OAM_MAGIC @ put_u8 (bs ! 4) @ put_u8 (bs ! 5) @ put_u16 0 @ drop 8 bs = bs"
    using d len by (intro oam_header_join) auto
  ultimately show ?thesis using d len
    by (auto simp: oam_ttl_encode_def oam_consts put_u8_def put_get_u16 put_get_u32 put_get_u64)
qed

lemma oam_mtu_encode_decode:
  assumes "oam_mtu_decode bs = Inr r"
  shows "oam_mtu_encode r = Inr bs \<and> length (om_reporter r) = 32"
proof -
  note d = assms [unfolded oam_mtu_decode_def Let_def result_iff oam_consts]
  have len: "length bs = 76" using d by blast
  have "slice 8 16 bs @ slice 16 20 bs @ slice 20 24 bs @ slice 24 32 bs @ slice 32 34 bs @ slice 34 36 bs @ slice 36 38 bs @
      slice 38 40 bs @ slice 40 44 bs @ slice 44 76 bs = drop 8 bs" using slice_drop [of 8 bs] by (simp add: slice_join len)
  moreover have "OAM_MAGIC @ put_u8 (bs ! 4) @ put_u8 (bs ! 5) @ put_u16 0 @ drop 8 bs = bs"
    using d len by (intro oam_header_join) auto
  moreover have "slice 38 40 bs = put_u16 0" using d by (simp add: put_zero)
  ultimately show ?thesis using d len
    by (auto simp: oam_mtu_encode_def oam_consts put_get_u16 put_get_u32 put_get_u64)
qed

interpretation oam_wire: canonical_format oam_write oam_decode
proof
  fix c bs assume "oam_write c = Inr bs"
  then show "oam_decode bs = Inr c"
    using oam_ttl_decode_encode oam_mtu_decode_encode
    by (cases c) (auto simp: oam_write_def oam_decode_def result_iff OAM_TTL_EXPIRED_def OAM_PATH_MTU_EXCEEDED_def)
next
  fix bs c assume "oam_decode bs = Inr c"
  then show "oam_write c = Inr bs"
    using oam_ttl_encode_decode oam_mtu_encode_decode
    by (auto simp: oam_write_def oam_decode_def result_iff split: if_splits)
qed

end
