(* ===== verification/SnapshotProperties.thy ===== *)
theory SnapshotProperties
  imports Snapshot
begin

text \<open>
  The properties of the data-plane snapshot and of its store: the routing records are canonical, prefix lookup
  is longest-prefix match, every disposition of a received Cell is well formed, and publication keeps
  the trains in flight.  A concrete prefix type, addresses with a valid prefix length, satisfies what
  is assumed of the \<open>ipnet\<close> package and serves the concrete instances.
\<close>

section \<open>Route advertisements\<close>

lemma addr_octets_length: "length (addr_octets a) = (if is_ipv4 a then 4 else 16)"
  by (cases a) simp_all

lemma encode_prefix_length:
  assumes "ipnet_ok N"
  shows "length (encode_prefix N n) = ENTRY_LEN"
proof -
  have "is_ipv4 (net_network N n) = is_ipv4 (net_addr N n)" by (simp add: net_network_masked [OF assms])
  then show ?thesis by (simp add: encode_prefix_def addr_octets_length ENTRY_LEN_def)
qed

lemma u128_octets:
  fixes a :: u128
  shows "word_of_nat (nat_of_be (be_of_nat 16 (unat a))) = a"
  using unat_less_length [of a] by (simp add: nat_of_be_of_nat)

lemma u32_octets: "word_of_nat (nat_of_be (be_of_nat 4 (unat a))) = a" for a :: u32
  using unat_less_length [of a] by (simp add: nat_of_be_of_nat)

lemma octets_u128: "length bs = 16 \<Longrightarrow> be_of_nat 16 (unat (word_of_nat (nat_of_be bs) :: u128)) = bs"
  using nat_of_be_less [of bs] be_of_nat_of_be [of bs] by (simp add: unsigned_of_nat take_bit_eq_mod)

lemma octets_u32: "length bs = 4 \<Longrightarrow> be_of_nat 4 (unat (word_of_nat (nat_of_be bs) :: u32)) = bs"
  using nat_of_be_less [of bs] be_of_nat_of_be [of bs] by (simp add: unsigned_of_nat take_bit_eq_mod)

lemma net_rebuild:
  assumes "ipnet_ok N" "net_addr N n = a" "net_prefix_len N n = k"
  shows "net_new N a k = Inr n"
proof -
  have "unat k \<le> addr_width a" using net_len [OF assms(1), of n] assms(2,3) by simp
  then obtain m where "net_new N a k = Inr m" "net_addr N m = a" "net_prefix_len N m = k" using net_new_ok [OF assms(1)] by blast
  then show ?thesis using net_eqI [OF assms(1), of m n] assms(2,3) by simp
qed

lemma decode_encode_prefix:
  assumes N: "ipnet_ok N" and can: "net_addr N n = net_network N n"
  shows "decode_prefix N (encode_prefix N n) = Inr n"
proof (cases "net_addr N n")
  case (V4 a)
  then have e: "encode_prefix N n = put_u8 4 @ put_u8 (net_prefix_len N n) @ put_u16 0 @ be_of_nat 4 (unat a) @ replicate 12 0"
    by (simp add: encode_prefix_def can [symmetric])
  have "encode_prefix N n ! 0 = 4" "encode_prefix N n ! 1 = net_prefix_len N n" "slice 2 4 (encode_prefix N n) = put_u16 0"
    "slice 4 8 (encode_prefix N n) = be_of_nat 4 (unat a)" "slice 8 20 (encode_prefix N n) = replicate 12 0"
    unfolding e by (simp_all add: nth_append put_u8_nth slice_layout)
  moreover have "net_prefix_len N n \<le> 32" using net_len [OF N, of n] V4 by (simp add: word_le_nat_alt)
  ultimately show ?thesis using net_rebuild [OF N V4 refl] by (simp add: decode_prefix_def put_zero u32_octets)
next
  case (V6 a)
  then have e: "encode_prefix N n = put_u8 6 @ put_u8 (net_prefix_len N n) @ put_u16 0 @ be_of_nat 16 (unat a)"
    by (simp add: encode_prefix_def can [symmetric])
  have "encode_prefix N n ! 0 = 6" "encode_prefix N n ! 1 = net_prefix_len N n" "slice 2 4 (encode_prefix N n) = put_u16 0"
    "slice 4 20 (encode_prefix N n) = be_of_nat 16 (unat a)"
    unfolding e by (simp_all add: nth_append put_u8_nth slice_layout)
  moreover have "net_prefix_len N n \<le> 128" using net_len [OF N, of n] V6 by (simp add: word_le_nat_alt)
  ultimately show ?thesis using net_rebuild [OF N V6 refl] by (simp add: decode_prefix_def put_zero u128_octets)
qed

lemma encode_decode_prefix:
  assumes N: "ipnet_ok N" and dec: "decode_prefix N e = Inr n" and len: "length e = ENTRY_LEN" and can: "net_addr N n = net_network N n"
  shows "encode_prefix N n = e"
proof -
  have l: "length e = 20" using len by (simp add: ENTRY_LEN_def)
  have parts: "slice 0 1 e = [e ! 0]" "slice 1 2 e = [e ! 1]" using slice_one [of 0 e] slice_one [of 1 e] l by (simp_all add: numeral_2_eq_2)
  have res: "slice 2 4 e = [0, 0]" using dec by (simp add: decode_prefix_def result_iff)
  have j4: "slice 0 1 e @ slice 1 2 e @ slice 2 4 e @ slice 4 8 e @ slice 8 20 e = e"
    and j6: "slice 0 1 e @ slice 1 2 e @ slice 2 4 e @ slice 4 20 e = e" by (simp_all add: slice_join slice_full l)
  show ?thesis
  proof (cases "e ! 0 = 4")
    case True
    then have k: "e ! 1 \<le> 32" and pad: "slice 8 20 e = replicate 12 0"
      and new: "net_new N (V4 (word_of_nat (nat_of_be (slice 4 8 e)))) (e ! 1) = Inr n"
      using dec by (auto simp: decode_prefix_def result_iff)
    have "unat (e ! 1) \<le> addr_width (V4 (word_of_nat (nat_of_be (slice 4 8 e))))" using k by (simp add: word_le_nat_alt)
    from net_new_ok [OF N this] new have a: "net_addr N n = V4 (word_of_nat (nat_of_be (slice 4 8 e)))" "net_prefix_len N n = e ! 1" by auto
    have "encode_prefix N n = [4] @ [e ! 1] @ [0, 0] @ slice 4 8 e @ replicate 12 0"
      by (simp add: encode_prefix_def can [symmetric] a octets_u32 l put_zero put_u8_def)
    then show ?thesis using j4 parts res True pad by simp
  next
    case False
    then have six: "e ! 0 = 6" and k: "e ! 1 \<le> 128"
      and new: "net_new N (V6 (word_of_nat (nat_of_be (slice 4 20 e)))) (e ! 1) = Inr n"
      using dec by (auto simp: decode_prefix_def result_iff split: if_splits)
    have "unat (e ! 1) \<le> addr_width (V6 (word_of_nat (nat_of_be (slice 4 20 e))))" using k by (simp add: word_le_nat_alt)
    from net_new_ok [OF N this] new have a: "net_addr N n = V6 (word_of_nat (nat_of_be (slice 4 20 e)))" "net_prefix_len N n = e ! 1" by auto
    have "encode_prefix N n = [6] @ [e ! 1] @ [0, 0] @ slice 4 20 e"
      by (simp add: encode_prefix_def can [symmetric] a octets_u128 l put_zero put_u8_def)
    then show ?thesis using j6 parts res six by simp
  qed
qed

lemma entries_concat: "\<forall>e\<in>set es. length e = ENTRY_LEN \<Longrightarrow> prefix_chunks (length es) (concat es) = es"
  by (induction es) auto

lemma concat_entries: "length bs = n * ENTRY_LEN \<Longrightarrow> concat (prefix_chunks n bs) = bs \<and> (\<forall>e\<in>set (prefix_chunks n bs). length e = ENTRY_LEN) \<and> length (prefix_chunks n bs) = n"
proof (induction n arbitrary: bs)
  case (Suc n)
  then have "length (drop ENTRY_LEN bs) = n * ENTRY_LEN" by simp
  from Suc.IH [OF this] Suc.prems show ?case by simp
qed simp

lemma advertisement_validate_Inr:
  assumes "ipnet_ok N"
  shows "advertisement_validate N allow adv = Inr u \<longleftrightarrow> adv_generation adv \<noteq> 0 \<and> length (adv_prefixes adv) \<le> 256 \<and>
    distinct (adv_prefixes adv) \<and> (\<forall>n\<in>set (adv_prefixes adv). net_addr N n = net_network N n \<and>
      (allow \<or> net_prefix_len N n \<noteq> 0) \<and> (\<not> is_unspecified (net_addr N n) \<or> net_prefix_len N n = 0))"
  using distinct_sort_key(1) [OF prefix_key_inj [OF assms], of "adv_prefixes adv"]
  by (auto simp: advertisement_validate_def result_iff Let_def MAX_ADVERTISED_PREFIXES_def)

lemma route_magic: "length ROUTE_MAGIC = 4" "slice 0 4 ROUTE_MAGIC = ROUTE_MAGIC"
  by (simp_all add: ROUTE_MAGIC_def slice_def)

lemma advertisement_decode_encode:
  assumes N: "ipnet_ok N" and enc: "advertisement_encode N adv = Inr bs" and v: "advertisement_validate N allow adv = Inr ()"
  shows "advertisement_decode N bs allow = Inr adv"
proof -
  let ?es = "map (encode_prefix N) (adv_prefixes adv)"
  let ?n = "length (adv_prefixes adv)"
  have bs: "bs = ROUTE_MAGIC @ put_u8 1 @ put_u8 0 @ put_u16 (word_of_nat ?n) @ put_u64 (adv_generation adv) @ concat ?es"
    using enc by (auto simp: advertisement_encode_def result_iff ROUTE_VERSION_def)
  have n: "?n \<le> 256" using v by (simp add: advertisement_validate_Inr [OF N])
  then have count: "unat (word_of_nat ?n :: u16) = ?n" by (intro unat_u16_of_nat) (simp add: u16_max_def)
  have "\<forall>e\<in>set ?es. length e = 20" using encode_prefix_length [OF N] by (simp add: ENTRY_LEN_def)
  then have len: "length (concat ?es) = ?n * 20" by (simp add: length_concat comp_def sum_list_triv cong: map_cong)
  have "mapR (decode_prefix N) ?es = Inr (adv_prefixes adv)"
    using v by (auto simp: mapR_Inr_iff list_all2_conv_all_nth advertisement_validate_Inr [OF N] decode_encode_prefix [OF N])
  moreover have "prefix_chunks ?n (concat ?es) = ?es" using entries_concat [of ?es] encode_prefix_length [OF N] by simp
  moreover have "length bs = 16 + ?n * 20" "slice 0 4 bs = ROUTE_MAGIC" "bs ! 4 = 1" "bs ! 5 = 0"
    "get_u16 (slice 6 8 bs) = word_of_nat ?n" "get_u64 (slice 8 16 bs) = adv_generation adv" "drop 16 bs = concat ?es"
    unfolding bs by (simp_all add: len route_magic nth_append put_u8_nth slice_layout)
  ultimately show ?thesis using v n count
    by (cases adv) (simp add: advertisement_decode_def Let_def ROUTE_HEADER_LEN_def ROUTE_VERSION_def MAX_ADVERTISED_PREFIXES_def ENTRY_LEN_def)
qed

lemma advertisement_encode_decode:
  assumes N: "ipnet_ok N" and dec: "advertisement_decode N bs allow = Inr adv"
  shows "advertisement_encode N adv = Inr bs \<and> advertisement_validate N allow adv = Inr ()"
proof -
  note d = dec [unfolded advertisement_decode_def Let_def result_iff ROUTE_HEADER_LEN_def ROUTE_VERSION_def MAX_ADVERTISED_PREFIXES_def]
  let ?n = "unat (get_u16 (slice 6 8 bs))"
  have len: "length bs = 16 + ?n * ENTRY_LEN" and hd: "slice 0 4 bs = ROUTE_MAGIC" "bs ! 4 = 1" "bs ! 5 = 0" using d by blast+
  from d obtain ps where ps: "mapR (decode_prefix N) (prefix_chunks ?n (drop 16 bs)) = Inr ps"
    and adv: "adv = \<lparr> adv_generation = get_u64 (slice 8 16 bs), adv_prefixes = ps \<rparr>" and v: "advertisement_validate N allow adv = Inr ()" by auto
  have es: "concat (prefix_chunks ?n (drop 16 bs)) = drop 16 bs" "\<forall>e\<in>set (prefix_chunks ?n (drop 16 bs)). length e = ENTRY_LEN"
    "length (prefix_chunks ?n (drop 16 bs)) = ?n" using concat_entries [of "drop 16 bs" ?n] len by simp_all
  have lps: "length ps = ?n" using mapR_length [OF ps] es(3) by simp
  have "map (encode_prefix N) ps = prefix_chunks ?n (drop 16 bs)"
  proof (rule nth_equalityI)
    show "length (map (encode_prefix N) ps) = length (prefix_chunks ?n (drop 16 bs))" using lps es(3) by simp
    fix i assume i: "i < length (map (encode_prefix N) ps)"
    have "decode_prefix N (prefix_chunks ?n (drop 16 bs) ! i) = Inr (ps ! i)"
      using ps i lps es(3) by (auto simp: mapR_Inr_iff list_all2_conv_all_nth)
    moreover have "net_addr N (ps ! i) = net_network N (ps ! i)" using v i adv by (auto simp: advertisement_validate_Inr [OF N])
    ultimately show "map (encode_prefix N) ps ! i = prefix_chunks ?n (drop 16 bs) ! i"
      using encode_decode_prefix [OF N] es(2,3) i lps by simp
  qed
  then have "concat (map (encode_prefix N) ps) = drop 16 bs" using es(1) by simp
  moreover have "slice 0 4 bs @ slice 4 5 bs @ slice 5 6 bs @ slice 6 8 bs @ slice 8 16 bs @ drop 16 bs = bs"
    unfolding slice_drop [symmetric] using len by (simp add: slice_join slice_full)
  moreover have "slice 4 5 bs = [bs ! 4]" "slice 5 6 bs = [bs ! 5]" using slice_one [of 4 bs] slice_one [of 5 bs] len by simp_all
  moreover have "(word_of_nat ?n :: u16) = get_u16 (slice 6 8 bs)" by simp
  moreover have "advertisement_validate N True adv = Inr ()" using v by (auto simp: advertisement_validate_Inr [OF N])
  ultimately show ?thesis using hd len lps adv v
    by (simp add: advertisement_encode_def ROUTE_VERSION_def put_u8_def put_get_u16 put_get_u64)
qed

section \<open>What a compiled snapshot is\<close>

definition snapshot_wf :: "'n snapshot \<Rightarrow> bool" where
  "snapshot_wf s \<longleftrightarrow> ss_generation s \<noteq> 0 \<and> length (ss_local_node s) = 32 \<and> distinct (map fst (ss_labels s)) \<and>
     (\<forall>(l, e)\<in>set (ss_labels s). l = lr_route_label e \<and> check_label e = Inr ())"

lemma compile_labels_Inr:
  assumes "distinct (map fst m)"
  shows "compile_labels ls m = Inr m' \<longleftrightarrow> m' = m @ map (\<lambda>e. (lr_route_label e, e)) ls \<and>
    (\<forall>e\<in>set ls. check_label e = Inr ()) \<and> distinct (map fst m @ map lr_route_label ls)"
  using assms
proof (induction ls arbitrary: m)
  case (Cons e ls)
  show ?case
  proof (cases "map_of m (lr_route_label e) = None")
    case True
    then have new: "lr_route_label e \<notin> fst ` set m" by (simp add: map_of_eq_None_iff)
    then have "distinct (map fst (AList.update (lr_route_label e) e m))" using Cons.prems by (simp add: update_new)
    from Cons.IH [OF this] new True show ?thesis by (auto simp: result_iff update_new)
  next
    case False
    then have "lr_route_label e \<in> set (map fst m)" by (auto simp: map_of_eq_None_iff)
    then show ?thesis using False by (auto simp: result_iff)
  qed
qed auto

lemma compile_sources_Inr:
  assumes "compile_sources rs m = Inr m'"
  shows "(\<forall>k r. map_of m k = Some r \<longrightarrow> map_of m' k = Some r) \<and> (\<forall>r\<in>set rs. map_of m' (rr_route_epoch r, rr_route_label r) = Some r) \<and>
    fst ` set m' = fst ` set m \<union> (\<lambda>r. (rr_route_epoch r, rr_route_label r)) ` set rs"
  using assms
proof (induction rs arbitrary: m)
  case (Cons r rs)
  let ?k = "(rr_route_epoch r, rr_route_label r)"
  have ok: "case map_of m ?k of None \<Rightarrow> True | Some existing \<Rightarrow> existing = r"
    and rest: "compile_sources rs (AList.update ?k r m) = Inr m'" using Cons.prems by (auto simp: Let_def result_iff)
  note IH = Cons.IH [OF rest]
  have "map_of (AList.update ?k r m) ?k = Some r" by (simp add: update_conv')
  moreover have "map_of (AList.update ?k r m) k = Some q" if "map_of m k = Some q" for k q
    using ok that by (auto simp: update_conv' split: option.splits)
  ultimately show ?case using IH by (auto simp: dom_update)
qed auto

lemma compile_sources_total:
  assumes "\<forall>r\<in>set rs. \<forall>q\<in>set rs. rr_route_epoch r = rr_route_epoch q \<and> rr_route_label r = rr_route_label q \<longrightarrow> r = q"
    and "\<forall>r\<in>set rs. \<forall>q. map_of m (rr_route_epoch r, rr_route_label r) = Some q \<longrightarrow> q = r"
  shows "\<exists>m'. compile_sources rs m = Inr m'"
  using assms
proof (induction rs arbitrary: m)
  case (Cons r rs)
  let ?k = "(rr_route_epoch r, rr_route_label r)"
  have "\<forall>q\<in>set rs. \<forall>p. map_of (AList.update ?k r m) (rr_route_epoch q, rr_route_label q) = Some p \<longrightarrow> p = q"
    using Cons.prems by (auto simp: update_conv')
  then obtain m' where "compile_sources rs (AList.update ?k r m) = Inr m'" using Cons.IH Cons.prems(1) by fastforce
  moreover have "case map_of m ?k of None \<Rightarrow> True | Some existing \<Rightarrow> existing = r" using Cons.prems(2) by (auto split: option.splits)
  ultimately show ?case by (simp add: Let_def)
qed simp

lemma snapshot_compile_Inr:
  assumes "snapshot_compile N g node ps ls ex allow = Inr s"
  shows "ss_generation s = g" "g \<noteq> 0" "ss_local_node s = node" "ss_prefixes s = index_compile N ps"
    "ss_underlay_exclusions s = prefix_set_compile N ex" "ss_labels s = map (\<lambda>e. (lr_route_label e, e)) ls"
    "\<forall>e\<in>set ls. check_label e = Inr ()" "distinct (map lr_route_label ls)"
    "compile_sources (map pr_route ps) [] = Inr (ss_source_routes s)"
  using assms by (auto simp: snapshot_compile_def result_iff Let_def compile_labels_Inr)

lemma snapshot_compile_wf:
  assumes "snapshot_compile N g node ps ls ex allow = Inr s" "length node = 32"
  shows "snapshot_wf s"
proof -
  note s = snapshot_compile_Inr [OF assms(1)]
  show ?thesis using s(1-3,7,8) assms(2) by (auto simp: snapshot_wf_def s(6) comp_def)
qed

section \<open>Dispatch\<close>

lemma dispatch_label:
  assumes "snapshot_wf s" "map_of (ss_labels s) l = Some e"
  shows "lr_route_label e = l" "check_label e = Inr ()"
  using assms map_of_SomeD [OF assms(2)] by (auto simp: snapshot_wf_def)

definition disposition_wf :: "adjacency_id \<Rightarrow> bytes \<Rightarrow> disposition \<Rightarrow> bool" where
  "disposition_wf incoming bs d =
     (case d of
        LocalCell h cell \<Rightarrow> cell = bs \<and> decode_route_header bs = Inr h
      | ForwardCell hop (cell, h) \<Rightarrow> hop \<noteq> 0 \<and> hop \<noteq> incoming \<and> decode_route_header cell = Inr h \<and> length cell = length bs \<and>
          (\<forall>i. i \<noteq> 34 \<longrightarrow> i \<noteq> 35 \<longrightarrow> cell ! i = bs ! i)
      | ExpiredCell r \<Rightarrow> ot_incoming r = incoming \<and> (\<exists>wire. oam_ttl_encode r = Inr wire \<and> oam_decode wire = Inr (TtlExpired r))
      | DropCell reason \<Rightarrow> reason \<noteq> ImmediateReflection)"

lemma expired_encodes:
  assumes h: "decode_route_header bs = Inr h" and lim: "hdr_overlay_hop_limit h \<le> 1" and inc: "incoming \<noteq> 0"
    and g: "g \<noteq> 0" "e \<noteq> 0" "length node = 32"
  defines "r \<equiv> \<lparr> ot_snapshot_generation = g, ot_route_epoch = e, ot_route_label = hdr_route_label h, ot_train_id = hdr_train_id h,
      ot_cell_sequence = hdr_cell_sequence h, ot_ingress_hop_limit = ingress_hop_limit h,
      ot_traversed_hops = u8_sat_add (hdr_overlay_hops h) 1, ot_incoming = incoming, ot_reporter = node \<rparr>"
  shows "\<exists>wire. oam_ttl_encode r = Inr wire \<and> oam_decode wire = Inr (TtlExpired r)"
proof -
  have v: "hdr_route_label h \<noteq> 0" "hdr_train_id h \<noteq> 0" "hdr_overlay_hop_limit h \<noteq> 0"
    "unat (hdr_overlay_hop_limit h) + unat (hdr_overlay_hops h) \<le> 255"
    using h by (auto simp: decode_route_header_def Let_def result_iff)
  have one: "hdr_overlay_hop_limit h = 1" using v(3) lim by (simp add: word_le_nat_alt word_unat_eq_iff)
  then have "ingress_hop_limit h = u8_sat_add (hdr_overlay_hops h) 1" using v(4) by (simp add: ingress_hop_limit_def u8_sat_add_def add.commute)
  moreover have "u8_sat_add (hdr_overlay_hops h) 1 \<noteq> 0"
    using v(4) one by (auto simp: u8_sat_add_def word_unat_eq_iff unat_word_ariths)
  ultimately have "oam_ttl_validate r = Inr ()"
    using v inc g by (simp add: oam_ttl_validate_def r_def route_label_new_def adjacency_new_def)
  then obtain wire where wire: "oam_ttl_encode r = Inr wire" by (simp add: oam_ttl_encode_def)
  then have "oam_write (TtlExpired r) = Inr wire" using g by (simp add: oam_write_def r_def)
  with wire oam_wire.dec_enc show ?thesis by blast
qed

lemma advance_overlay_hop_bytes:
  assumes "advance_overlay_hop bs = Inr (bs', h')"
  shows "length bs' = length bs \<and> decode_route_header bs' = Inr h' \<and> (\<forall>i. i \<noteq> 34 \<longrightarrow> i \<noteq> 35 \<longrightarrow> bs' ! i = bs ! i)"
proof -
  have "decode_route_header bs' = Inr h'" using assms by (rule advance_overlay_hop_Inr)
  moreover obtain x y where "bs' = bs[34 := x, 35 := y]"
    using assms unfolding advance_overlay_hop_def Let_def result_iff OVERLAY_HOP_LIMIT_OFFSET_def OVERLAY_HOPS_OFFSET_def by blast
  ultimately show ?thesis by simp
qed

lemma snapshot_dispatch_wf:
  assumes s: "snapshot_wf s" and d: "snapshot_dispatch s incoming bs = Inr d"
  shows "disposition_wf incoming bs d"
proof -
  obtain h where inc: "incoming \<noteq> 0" and h: "decode_route_header bs = Inr h"
    using d by (auto simp: snapshot_dispatch_def adjacency_new_def result_iff)
  show ?thesis
  proof (cases "map_of (ss_labels s) (hdr_route_label h)")
    case None
    then show ?thesis using d inc h by (auto simp: snapshot_dispatch_def adjacency_new_def disposition_wf_def)
  next
    case (Some e)
    note e = dispatch_label [OF s Some]
    have ep: "lr_route_epoch e \<noteq> 0" using e(2) by (simp add: check_label_def route_label_new_def result_iff)
    consider (stale) "lr_route_epoch e \<noteq> hdr_session_epoch h" | (locally) x where "lr_route_epoch e = hdr_session_epoch h" "lr_action e = Local x"
      | (onward) x y where "lr_route_epoch e = hdr_session_epoch h" "lr_action e = Forward x y"
      by (cases "lr_action e") auto
    then show ?thesis
    proof cases
      case onward
      have xy: "y \<noteq> 0" "x \<noteq> y" using e(2) onward(2) by (auto simp: check_label_def route_label_new_def adjacency_new_def result_iff)
      have "ss_generation s \<noteq> 0" "length (ss_local_node s) = 32" using s by (auto simp: snapshot_wf_def)
      note exp = expired_encodes [OF h _ inc this(1) ep this(2)]
      show ?thesis using d inc h Some onward xy exp
        by (auto simp: snapshot_dispatch_def adjacency_new_def disposition_wf_def result_iff dest: advance_overlay_hop_bytes split: if_splits)
    qed (use d inc h Some in \<open>auto simp: snapshot_dispatch_def adjacency_new_def disposition_wf_def split: if_splits\<close>)
  qed
qed

section \<open>The store\<close>

datatype 'n store_op = Publish "'n snapshot" | Dispatch adjacency_id bytes
datatype 'n store_answer = Published "'n snapshot result" | Dispatched "disposition result"

fun store_step :: "'n store_op \<Rightarrow> 'n snapshot_store \<Rightarrow> 'n snapshot_store \<times> 'n store_answer" where
  "store_step (Publish s) st = (case store_publish s st of (st', r) \<Rightarrow> (st', Published r))"
| "store_step (Dispatch incoming bs) st = (st, Dispatched (store_dispatch st incoming bs))"

definition store_inv :: "'n snapshot_store \<Rightarrow> bool" where
  "store_inv st \<longleftrightarrow> sorted_wrt (>) (map ss_generation (st_current st # st_retired st)) \<and> length (st_retired st) \<le> MAX_RETIRED_SNAPSHOTS \<and>
     (\<forall>s\<in>set (st_current st # st_retired st). snapshot_wf s)"

fun store_op_wf :: "'n store_op \<Rightarrow> bool" where
  "store_op_wf (Publish s) \<longleftrightarrow> snapshot_wf s"
| "store_op_wf (Dispatch _ _) \<longleftrightarrow> True"

fun store_answer_wf :: "'n store_op \<Rightarrow> 'n store_answer \<Rightarrow> bool" where
  "store_answer_wf (Dispatch incoming bs) (Dispatched (Inr d)) \<longleftrightarrow> disposition_wf incoming bs d"
| "store_answer_wf (Publish s) (Dispatched _) \<longleftrightarrow> False"
| "store_answer_wf (Dispatch _ _) (Published _) \<longleftrightarrow> False"
| "store_answer_wf _ _ \<longleftrightarrow> True"

lemma dispatch_retired_cases:
  "dispatch_retired ss incoming bs current = Inr d \<Longrightarrow> d = current \<or> (\<exists>s\<in>set ss. snapshot_dispatch s incoming bs = Inr d)"
  by (induction ss) (auto simp: result_iff split: if_splits)

interpretation store_runs: invariant_system "store_inv :: 'n snapshot_store \<Rightarrow> bool" store_step store_op_wf store_answer_wf
proof
  fix st st' :: "'n snapshot_store" and x r
  assume inv: "store_inv st" and wf: "store_op_wf x" and step: "store_step x st = (st', r)"
  show "store_inv st'"
  proof (cases x)
    case (Publish s)
    have "sorted_wrt (>) (map ss_generation (take n (st_retired st)))" for n
      using inv by (auto simp: store_inv_def take_map [symmetric] sorted_wrt_take)
    then show ?thesis using inv wf step Publish
      by (auto simp: store_publish_def Let_def store_inv_def MAX_RETIRED_SNAPSHOTS_def split: if_splits dest!: in_set_takeD) (meson order.strict_trans)+
  qed (use inv step in auto)
  show "store_answer_wf x r"
  proof (cases x)
    case (Dispatch incoming bs)
    have "disposition_wf incoming bs d" if d: "store_dispatch st incoming bs = Inr d" for d
    proof -
      have "\<exists>s\<in>set (st_current st # st_retired st). snapshot_dispatch s incoming bs = Inr d"
        using d dispatch_retired_cases by (fastforce simp: store_dispatch_def result_iff split: if_splits)
      then show ?thesis using inv snapshot_dispatch_wf by (auto simp: store_inv_def)
    qed
    then show ?thesis using step Dispatch by (cases "store_dispatch st incoming bs") auto
  qed (use step in \<open>auto split: prod.splits\<close>)
qed

lemma unresolved_iff:
  assumes "snapshot_dispatch s incoming bs = Inr d" "decode_route_header bs = Inr h"
  shows "unresolved d \<longleftrightarrow> snapshot_label_action s (hdr_session_epoch h) (hdr_route_label h) = None"
  using assms by (auto simp: snapshot_dispatch_def snapshot_label_action_def unresolved_def result_iff split: option.splits label_action.splits if_splits)

lemma label_epoch: "snapshot_label_action s ep l = Some a \<Longrightarrow> ep \<in> route_epochs s"
  by (force simp: snapshot_label_action_def route_epochs_def image_iff split: option.splits if_splits dest!: map_of_SomeD)

lemma dispatch_total:
  assumes "incoming \<noteq> 0" "decode_route_header bs = Inr h" "snapshot_label_action s (hdr_session_epoch h) (hdr_route_label h) = None"
  shows "\<exists>d. snapshot_dispatch s incoming bs = Inr d \<and> unresolved d"
  using assms by (auto simp: snapshot_dispatch_def snapshot_label_action_def unresolved_def adjacency_new_def split: option.splits if_splits)

lemma published_resolves:
  assumes pub: "store_publish nxt st = (st', Inr previous)" and d: "snapshot_dispatch (st_current st) incoming bs = Inr d" "\<not> unresolved d"
  shows "store_dispatch st' incoming bs = Inr d"
proof -
  obtain h where h: "decode_route_header bs = Inr h" and inc: "incoming \<noteq> 0"
    using d(1) by (auto simp: snapshot_dispatch_def adjacency_new_def result_iff)
  have st': "st_current st' = nxt" "st_retired st' = st_current st # take 1 (st_retired st)"
    and ep: "route_epochs (st_current st) \<inter> route_epochs nxt = {} \<or> route_epochs nxt = {}"
    using pub by (auto simp: store_publish_def Let_def MAX_RETIRED_SNAPSHOTS_def split: if_splits)
  have "hdr_session_epoch h \<in> route_epochs (st_current st)"
    using unresolved_iff [OF d(1) h] d(2) label_epoch by fastforce
  then have "snapshot_label_action nxt (hdr_session_epoch h) (hdr_route_label h) = None"
    using ep label_epoch by fastforce
  from dispatch_total [OF inc h this] obtain x where "snapshot_dispatch nxt incoming bs = Inr x" "unresolved x" by blast
  then show ?thesis using st' d by (simp add: store_dispatch_def)
qed

lemma published_twice_resolves:
  assumes pub: "store_publish nxt st = (st1, Inr p1)" "store_publish nxt2 st1 = (st2, Inr p2)"
    and d: "snapshot_dispatch (st_current st) incoming bs = Inr d" "\<not> unresolved d"
    and h: "decode_route_header bs = Inr h" and ep: "hdr_session_epoch h \<notin> route_epochs nxt2"
  shows "store_dispatch st2 incoming bs = Inr d"
proof -
  have inc: "incoming \<noteq> 0" using d(1) by (auto simp: snapshot_dispatch_def adjacency_new_def result_iff)
  have st1: "st_current st1 = nxt" "st_retired st1 = st_current st # take 1 (st_retired st)"
    and st2: "st_current st2 = nxt2" "st_retired st2 = [nxt, st_current st]"
    and dis: "route_epochs (st_current st) \<inter> route_epochs nxt = {} \<or> route_epochs nxt = {}"
    using pub by (auto simp: store_publish_def Let_def MAX_RETIRED_SNAPSHOTS_def split: if_splits)
  have "hdr_session_epoch h \<in> route_epochs (st_current st)"
    using unresolved_iff [OF d(1) h] d(2) label_epoch by fastforce
  then have "snapshot_label_action nxt (hdr_session_epoch h) (hdr_route_label h) = None"
    "snapshot_label_action nxt2 (hdr_session_epoch h) (hdr_route_label h) = None"
    using dis ep label_epoch by fastforce+
  from dispatch_total [OF inc h this(1)] dispatch_total [OF inc h this(2)] obtain x y where
    "snapshot_dispatch nxt incoming bs = Inr x" "unresolved x" "snapshot_dispatch nxt2 incoming bs = Inr y" "unresolved y" by blast
  then show ?thesis using st2 d by (simp add: store_dispatch_def)
qed

definition compiled :: "'n ipnet \<Rightarrow> 'n snapshot \<Rightarrow> bool" where
  "compiled N s \<longleftrightarrow> (\<exists>generation node routes labels exclusions allow. length node = 32 \<and>
     snapshot_compile N generation node routes labels exclusions allow = Inr s)"

fun publishes_compiled :: "'n ipnet \<Rightarrow> 'n store_op \<Rightarrow> bool" where
  "publishes_compiled N (Publish s) \<longleftrightarrow> compiled N s"
| "publishes_compiled N (Dispatch _ _) \<longleftrightarrow> True"

lemma compiled_wf: "compiled N s \<Longrightarrow> snapshot_wf s"
  unfolding compiled_def using snapshot_compile_wf by blast

lemma publishes_wf: "list_all (publishes_compiled N) ops \<Longrightarrow> list_all store_op_wf ops"
proof (induction ops)
  case (Cons x xs)
  then show ?case by (cases x) (auto intro: compiled_wf)
qed simp

section \<open>A concrete prefix type\<close>

typedef ip_net = "{(a :: ip_addr, k :: u8). unat k \<le> addr_width a}"
  by (rule exI [of _ "(V4 0, 0)"]) simp

definition ip_net_ops :: "ip_net ipnet" where
  "ip_net_ops = \<lparr> net_addr = (\<lambda>n. fst (Rep_ip_net n)), net_prefix_len = (\<lambda>n. snd (Rep_ip_net n)),
     net_network = (\<lambda>n. masked_address (fst (Rep_ip_net n)) (snd (Rep_ip_net n))),
     net_contains = (\<lambda>n a. same_prefix (unat (snd (Rep_ip_net n))) a (fst (Rep_ip_net n))),
     net_new = (\<lambda>a k. ensure (unat k \<le> addr_width a) ''invalid prefix length'' (Inr (Abs_ip_net (a, k)))) \<rparr>"

lemma ip_net_len: "unat (snd (Rep_ip_net n)) \<le> addr_width (fst (Rep_ip_net n))"
  using Rep_ip_net [of n] by auto

lemma ip_net_ok: "ipnet_ok ip_net_ops"
proof -
  have "same_prefix (unat k) (masked_address a k) a \<and> host_bits_zero (unat k) (masked_address a k)" if "unat k \<le> addr_width a" for a k
    using masked_address_iff [OF that, of "masked_address a k"] same_prefix_sym by metis
  moreover have "\<exists>n. Abs_ip_net (a, k) = n \<and> fst (Rep_ip_net n) = a \<and> snd (Rep_ip_net n) = k" if "unat k \<le> addr_width a" for a k
    using that by (simp add: Abs_ip_net_inverse)
  moreover have "m = n" if "fst (Rep_ip_net m) = fst (Rep_ip_net n)" "snd (Rep_ip_net m) = snd (Rep_ip_net n)" for m n
    using that by (simp add: Rep_ip_net_inject [symmetric] prod_eq_iff)
  ultimately show ?thesis using ip_net_len by (auto simp: ipnet_ok_def ip_net_ops_def)
qed

definition net :: "ip_addr \<Rightarrow> u8 \<Rightarrow> ip_net" where
  "net a k = Abs_ip_net (a, k)"

lemma net_sel:
  assumes "unat k \<le> addr_width a"
  shows "net_addr ip_net_ops (net a k) = a" "net_prefix_len ip_net_ops (net a k) = k"
    "net_network ip_net_ops (net a k) = masked_address a k" "net_contains ip_net_ops (net a k) b \<longleftrightarrow> same_prefix (unat k) b a"
  using assms by (simp_all add: ip_net_ops_def net_def Abs_ip_net_inverse)

section \<open>Properties\<close>

text \<open>C37. Prefix lookup refines longest-prefix match: in every snapshot that compiled, whatever the routes and the
  exclusions, an address inside an excluded prefix is refused, and any other address resolves to exactly
  the routes of the longest prefix that contains it, in their order, the first of them being the route
  chosen; the hash tables and masks of the index are not visible.\<close>

theorem lookup_longest_prefix:
  assumes N: "ipnet_ok N" and s: "snapshot_compile N generation node routes labels exclusions allow = Inr s"
  shows "lookup_destination_candidates s a =
      (if \<exists>n\<in>set exclusions. net_contains N n a then Inl UnderlayDestination
       else if longest_match N routes a = [] then Inl NoRoute
       else Inr (map (\<lambda>r. (pr_route r, pr_startup_latency r)) (longest_match N routes a))) \<and>
    lookup_destination s a =
      (if \<exists>n\<in>set exclusions. net_contains N n a then Inl UnderlayDestination
       else if longest_match N routes a = [] then Inl NoRoute
       else Inr (pr_route (hd (longest_match N routes a))))"
  using snapshot_compile_Inr(4,5) [OF s]
  by (cases "longest_match N routes a")
    (auto simp: lookup_destination_candidates_def lookup_destination_def index_lookup_longest [OF N] prefix_set_contains_iff [OF N])

definition demo_route :: "ip_net \<Rightarrow> u32 \<Rightarrow> ip_net prefix_route" where
  "demo_route n label = \<lparr> pr_prefix = n, pr_route = \<lparr> rr_adjacency = 1, rr_route_label = label, rr_route_epoch = 7,
     rr_maximum_datagram_size = 1200 \<rparr>, pr_startup_latency = 5 \<rparr>"

definition demo_routes :: "ip_net prefix_route list" where
  "demo_routes = [demo_route (net (V4 0x0A000000) 8) 1, demo_route (net (V4 0x0A010000) 16) 2]"

definition demo_node :: node_id where
  "demo_node = replicate 32 9"

lemma demo_node_len: "length demo_node = 32"
  by (simp add: demo_node_def)

definition demo_labels :: "label_route list" where
  "demo_labels = [\<lparr> lr_route_label = 5, lr_route_epoch = 3, lr_action = Local 4 \<rparr>,
     \<lparr> lr_route_label = 9, lr_route_epoch = 7, lr_action = Forward 4 8 \<rparr>]"

lemma demo_masks:
  "masked_address (V4 0x0A000000) 8 = V4 0x0A000000" "masked_address (V4 0x0A010000) 16 = V4 0x0A010000"
  "masked_address (V4 0x0A010200) 24 = V4 0x0A010200"
  by (simp_all add: masked_address_iff same_prefix_def host_bits_zero_def del: masked_address.simps)

lemma demo_compiles: "\<exists>s. snapshot_compile ip_net_ops 1 demo_node demo_routes demo_labels [net (V4 0x0A010200) 24] False = Inr s"
proof -
  have "net (V4 0x0A000000) 8 \<noteq> net (V4 0x0A010000) 16"
    using net_sel(2) [of 8 "V4 0x0A000000"] net_sel(2) [of 16 "V4 0x0A010000"] by auto
  then have "validate_prefix_set ip_net_ops (remdups_adj (sort_key (prefix_key ip_net_ops) (map pr_prefix demo_routes))) False = Inr ()"
    by (auto simp: validate_prefix_set_Inr [OF ip_net_ok] distinct_sort_key(2) [OF prefix_key_inj [OF ip_net_ok]] demo_routes_def
        demo_route_def net_sel demo_masks simp del: masked_address.simps)
  moreover have "validate_prefix_set ip_net_ops [net (V4 0x0A010200) 24] True = Inr ()"
    by (simp add: validate_prefix_set_Inr [OF ip_net_ok] net_sel demo_masks del: masked_address.simps)
  moreover have "\<exists>m. compile_labels demo_labels [] = Inr m"
    by (simp add: demo_labels_def check_label_def route_label_new_def adjacency_new_def)
  moreover have "\<exists>m. compile_sources (map pr_route demo_routes) [] = Inr m"
    by (simp add: demo_routes_def demo_route_def)
  moreover have "allR (check_source_route \<circ> pr_route) demo_routes = Inr ()"
    by (simp add: demo_routes_def demo_route_def check_source_route_def route_label_new_def adjacency_new_def HEADER_LEN_def)
  ultimately show ?thesis by (auto simp: snapshot_compile_def Let_def MAX_ROUTE_LABELS_def demo_labels_def)
qed

theorem lookup_longest_prefix_witness:
  "\<exists>s. snapshot_compile ip_net_ops 1 demo_node demo_routes demo_labels [net (V4 0x0A010200) 24] False = Inr s \<and>
    lookup_destination s (V4 0x0A010304) = Inr (pr_route (demo_route (net (V4 0x0A010000) 16) 2)) \<and>
    lookup_destination s (V4 0x0A010204) = Inl UnderlayDestination"
proof -
  obtain s where s: "snapshot_compile ip_net_ops 1 demo_node demo_routes demo_labels [net (V4 0x0A010200) 24] False = Inr s"
    using demo_compiles by blast
  have "longest_match ip_net_ops demo_routes (V4 0x0A010304) = [demo_route (net (V4 0x0A010000) 16) 2]"
    by (simp add: longest_match_def demo_routes_def demo_route_def net_sel same_prefix_def)
  then show ?thesis
    using s lookup_longest_prefix [OF ip_net_ok s, of "V4 0x0A010304"] lookup_longest_prefix [OF ip_net_ok s, of "V4 0x0A010204"]
    by (auto simp: net_sel same_prefix_def)
qed

text \<open>C38. Whatever the data plane does with a received Cell is well formed: in every run of publications of compiled
  snapshots and dispatches, the generations in force are strictly ordered and at most two retired ones
  are kept; a local Cell is the received bytes with their header, a forwarded Cell goes to another
  adjacency and differs only in the two hop bytes, an expired Cell yields a report that encodes and that
  its receiver decodes, and no Cell is ever reflected to its ingress.\<close>

theorem store_run_wellformed:
  assumes "compiled N s" and "list_all (publishes_compiled N) ops" and "run_ops store_step ops (store_new s) = (st, answers)"
  shows "sorted_wrt (>) (map ss_generation (st_current st # st_retired st)) \<and> length (st_retired st) \<le> MAX_RETIRED_SNAPSHOTS \<and>
    list_all2 store_answer_wf ops answers"
proof -
  have "store_inv (store_new s)" using compiled_wf [OF assms(1)] by (simp add: store_inv_def store_new_def)
  from store_runs.run_inv [OF this publishes_wf [OF assms(2)] assms(3)] show ?thesis by (simp add: store_inv_def)
qed

lemma demo_header: "\<exists>h. decode_route_header demo_bytes = Inr h \<and> hdr_session_epoch h = 7 \<and> hdr_route_label h = 9 \<and> hdr_overlay_hop_limit h = 3"
proof -
  have "decode_cell demo_bytes = Inr demo_cell" by (rule demo_decodes)
  then have "validate_cell demo_cell = Inr ()" "demo_bytes = encode_header (cell_flags demo_cell) (header_of demo_cell) @ encode_body (cell_body demo_cell)"
    "length demo_bytes \<le> MAX_CELL_BYTES" by (simp_all only: decode_cell_Inr_iff)
  from decode_header_of [OF this] show ?thesis by (simp add: header_of_def demo_cell_def)
qed

lemma demo_dispatch:
  assumes "snapshot_compile ip_net_ops 1 demo_node demo_routes demo_labels [net (V4 0x0A010200) 24] False = Inr s"
  shows "\<exists>cell. snapshot_dispatch s 4 demo_bytes = Inr (ForwardCell 8 cell)"
proof -
  obtain h where h: "decode_route_header demo_bytes = Inr h" "hdr_session_epoch h = 7" "hdr_route_label h = 9" "hdr_overlay_hop_limit h = 3"
    using demo_header by blast
  have "1 < unat (hdr_overlay_hop_limit h)" by (simp add: h(4))
  then obtain bs' h' where "advance_overlay_hop demo_bytes = Inr (bs', h')" using advance_overlay_hopE [OF h(1)] by blast
  then show ?thesis using h snapshot_compile_Inr(6) [OF assms] by (simp add: snapshot_dispatch_def adjacency_new_def demo_labels_def word_le_nat_alt)
qed

theorem store_run_wellformed_witness:
  "\<exists>s cell st. compiled ip_net_ops s \<and> run_ops store_step [Publish s, Dispatch 4 demo_bytes] (store_new s) =
      (st, [Published (Inl (Err ''V2 snapshot generation did not advance'')), Dispatched (Inr (ForwardCell 8 cell))]) \<and>
    disposition_wf 4 demo_bytes (ForwardCell 8 cell)"
proof -
  obtain s where s: "snapshot_compile ip_net_ops 1 demo_node demo_routes demo_labels [net (V4 0x0A010200) 24] False = Inr s"
    using demo_compiles by blast
  have c: "compiled ip_net_ops s" unfolding compiled_def using s demo_node_len by blast
  obtain cell where cell: "snapshot_dispatch s 4 demo_bytes = Inr (ForwardCell 8 cell)" using demo_dispatch [OF s] by blast
  have run: "run_ops store_step [Publish s, Dispatch 4 demo_bytes] (store_new s) =
      (store_new s, [Published (Inl (Err ''V2 snapshot generation did not advance'')), Dispatched (Inr (ForwardCell 8 cell))])"
    by (simp add: store_publish_def store_new_def store_dispatch_def cell unresolved_def)
  have "list_all (publishes_compiled ip_net_ops) [Publish s, Dispatch 4 demo_bytes]" using c by simp
  from store_run_wellformed [OF c this run] have "disposition_wf 4 demo_bytes (ForwardCell 8 cell)" by simp
  with c run show ?thesis by blast
qed

text \<open>C39. Publication does not lose trains in flight: a Cell that the current snapshot resolves is dispatched the same
  way after the next publication, and after the one that follows it as long as that one does not reuse
  the route epoch in the Cell's header (whatever other epochs it reuses).\<close>

theorem publish_drains:
  assumes "store_publish nxt st = (st1, Inr p1)" and "snapshot_dispatch (st_current st) incoming bs = Inr d" and "\<not> unresolved d"
  shows "store_dispatch st1 incoming bs = Inr d \<and>
    (\<forall>nxt2 st2 p2 h. store_publish nxt2 st1 = (st2, Inr p2) \<and> decode_route_header bs = Inr h \<and>
        hdr_session_epoch h \<notin> route_epochs nxt2 \<longrightarrow> store_dispatch st2 incoming bs = Inr d)"
  using published_resolves [OF assms] published_twice_resolves [OF assms(1) _ assms(2,3)] by blast

theorem publish_drains_witness:
  "\<exists>s nxt st1 p1 cell. snapshot_dispatch s 4 demo_bytes = Inr (ForwardCell 8 cell) \<and> snapshot_empty ip_net_ops 2 demo_node = Inr nxt \<and>
    store_publish nxt (store_new s) = (st1, Inr p1) \<and> store_dispatch st1 4 demo_bytes = Inr (ForwardCell 8 cell)"
proof -
  obtain s where s: "snapshot_compile ip_net_ops 1 demo_node demo_routes demo_labels [net (V4 0x0A010200) 24] False = Inr s"
    using demo_compiles by blast
  obtain cell where cell: "snapshot_dispatch s 4 demo_bytes = Inr (ForwardCell 8 cell)" using demo_dispatch [OF s] by blast
  obtain nxt where n: "snapshot_empty ip_net_ops 2 demo_node = Inr nxt"
    by (simp add: snapshot_empty_def snapshot_compile_def validate_prefix_set_def Let_def)
  have e: "route_epochs nxt = {}" "ss_generation nxt = 2"
    using n by (auto simp: snapshot_empty_def snapshot_compile_def route_epochs_def result_iff Let_def)
  then obtain st1 where st1: "store_publish nxt (store_new s) = (st1, Inr s)"
    using snapshot_compile_Inr(1) [OF s] by (simp add: store_publish_def store_new_def)
  have "snapshot_dispatch (st_current (store_new s)) 4 demo_bytes = Inr (ForwardCell 8 cell)" by (simp add: store_new_def cell)
  from publish_drains [OF st1 this] have "store_dispatch st1 4 demo_bytes = Inr (ForwardCell 8 cell)" by (simp add: unresolved_def)
  with cell n st1 show ?thesis by blast
qed

text \<open>C40. The routing records are canonical: a receiver accepts an OAM report, a route advertisement or a route
  feedback record exactly when it is the encoding of the value it decodes to, and an advertisement
  exactly when its prefixes are also admissible to the receiver.\<close>

theorem routing_records_canonical:
  assumes "ipnet_ok N"
  shows "(oam_decode bs = Inr c \<longleftrightarrow> length (oam_reporter c) = 32 \<and> oam_encode c = Inr bs) \<and>
    (advertisement_decode N bs allow = Inr adv \<longleftrightarrow>
       advertisement_encode N adv = Inr bs \<and> advertisement_validate N allow adv = Inr ()) \<and>
    (route_feedback_decode bs = Inr f \<longleftrightarrow> route_feedback_encode f = Inr bs)"
proof (intro conjI)
  show "oam_decode bs = Inr c \<longleftrightarrow> length (oam_reporter c) = 32 \<and> oam_encode c = Inr bs"
    by (simp add: oam_wire.dec_iff_enc oam_write_def ensure_Inr_iff)
  show "advertisement_decode N bs allow = Inr adv \<longleftrightarrow>
      advertisement_encode N adv = Inr bs \<and> advertisement_validate N allow adv = Inr ()"
    using advertisement_decode_encode [OF assms, of adv bs allow] advertisement_encode_decode [OF assms, of bs allow adv] by blast
  show "route_feedback_decode bs = Inr f \<longleftrightarrow> route_feedback_encode f = Inr bs" by (rule route_feedback_wire.dec_iff_enc)
qed

theorem routing_records_canonical_witness:
  "\<exists>bs adv. adv_prefixes adv = [net (V4 0x0A000000) 8] \<and> advertisement_encode ip_net_ops adv = Inr bs \<and>
    advertisement_decode ip_net_ops bs False = Inr adv"
proof -
  let ?adv = "\<lparr> adv_generation = 1, adv_prefixes = [net (V4 0x0A000000) 8] \<rparr>"
  have v: "advertisement_validate ip_net_ops allow ?adv = Inr ()" for allow
    by (simp add: advertisement_validate_Inr [OF ip_net_ok] net_sel demo_masks del: masked_address.simps)
  then obtain bs where bs: "advertisement_encode ip_net_ops ?adv = Inr bs" by (simp add: advertisement_encode_def)
  from routing_records_canonical [OF ip_net_ok, of bs _ False ?adv] v bs
  have "advertisement_decode ip_net_ops bs False = Inr ?adv" by blast
  with bs show ?thesis by (intro exI [of _ bs] exI [of _ ?adv]) simp
qed

end
