(* ===== verification/Topology.thy ===== *)
theory Topology
  imports SnapshotProperties "HOL-Library.List_Lexorder"
begin

text \<open>
  The topology compiler of \<open>src/src/protocol/v2/routing.rs\<close>: the adjacency graph built from the authenticated
  links, the shortest-path search, the candidate paths of a source, and the allocation of one label per
  source, owner and path, compiled into the snapshot of every node or of the local node only.
\<close>

section \<open>Nodes and links\<close>

definition MAX_CANDIDATE_ROUTES :: nat where "MAX_CANDIDATE_ROUTES = 4"

record 'n topology_node =
  tn_node_id :: node_id
  tn_advertised_prefixes :: "'n list"
  tn_transit_enabled :: bool
  tn_underlay_exclusion_prefixes :: "'n list"

record topology_link =
  tl_left :: node_id
  tl_right :: node_id
  tl_left_adjacency :: adjacency_id
  tl_right_adjacency :: adjacency_id
  tl_cost :: u32
  tl_healthy :: bool
  tl_maximum_datagram_size :: u16

record 'n compiled_topology =
  ct_generation :: u64
  ct_route_epoch :: u32
  ct_snapshots :: "(node_id \<times> 'n snapshot) list"

record directed_link =
  dl_peer :: node_id
  dl_adjacency :: adjacency_id
  dl_cost :: u32
  dl_maximum_datagram_size :: u16

record 'n snapshot_parts =
  sp_prefixes :: "'n prefix_route list"
  sp_labels :: "label_route list"

type_synonym link_graph = "(node_id \<times> directed_link list) list"

definition edges :: "link_graph \<Rightarrow> node_id \<Rightarrow> directed_link list" where
  "edges graph n = (case map_of graph n of None \<Rightarrow> [] | Some es \<Rightarrow> es)"

definition push_edge :: "node_id \<Rightarrow> directed_link \<Rightarrow> link_graph \<Rightarrow> link_graph" where
  "push_edge n e graph = AList.update n (edges graph n @ [e]) graph"

fun collect_nodes :: "'n ipnet \<Rightarrow> bool \<Rightarrow> 'n topology_node list \<Rightarrow> (node_id \<times> 'n topology_node) list \<Rightarrow>
    (node_id \<times> 'n topology_node) list result" where
  "collect_nodes N allow_default_routes [] node_map = Inr node_map"
| "collect_nodes N allow_default_routes (node # nodes) node_map =
     bindR (validate_prefix_set N (tn_advertised_prefixes node) allow_default_routes) (\<lambda>_.
     bindR (validate_prefix_set N (tn_underlay_exclusion_prefixes node) True) (\<lambda>_.
     ensure (map_of node_map (tn_node_id node) = None) ''duplicate V2 topology node'' (
     collect_nodes N allow_default_routes nodes (AList.update (tn_node_id node) node node_map))))"

text \<open>\<open>validate_global_ownership\<close>: every advertised prefix against those of other nodes seen before it.\<close>

fun check_owned :: "'n ipnet \<Rightarrow> node_id \<Rightarrow> 'n list \<Rightarrow> (node_id \<times> 'n) list \<Rightarrow> (node_id \<times> 'n) list result" where
  "check_owned N owner [] owned = Inr owned"
| "check_owned N owner (prefix # prefixes) owned =
     ensure (list_all (\<lambda>(other_owner, other). owner \<noteq> other_owner \<longrightarrow> \<not> prefixes_overlap N prefix other) owned)
       ''overlapping V2 advertised prefixes'' (
     check_owned N owner prefixes (owned @ [(owner, prefix)]))"

fun check_ownership :: "'n ipnet \<Rightarrow> 'n topology_node list \<Rightarrow> (node_id \<times> 'n) list \<Rightarrow> unit result" where
  "check_ownership N [] owned = Inr ()"
| "check_ownership N (node # nodes) owned =
     bindR (check_owned N (tn_node_id node) (tn_advertised_prefixes node) owned) (\<lambda>owned.
     check_ownership N nodes owned)"

definition validate_global_ownership :: "'n ipnet \<Rightarrow> (node_id \<times> 'n topology_node) list \<Rightarrow> unit result" where
  "validate_global_ownership N node_map = check_ownership N (map snd node_map) []"

record link_state =
  ls_graph :: link_graph
  ls_adjacency_ids :: "(node_id \<times> adjacency_id) set"
  ls_node_pairs :: "(node_id \<times> node_id) set"

definition link_pair :: "topology_link \<Rightarrow> node_id \<times> node_id" where
  "link_pair link = (if tl_left link < tl_right link then (tl_left link, tl_right link) else (tl_right link, tl_left link))"

definition add_link :: "node_id set \<Rightarrow> topology_link \<Rightarrow> link_state \<Rightarrow> link_state result" where
  "add_link known link st =
     ensure (tl_left link \<noteq> tl_right link) ''V2 topology link is a self-loop'' (
     ensure (tl_left link \<in> known \<and> tl_right link \<in> known) ''V2 topology link references an unknown node'' (
     bindR (adjacency_new (tl_left_adjacency link)) (\<lambda>_.
     bindR (adjacency_new (tl_right_adjacency link)) (\<lambda>_.
     ensure (tl_cost link \<noteq> 0) ''V2 topology link cost is zero'' (
     ensure (HEADER_LEN < unat (tl_maximum_datagram_size link)) ''V2 topology link DATAGRAM ceiling is too small'' (
     let left = (tl_left link, tl_left_adjacency link); right = (tl_right link, tl_right_adjacency link) in
     ensure (left \<notin> ls_adjacency_ids st \<and> right \<notin> insert left (ls_adjacency_ids st)) ''duplicate V2 local adjacency ID'' (
     ensure (link_pair link \<notin> ls_node_pairs st) ''duplicate V2 topology link'' (
     let st = st\<lparr> ls_adjacency_ids := insert right (insert left (ls_adjacency_ids st)),
                   ls_node_pairs := insert (link_pair link) (ls_node_pairs st) \<rparr> in
     if \<not> tl_healthy link then Inr st
     else Inr (st\<lparr> ls_graph :=
       push_edge (tl_right link) \<lparr> dl_peer = tl_left link, dl_adjacency = tl_right_adjacency link, dl_cost = tl_cost link,
           dl_maximum_datagram_size = tl_maximum_datagram_size link \<rparr>
         (push_edge (tl_left link) \<lparr> dl_peer = tl_right link, dl_adjacency = tl_left_adjacency link, dl_cost = tl_cost link,
           dl_maximum_datagram_size = tl_maximum_datagram_size link \<rparr> (ls_graph st)) \<rparr>)))))))))"

fun add_links :: "node_id set \<Rightarrow> topology_link list \<Rightarrow> link_state \<Rightarrow> link_state result" where
  "add_links known [] st = Inr st"
| "add_links known (link # links) st = bindR (add_link known link st) (add_links known links)"

definition edge_key :: "directed_link \<Rightarrow> u32 \<times> node_id \<times> adjacency_id" where
  "edge_key e = (dl_cost e, dl_peer e, dl_adjacency e)"

definition build_graph :: "node_id set \<Rightarrow> topology_link list \<Rightarrow> link_graph result" where
  "build_graph known links =
     bindR (add_links known links \<lparr> ls_graph = [], ls_adjacency_ids = {}, ls_node_pairs = {} \<rparr>) (\<lambda>st.
     Inr (map (\<lambda>(n, es). (n, sort_key edge_key es)) (ls_graph st)))"

definition directed_link_v2 :: "link_graph \<Rightarrow> node_id \<Rightarrow> node_id \<Rightarrow> directed_link result" where
  "directed_link_v2 graph from to =
     (case find (\<lambda>e. dl_peer e = to) (edges graph from) of
        Some e \<Rightarrow> Inr e
      | None \<Rightarrow> Inl (Err ''V2 compiled path references an absent healthy link''))"

section \<open>Shortest paths\<close>

text \<open>Costs are \<open>u64\<close> and added saturating, as \<^const>\<open>sat_add\<close> does. The binary heap is a sorted list: its
  minimum is its head. \<open>destination\<close> ends the search when it is visited.\<close>

record search_state =
  se_distance :: "(node_id \<times> nat) list"
  se_previous :: "(node_id \<times> node_id) list"
  se_visited :: "node_id set"
  se_pending :: "(nat \<times> node_id) list"

definition relax_edge :: "node_id option \<Rightarrow> node_id \<Rightarrow> nat \<Rightarrow> directed_link \<Rightarrow> search_state \<Rightarrow> search_state" where
  "relax_edge excluded current current_cost e s =
     (if Some (dl_peer e) = excluded \<or> dl_peer e \<in> se_visited s then s
      else
        let candidate = sat_add current_cost (unat (dl_cost e));
            replace = (case map_of (se_distance s) (dl_peer e) of
                None \<Rightarrow> True
              | Some existing \<Rightarrow>
                  if candidate < existing then True
                  else if candidate = existing then
                    (case map_of (se_previous s) (dl_peer e) of None \<Rightarrow> True | Some old_previous \<Rightarrow> current < old_previous)
                  else False) in
        if replace then
          s\<lparr> se_distance := AList.update (dl_peer e) candidate (se_distance s),
             se_previous := AList.update (dl_peer e) current (se_previous s),
             se_pending := insort (candidate, dl_peer e) (se_pending s) \<rparr>
        else s)"

definition graph_nodes :: "link_graph \<Rightarrow> node_id set" where
  "graph_nodes graph = dl_peer ` (\<Union> (set ` snd ` set graph))"

lemma relax_edge_sel:
  "se_visited (relax_edge x c n e s) = se_visited s"
  "snd ` set (se_pending (relax_edge x c n e s)) \<subseteq> insert (dl_peer e) (snd ` set (se_pending s))"
  by (auto simp: relax_edge_def Let_def set_insort_key)

lemma relax_edges_sel:
  "se_visited (fold (relax_edge x c n) es s) = se_visited s"
  "snd ` set (se_pending (fold (relax_edge x c n) es s)) \<subseteq> dl_peer ` set es \<union> snd ` set (se_pending s)"
proof (induction es arbitrary: s)
  case (Cons e es)
  {
    case 1
    show ?case using Cons.IH(1) by (simp add: relax_edge_sel)
  next
    case 2
    show ?case using Cons.IH(2) [of "relax_edge x c n e s"] relax_edge_sel(2) [of x c n e s] by auto
  }
qed simp_all

lemma edges_nodes: "dl_peer ` set (edges graph n) \<subseteq> graph_nodes graph"
proof (cases "map_of graph n")
  case (Some es)
  then have "es \<in> snd ` set graph" using map_of_SomeD [OF Some] by force
  then show ?thesis unfolding edges_def graph_nodes_def Some by (auto intro: imageI)
qed (simp add: edges_def)

definition unsettled :: "link_graph \<Rightarrow> search_state \<Rightarrow> node_id set" where
  "unsettled graph s = (graph_nodes graph \<union> snd ` set (se_pending s)) - se_visited s"

lemma finite_unsettled: "finite (unsettled graph s)"
  by (simp add: unsettled_def graph_nodes_def)

lemma unsettled_visit:
  assumes "se_pending s = (n, c) # rest" "c \<notin> se_visited s" "se_visited t = insert c (se_visited s)"
    and "snd ` set (se_pending t) \<subseteq> graph_nodes graph \<union> snd ` set rest"
  shows "card (unsettled graph t) < card (unsettled graph s)"
proof (rule psubset_card_mono)
  show "unsettled graph t \<subset> unsettled graph s" using assms by (auto simp: unsettled_def)
qed (rule finite_unsettled)

lemma unsettled_skip:
  assumes "se_pending s = x # rest"
  shows "card (unsettled graph (s\<lparr> se_pending := rest \<rparr>)) \<le> card (unsettled graph s)"
  using assms by (intro card_mono finite_unsettled) (auto simp: unsettled_def)

function search :: "node_id \<Rightarrow> node_id \<Rightarrow> node_id option \<Rightarrow> link_graph \<Rightarrow> node_id set \<Rightarrow> search_state \<Rightarrow> search_state" where
  "search source destination excluded graph transit s =
     (case se_pending s of
        [] \<Rightarrow> s
      | (current_cost, current) # pending \<Rightarrow>
          let s1 = s\<lparr> se_pending := pending \<rparr> in
          if Some current = excluded \<or> map_of (se_distance s1) current \<noteq> Some current_cost then
            search source destination excluded graph transit s1
          else if current \<in> se_visited s1 then search source destination excluded graph transit s1
          else
            let s2 = s1\<lparr> se_visited := insert current (se_visited s1) \<rparr> in
            if current = destination then s2
            else if current \<noteq> source \<and> current \<notin> transit then search source destination excluded graph transit s2
            else search source destination excluded graph transit (fold (relax_edge excluded current current_cost) (edges graph current) s2))"
  by pat_completeness auto

termination
proof (relation "inv_image (less_than <*lex*> less_than)
      (\<lambda>(source, destination, excluded, graph, transit, s). (card (unsettled graph s), length (se_pending s)))", goal_cases)
  case 1
  show ?case by (intro wf_inv_image wf_lex_prod wf_less_than)
next
  case (2 source destination excluded graph transit s x pending n c s1)
  then show ?case using unsettled_skip [of s x pending graph] by (auto simp: le_less)
next
  case (3 source destination excluded graph transit s x pending n c s1)
  then show ?case using unsettled_skip [of s x pending graph] by (auto simp: le_less)
next
  case (4 source destination excluded graph transit s x pending n c s1 s2)
  then show ?case using unsettled_visit [of s n c pending s2 graph] by auto
next
  case (5 source destination excluded graph transit s x pending n c s1 s2)
  let ?t = "fold (relax_edge excluded c n) (edges graph c) s2"
  have "card (unsettled graph ?t) < card (unsettled graph s)"
    using 5 relax_edges_sel [of excluded c n "edges graph c" s2] edges_nodes [of graph c]
    by (intro unsettled_visit [of s n c pending]) auto
  then show ?case by simp
qed

declare search.simps [simp del]

text \<open>The walk from the destination back to the source. Nothing in the loop bounds it, so not returning is
  \<open>None\<close>; \<open>Some None\<close> is the early return of a missing predecessor.\<close>

partial_function (option) trace_back :: "(node_id \<times> node_id) list \<Rightarrow> node_id \<Rightarrow> node_id list \<Rightarrow> node_id list option option" where
  "trace_back previous source path =
     (if last path = source then Some (Some path)
      else (case map_of previous (last path) of
          None \<Rightarrow> Some None
        | Some p \<Rightarrow> trace_back previous source (path @ [p])))"

declare trace_back.simps [simp del]

definition shortest_path_excluding :: "node_id \<Rightarrow> node_id \<Rightarrow> node_id option \<Rightarrow> link_graph \<Rightarrow> node_id set \<Rightarrow> node_id list option option" where
  "shortest_path_excluding source destination excluded graph transit =
     (let s = search source destination excluded graph transit
            \<lparr> se_distance = [(source, 0)], se_previous = [], se_visited = {}, se_pending = [(0, source)] \<rparr> in
      if map_of (se_distance s) destination = None then Some None
      else map_option (map_option rev) (trace_back (se_previous s) source [destination]))"

section \<open>Candidate paths\<close>

fun hops :: "node_id list \<Rightarrow> (node_id \<times> node_id) list" where
  "hops (a # b # path) = (a, b) # hops (b # path)"
| "hops _ = []"

definition hop_cost :: "link_graph \<Rightarrow> node_id \<times> node_id \<Rightarrow> nat" where
  "hop_cost graph hop = (case directed_link_v2 graph (fst hop) (snd hop) of Inl _ \<Rightarrow> usize_max | Inr link \<Rightarrow> unat (dl_cost link))"

definition path_cost :: "link_graph \<Rightarrow> node_id list \<Rightarrow> nat" where
  "path_cost graph path = fold (\<lambda>hop cost. sat_add cost (hop_cost graph hop)) (hops path) 0"

definition candidate_path :: "node_id \<Rightarrow> node_id \<Rightarrow> link_graph \<Rightarrow> node_id set \<Rightarrow> directed_link \<Rightarrow> node_id list option option" where
  "candidate_path source destination graph transit e =
     (if dl_peer e = destination then Some (Some [source, destination])
      else if dl_peer e \<in> transit then
        map_option (map_option (\<lambda>tail. source # tail)) (shortest_path_excluding (dl_peer e) destination (Some source) graph transit)
      else Some None)"

fun collect_paths :: "('a \<Rightarrow> 'b option option) \<Rightarrow> 'a list \<Rightarrow> 'b list option" where
  "collect_paths f [] = Some []"
| "collect_paths f (x # xs) =
     (case f x of
        None \<Rightarrow> None
      | Some p \<Rightarrow> map_option (\<lambda>ps. (case p of None \<Rightarrow> ps | Some path \<Rightarrow> path # ps)) (collect_paths f xs))"

definition candidate_paths :: "node_id \<Rightarrow> node_id \<Rightarrow> link_graph \<Rightarrow> node_id set \<Rightarrow> node_id list list option" where
  "candidate_paths source destination graph transit =
     map_option (\<lambda>candidates. take MAX_CANDIDATE_ROUTES (sort_key (\<lambda>path. (path_cost graph path, path)) candidates))
       (collect_paths (candidate_path source destination graph transit) (edges graph source))"

section \<open>Label allocation\<close>

text \<open>A computation that may also not return: \<open>None\<close>, or a result.\<close>

definition bindD :: "'a result option \<Rightarrow> ('a \<Rightarrow> 'b result option) \<Rightarrow> 'b result option" where
  "bindD m f = (case m of None \<Rightarrow> None | Some (Inl e) \<Rightarrow> Some (Inl e) | Some (Inr x) \<Rightarrow> f x)"

type_synonym 'n parts = "(node_id \<times> 'n snapshot_parts) list"

definition modify_part :: "node_id \<Rightarrow> ('n snapshot_parts \<Rightarrow> 'n snapshot_parts) \<Rightarrow> 'n parts \<Rightarrow> 'n parts" where
  "modify_part n f parts = (case map_of parts n of None \<Rightarrow> parts | Some p \<Rightarrow> AList.update n (f p) parts)"

definition hop_action :: "link_graph \<Rightarrow> node_id \<Rightarrow> node_id \<Rightarrow> node_id list \<Rightarrow> label_action result" where
  "hop_action graph previous current rest =
     bindR (directed_link_v2 graph current previous) (\<lambda>ingress.
     case rest of
       [] \<Rightarrow> Inr (Local (dl_adjacency ingress))
     | nxt # _ \<Rightarrow> bindR (directed_link_v2 graph current nxt) (\<lambda>egress. Inr (Forward (dl_adjacency ingress) (dl_adjacency egress))))"

fun assign_hops :: "link_graph \<Rightarrow> route_label \<Rightarrow> u32 \<Rightarrow> node_id list \<Rightarrow> 'n parts \<Rightarrow> 'n parts result" where
  "assign_hops graph label route_epoch (previous # current # rest) parts =
     bindR (hop_action graph previous current rest) (\<lambda>action.
     assign_hops graph label route_epoch (current # rest)
       (modify_part current (\<lambda>p. p\<lparr> sp_labels := sp_labels p @
          [\<lparr> lr_route_label = label, lr_route_epoch = route_epoch, lr_action = action \<rparr>] \<rparr>) parts))"
| "assign_hops graph label route_epoch _ parts = Inr parts"

definition path_route :: "directed_link list \<Rightarrow> route_label \<Rightarrow> u32 \<Rightarrow> resolved_route result" where
  "path_route path_links label route_epoch =
     (case path_links of
        [] \<Rightarrow> Inl (Panic ''index out of bounds'')
      | first_hop # _ \<Rightarrow> Inr \<lparr> rr_adjacency = dl_adjacency first_hop, rr_route_label = label, rr_route_epoch = route_epoch,
          rr_maximum_datagram_size = Min (set (map dl_maximum_datagram_size path_links)) \<rparr>)"

definition assign_path :: "link_graph \<Rightarrow> u32 \<Rightarrow> node_id \<Rightarrow> 'n list \<Rightarrow> node_id list \<Rightarrow> 'n parts \<times> u32 \<Rightarrow> ('n parts \<times> u32) result" where
  "assign_path graph route_epoch source prefixes path st =
     (case st of (parts, next_route_label) \<Rightarrow>
      ensure (unat next_route_label \<le> MAX_ROUTE_LABELS) ''V2 topology exceeds route-label capacity'' (
      bindR (route_label_new next_route_label) (\<lambda>label.
      ensure (unat next_route_label + 1 \<le> u32_max) ''V2 route label overflow'' (
      bindR (mapR (\<lambda>(a, b). directed_link_v2 graph a b) (hops path)) (\<lambda>path_links.
      bindR (path_route path_links label route_epoch) (\<lambda>route.
      let startup_latency = 1000 * sum_list (map (unat \<circ> dl_cost) path_links) in
      bindR (assign_hops graph label route_epoch path
          (modify_part source (\<lambda>p. p\<lparr> sp_prefixes := sp_prefixes p @
             map (\<lambda>prefix. \<lparr> pr_prefix = prefix, pr_route = route, pr_startup_latency = startup_latency \<rparr>) prefixes \<rparr>) parts)) (\<lambda>parts.
      Inr (parts, next_route_label + 1))))))))"

fun assign_paths :: "link_graph \<Rightarrow> u32 \<Rightarrow> node_id \<Rightarrow> 'n list \<Rightarrow> node_id list list \<Rightarrow> 'n parts \<times> u32 \<Rightarrow> ('n parts \<times> u32) result" where
  "assign_paths graph route_epoch source prefixes [] st = Inr st"
| "assign_paths graph route_epoch source prefixes (path # paths) st =
     bindR (assign_path graph route_epoch source prefixes path st) (assign_paths graph route_epoch source prefixes paths)"

definition assign_pair :: "'n ipnet \<Rightarrow> (node_id \<times> 'n topology_node) list \<Rightarrow> link_graph \<Rightarrow> node_id set \<Rightarrow> u32 \<Rightarrow> node_id \<Rightarrow> node_id \<Rightarrow>
    'n parts \<times> u32 \<Rightarrow> ('n parts \<times> u32) result option" where
  "assign_pair N node_map graph transit route_epoch source owner st =
     (if source = owner then Some (Inr st)
      else (case map_of node_map owner of
          None \<Rightarrow> Some (Inl (Panic ''no entry found for key''))
        | Some node \<Rightarrow>
            if tn_advertised_prefixes node = [] then Some (Inr st)
            else map_option (\<lambda>paths. assign_paths graph route_epoch source
                   (sort_key (prefix_key N) (tn_advertised_prefixes node)) paths st)
                 (candidate_paths source owner graph transit)))"

fun assign_pairs :: "'n ipnet \<Rightarrow> (node_id \<times> 'n topology_node) list \<Rightarrow> link_graph \<Rightarrow> node_id set \<Rightarrow> u32 \<Rightarrow> (node_id \<times> node_id) list \<Rightarrow>
    'n parts \<times> u32 \<Rightarrow> ('n parts \<times> u32) result option" where
  "assign_pairs N node_map graph transit route_epoch [] st = Some (Inr st)"
| "assign_pairs N node_map graph transit route_epoch ((source, owner) # pairs) st =
     bindD (assign_pair N node_map graph transit route_epoch source owner st)
       (assign_pairs N node_map graph transit route_epoch pairs)"

section \<open>Compilation\<close>

definition compile_part :: "'n ipnet \<Rightarrow> u64 \<Rightarrow> bool \<Rightarrow> (node_id \<times> 'n topology_node) list \<Rightarrow> 'n parts \<Rightarrow> node_id \<Rightarrow> (node_id \<times> 'n snapshot) result" where
  "compile_part N generation allow_default_routes node_map parts node_id =
     (case (map_of node_map node_id, map_of parts node_id) of
        (Some node, Some part) \<Rightarrow>
          bindR (snapshot_compile N generation node_id (sp_prefixes part) (sp_labels part)
                   (tn_underlay_exclusion_prefixes node) allow_default_routes) (\<lambda>s. Inr (node_id, s))
      | _ \<Rightarrow> Inl (Panic ''topology parts exist''))"

definition selected_nodes :: "node_id option \<Rightarrow> node_id list \<Rightarrow> node_id list" where
  "selected_nodes selected node_ids = filter (\<lambda>n. case selected of None \<Rightarrow> True | Some s \<Rightarrow> s = n) node_ids"

definition compile_topology_selected :: "'n ipnet \<Rightarrow> u64 \<Rightarrow> u32 \<Rightarrow> 'n topology_node list \<Rightarrow> topology_link list \<Rightarrow> bool \<Rightarrow> node_id option \<Rightarrow>
    'n compiled_topology result option" where
  "compile_topology_selected N generation route_epoch nodes links allow_default_routes selected =
     bindD (Some (
       ensure (generation \<noteq> 0) ''V2 topology generation zero is reserved'' (
       ensure (route_epoch \<noteq> 0) ''V2 route epoch zero is reserved'' (
       ensure (nodes \<noteq> []) ''V2 topology has no nodes'' (
       bindR (collect_nodes N allow_default_routes nodes []) (\<lambda>node_map.
       bindR (validate_global_ownership N node_map) (\<lambda>_.
       bindR (build_graph (set (map fst node_map)) links) (\<lambda>graph.
       ensure (case selected of None \<Rightarrow> True | Some n \<Rightarrow> map_of node_map n \<noteq> None) ''selected V2 topology node is absent'' (
       Inr (node_map, graph)))))))))) (\<lambda>(node_map, graph).
     let node_ids = sort (map fst node_map);
         transit_nodes = fst ` {(n, node) \<in> set node_map. tn_transit_enabled node};
         parts = map (\<lambda>n. (n, \<lparr> sp_prefixes = [], sp_labels = [] \<rparr>)) (selected_nodes selected node_ids) in
     bindD (assign_pairs N node_map graph transit_nodes route_epoch (List.product node_ids node_ids) (parts, 1)) (\<lambda>(parts, _).
     Some (
       bindR (mapR (compile_part N generation allow_default_routes node_map parts) (selected_nodes selected node_ids)) (\<lambda>snapshots.
       Inr \<lparr> ct_generation = generation, ct_route_epoch = route_epoch, ct_snapshots = snapshots \<rparr>))))"

definition compile_topology :: "'n ipnet \<Rightarrow> u64 \<Rightarrow> u32 \<Rightarrow> 'n topology_node list \<Rightarrow> topology_link list \<Rightarrow> bool \<Rightarrow>
    'n compiled_topology result option" where
  "compile_topology N generation route_epoch nodes links allow_default_routes =
     compile_topology_selected N generation route_epoch nodes links allow_default_routes None"

definition topology_snapshot :: "'n compiled_topology \<Rightarrow> node_id \<Rightarrow> 'n snapshot option" where
  "topology_snapshot t n = map_of (ct_snapshots t) n"

definition compile_local_snapshot :: "'n ipnet \<Rightarrow> u64 \<Rightarrow> u32 \<Rightarrow> 'n topology_node list \<Rightarrow> topology_link list \<Rightarrow> bool \<Rightarrow> node_id \<Rightarrow>
    'n snapshot result option" where
  "compile_local_snapshot N generation route_epoch nodes links allow_default_routes local_node =
     bindD (compile_topology_selected N generation route_epoch nodes links allow_default_routes (Some local_node)) (\<lambda>t.
     Some (case map_of (ct_snapshots t) local_node of
         None \<Rightarrow> Inl (Err ''compiled V2 mesh topology omitted local node'')
       | Some s \<Rightarrow> Inr s))"

end
