(* ===== verification/TopologyPaths.thy ===== *)
theory TopologyPaths
  imports Topology
begin

text \<open>
  The shortest-path search of \<open>routing.rs\<close> is correct: it always returns, the path it returns is simple,
  uses only transit nodes in between and avoids the excluded node, and no such path costs less; when
  it returns none there is none.  The invariant is that of Dijkstra's algorithm, with every known
  distance backed by a path of predecessors whose inner nodes are settled.
\<close>

section \<open>Paths and their cost\<close>

definition graph_ok :: "link_graph \<Rightarrow> bool" where
  "graph_ok G \<longleftrightarrow> (\<forall>n. distinct (map dl_peer (edges G n)) \<and> n \<notin> dl_peer ` set (edges G n))"

definition edge_ok :: "link_graph \<Rightarrow> node_id set \<Rightarrow> node_id option \<Rightarrow> node_id \<Rightarrow> node_id \<Rightarrow> node_id \<Rightarrow> bool" where
  "edge_ok G T X a u v \<longleftrightarrow> (u = a \<or> u \<in> T) \<and> Some v \<noteq> X \<and> v \<in> dl_peer ` set (edges G u)"

definition walk :: "link_graph \<Rightarrow> node_id set \<Rightarrow> node_id option \<Rightarrow> node_id \<Rightarrow> node_id list \<Rightarrow> bool" where
  "walk G T X a p \<longleftrightarrow> p \<noteq> [] \<and> hd p = a \<and> (\<forall>(u, v)\<in>set (hops p). edge_ok G T X a u v)"

lemma hops_snoc: "p \<noteq> [] \<Longrightarrow> hops (p @ [v]) = hops p @ [(last p, v)]"
  by (induction p rule: hops.induct) auto

lemma hops_Cons: "p \<noteq> [] \<Longrightarrow> hops (u # p) = (u, hd p) # hops p"
  by (cases p) auto

lemma path_cost_sum: "path_cost G p = min (sum_list (map (hop_cost G) (hops p))) usize_max"
proof -
  have "x \<le> usize_max \<Longrightarrow> fold (\<lambda>h c. sat_add c (hop_cost G h)) hs x = min (x + sum_list (map (hop_cost G) hs)) usize_max" for hs x
    by (induction hs arbitrary: x) (auto simp: sat_add_def min_def)
  then show ?thesis by (simp add: path_cost_def)
qed

lemma path_cost_snoc: "p \<noteq> [] \<Longrightarrow> path_cost G (p @ [v]) = sat_add (path_cost G p) (hop_cost G (last p, v))"
  by (auto simp: path_cost_sum hops_snoc sat_add_def min_def)

lemma path_cost_mono: "p \<noteq> [] \<Longrightarrow> path_cost G p \<le> path_cost G (p @ [v])"
  by (simp add: path_cost_sum hops_snoc)

lemma hop_cost_edge:
  assumes "graph_ok G" "e \<in> set (edges G u)"
  shows "directed_link_v2 G u (dl_peer e) = Inr e" "hop_cost G (u, dl_peer e) = unat (dl_cost e)"
proof -
  have "find (\<lambda>x. dl_peer x = dl_peer e) es = Some e" if "distinct (map dl_peer es)" "e \<in> set es" for es
    using that by (induction es) (auto simp: image_iff)
  then have "find (\<lambda>x. dl_peer x = dl_peer e) (edges G u) = Some e" using assms by (simp add: graph_ok_def)
  then show "directed_link_v2 G u (dl_peer e) = Inr e" "hop_cost G (u, dl_peer e) = unat (dl_cost e)"
    by (simp_all add: directed_link_v2_def hop_cost_def)
qed

lemma walk_snoc: "p \<noteq> [] \<Longrightarrow> walk G T X a (p @ [v]) \<longleftrightarrow> walk G T X a p \<and> edge_ok G T X a (last p) v"
  by (auto simp: walk_def hops_snoc)

section \<open>The search invariant\<close>

text \<open>A path of predecessors from the source whose nodes before the last are settled.\<close>

definition backed :: "link_graph \<Rightarrow> node_id set \<Rightarrow> node_id option \<Rightarrow> node_id \<Rightarrow> search_state \<Rightarrow> node_id list \<Rightarrow> bool" where
  "backed G T X a s p \<longleftrightarrow> walk G T X a p \<and> distinct p \<and> set (butlast p) \<subseteq> se_visited s \<and>
     (\<forall>(u, v)\<in>set (hops p). map_of (se_previous s) v = Some u)"

definition core :: "link_graph \<Rightarrow> node_id set \<Rightarrow> node_id option \<Rightarrow> node_id \<Rightarrow> search_state \<Rightarrow> bool" where
  "core G T X a s \<longleftrightarrow> sorted (se_pending s) \<and> (if se_visited s = {} then se_distance s = [(a, 0)] else a \<in> se_visited s) \<and>
     (\<forall>v d. map_of (se_distance s) v = Some d \<longrightarrow> Some v \<noteq> X \<and> (\<exists>p. backed G T X a s p \<and> last p = v \<and> path_cost G p = d)) \<and>
     (\<forall>u\<in>se_visited s. \<exists>c. map_of (se_distance s) u = Some c \<and>
        (\<forall>w d. w \<notin> se_visited s \<and> map_of (se_distance s) w = Some d \<longrightarrow> c \<le> d)) \<and>
     (\<forall>w d. w \<notin> se_visited s \<and> map_of (se_distance s) w = Some d \<longrightarrow> (d, w) \<in> set (se_pending s))"

lemma coreD:
  assumes "core G T X a s"
  shows core_sorted: "sorted (se_pending s)"
    and core_init: "se_visited s = {} \<Longrightarrow> se_distance s = [(a, 0)]"
    and core_start: "u \<in> se_visited s \<Longrightarrow> a \<in> se_visited s"
    and core_excluded: "map_of (se_distance s) v = Some d \<Longrightarrow> Some v \<noteq> X"
    and core_backed: "map_of (se_distance s) v = Some d \<Longrightarrow> \<exists>p. backed G T X a s p \<and> last p = v \<and> path_cost G p = d"
    and core_settled: "u \<in> se_visited s \<Longrightarrow> \<exists>c. map_of (se_distance s) u = Some c"
    and core_le: "u \<in> se_visited s \<Longrightarrow> map_of (se_distance s) u = Some c \<Longrightarrow> w \<notin> se_visited s \<Longrightarrow> map_of (se_distance s) w = Some d \<Longrightarrow> c \<le> d"
    and core_pending: "w \<notin> se_visited s \<Longrightarrow> map_of (se_distance s) w = Some d \<Longrightarrow> (d, w) \<in> set (se_pending s)"
proof -
  show "u \<in> se_visited s \<Longrightarrow> map_of (se_distance s) u = Some c \<Longrightarrow> w \<notin> se_visited s \<Longrightarrow> map_of (se_distance s) w = Some d \<Longrightarrow> c \<le> d"
    using assms unfolding core_def by fastforce
qed (use assms in \<open>auto simp: core_def split: if_splits\<close>)

definition relaxed :: "node_id option \<Rightarrow> search_state \<Rightarrow> node_id \<Rightarrow> directed_link \<Rightarrow> bool" where
  "relaxed X s u e \<longleftrightarrow> Some (dl_peer e) = X \<or> (\<exists>c d. map_of (se_distance s) u = Some c \<and>
     map_of (se_distance s) (dl_peer e) = Some d \<and> d \<le> sat_add c (unat (dl_cost e)))"

definition search_inv :: "link_graph \<Rightarrow> node_id set \<Rightarrow> node_id option \<Rightarrow> node_id \<Rightarrow> node_id \<Rightarrow> search_state \<Rightarrow> bool" where
  "search_inv G T X a z s \<longleftrightarrow> core G T X a s \<and>
     (\<forall>u\<in>se_visited s. u \<noteq> z \<and> (u = a \<or> u \<in> T) \<longrightarrow> (\<forall>e\<in>set (edges G u). relaxed X s u e))"

text \<open>What relaxing one edge of a settled node changes: at most the estimate of an unsettled node, downwards.\<close>

definition refines :: "search_state \<Rightarrow> search_state \<Rightarrow> bool" where
  "refines s t \<longleftrightarrow> se_visited t = se_visited s \<and>
     (\<forall>v d. map_of (se_distance s) v = Some d \<longrightarrow> (\<exists>d'\<le>d. map_of (se_distance t) v = Some d')) \<and>
     (\<forall>v\<in>se_visited s. map_of (se_distance t) v = map_of (se_distance s) v \<and> map_of (se_previous t) v = map_of (se_previous s) v)"

lemma refines_refl: "refines s s"
  by (auto simp: refines_def)

lemma refines_trans:
  assumes "refines s t" "refines t r"
  shows "refines s r"
proof -
  have "\<exists>d'\<le>d. map_of (se_distance r) v = Some d'" if d: "map_of (se_distance s) v = Some d" for v d
  proof -
    obtain d1 where d1: "d1 \<le> d" "map_of (se_distance t) v = Some d1" using assms(1) d unfolding refines_def by blast
    then obtain d2 where "d2 \<le> d1" "map_of (se_distance r) v = Some d2" using assms(2) unfolding refines_def by blast
    with d1 show ?thesis by (auto intro: order_trans)
  qed
  then show ?thesis using assms by (simp add: refines_def)
qed

lemma relaxed_refines:
  assumes "refines s t" "relaxed X s u e" "u \<in> se_visited s"
  shows "relaxed X t u e"
proof (cases "Some (dl_peer e) = X")
  case False
  then obtain c d where cd: "map_of (se_distance s) u = Some c" "map_of (se_distance s) (dl_peer e) = Some d" "d \<le> sat_add c (unat (dl_cost e))"
    using assms(2) by (auto simp: relaxed_def)
  obtain d' where "d' \<le> d" "map_of (se_distance t) (dl_peer e) = Some d'" using assms(1) cd(2) unfolding refines_def by blast
  moreover have "map_of (se_distance t) u = Some c" using assms(1,3) cd(1) by (simp add: refines_def)
  ultimately show ?thesis using cd(3) by (auto simp: relaxed_def)
qed (simp add: relaxed_def)

lemma hops_nodes: "(u, v) \<in> set (hops p) \<Longrightarrow> u \<in> set (butlast p) \<and> v \<in> set (tl p)"
  by (induction p rule: hops.induct) auto

lemma hops_target: "(u, v) \<in> set (hops p) \<Longrightarrow> v \<in> set (butlast p) \<or> v = last p"
  by (induction p rule: hops.induct) auto

lemma set_butlast_last: "p \<noteq> [] \<Longrightarrow> set p = insert (last p) (set (butlast p))"
  by (cases p rule: rev_cases) auto

lemma relax_edge_cases:
  assumes "Some (dl_peer e) \<noteq> X \<and> dl_peer e \<notin> se_visited s"
  shows "relax_edge X u c e s = s \<and> (\<exists>d. map_of (se_distance s) (dl_peer e) = Some d \<and> d \<le> sat_add c (unat (dl_cost e))) \<or>
    relax_edge X u c e s = s\<lparr> se_distance := AList.update (dl_peer e) (sat_add c (unat (dl_cost e))) (se_distance s),
        se_previous := AList.update (dl_peer e) u (se_previous s),
        se_pending := insort (sat_add c (unat (dl_cost e)), dl_peer e) (se_pending s) \<rparr> \<and>
      (\<forall>d. map_of (se_distance s) (dl_peer e) = Some d \<longrightarrow> sat_add c (unat (dl_cost e)) \<le> d)"
  using assms unfolding relax_edge_def Let_def by (auto split: option.splits)

lemma relax_edge_core:
  assumes G: "graph_ok G" and core: "core G T X a s" and u: "u \<in> se_visited s" "map_of (se_distance s) u = Some c"
    and exp: "u = a \<or> u \<in> T" and e: "e \<in> set (edges G u)"
    and bound: "\<forall>x\<in>se_visited s. \<forall>d. map_of (se_distance s) x = Some d \<longrightarrow> d \<le> c"
  defines "t \<equiv> relax_edge X u c e s"
  shows "core G T X a t \<and> refines s t \<and> relaxed X t u e"
proof -
  let ?v = "dl_peer e" and ?n = "sat_add c (unat (dl_cost e))"
  have hop: "hop_cost G (u, ?v) = unat (dl_cost e)" by (rule hop_cost_edge(2) [OF G e])
  obtain q where q: "backed G T X a s q" "last q = u" "path_cost G q = c" using core_backed [OF core u(2)] by blast
  have c: "c \<le> ?n" unfolding q(3) [symmetric] by (simp add: path_cost_sum sat_add_def)
  have V: "a \<in> se_visited s" using core_start [OF core u(1)] .
  show ?thesis
  proof (cases "Some ?v = X \<or> ?v \<in> se_visited s")
    case True
    then have "t = s" by (simp add: t_def relax_edge_def)
    moreover have "relaxed X s u e"
    proof (cases "Some ?v = X")
      case False
      then obtain d where "map_of (se_distance s) ?v = Some d" using True core_settled [OF core] by blast
      then show ?thesis using True False bound u(2) c by (auto simp: relaxed_def intro: order_trans)
    qed (simp add: relaxed_def)
    ultimately show ?thesis using core refines_refl by simp
  next
    case False
    from relax_edge_cases [OF False [unfolded de_Morgan_disj], of u c] consider
        (kept) "t = s" "\<exists>d. map_of (se_distance s) ?v = Some d \<and> d \<le> ?n"
      | (changed) "t = s\<lparr> se_distance := AList.update ?v ?n (se_distance s), se_previous := AList.update ?v u (se_previous s),
          se_pending := insort (?n, ?v) (se_pending s) \<rparr>" "\<forall>d. map_of (se_distance s) ?v = Some d \<longrightarrow> ?n \<le> d"
      unfolding t_def by blast
    then show ?thesis
    proof cases
      case kept
      then show ?thesis using core refines_refl u(2) by (auto simp: relaxed_def)
    next
      case changed
      note t = changed(1) and less = changed(2)
      have ref: "refines s t" using False less by (auto simp: refines_def t update_conv')
      have qn: "q \<noteq> []" "set q \<subseteq> se_visited s" using q u(1) set_butlast_last [of q] by (auto simp: backed_def walk_def)
      have new: "backed G T X a t (q @ [?v])" "path_cost G (q @ [?v]) = ?n"
      proof -
        have "edge_ok G T X a u ?v" using exp False e by (auto simp: edge_ok_def)
        moreover have "?v \<notin> set q" using qn False by auto
        moreover have "map_of (se_previous t) y = Some x" if "(x, y) \<in> set (hops q)" for x y
        proof -
          have "y \<in> set q" using hops_target [OF that] set_butlast_last [OF qn(1)] by auto
          then show ?thesis using that q(1) qn(2) False by (auto simp: backed_def t update_conv')
        qed
        moreover have "se_visited t = se_visited s" "map_of (se_previous t) ?v = Some u" by (simp_all add: t update_conv')
        ultimately show "backed G T X a t (q @ [?v])"
          using q qn by (auto simp: backed_def walk_snoc hops_snoc)
        show "path_cost G (q @ [?v]) = ?n" using q qn hop by (simp add: path_cost_snoc)
      qed
      have old: "backed G T X a t p" if p: "backed G T X a s p" "last p \<noteq> ?v" for p
      proof -
        have "y \<noteq> ?v" if "(x, y) \<in> set (hops p)" for x y
          using hops_target [OF that] p False by (auto simp: backed_def)
        then show ?thesis using p(1) by (auto simp: backed_def t update_conv')
      qed
      have "\<exists>p. backed G T X a t p \<and> last p = w \<and> path_cost G p = d" if "map_of (se_distance t) w = Some d" for w d
      proof (cases "w = ?v")
        case True
        then show ?thesis using that new by (auto simp: t update_conv' intro!: exI [of _ "q @ [?v]"])
      next
        case False
        then have "map_of (se_distance s) w = Some d" using that by (simp add: t update_conv')
        then obtain p where "backed G T X a s p" "last p = w" "path_cost G p = d" using core_backed [OF core] by blast
        then show ?thesis using old False by blast
      qed
      moreover have "Some w \<noteq> X" if "map_of (se_distance t) w = Some d" for w d
        using that core_excluded [OF core, of w d] False by (auto simp: t update_conv' split: if_splits)
      moreover have "\<exists>c'. map_of (se_distance t) x = Some c' \<and>
          (\<forall>w d. w \<notin> se_visited t \<and> map_of (se_distance t) w = Some d \<longrightarrow> c' \<le> d)" if x: "x \<in> se_visited t" for x
      proof -
        have x': "x \<in> se_visited s" "x \<noteq> ?v" using x False by (auto simp: t)
        then obtain c' where c': "map_of (se_distance s) x = Some c'" using core_settled [OF core] by blast
        moreover have "\<forall>w d. w \<notin> se_visited s \<and> map_of (se_distance s) w = Some d \<longrightarrow> c' \<le> d" using core_le [OF core x'(1) c'] by blast
        moreover have "c' \<le> ?n" using bound x'(1) c' c by (meson order_trans)
        ultimately show ?thesis using x'(2) by (auto simp: t update_conv')
      qed
      moreover have "sorted (se_pending t)" "se_visited t \<noteq> {}" "a \<in> se_visited t"
        using core_sorted [OF core] V by (auto simp: t sorted_insort)
      moreover have "(d, w) \<in> set (se_pending t)" if "w \<notin> se_visited t" "map_of (se_distance t) w = Some d" for w d
        using that core_pending [OF core] by (auto simp: t update_conv' set_insort_key split: if_splits)
      ultimately have "core G T X a t" unfolding core_def by simp
      then show ?thesis using ref u False by (auto simp: relaxed_def t update_conv')
    qed
  qed
qed

lemma relax_edges_core:
  assumes G: "graph_ok G" and core: "core G T X a s" and u: "u \<in> se_visited s" "map_of (se_distance s) u = Some c"
    and exp: "u = a \<or> u \<in> T" and es: "set es \<subseteq> set (edges G u)"
    and bound: "\<forall>x\<in>se_visited s. \<forall>d. map_of (se_distance s) x = Some d \<longrightarrow> d \<le> c"
  shows "core G T X a (fold (relax_edge X u c) es s) \<and> refines s (fold (relax_edge X u c) es s) \<and>
    (\<forall>e\<in>set es. relaxed X (fold (relax_edge X u c) es s) u e)"
  using core u es bound
proof (induction es arbitrary: s)
  case (Cons e es)
  let ?t = "relax_edge X u c e s"
  have t: "core G T X a ?t" "refines s ?t" "relaxed X ?t u e"
    using relax_edge_core [OF G Cons.prems(1-3) exp _ Cons.prems(5), of e] Cons.prems(4) by auto
  have same: "se_visited ?t = se_visited s" "\<forall>x\<in>se_visited s. map_of (se_distance ?t) x = map_of (se_distance s) x"
    using t(2) by (auto simp: refines_def)
  have IH: "core G T X a (fold (relax_edge X u c) es ?t) \<and> refines ?t (fold (relax_edge X u c) es ?t) \<and>
    (\<forall>e\<in>set es. relaxed X (fold (relax_edge X u c) es ?t) u e)"
    using Cons.IH [OF t(1)] Cons.prems same by auto
  have "relaxed X (fold (relax_edge X u c) es ?t) u e"
    using relaxed_refines [of ?t] IH t(3) Cons.prems(2) same(1) by blast
  then show ?case using IH refines_trans [OF t(2)] by auto
qed (simp add: refines_refl)

lemma core_visit:
  assumes core: "core G T X a s" and p: "se_pending s = (c, u) # rest" and d: "map_of (se_distance s) u = Some c" and u: "u \<notin> se_visited s"
  defines "t \<equiv> s\<lparr> se_pending := rest, se_visited := insert u (se_visited s) \<rparr>"
  shows "core G T X a t" "\<forall>x\<in>se_visited t. \<forall>d. map_of (se_distance t) x = Some d \<longrightarrow> d \<le> c"
proof -
  have least: "c \<le> d'" if "w \<notin> se_visited s" "map_of (se_distance s) w = Some d'" for w d'
  proof -
    have "(d', w) \<in> set ((c, u) # rest)" using core_pending [OF core that] p by simp
    moreover have "\<forall>y\<in>set rest. (c, u) \<le> y" using core_sorted [OF core] p by simp
    ultimately show ?thesis by (auto simp: less_eq_prod_def)
  qed
  show bound: "\<forall>x\<in>se_visited t. \<forall>d. map_of (se_distance t) x = Some d \<longrightarrow> d \<le> c"
    using core_le [OF core _ _ u d] d by (auto simp: t_def)
  have bk: "\<exists>p. backed G T X a t p \<and> last p = v \<and> path_cost G p = d'" if "map_of (se_distance t) v = Some d'" for v d'
    using core_backed [OF core, of v d'] that by (auto simp: backed_def t_def)
  have start: "a \<in> se_visited t"
  proof (cases "se_visited s = {}")
    case True
    then have "u = a" using core_init [OF core True] d by (auto split: if_splits)
    then show ?thesis by (simp add: t_def)
  qed (use core_start [OF core] in \<open>auto simp: t_def\<close>)
  have near: "\<exists>c'. map_of (se_distance t) x = Some c' \<and> (\<forall>w d. w \<notin> se_visited t \<and> map_of (se_distance t) w = Some d \<longrightarrow> c' \<le> d)"
    if x: "x \<in> se_visited t" for x
  proof (cases "x = u")
    case True
    then show ?thesis using d least by (auto simp: t_def)
  next
    case False
    then have "x \<in> se_visited s" using x by (simp add: t_def)
    then obtain c' where "map_of (se_distance s) x = Some c'" "\<forall>w d. w \<notin> se_visited s \<and> map_of (se_distance s) w = Some d \<longrightarrow> c' \<le> d"
      using core_settled [OF core] core_le [OF core] by blast
    then show ?thesis by (auto simp: t_def)
  qed
  have pend: "(d', w) \<in> set (se_pending t)" if "w \<notin> se_visited t" "map_of (se_distance t) w = Some d'" for w d'
    using core_pending [OF core, of w d'] that p by (auto simp: t_def)
  have exc: "Some v \<noteq> X" if "map_of (se_distance t) v = Some d'" for v d' using core_excluded [OF core, of v d'] that by (simp add: t_def)
  have "sorted (se_pending t)" "se_visited t \<noteq> {}" using core_sorted [OF core] p by (auto simp: t_def)
  then show "core G T X a t" unfolding core_def using bk start near pend exc by simp
qed

lemma core_skip:
  assumes core: "core G T X a s" and p: "se_pending s = (c, u) # rest" and stale: "map_of (se_distance s) u \<noteq> Some c \<or> u \<in> se_visited s"
  shows "core G T X a (s\<lparr> se_pending := rest \<rparr>)"
proof -
  let ?t = "s\<lparr> se_pending := rest \<rparr>"
  have bk: "\<exists>p. backed G T X a ?t p \<and> last p = v \<and> path_cost G p = d'" if "map_of (se_distance s) v = Some d'" for v d'
    using core_backed [OF core that] by (simp add: backed_def)
  have near: "\<exists>c'. map_of (se_distance s) x = Some c' \<and> (\<forall>w d. w \<notin> se_visited s \<and> map_of (se_distance s) w = Some d \<longrightarrow> c' \<le> d)"
    if x: "x \<in> se_visited s" for x
    using core_settled [OF core x] core_le [OF core x] by blast
  have pend: "(d', w) \<in> set rest" if "w \<notin> se_visited s" "map_of (se_distance s) w = Some d'" for w d'
    using core_pending [OF core that] p stale that by auto
  have "sorted rest" using core_sorted [OF core] p by simp
  then show ?thesis unfolding core_def using bk near pend core_excluded [OF core] core_init [OF core] core_start [OF core] by auto
qed

lemma search_result:
  assumes G: "graph_ok G" and inv: "search_inv G T X a z s"
  shows "search_inv G T X a z (search a z X G T s) \<and> (z \<in> se_visited (search a z X G T s) \<or> se_pending (search a z X G T s) = [])"
  using G inv
proof (induction a z X G T s rule: search.induct)
  case step: (1 a z X G T s)
  have core: "core G T X a s" and rel: "\<forall>u\<in>se_visited s. u \<noteq> z \<and> (u = a \<or> u \<in> T) \<longrightarrow> (\<forall>e\<in>set (edges G u). relaxed X s u e)"
    using step.prems(2) by (auto simp: search_inv_def)
  show ?case
  proof (cases "se_pending s")
    case Nil
    then show ?thesis using step.prems(2) by (simp add: search.simps)
  next
    case (Cons x rest)
    obtain c u where x: "x = (c, u)" by (cases x)
    let ?s1 = "s\<lparr> se_pending := rest \<rparr>"
    let ?s2 = "s\<lparr> se_pending := rest, se_visited := insert u (se_visited s) \<rparr>"
    show ?thesis
    proof (cases "Some u = X \<or> map_of (se_distance s) u \<noteq> Some c \<or> u \<in> se_visited s")
      case True
      then have "map_of (se_distance s) u \<noteq> Some c \<or> u \<in> se_visited s" using core_excluded [OF core] by auto
      from core_skip [OF core Cons [unfolded x] this] have "search_inv G T X a z ?s1"
        using rel by (auto simp: search_inv_def relaxed_def)
      moreover have "search a z X G T s = search a z X G T ?s1"
        using True Cons x by (subst search.simps) (auto simp: Let_def)
      moreover have "search_inv G T X a z ?s1 \<Longrightarrow> search_inv G T X a z (search a z X G T ?s1) \<and>
          (z \<in> se_visited (search a z X G T ?s1) \<or> se_pending (search a z X G T ?s1) = [])"
        using step.IH(1,2) [OF Cons x [symmetric] refl _ _] step.prems(1) True by (cases "Some u = X \<or> map_of (se_distance s) u \<noteq> Some c") auto
      ultimately show ?thesis by simp
    next
      case False
      then have d: "map_of (se_distance s) u = Some c" and u: "u \<notin> se_visited s" by auto
      note visit = core_visit [OF core Cons [unfolded x] d u]
      have rel2: "\<forall>v\<in>se_visited s. v \<noteq> z \<and> (v = a \<or> v \<in> T) \<longrightarrow> (\<forall>e\<in>set (edges G v). relaxed X ?s2 v e)"
        using rel by (simp add: relaxed_def)
      consider (found) "u = z" | (leaf) "u \<noteq> z" "u \<noteq> a" "u \<notin> T" | (expand) "u \<noteq> z" "u = a \<or> u \<in> T" by blast
      then show ?thesis
      proof cases
        case found
        then have "search a z X G T s = ?s2" using False Cons x by (subst search.simps) (auto simp: Let_def)
        then show ?thesis using visit(1) rel2 found by (auto simp: search_inv_def)
      next
        case leaf
        then have eq: "search a z X G T s = search a z X G T ?s2" using False Cons x by (subst search.simps) (auto simp: Let_def)
        have "search_inv G T X a z ?s2" using visit(1) rel2 leaf by (auto simp: search_inv_def)
        then show ?thesis unfolding eq using step.IH(3) [OF Cons x [symmetric] refl _ _ refl] step.prems(1) False leaf by simp
      next
        case expand
        let ?s3 = "fold (relax_edge X u c) (edges G u) ?s2"
        have eq: "search a z X G T s = search a z X G T ?s3" using expand False Cons x by (subst search.simps) (auto simp: Let_def)
        have s3: "core G T X a ?s3" "refines ?s2 ?s3" "\<forall>e\<in>set (edges G u). relaxed X ?s3 u e"
          using relax_edges_core [OF step.prems(1) visit(1) _ _ expand(2) _ visit(2), of "edges G u"] d by auto
        have "se_visited ?s3 = insert u (se_visited s)" using s3(2) by (simp add: refines_def)
        then have "search_inv G T X a z ?s3"
          using s3 rel2 relaxed_refines [OF s3(2)] by (auto simp: search_inv_def)
        then show ?thesis unfolding eq using step.IH(4) [OF Cons x [symmetric] refl _ _ refl] step.prems(1) False expand by auto
      qed
    qed
  qed
qed

section \<open>Shortest paths\<close>

lemma trace_back_backed:
  "p \<noteq> [] \<Longrightarrow> hd p = a \<Longrightarrow> distinct p \<Longrightarrow> \<forall>(u, v)\<in>set (hops p). map_of prev v = Some u \<Longrightarrow>
    trace_back prev a (ys @ [last p]) = Some (Some (ys @ rev p))"
proof (induction p arbitrary: ys rule: rev_induct)
  case (snoc v q)
  show ?case
  proof (cases "q = []")
    case True
    then show ?thesis using snoc.prems by (simp add: trace_back.simps)
  next
    case False
    then have "v \<noteq> a" "map_of prev v = Some (last q)" using snoc.prems by (auto simp: hops_snoc)
    then have "trace_back prev a (ys @ [v]) = trace_back prev a ((ys @ [v]) @ [last q])" by (subst trace_back.simps) simp
    also have "\<dots> = Some (Some ((ys @ [v]) @ rev q))" using snoc False by (intro snoc.IH) (auto simp: hops_snoc)
    finally show ?thesis by simp
  qed
qed simp

lemma sat_add_mono: "x \<le> y \<Longrightarrow> sat_add x n \<le> sat_add y n"
  by (simp add: sat_add_def)

lemma core_source:
  assumes core: "core G T X a s"
  shows "map_of (se_distance s) a = Some 0"
proof -
  obtain d where d: "map_of (se_distance s) a = Some d"
    using core_init [OF core] core_settled [OF core, of a] core_start [OF core] by (cases "se_visited s = {}") auto
  obtain p where p: "backed G T X a s p" "last p = a" "path_cost G p = d" using core_backed [OF core d] by blast
  then have "p = [a]" by (cases p) (auto simp: backed_def walk_def split: if_splits)
  then show ?thesis using d p(3) by (simp add: path_cost_def)
qed

lemma walk_bound:
  assumes G: "graph_ok G" and inv: "search_inv G T X a z s" and stop: "z \<in> se_visited s \<or> se_pending s = []"
    and w: "walk G T X a q"
  shows "(\<exists>d. map_of (se_distance s) (last q) = Some d \<and> d \<le> path_cost G q) \<or>
    (\<exists>d. map_of (se_distance s) z = Some d \<and> d \<le> path_cost G q)"
  using w
proof (induction q rule: rev_induct)
  case (snoc v q)
  have core: "core G T X a s" using inv by (simp add: search_inv_def)
  show ?case
  proof (cases "q = []")
    case True
    then have "v = a" "path_cost G (q @ [v]) = 0" using snoc.prems by (simp_all add: walk_def path_cost_def)
    then show ?thesis using core_source [OF core] by simp
  next
    case False
    let ?u = "last q"
    have wq: "walk G T X a q" and e: "edge_ok G T X a ?u v" using snoc.prems walk_snoc [OF False] by auto
    then obtain e where e: "e \<in> set (edges G ?u)" "dl_peer e = v" "?u = a \<or> ?u \<in> T" "Some v \<noteq> X" by (auto simp: edge_ok_def)
    have cost: "path_cost G (q @ [v]) = sat_add (path_cost G q) (unat (dl_cost e))"
      using path_cost_snoc [OF False] hop_cost_edge(2) [OF G e(1)] e(2) by simp
    note mono = path_cost_mono [OF False, of G v]
    from snoc.IH [OF wq] show ?thesis
    proof
      assume "\<exists>d. map_of (se_distance s) z = Some d \<and> d \<le> path_cost G q"
      then show ?thesis using mono by (meson order_trans)
    next
      assume "\<exists>d. map_of (se_distance s) ?u = Some d \<and> d \<le> path_cost G q"
      then obtain d where d: "map_of (se_distance s) ?u = Some d" "d \<le> path_cost G q" by blast
      show ?thesis
      proof (cases "?u \<in> se_visited s")
        case True
        show ?thesis
        proof (cases "?u = z")
          case True
          then show ?thesis using d mono by (meson order_trans)
        next
          case False
          then have "relaxed X s ?u e" using inv True e by (auto simp: search_inv_def)
          then show ?thesis using d e(2,4) cost sat_add_mono [OF d(2)] by (fastforce simp: relaxed_def intro: order_trans)
        qed
      next
        case False
        then have "(d, ?u) \<in> set (se_pending s)" using core_pending [OF core _ d(1)] by simp
        then have "z \<in> se_visited s" using stop by auto
        then obtain c where "map_of (se_distance s) z = Some c" using core_settled [OF core] by blast
        moreover have "c \<le> d" using core_le [OF core \<open>z \<in> se_visited s\<close> _ False d(1)] calculation by blast
        ultimately show ?thesis using d(2) mono by (meson order_trans)
      qed
    qed
  qed
qed (simp add: walk_def)

lemma shortest_path_excluding_correct:
  assumes G: "graph_ok G" and a: "Some a \<noteq> X"
  shows "\<exists>r. shortest_path_excluding a z X G T = Some r \<and>
    (case r of None \<Rightarrow> \<nexists>q. walk G T X a q \<and> last q = z
     | Some p \<Rightarrow> walk G T X a p \<and> last p = z \<and> distinct p \<and> (\<forall>q. walk G T X a q \<and> last q = z \<longrightarrow> path_cost G p \<le> path_cost G q))"
proof -
  let ?i = "\<lparr> se_distance = [(a, 0)], se_previous = [], se_visited = {}, se_pending = [(0, a)] \<rparr>"
  let ?s = "search a z X G T ?i"
  have "backed G T X a ?i [a]" "path_cost G [a] = 0" by (simp_all add: backed_def walk_def path_cost_def)
  then have "search_inv G T X a z ?i" using a unfolding search_inv_def core_def by (auto intro!: exI [of _ "[a]"])
  from search_result [OF G this] have inv: "search_inv G T X a z ?s" and stop: "z \<in> se_visited ?s \<or> se_pending ?s = []" by auto
  have core: "core G T X a ?s" using inv by (simp add: search_inv_def)
  note bound = walk_bound [OF G inv stop]
  show ?thesis
  proof (cases "map_of (se_distance ?s) z")
    case None
    then have "\<nexists>q. walk G T X a q \<and> last q = z" using bound by fastforce
    then show ?thesis using None by (simp add: shortest_path_excluding_def Let_def)
  next
    case (Some d)
    obtain p where p: "backed G T X a ?s p" "last p = z" "path_cost G p = d" using core_backed [OF core Some] by blast
    then have "trace_back (se_previous ?s) a ([] @ [last p]) = Some (Some ([] @ rev p))"
      by (intro trace_back_backed) (auto simp: backed_def walk_def)
    then have "shortest_path_excluding a z X G T = Some (Some p)"
      using Some p(2) by (simp add: shortest_path_excluding_def Let_def)
    moreover have "d \<le> path_cost G q" if "walk G T X a q" "last q = z" for q using bound [OF that(1)] that(2) Some by auto
    ultimately show ?thesis using p by (auto simp: backed_def)
  qed
qed

section \<open>Candidate paths\<close>

text \<open>The paths a source may use: simple, along healthy links, through transit nodes only.\<close>

definition route_path :: "link_graph \<Rightarrow> node_id set \<Rightarrow> node_id \<Rightarrow> node_id \<Rightarrow> node_id list \<Rightarrow> bool" where
  "route_path G T s z p \<longleftrightarrow> 2 \<le> length p \<and> hd p = s \<and> last p = z \<and> distinct p \<and>
     (\<forall>(u, v)\<in>set (hops p). v \<in> dl_peer ` set (edges G u)) \<and> set (butlast (tl p)) \<subseteq> T"

lemma hops_sources: "(\<exists>v. (u, v) \<in> set (hops p)) \<longleftrightarrow> u \<in> set (butlast p)"
  by (induction p rule: hops.induct) auto

lemma hops_targets: "(\<exists>u. (u, v) \<in> set (hops p)) \<longleftrightarrow> v \<in> set (tl p)"
  by (induction p rule: hops.induct) auto

lemma route_path_Cons:
  assumes "p \<noteq> []"
  shows "route_path G T s z (s # p) \<longleftrightarrow> s \<notin> set p \<and> hd p \<in> dl_peer ` set (edges G s) \<and> distinct p \<and> last p = z \<and>
    (if p = [z] then True else hd p \<in> T \<and> walk G T (Some s) (hd p) p)"
proof -
  obtain x xs where p: "p = x # xs" using assms by (cases p) auto
  have w: "walk G T (Some s) x p \<longleftrightarrow> (\<forall>(u, v)\<in>set (hops p). v \<in> dl_peer ` set (edges G u)) \<and>
      (\<forall>u\<in>set (butlast p). u = x \<or> u \<in> T) \<and> s \<notin> set xs"
  proof -
    have "s \<notin> set xs \<longleftrightarrow> (\<forall>(u, v)\<in>set (hops p). v \<noteq> s)" using hops_targets [of s p] by (auto simp: p)
    moreover have "(\<forall>u\<in>set (butlast p). u = x \<or> u \<in> T) \<longleftrightarrow> (\<forall>(u, v)\<in>set (hops p). u = x \<or> u \<in> T)"
      using hops_sources [of _ p] by blast
    ultimately show ?thesis using p by (auto simp: walk_def edge_ok_def)
  qed
  show ?thesis
  proof (cases xs)
    case Nil
    then show ?thesis by (auto simp: route_path_def p)
  next
    case (Cons y ys)
    have "set (butlast p) \<subseteq> T \<longleftrightarrow> x \<in> T \<and> (\<forall>u\<in>set (butlast p). u = x \<or> u \<in> T)" by (auto simp: p Cons)
    then show ?thesis using w by (auto simp: route_path_def p Cons)
  qed
qed

lemma path_cost_Cons_mono:
  assumes "p \<noteq> []" "q \<noteq> []" "hd p = hd q" "path_cost G p \<le> path_cost G q"
  shows "path_cost G (s # p) \<le> path_cost G (s # q)"
  using assms by (auto simp: path_cost_sum hops_Cons min_def split: if_splits)

lemma candidate_path_best:
  assumes G: "graph_ok G" and e: "e \<in> set (edges G s)" and z: "s \<noteq> z"
  shows "\<exists>r. candidate_path s z G T e = Some r \<and>
    (case r of None \<Rightarrow> \<nexists>q. route_path G T s z q \<and> q ! 1 = dl_peer e
     | Some p \<Rightarrow> route_path G T s z p \<and> p ! 1 = dl_peer e \<and>
         (\<forall>q. route_path G T s z q \<and> q ! 1 = dl_peer e \<longrightarrow> path_cost G p \<le> path_cost G q))"
proof -
  let ?v = "dl_peer e"
  have v: "?v \<noteq> s" using G e by (auto simp: graph_ok_def)
  have split: "\<exists>q'. q' \<noteq> [] \<and> q = s # q' \<and> hd q' = q ! 1" if "route_path G T s z q" for q
    using that by (cases q rule: hops.cases) (auto simp: route_path_def)
  show ?thesis
  proof (cases "?v = z")
    case True
    have "route_path G T s z [s, z]" using True e z by (auto simp: route_path_def)
    moreover have "q = [s, z]" if q: "route_path G T s z q" "q ! 1 = z" for q
    proof -
      obtain q' where q': "q' \<noteq> []" "q = s # q'" "hd q' = z" using split [OF q(1)] q(2) by auto
      then have "last q' = hd q'" "distinct q'" using q(1) by (auto simp: route_path_def)
      then have "q' = [z]" using q'(1,3) by (cases q') (auto split: if_splits)
      then show ?thesis using q'(2) by simp
    qed
    ultimately have "route_path G T s z [s, z] \<and> [s, z] ! 1 = ?v \<and>
        (\<forall>q. route_path G T s z q \<and> q ! 1 = ?v \<longrightarrow> path_cost G [s, z] \<le> path_cost G q)"
      using True by (metis One_nat_def nth_Cons_0 nth_Cons_Suc order_refl)
    then show ?thesis using True by (simp add: candidate_path_def)
  next
    case far: False
    have first: "\<exists>q'. q = s # q' \<and> q' \<noteq> [] \<and> hd q' = ?v \<and> ?v \<in> T \<and> walk G T (Some s) ?v q' \<and> last q' = z"
      if q: "route_path G T s z q" "q ! 1 = ?v" for q
    proof -
      obtain q' where q': "q' \<noteq> []" "q = s # q'" "hd q' = ?v" using split [OF q(1)] q(2) by auto
      then have "q' \<noteq> [z]" using far by auto
      then show ?thesis using q(1) q' route_path_Cons [OF q'(1), of G T s z] by simp
    qed
    show ?thesis
    proof (cases "?v \<in> T")
      case False
      have "\<nexists>q. route_path G T s z q \<and> q ! 1 = ?v" using first False by blast
      then show ?thesis using far False by (simp add: candidate_path_def)
    next
      case True
      obtain r where r: "shortest_path_excluding ?v z (Some s) G T = Some r"
        "case r of None \<Rightarrow> \<nexists>q. walk G T (Some s) ?v q \<and> last q = z
         | Some p \<Rightarrow> walk G T (Some s) ?v p \<and> last p = z \<and> distinct p \<and> (\<forall>q. walk G T (Some s) ?v q \<and> last q = z \<longrightarrow> path_cost G p \<le> path_cost G q)"
        using shortest_path_excluding_correct [OF G, of ?v "Some s" z T] v by auto
      have c: "candidate_path s z G T e = Some (map_option (Cons s) r)" using far True r(1) by (simp add: candidate_path_def)
      show ?thesis
      proof (cases r)
        case None
        then have "\<nexists>q. walk G T (Some s) ?v q \<and> last q = z" using r(2) by simp
        then have "\<nexists>q. route_path G T s z q \<and> q ! 1 = ?v" using first by blast
        then show ?thesis using c None by simp
      next
        case (Some p)
        then have p: "walk G T (Some s) ?v p" "last p = z" "distinct p" "p \<noteq> []" "hd p = ?v"
          and best: "\<forall>q. walk G T (Some s) ?v q \<and> last q = z \<longrightarrow> path_cost G p \<le> path_cost G q" using r(2) by (auto simp: walk_def)
        have "s \<notin> set p"
        proof -
          have "y \<noteq> s" if "y \<in> set (tl p)" for y
          proof -
            have "\<exists>u. (u, y) \<in> set (hops p)" using that p(4) by (induction p rule: hops.induct) auto
            then show ?thesis using p(1) by (auto simp: walk_def edge_ok_def)
          qed
          then show ?thesis using p(4,5) v by (cases p) auto
        qed
        then have "route_path G T s z (s # p)" using route_path_Cons [OF p(4), of G T s z] p e True far by auto
        moreover have "path_cost G (s # p) \<le> path_cost G q" if q: "route_path G T s z q" "q ! 1 = ?v" for q
        proof -
          obtain q' where q': "q = s # q'" "q' \<noteq> []" "hd q' = ?v" "walk G T (Some s) ?v q'" "last q' = z" using first [OF q] by blast
          then have "path_cost G p \<le> path_cost G q'" using best by blast
          then show ?thesis using path_cost_Cons_mono [OF p(4) q'(2)] p(5) q'(1,3) by simp
        qed
        moreover have "(s # p) ! 1 = ?v" using p(4,5) by (simp add: hd_conv_nth)
        ultimately show ?thesis using c Some by simp
      qed
    qed
  qed
qed

end
