(* ===== verification/TopologyGraph.thy ===== *)
theory TopologyGraph
  imports TopologyPaths
begin

text \<open>
  What the graph of the topology compiler is, in terms of the links it was built from, and what the candidate
  paths over it are.
\<close>

section \<open>The graph\<close>

definition left_edge :: "topology_link \<Rightarrow> directed_link" where
  "left_edge link = \<lparr> dl_peer = tl_right link, dl_adjacency = tl_left_adjacency link, dl_cost = tl_cost link,
     dl_maximum_datagram_size = tl_maximum_datagram_size link \<rparr>"

definition right_edge :: "topology_link \<Rightarrow> directed_link" where
  "right_edge link = \<lparr> dl_peer = tl_left link, dl_adjacency = tl_right_adjacency link, dl_cost = tl_cost link,
     dl_maximum_datagram_size = tl_maximum_datagram_size link \<rparr>"

definition link_ends :: "topology_link \<Rightarrow> ((node_id \<times> adjacency_id) \<times> (node_id \<times> adjacency_id)) list" where
  "link_ends link = [((tl_left link, tl_left_adjacency link), (tl_right link, tl_right_adjacency link)),
     ((tl_right link, tl_right_adjacency link), (tl_left link, tl_left_adjacency link))]"

text \<open>The wiring of the links: the node and the adjacency a DATAGRAM arrives on when a node sends it on an adjacency.\<close>

definition other_end :: "topology_link list \<Rightarrow> node_id \<Rightarrow> adjacency_id \<Rightarrow> (node_id \<times> adjacency_id) option" where
  "other_end links n a = map_of (concat (map link_ends links)) (n, a)"

definition link_edges :: "node_id \<Rightarrow> topology_link \<Rightarrow> directed_link list" where
  "link_edges u link = (if \<not> tl_healthy link then []
     else (if tl_left link = u then [left_edge link] else []) @ (if tl_right link = u then [right_edge link] else []))"

lemma edges_push_edge: "edges (push_edge n e G) u = (if u = n then edges G u @ [e] else edges G u)"
  by (simp add: edges_def push_edge_def update_conv')

definition link_ok :: "node_id set \<Rightarrow> topology_link \<Rightarrow> bool" where
  "link_ok known link \<longleftrightarrow> tl_left link \<noteq> tl_right link \<and> tl_left link \<in> known \<and> tl_right link \<in> known \<and> tl_cost link \<noteq> 0 \<and>
     tl_left_adjacency link \<noteq> 0 \<and> tl_right_adjacency link \<noteq> 0 \<and> HEADER_LEN < unat (tl_maximum_datagram_size link)"

lemma add_link_Inr:
  assumes "add_link known link st = Inr st'"
  shows "link_ok known link"
    and "distinct (map fst (link_ends link))"
    and "fst ` set (link_ends link) \<inter> ls_adjacency_ids st = {}"
    and "link_pair link \<notin> ls_node_pairs st"
    and "ls_adjacency_ids st' = fst ` set (link_ends link) \<union> ls_adjacency_ids st"
    and "ls_node_pairs st' = insert (link_pair link) (ls_node_pairs st)"
    and "edges (ls_graph st') u = edges (ls_graph st) u @ link_edges u link"
  using assms by (auto simp: add_link_def link_ok_def adjacency_new_def result_iff Let_def edges_push_edge link_ends_def link_edges_def
      left_edge_def right_edge_def split: if_splits)

lemma add_link_total:
  assumes "link_ok known link" "fst ` set (link_ends link) \<inter> ls_adjacency_ids st = {}" "link_pair link \<notin> ls_node_pairs st"
  shows "\<exists>st'. add_link known link st = Inr st'"
  using assms by (auto simp: add_link_def link_ok_def adjacency_new_def Let_def link_ends_def)

definition links_ok :: "node_id set \<Rightarrow> topology_link list \<Rightarrow> bool" where
  "links_ok known links \<longleftrightarrow>
     (\<forall>link\<in>set links. link_ok known link) \<and>
     distinct (map fst (concat (map link_ends links))) \<and> distinct (map link_pair links)"

lemma links_ok_Cons:
  "links_ok known (link # links) \<longleftrightarrow>
     link_ok known link \<and> distinct (map fst (link_ends link)) \<and> fst ` set (link_ends link) \<inter> fst ` set (concat (map link_ends links)) = {} \<and>
     link_pair link \<notin> link_pair ` set links \<and> links_ok known links"
  unfolding links_ok_def list.map concat.simps map_append distinct_append set_map distinct.simps list.set ball_simps by blast

lemma add_links_Inr:
  assumes "add_links known links st = Inr st'"
  shows "links_ok known links \<and> fst ` set (concat (map link_ends links)) \<inter> ls_adjacency_ids st = {} \<and>
     link_pair ` set links \<inter> ls_node_pairs st = {}"
    and "edges (ls_graph st') u = edges (ls_graph st) u @ concat (map (link_edges u) links)"
  using assms
proof (induction links arbitrary: st)
  case (Cons link links)
  {
    case 1
    then obtain s1 where s1: "add_link known link st = Inr s1" "add_links known links s1 = Inr st'" by (auto simp: result_iff)
    note a = add_link_Inr [OF s1(1)] and b = Cons.IH(1) [OF s1(2)]
    have "fst ` set (link_ends link) \<inter> fst ` set (concat (map link_ends links)) = {}"
      "fst ` set (concat (map link_ends links)) \<inter> ls_adjacency_ids st = {}"
      using b unfolding a(5) by blast+
    moreover have "link_pair link \<notin> link_pair ` set links" "link_pair ` set links \<inter> ls_node_pairs st = {}"
      using b unfolding a(6) by blast+
    ultimately show ?case using a(1-4) b by (simp add: links_ok_Cons image_Un Int_Un_distrib2 del: set_concat)
  next
    case 2
    then obtain s1 where s1: "add_link known link st = Inr s1" "add_links known links s1 = Inr st'" by (auto simp: result_iff)
    show ?case using Cons.IH(2) [OF s1(2)] add_link_Inr(7) [OF s1(1)] by simp
  }
qed (simp_all add: links_ok_def)

lemma add_links_total:
  assumes "links_ok known links" "fst ` set (concat (map link_ends links)) \<inter> ls_adjacency_ids st = {}" "link_pair ` set links \<inter> ls_node_pairs st = {}"
  shows "\<exists>st'. add_links known links st = Inr st'"
  using assms
proof (induction links arbitrary: st)
  case (Cons link links)
  have ok: "link_ok known link" "fst ` set (link_ends link) \<inter> fst ` set (concat (map link_ends links)) = {}" "link_pair link \<notin> link_pair ` set links"
    "links_ok known links" using Cons.prems(1) by (simp_all add: links_ok_Cons del: set_concat)
  have st: "fst ` set (link_ends link) \<inter> ls_adjacency_ids st = {}" "fst ` set (concat (map link_ends links)) \<inter> ls_adjacency_ids st = {}"
    using Cons.prems(2) by (simp_all add: image_Un Int_Un_distrib2 del: set_concat)
  obtain s1 where s1: "add_link known link st = Inr s1" using add_link_total [OF ok(1) st(1)] Cons.prems(3) by auto
  have "fst ` set (concat (map link_ends links)) \<inter> ls_adjacency_ids s1 = {}" "link_pair ` set links \<inter> ls_node_pairs s1 = {}"
    unfolding add_link_Inr(5,6) [OF s1] using ok(2,3) st(2) Cons.prems(3)
    by (simp_all add: Int_Un_distrib Int_commute [of "fst ` set (link_ends link)"] del: set_concat)
  from Cons.IH [OF ok(4) this] s1 show ?case by simp
qed simp

lemma build_graph_total: "links_ok known links \<Longrightarrow> \<exists>G. build_graph known links = Inr G"
  using add_links_total [of known links "\<lparr> ls_graph = [], ls_adjacency_ids = {}, ls_node_pairs = {} \<rparr>"] by (auto simp: build_graph_def)

lemma edges_map: "f [] = [] \<Longrightarrow> edges (map (\<lambda>(n, es). (n, f es)) G) u = f (edges G u)"
  by (induction G) (auto simp: edges_def)

lemma build_graph_Inr:
  assumes "build_graph known links = Inr G"
  shows "links_ok known links" "edges G u = sort_key edge_key (concat (map (link_edges u) links))"
proof -
  obtain st where st: "add_links known links \<lparr> ls_graph = [], ls_adjacency_ids = {}, ls_node_pairs = {} \<rparr> = Inr st"
    "G = map (\<lambda>(n, es). (n, sort_key edge_key es)) (ls_graph st)"
    using assms by (auto simp: build_graph_def result_iff)
  note a = add_links_Inr [OF st(1)]
  show "links_ok known links" using a by blast
  have "edges (ls_graph st) u = concat (map (link_edges u) links)" using a by (simp add: edges_def)
  then show "edges G u = sort_key edge_key (concat (map (link_edges u) links))"
    by (simp add: st(2) edges_map)
qed

lemma build_graph_edge:
  assumes "build_graph known links = Inr G"
  shows "e \<in> set (edges G u) \<longleftrightarrow> (\<exists>link\<in>set links. tl_healthy link \<and>
    (tl_left link = u \<and> e = left_edge link \<or> tl_right link = u \<and> e = right_edge link))"
  by (auto simp: build_graph_Inr(2) [OF assms] link_edges_def)

lemma link_edges_peers:
  "distinct (map link_pair links) \<Longrightarrow> \<forall>link\<in>set links. tl_left link \<noteq> tl_right link \<Longrightarrow>
     distinct (map dl_peer (concat (map (link_edges u) links)))"
proof (induction links)
  case (Cons link links)
  have "dl_peer e \<noteq> dl_peer e'" if "e \<in> set (link_edges u link)" "link' \<in> set links" "e' \<in> set (link_edges u link')" for e e' link'
  proof -
    have "link_pair link \<noteq> link_pair link'" using Cons.prems(1) that(2) by auto
    then show ?thesis using that(1,3)
      by (auto simp: link_edges_def left_edge_def right_edge_def link_pair_def split: if_splits)
  qed
  then have "dl_peer ` set (link_edges u link) \<inter> dl_peer ` set (concat (map (link_edges u) links)) = {}" by auto
  moreover have "distinct (map dl_peer (link_edges u link))" using Cons.prems(2) by (auto simp: link_edges_def)
  ultimately show ?case using Cons by auto
qed simp

lemma build_graph_ok:
  assumes "build_graph known links = Inr G"
  shows "graph_ok G"
proof -
  note b = build_graph_Inr [OF assms]
  have "distinct (map dl_peer (edges G u))" for u
    using link_edges_peers [of links u] b by (simp add: links_ok_def link_ok_def distinct_map)
  moreover have "dl_peer e \<noteq> u" "dl_cost e \<noteq> 0" if "e \<in> set (edges G u)" for e u
    using that b(1) by (auto simp: build_graph_edge [OF assms] links_ok_def link_ok_def left_edge_def right_edge_def)
  ultimately show ?thesis by (auto simp: graph_ok_def)
qed

lemma build_graph_peer:
  assumes "build_graph known links = Inr G"
  shows "v \<in> dl_peer ` set (edges G u) \<longleftrightarrow> (\<exists>link\<in>set links. tl_healthy link \<and>
    (tl_left link = u \<and> tl_right link = v \<or> tl_right link = u \<and> tl_left link = v))" (is "_ \<longleftrightarrow> ?r")
proof
  assume "v \<in> dl_peer ` set (edges G u)"
  then obtain e where "dl_peer e = v" "e \<in> set (edges G u)" by blast
  then show ?r unfolding build_graph_edge [OF assms] left_edge_def right_edge_def by (elim bexE conjE, intro bexI) auto
next
  assume ?r
  then obtain link where "link \<in> set links" "tl_healthy link" "tl_left link = u \<and> tl_right link = v \<or> tl_right link = u \<and> tl_left link = v" by blast
  then have "left_edge link \<in> set (edges G u) \<and> dl_peer (left_edge link) = v \<or> right_edge link \<in> set (edges G u) \<and> dl_peer (right_edge link) = v"
    by (auto simp: build_graph_edge [OF assms] left_edge_def right_edge_def)
  then show "v \<in> dl_peer ` set (edges G u)" by auto
qed

text \<open>A hop of the graph is a link: both its directions are there, and the wiring connects their adjacencies.\<close>

lemma build_graph_hop:
  assumes b: "build_graph known links = Inr G" and v: "v \<in> dl_peer ` set (edges G u)"
  obtains e e' where "directed_link_v2 G u v = Inr e" "directed_link_v2 G v u = Inr e'"
    "other_end links u (dl_adjacency e) = Some (v, dl_adjacency e')"
    "\<exists>link\<in>set links. tl_healthy link \<and> {tl_left link, tl_right link} = {u, v} \<and> tl_maximum_datagram_size link = dl_maximum_datagram_size e"
    "dl_adjacency e \<noteq> 0"
proof -
  note ok = build_graph_ok [OF b]
  obtain link where l: "link \<in> set links" "tl_healthy link"
    "tl_left link = u \<and> tl_right link = v \<or> tl_right link = u \<and> tl_left link = v"
    using v by (auto simp: build_graph_edge [OF b] left_edge_def right_edge_def)
  define e where "e = (if tl_left link = u \<and> tl_right link = v then left_edge link else right_edge link)"
  define e' where "e' = (if tl_left link = u \<and> tl_right link = v then right_edge link else left_edge link)"
  note defs = e_def e'_def left_edge_def right_edge_def
  have e: "e \<in> set (edges G u)" "dl_peer e = v" and e': "e' \<in> set (edges G v)" "dl_peer e' = u"
    using l by (auto simp: defs build_graph_edge [OF b])
  have "((u, dl_adjacency e), (v, dl_adjacency e')) \<in> set (concat (map link_ends links))"
    using l by (auto simp: defs link_ends_def)
  then have "other_end links u (dl_adjacency e) = Some (v, dl_adjacency e')"
    using build_graph_Inr(1) [OF b] unfolding links_ok_def other_end_def by (blast intro: map_of_is_SomeI)
  moreover have "{tl_left link, tl_right link} = {u, v} \<and> tl_maximum_datagram_size link = dl_maximum_datagram_size e"
    using l(3) by (auto simp: defs)
  moreover have "dl_adjacency e \<noteq> 0" using build_graph_Inr(1) [OF b] l(1) by (auto simp: defs links_ok_def link_ok_def)
  ultimately show ?thesis
    using that hop_cost_edge(1) [OF ok e(1)] hop_cost_edge(1) [OF ok e'(1)] e(2) e'(2) l(1,2) by blast
qed

section \<open>The candidate paths\<close>

lemma collect_paths_Some:
  "\<forall>x\<in>set xs. f x = Some (g x) \<Longrightarrow> collect_paths f xs = Some (List.map_filter g xs)"
  by (induction xs) (auto simp: map_filter_simps split: option.split)

lemma map_filter_keys:
  "\<forall>x\<in>set xs. \<forall>y. g x = Some y \<longrightarrow> k y = h x \<Longrightarrow> distinct (map h xs) \<Longrightarrow> distinct (map k (List.map_filter g xs))"
proof (induction xs)
  case (Cons x xs)
  have "h x \<notin> k ` set (List.map_filter g xs)"
  proof
    assume "h x \<in> k ` set (List.map_filter g xs)"
    then obtain x' y where "x' \<in> set xs" "g x' = Some y" "k y = h x" by (auto simp: map_filter_def)
    then have "h x' = h x" "x' \<in> set xs" using Cons.prems(1) by auto
    then show False using Cons.prems(2) by (metis distinct.simps(2) image_eqI list.simps(9) set_map)
  qed
  then show ?case using Cons by (simp add: map_filter_simps split: option.split)
qed (simp add: map_filter_simps)

text \<open>The candidate list of a source: always returned, at most four paths, no two over the same first hop, in
  the order of their costs, each the cheapest over its first hop, the first the cheapest of all.\<close>

definition candidates_ok :: "link_graph \<Rightarrow> node_id set \<Rightarrow> node_id \<Rightarrow> node_id \<Rightarrow> node_id list list \<Rightarrow> bool" where
  "candidates_ok G T s z ps \<longleftrightarrow>
     length ps \<le> MAX_CANDIDATE_ROUTES \<and> distinct (map (\<lambda>p. p ! 1) ps) \<and> sorted (map (path_cost G) ps) \<and>
     (\<forall>p\<in>set ps. route_path G T s z p \<and> (\<forall>q. route_path G T s z q \<and> q ! 1 = p ! 1 \<longrightarrow> path_cost G p \<le> path_cost G q)) \<and>
     (\<forall>q. route_path G T s z q \<longrightarrow> ps \<noteq> [] \<and> path_cost G (hd ps) \<le> path_cost G q)"

lemma sorted_pair_fst: "sorted (map (\<lambda>x. (f x, g x)) xs) \<Longrightarrow> sorted (map f xs)"
  by (induction xs) auto

lemma candidate_paths_ok:
  assumes G: "graph_ok G" and z: "s \<noteq> z"
  shows "\<exists>ps. candidate_paths s z G T = Some ps \<and> candidates_ok G T s z ps"
proof -
  define g where "g e = the (candidate_path s z G T e)" for e
  have g: "candidate_path s z G T e = Some (g e)"
    "case g e of None \<Rightarrow> \<nexists>q. route_path G T s z q \<and> q ! 1 = dl_peer e
     | Some p \<Rightarrow> route_path G T s z p \<and> p ! 1 = dl_peer e \<and>
         (\<forall>q. route_path G T s z q \<and> q ! 1 = dl_peer e \<longrightarrow> path_cost G p \<le> path_cost G q)"
    if "e \<in> set (edges G s)" for e
    using candidate_path_best [OF G that z, of T] by (auto simp: g_def)
  define cs where "cs = List.map_filter g (edges G s)"
  have cs: "route_path G T s z p \<and> (\<forall>q. route_path G T s z q \<and> q ! 1 = p ! 1 \<longrightarrow> path_cost G p \<le> path_cost G q)" if "p \<in> set cs" for p
    using that g(2) by (fastforce simp: cs_def map_filter_def split: option.splits)
  have keys: "distinct (map (\<lambda>p. p ! 1) cs)" unfolding cs_def
    using G g(2) by (intro map_filter_keys [where h = dl_peer]) (fastforce simp: graph_ok_def split: option.splits)+
  let ?ss = "sort_key (\<lambda>path. (path_cost G path, path)) cs"
  have ss: "sorted (map (path_cost G) ?ss)" by (rule sorted_pair_fst [OF sorted_sort_key])
  have all: "?ss \<noteq> [] \<and> path_cost G (hd ?ss) \<le> path_cost G q" if q: "route_path G T s z q" for q
  proof -
    have "(s, q ! 1) \<in> set (hops q)" using q by (cases q rule: hops.cases) (auto simp: route_path_def)
    then obtain e where e: "e \<in> set (edges G s)" "q ! 1 = dl_peer e" using q by (auto simp: route_path_def)
    then obtain p where p: "g e = Some p" "path_cost G p \<le> path_cost G q" using g(2) [OF e(1)] q by (cases "g e") auto
    then have "p \<in> set ?ss" using e(1) by (force simp: cs_def map_filter_def)
    then show ?thesis using ss p(2) by (cases ?ss) force+
  qed
  have "candidate_paths s z G T = Some (take MAX_CANDIDATE_ROUTES ?ss)"
    using g(1) by (simp add: candidate_paths_def collect_paths_Some [of _ _ g] cs_def)
  moreover have "candidates_ok G T s z (take MAX_CANDIDATE_ROUTES ?ss)"
    unfolding candidates_ok_def
  proof (intro conjI)
    show "distinct (map (\<lambda>p. p ! 1) (take MAX_CANDIDATE_ROUTES ?ss))"
      using keys by (simp add: distinct_map take_map [symmetric] distinct_take)
    show "sorted (map (path_cost G) (take MAX_CANDIDATE_ROUTES ?ss))" using ss by (simp add: take_map [symmetric] sorted_wrt_take)
    show "\<forall>p\<in>set (take MAX_CANDIDATE_ROUTES ?ss). route_path G T s z p \<and>
        (\<forall>q. route_path G T s z q \<and> q ! 1 = p ! 1 \<longrightarrow> path_cost G p \<le> path_cost G q)"
      using cs by (auto dest!: in_set_takeD)
    show "\<forall>q. route_path G T s z q \<longrightarrow> take MAX_CANDIDATE_ROUTES ?ss \<noteq> [] \<and> path_cost G (hd (take MAX_CANDIDATE_ROUTES ?ss)) \<le> path_cost G q"
      using all by (simp add: MAX_CANDIDATE_ROUTES_def)
  qed simp
  ultimately show ?thesis by blast
qed

end
