(* ===== verification/TopologyPlan.thy ===== *)
theory TopologyPlan
  imports TopologyGraph
begin

text \<open>
  A closed form of the topology compiler: the plan lists every source, owner and candidate path in the order of
  the nested loops, the label of a planned path is its position, and the tables of a node are what the
  plan gives it.  The search and the trace back do not appear in it, so compilation always returns.
\<close>

section \<open>The tables of a planned path\<close>

type_synonym 'n planned = "node_id \<times> 'n list \<times> node_id list"

definition path_edges :: "link_graph \<Rightarrow> node_id list \<Rightarrow> directed_link list" where
  "path_edges G path = map (\<lambda>(a, b). projr (directed_link_v2 G a b)) (hops path)"

definition planned_route :: "link_graph \<Rightarrow> u32 \<Rightarrow> route_label \<Rightarrow> node_id list \<Rightarrow> resolved_route" where
  "planned_route G ep label path = projr (path_route (path_edges G path) label ep)"

definition planned_prefixes :: "link_graph \<Rightarrow> u32 \<Rightarrow> route_label \<Rightarrow> 'n planned \<Rightarrow> node_id \<Rightarrow> 'n prefix_route list" where
  "planned_prefixes G ep label x n = (case x of (s, prefixes, path) \<Rightarrow>
     if n = s then map (\<lambda>prefix. \<lparr> pr_prefix = prefix, pr_route = planned_route G ep label path,
         pr_startup_latency = 1000 * sum_list (map (unat \<circ> dl_cost) (path_edges G path)) \<rparr>) prefixes
     else [])"

fun hop_labels :: "link_graph \<Rightarrow> u32 \<Rightarrow> route_label \<Rightarrow> node_id list \<Rightarrow> node_id \<Rightarrow> label_route list" where
  "hop_labels G ep label (previous # current # rest) n =
     (if n = current then [\<lparr> lr_route_label = label, lr_route_epoch = ep, lr_action = projr (hop_action G previous current rest) \<rparr>] else []) @
     hop_labels G ep label (current # rest) n"
| "hop_labels G ep label _ n = []"

fun plan_prefixes :: "link_graph \<Rightarrow> u32 \<Rightarrow> route_label \<Rightarrow> 'n planned list \<Rightarrow> node_id \<Rightarrow> 'n prefix_route list" where
  "plan_prefixes G ep label [] n = []"
| "plan_prefixes G ep label (x # xs) n = planned_prefixes G ep label x n @ plan_prefixes G ep (label + 1) xs n"

fun plan_labels :: "link_graph \<Rightarrow> u32 \<Rightarrow> route_label \<Rightarrow> 'n planned list \<Rightarrow> node_id \<Rightarrow> label_route list" where
  "plan_labels G ep label [] n = []"
| "plan_labels G ep label (x # xs) n = hop_labels G ep label (snd (snd x)) n @ plan_labels G ep (label + 1) xs n"

definition hops_ok :: "link_graph \<Rightarrow> node_id list \<Rightarrow> bool" where
  "hops_ok G path \<longleftrightarrow> (\<forall>(u, v)\<in>set (hops path). is_ok (directed_link_v2 G u v) \<and> is_ok (directed_link_v2 G v u))"

definition parts_grow :: "'n parts \<Rightarrow> (node_id \<Rightarrow> 'n prefix_route list) \<Rightarrow> (node_id \<Rightarrow> label_route list) \<Rightarrow> 'n parts \<Rightarrow> bool" where
  "parts_grow parts P L parts' \<longleftrightarrow>
     (\<forall>n. map_of parts' n = map_option (\<lambda>p. \<lparr> sp_prefixes = sp_prefixes p @ P n, sp_labels = sp_labels p @ L n \<rparr>) (map_of parts n))"

lemma part_eta [simp]:
  fixes p :: "'n snapshot_parts"
  shows "\<lparr> sp_prefixes = sp_prefixes p, sp_labels = sp_labels p \<rparr> = p"
    and "p\<lparr> sp_prefixes := xs \<rparr> = \<lparr> sp_prefixes = xs, sp_labels = sp_labels p \<rparr>"
    and "p\<lparr> sp_labels := ys \<rparr> = \<lparr> sp_prefixes = sp_prefixes p, sp_labels = ys \<rparr>"
  by simp_all

lemma parts_grow_trans: "parts_grow p P L p' \<Longrightarrow> parts_grow p' P' L' p'' \<Longrightarrow> parts_grow p (\<lambda>n. P n @ P' n) (\<lambda>n. L n @ L' n) p''"
  by (simp add: parts_grow_def option.map_comp comp_def)

lemma map_of_modify_part: "map_of (modify_part n f parts) k = (if k = n then map_option f (map_of parts k) else map_of parts k)"
  by (auto simp: modify_part_def update_conv' split: option.split)

lemma parts_grow_prefixes: "parts_grow parts (\<lambda>k. if k = n then xs else []) (\<lambda>_. []) (modify_part n (\<lambda>p. p\<lparr> sp_prefixes := sp_prefixes p @ xs \<rparr>) parts)"
  by (auto simp: parts_grow_def map_of_modify_part option.map_ident intro: option.map_cong)

lemma parts_grow_labels: "parts_grow parts (\<lambda>_. []) (\<lambda>k. if k = n then xs else []) (modify_part n (\<lambda>p. p\<lparr> sp_labels := sp_labels p @ xs \<rparr>) parts)"
  by (auto simp: parts_grow_def map_of_modify_part option.map_ident intro: option.map_cong)

lemma hop_action_ok: "hops_ok G (previous # current # rest) \<Longrightarrow> hop_action G previous current rest = Inr (projr (hop_action G previous current rest))"
  by (cases rest) (auto simp: hops_ok_def hop_action_def is_ok_iff)

lemma hops_ok_tl: "hops_ok G (u # p) \<Longrightarrow> hops_ok G p"
  by (cases p) (auto simp: hops_ok_def)

lemma assign_hops_grows:
  "hops_ok G path \<Longrightarrow> \<exists>parts'. assign_hops G label ep path parts = Inr parts' \<and> parts_grow parts (\<lambda>_. []) (hop_labels G ep label path) parts'"
proof (induction G label ep path parts rule: assign_hops.induct)
  case (1 G label ep previous current rest parts)
  let ?a = "projr (hop_action G previous current rest)"
  let ?e = "\<lparr> lr_route_label = label, lr_route_epoch = ep, lr_action = ?a \<rparr>"
  let ?q = "modify_part current (\<lambda>p. p\<lparr> sp_labels := sp_labels p @ [?e] \<rparr>) parts"
  note a = hop_action_ok [OF "1.prems"]
  from "1.IH" [OF a hops_ok_tl [OF "1.prems"]] obtain parts' where
    p: "assign_hops G label ep (current # rest) ?q = Inr parts'" "parts_grow ?q (\<lambda>_. []) (hop_labels G ep label (current # rest)) parts'" by blast
  have "parts_grow parts (\<lambda>_. []) (hop_labels G ep label (previous # current # rest)) parts'"
    using parts_grow_trans [OF parts_grow_labels p(2)] by (simp add: parts_grow_def)
  then show ?case using p(1) by (subst assign_hops.simps, subst a) simp
qed (simp_all add: parts_grow_def option.map_ident)

lemma path_route_ok: "xs \<noteq> [] \<Longrightarrow> path_route xs label ep = Inr (projr (path_route xs label ep))"
  by (cases xs) (simp_all add: path_route_def)

lemma path_edges_ok:
  assumes "hops_ok G path"
  shows "mapR (\<lambda>(a, b). directed_link_v2 G a b) (hops path) = Inr (path_edges G path)"
proof -
  have "(case h of (a, b) \<Rightarrow> directed_link_v2 G a b) = Inr (case h of (a, b) \<Rightarrow> projr (directed_link_v2 G a b))" if "h \<in> set (hops path)" for h
    using assms that by (auto simp: hops_ok_def is_ok_iff)
  then show ?thesis by (simp add: mapR_Inr_iff path_edges_def list_all2_conv_all_nth)
qed

lemma assign_path_capacity:
  "MAX_ROUTE_LABELS < unat next_label \<Longrightarrow> assign_path G ep s prefixes path (parts, next_label) = Inl (Err ''V2 topology exceeds route-label capacity'')"
  by (simp add: assign_path_def)

lemma assign_path_grows:
  assumes "hops_ok G path" "2 \<le> length path" "next_label \<noteq> 0" "unat next_label \<le> MAX_ROUTE_LABELS"
  shows "\<exists>parts'. assign_path G ep s prefixes path (parts, next_label) = Inr (parts', next_label + 1) \<and>
    parts_grow parts (planned_prefixes G ep next_label (s, prefixes, path)) (hop_labels G ep next_label path) parts'"
proof -
  let ?xs = "map (\<lambda>prefix. \<lparr> pr_prefix = prefix, pr_route = planned_route G ep next_label path,
      pr_startup_latency = 1000 * sum_list (map (unat \<circ> dl_cost) (path_edges G path)) \<rparr>) prefixes"
  let ?q = "modify_part s (\<lambda>p. p\<lparr> sp_prefixes := sp_prefixes p @ ?xs \<rparr>) parts"
  obtain parts' where p: "assign_hops G next_label ep path ?q = Inr parts'" "parts_grow ?q (\<lambda>_. []) (hop_labels G ep next_label path) parts'"
    using assign_hops_grows [OF assms(1)] by blast
  have "path_edges G path \<noteq> []" using assms(2) by (cases path rule: hops.cases) (auto simp: path_edges_def)
  note r = path_route_ok [OF this, of next_label ep, folded planned_route_def]
  have "assign_path G ep s prefixes path (parts, next_label) = Inr (parts', next_label + 1)"
    using assms(3,4) p(1) r by (simp add: assign_path_def route_label_new_def path_edges_ok [OF assms(1)] Let_def MAX_ROUTE_LABELS_def u32_max_def)
  moreover have "parts_grow parts (planned_prefixes G ep next_label (s, prefixes, path)) (hop_labels G ep next_label path) parts'"
    using parts_grow_trans [OF parts_grow_prefixes p(2)] by (simp add: parts_grow_def planned_prefixes_def if_distrib cong: if_cong)
  ultimately show ?thesis by blast
qed

section \<open>The plan\<close>

definition pair_plan :: "'n ipnet \<Rightarrow> (node_id \<times> 'n topology_node) list \<Rightarrow> link_graph \<Rightarrow> node_id set \<Rightarrow> node_id \<times> node_id \<Rightarrow> 'n planned list" where
  "pair_plan N node_map G T pair = (case pair of (s, z) \<Rightarrow>
     (case map_of node_map z of
        None \<Rightarrow> []
      | Some node \<Rightarrow> if s = z \<or> tn_advertised_prefixes node = [] then []
          else map (\<lambda>path. (s, sort_key (prefix_key N) (tn_advertised_prefixes node), path)) (the (candidate_paths s z G T))))"

fun assign_all :: "link_graph \<Rightarrow> u32 \<Rightarrow> 'n planned list \<Rightarrow> 'n parts \<times> u32 \<Rightarrow> ('n parts \<times> u32) result" where
  "assign_all G ep [] st = Inr st"
| "assign_all G ep ((s, prefixes, path) # xs) st = bindR (assign_path G ep s prefixes path st) (assign_all G ep xs)"

lemma bindR_assoc: "bindR (bindR m f) g = bindR m (\<lambda>x. bindR (f x) g)"
  by (cases m) simp_all

lemma bindR_Inr [simp]: "bindR m Inr = m"
  by (cases m) simp_all

lemma assign_all_append: "assign_all G ep (xs @ ys) st = bindR (assign_all G ep xs st) (assign_all G ep ys)"
proof (induction xs arbitrary: st)
  case (Cons x xs)
  then have "assign_all G ep (xs @ ys) = (\<lambda>st. bindR (assign_all G ep xs st) (assign_all G ep ys))" by blast
  then show ?case by (cases x) (simp add: bindR_assoc)
qed simp

lemma assign_paths_all: "assign_paths G ep s prefixes ps st = assign_all G ep (map (\<lambda>p. (s, prefixes, p)) ps) st"
proof (induction ps arbitrary: st)
  case (Cons p ps)
  then have "assign_paths G ep s prefixes ps = assign_all G ep (map (\<lambda>p. (s, prefixes, p)) ps)" by blast
  then show ?case by simp
qed simp

lemma bindD_Inr [simp]: "bindD (Some (Inr x)) f = f x" "bindD (Some (Inl e)) f = Some (Inl e)"
  by (simp_all add: bindD_def)

lemma bindD_Some [simp]: "bindD (Some m) (\<lambda>x. Some (f x)) = Some (bindR m f)"
  by (cases m) (simp_all add: bindD_def)

lemma assign_pairs_plan:
  assumes "graph_ok G" "\<forall>(s, z)\<in>set pairs. map_of node_map z \<noteq> None"
  shows "assign_pairs N node_map G T ep pairs st = Some (assign_all G ep (concat (map (pair_plan N node_map G T) pairs)) st)"
  using assms(2)
proof (induction pairs arbitrary: st)
  case (Cons pair pairs)
  obtain s z where p: "pair = (s, z)" by (cases pair)
  obtain node where node: "map_of node_map z = Some node" using Cons.prems p by auto
  have "assign_pair N node_map G T ep s z st = Some (assign_all G ep (pair_plan N node_map G T (s, z)) st)"
  proof (cases "s = z")
    case False
    then obtain ps where "candidate_paths s z G T = Some ps" using candidate_paths_ok [OF assms(1)] by blast
    then show ?thesis using False node by (simp add: assign_pair_def pair_plan_def assign_paths_all)
  qed (use node in \<open>simp add: assign_pair_def pair_plan_def\<close>)
  moreover have "assign_pairs N node_map G T ep pairs = (\<lambda>st. Some (assign_all G ep (concat (map (pair_plan N node_map G T) pairs)) st))"
    using Cons by auto
  ultimately show ?case using p by (simp add: assign_all_append)
qed simp

lemma assign_all_grows:
  assumes "\<forall>(s, prefixes, path)\<in>set xs. hops_ok G path \<and> 2 \<le> length path" "label \<noteq> 0" "unat label + length xs \<le> MAX_ROUTE_LABELS + 1"
  shows "\<exists>parts'. assign_all G ep xs (parts, label) = Inr (parts', label + word_of_nat (length xs)) \<and>
    parts_grow parts (plan_prefixes G ep label xs) (plan_labels G ep label xs) parts'"
  using assms
proof (induction xs arbitrary: label parts)
  case (Cons x xs)
  obtain s prefixes path where x: "x = (s, prefixes, path)" by (cases x)
  obtain q where q: "assign_path G ep s prefixes path (parts, label) = Inr (q, label + 1)"
    "parts_grow parts (planned_prefixes G ep label x) (hop_labels G ep label path) q"
    using assign_path_grows [of G path label ep s prefixes parts] Cons.prems x by auto
  have l: "unat (label + 1) = unat label + 1" using Cons.prems(3) by (simp add: unat_word_ariths MAX_ROUTE_LABELS_def)
  then have "label + 1 \<noteq> 0" "unat (label + 1) + length xs \<le> MAX_ROUTE_LABELS + 1" using Cons.prems(3) by (auto simp: unat_eq_0 [symmetric])
  from Cons.IH [OF _ this, of q] Cons.prems(1) obtain parts' where
    p: "assign_all G ep xs (q, label + 1) = Inr (parts', label + 1 + word_of_nat (length xs))"
    "parts_grow q (plan_prefixes G ep (label + 1) xs) (plan_labels G ep (label + 1) xs) parts'" by auto
  have "parts_grow parts (plan_prefixes G ep label (x # xs)) (plan_labels G ep label (x # xs)) parts'"
    using parts_grow_trans [OF q(2) p(2)] x by (simp add: parts_grow_def)
  moreover have "assign_all G ep (x # xs) (parts, label) = Inr (parts', label + word_of_nat (length (x # xs)))"
    using q(1) p(1) x by (simp add: add.assoc)
  ultimately show ?case by blast
qed (simp add: parts_grow_def option.map_ident)

lemma assign_all_capacity:
  assumes "\<forall>(s, prefixes, path)\<in>set xs. hops_ok G path \<and> 2 \<le> length path" "label \<noteq> 0" "unat label \<le> MAX_ROUTE_LABELS + 1"
    and "MAX_ROUTE_LABELS + 1 < unat label + length xs"
  shows "assign_all G ep xs (parts, label) = Inl (Err ''V2 topology exceeds route-label capacity'')"
proof -
  let ?k = "MAX_ROUTE_LABELS + 1 - unat label"
  have xs: "xs = take ?k xs @ xs ! ?k # drop (Suc ?k) xs" using assms(3,4) by (intro id_take_nth_drop) simp
  have tk: "length (take ?k xs) = ?k" using assms(3,4) by simp
  obtain q where "assign_all G ep (take ?k xs) (parts, label) = Inr (q, label + word_of_nat ?k)"
  proof -
    have "\<forall>(s, prefixes, path)\<in>set (take ?k xs). hops_ok G path \<and> 2 \<le> length path" using assms(1) by (meson in_set_takeD)
    moreover have "unat label + length (take ?k xs) \<le> MAX_ROUTE_LABELS + 1" using assms(3) tk by simp
    ultimately have "\<exists>q. assign_all G ep (take ?k xs) (parts, label) = Inr (q, label + word_of_nat (length (take ?k xs)))"
      using assign_all_grows [OF _ assms(2)] by blast
    then show thesis using that unfolding tk by blast
  qed
  moreover have "MAX_ROUTE_LABELS < unat (label + word_of_nat ?k)"
  proof -
    have "unat label + ?k = MAX_ROUTE_LABELS + 1" using assms(3) by simp
    from arg_cong [OF this, of "word_of_nat :: nat \<Rightarrow> u32"] have "label + word_of_nat ?k = word_of_nat (MAX_ROUTE_LABELS + 1)"
      by (subst (asm) of_nat_add) simp
    then show ?thesis by (simp add: MAX_ROUTE_LABELS_def)
  qed
  then have "assign_path G ep s prefixes path (q, label + word_of_nat ?k) = Inl (Err ''V2 topology exceeds route-label capacity'')" for s prefixes path
    by (rule assign_path_capacity)
  ultimately show ?thesis by (subst xs, subst assign_all_append) (cases "xs ! ?k", simp)
qed

section \<open>Compilation\<close>

definition node_table :: "'n topology_node list \<Rightarrow> (node_id \<times> 'n topology_node) list" where
  "node_table nodes = map (\<lambda>node. (tn_node_id node, node)) nodes"

definition transit_set :: "'n topology_node list \<Rightarrow> node_id set" where
  "transit_set nodes = tn_node_id ` {node \<in> set nodes. tn_transit_enabled node}"

definition sorted_ids :: "'n topology_node list \<Rightarrow> node_id list" where
  "sorted_ids nodes = sort (map tn_node_id nodes)"

definition topology_plan :: "'n ipnet \<Rightarrow> 'n topology_node list \<Rightarrow> link_graph \<Rightarrow> 'n planned list" where
  "topology_plan N nodes G =
     concat (map (pair_plan N (node_table nodes) G (transit_set nodes)) (List.product (sorted_ids nodes) (sorted_ids nodes)))"

definition planned_snapshot :: "'n ipnet \<Rightarrow> u64 \<Rightarrow> u32 \<Rightarrow> 'n topology_node list \<Rightarrow> link_graph \<Rightarrow> bool \<Rightarrow> node_id \<Rightarrow> 'n snapshot result" where
  "planned_snapshot N generation ep nodes G allow n =
     (case map_of (node_table nodes) n of
        None \<Rightarrow> Inl (Panic ''topology parts exist'')
      | Some node \<Rightarrow> snapshot_compile N generation n (plan_prefixes G ep 1 (topology_plan N nodes G) n)
          (plan_labels G ep 1 (topology_plan N nodes G) n) (tn_underlay_exclusion_prefixes node) allow)"

definition valid_topology :: "'n ipnet \<Rightarrow> u64 \<Rightarrow> u32 \<Rightarrow> 'n topology_node list \<Rightarrow> topology_link list \<Rightarrow> bool \<Rightarrow> link_graph \<Rightarrow> bool" where
  "valid_topology N generation ep nodes links allow G \<longleftrightarrow> generation \<noteq> 0 \<and> ep \<noteq> 0 \<and> nodes \<noteq> [] \<and> distinct (map tn_node_id nodes) \<and>
     (\<forall>node\<in>set nodes. validate_prefix_set N (tn_advertised_prefixes node) allow = Inr () \<and>
        validate_prefix_set N (tn_underlay_exclusion_prefixes node) True = Inr ()) \<and>
     validate_global_ownership N (node_table nodes) = Inr () \<and> build_graph (tn_node_id ` set nodes) links = Inr G"

lemma collect_nodes_Inr:
  "distinct (map fst m) \<Longrightarrow> collect_nodes N allow nodes m = Inr m' \<longleftrightarrow> m' = m @ node_table nodes \<and>
     distinct (map fst m @ map tn_node_id nodes) \<and>
     (\<forall>node\<in>set nodes. validate_prefix_set N (tn_advertised_prefixes node) allow = Inr () \<and>
        validate_prefix_set N (tn_underlay_exclusion_prefixes node) True = Inr ())"
proof (induction nodes arbitrary: m)
  case (Cons node nodes)
  show ?case
  proof (cases "map_of m (tn_node_id node) = None")
    case True
    then have new: "tn_node_id node \<notin> fst ` set m" by (simp add: map_of_eq_None_iff)
    then have "distinct (map fst (AList.update (tn_node_id node) node m))" using Cons.prems by (simp add: update_new)
    from Cons.IH [OF this] new True show ?thesis by (auto simp: result_iff update_new node_table_def)
  next
    case False
    then have "tn_node_id node \<in> set (map fst m)" by (auto simp: map_of_eq_None_iff)
    then show ?thesis using False by (auto simp: result_iff)
  qed
qed (auto simp: node_table_def)

lemma collect_nodes_new:
  "collect_nodes N allow nodes [] = Inr m \<longleftrightarrow> m = node_table nodes \<and> distinct (map tn_node_id nodes) \<and>
     (\<forall>node\<in>set nodes. validate_prefix_set N (tn_advertised_prefixes node) allow = Inr () \<and>
        validate_prefix_set N (tn_underlay_exclusion_prefixes node) True = Inr ())"
  using collect_nodes_Inr [of "[]" N allow nodes m] by simp

lemma node_table_facts:
  "set (map fst (node_table nodes)) = tn_node_id ` set nodes" "sort (map fst (node_table nodes)) = sorted_ids nodes"
  "fst ` {(n, node) \<in> set (node_table nodes). tn_transit_enabled node} = transit_set nodes"
  "set (sorted_ids nodes) = tn_node_id ` set nodes"
  "map_of (node_table nodes) n = None \<longleftrightarrow> n \<notin> tn_node_id ` set nodes"
  by (auto simp: node_table_def sorted_ids_def transit_set_def comp_def map_of_eq_None_iff image_iff)

lemma node_table_Some: "distinct (map tn_node_id nodes) \<Longrightarrow> map_of (node_table nodes) n = Some node \<longleftrightarrow> node \<in> set nodes \<and> tn_node_id node = n"
  by (auto simp: node_table_def comp_def map_of_eq_Some_iff)

lemma edges_hops_ok:
  assumes "build_graph known links = Inr G" "\<forall>(u, v)\<in>set (hops p). v \<in> dl_peer ` set (edges G u)"
  shows "hops_ok G p"
proof -
  have "is_ok (directed_link_v2 G u v) \<and> is_ok (directed_link_v2 G v u)" if "(u, v) \<in> set (hops p)" for u v
  proof -
    have "v \<in> dl_peer ` set (edges G u)" using assms(2) that by auto
    from build_graph_hop [OF assms(1) this] show ?thesis by (auto simp: is_ok_iff)
  qed
  then show ?thesis by (auto simp: hops_ok_def)
qed

lemma route_path_hops_ok:
  assumes "build_graph known links = Inr G" "route_path G T s z p"
  shows "hops_ok G p" "2 \<le> length p"
  using assms(2) edges_hops_ok [OF assms(1), of p] by (simp_all add: route_path_def)

text \<open>What the plan contains: for two different nodes, the candidate paths to the owner with the owner's prefixes.\<close>

lemma plan_item:
  assumes b: "build_graph known links = Inr G" and x: "(s, prefixes, path) \<in> set (topology_plan N nodes G)"
  obtains z node ps where "map_of (node_table nodes) z = Some node" "s \<noteq> z" "s \<in> tn_node_id ` set nodes"
    "prefixes = sort_key (prefix_key N) (tn_advertised_prefixes node)"
    "candidate_paths s z G (transit_set nodes) = Some ps" "path \<in> set ps" "route_path G (transit_set nodes) s z path"
proof -
  obtain s' z where z: "(s, prefixes, path) \<in> set (pair_plan N (node_table nodes) G (transit_set nodes) (s', z))" "s' \<in> tn_node_id ` set nodes"
    using x by (auto simp: topology_plan_def node_table_facts)
  then obtain node where node: "map_of (node_table nodes) z = Some node" "s \<noteq> z"
    "prefixes = sort_key (prefix_key N) (tn_advertised_prefixes node)" "path \<in> set (the (candidate_paths s z G (transit_set nodes)))" "s' = s"
    by (cases "map_of (node_table nodes) z") (auto simp: pair_plan_def split: if_splits)
  obtain ps where "candidate_paths s z G (transit_set nodes) = Some ps" "candidates_ok G (transit_set nodes) s z ps"
    using candidate_paths_ok [OF build_graph_ok [OF b] node(2)] by blast
  then show ?thesis using that [OF node(1,2) z(2) [unfolded node(5)] node(3)] node(4) by (auto simp: candidates_ok_def)
qed

lemma plan_hops_ok:
  assumes "build_graph known links = Inr G"
  shows "\<forall>(s, prefixes, path)\<in>set (topology_plan N nodes G). hops_ok G path \<and> 2 \<le> length path"
  using plan_item [OF assms] route_path_hops_ok [OF assms] by (metis (mono_tags, lifting) case_prodI2)

lemma compile_part_planned:
  assumes "map_of parts n = Some \<lparr> sp_prefixes = plan_prefixes G ep 1 (topology_plan N nodes G) n,
    sp_labels = plan_labels G ep 1 (topology_plan N nodes G) n \<rparr>"
  shows "compile_part N generation allow (node_table nodes) parts n =
    bindR (planned_snapshot N generation ep nodes G allow n) (\<lambda>s. Inr (n, s))"
  using assms by (simp add: compile_part_def planned_snapshot_def split: option.split)

lemma mapR_cong: "\<forall>x\<in>set xs. f x = g x \<Longrightarrow> mapR f xs = mapR g xs"
  by (induction xs) auto

lemma compile_selected_planned:
  assumes v: "valid_topology N generation ep nodes links allow G"
    and sel: "case sel of None \<Rightarrow> True | Some n \<Rightarrow> n \<in> tn_node_id ` set nodes"
  shows "compile_topology_selected N generation ep nodes links allow sel = Some (
    if length (topology_plan N nodes G) \<le> MAX_ROUTE_LABELS
    then bindR (mapR (\<lambda>n. bindR (planned_snapshot N generation ep nodes G allow n) (\<lambda>s. Inr (n, s))) (selected_nodes sel (sorted_ids nodes)))
      (\<lambda>snapshots. Inr \<lparr> ct_generation = generation, ct_route_epoch = ep, ct_snapshots = snapshots \<rparr>)
    else Inl (Err ''V2 topology exceeds route-label capacity''))"
proof -
  let ?ids = "sorted_ids nodes" and ?plan = "topology_plan N nodes G"
  let ?parts = "map (\<lambda>n. (n, \<lparr> sp_prefixes = [], sp_labels = [] \<rparr> :: 'a snapshot_parts)) (selected_nodes sel ?ids)"
  have b: "build_graph (tn_node_id ` set nodes) links = Inr G" using v by (simp add: valid_topology_def)
  have pre: "collect_nodes N allow nodes [] = Inr (node_table nodes)" using v by (simp add: collect_nodes_new valid_topology_def)
  have pairs: "assign_pairs N (node_table nodes) G (transit_set nodes) ep (List.product ?ids ?ids) (?parts, 1) = Some (assign_all G ep ?plan (?parts, 1))"
  proof -
    have "\<forall>(s, z)\<in>set (List.product ?ids ?ids). map_of (node_table nodes) z \<noteq> None"
      unfolding node_table_facts(5) set_product node_table_facts(4) by blast
    from assign_pairs_plan [OF build_graph_ok [OF b] this] show ?thesis unfolding topology_plan_def .
  qed
  have eq: "compile_topology_selected N generation ep nodes links allow sel = Some (bindR (assign_all G ep ?plan (?parts, 1)) (\<lambda>(parts, _).
      bindR (mapR (compile_part N generation allow (node_table nodes) parts) (selected_nodes sel ?ids))
        (\<lambda>snapshots. Inr \<lparr> ct_generation = generation, ct_route_epoch = ep, ct_snapshots = snapshots \<rparr>)))"
  proof -
    have sel': "case sel of None \<Rightarrow> True | Some n \<Rightarrow> map_of (node_table nodes) n \<noteq> None"
      using sel node_table_facts(5) [of nodes] by (auto split: option.split)
    have [simp]: "(\<lambda>(parts, _). Some (f parts)) = (\<lambda>x. Some ((\<lambda>(parts, _). f parts) x))" for f :: "'a parts \<Rightarrow> 'a compiled_topology result"
      by auto
    have "fst ` set (node_table nodes) = tn_node_id ` set nodes" using node_table_facts(1) [of nodes] by simp
    then show ?thesis using v sel' b pre unfolding compile_topology_selected_def
      by (simp add: valid_topology_def node_table_facts(2,3) Let_def pairs)
  qed
  show ?thesis
  proof (cases "length ?plan \<le> MAX_ROUTE_LABELS")
    case True
    then obtain parts where parts: "assign_all G ep ?plan (?parts, 1) = Inr (parts, 1 + word_of_nat (length ?plan))"
      "parts_grow ?parts (plan_prefixes G ep 1 ?plan) (plan_labels G ep 1 ?plan) parts"
      using assign_all_grows [OF plan_hops_ok [OF b], of 1 N nodes ep ?parts] by auto
    have "map_of ?parts n = Some \<lparr> sp_prefixes = [], sp_labels = [] \<rparr>" if "n \<in> set (selected_nodes sel ?ids)" for n
      using that by (simp add: map_of_map_restrict)
    then have "\<forall>n\<in>set (selected_nodes sel ?ids). compile_part N generation allow (node_table nodes) parts n =
        bindR (planned_snapshot N generation ep nodes G allow n) (\<lambda>s. Inr (n, s))"
      using parts(2) by (auto simp: parts_grow_def intro: compile_part_planned)
    from mapR_cong [OF this] show ?thesis using True parts(1) by (simp add: eq)
  next
    case False
    then show ?thesis using assign_all_capacity [OF plan_hops_ok [OF b], of 1 N nodes ep ?parts] by (simp add: eq MAX_ROUTE_LABELS_def)
  qed
qed

end
