(* ===== verification/TopologyMesh.thy ===== *)
theory TopologyMesh
  imports TopologyPlan
begin

text \<open>
  The composition of the topology compiler with the data plane: what the snapshots of a compiled topology do together
  with a Cell that a source sends on the route it looked up.
\<close>

section \<open>Valid topologies\<close>

lemma prefixes_overlap_sym: "prefixes_overlap N m n \<longleftrightarrow> prefixes_overlap N n m"
  by (auto simp: prefixes_overlap_def)

lemma check_owned_Inr:
  "check_owned N owner ps owned = Inr owned' \<longleftrightarrow> owned' = owned @ map (Pair owner) ps \<and>
     (\<forall>p\<in>set ps. \<forall>(o', q)\<in>set owned. owner \<noteq> o' \<longrightarrow> \<not> prefixes_overlap N p q)"
  by (induction ps arbitrary: owned) (auto simp: result_iff list_all_iff)

lemma check_ownership_Inr:
  "check_ownership N nodes owned = Inr () \<longleftrightarrow>
     (\<forall>node\<in>set nodes. \<forall>p\<in>set (tn_advertised_prefixes node). \<forall>(o', q)\<in>set owned. tn_node_id node \<noteq> o' \<longrightarrow> \<not> prefixes_overlap N p q) \<and>
     sorted_wrt (\<lambda>m n. tn_node_id n \<noteq> tn_node_id m \<longrightarrow>
       (\<forall>p\<in>set (tn_advertised_prefixes n). \<forall>q\<in>set (tn_advertised_prefixes m). \<not> prefixes_overlap N p q)) nodes"
proof (induction nodes arbitrary: owned)
  case (Cons node nodes)
  show ?case by (simp add: result_iff check_owned_Inr Cons.IH ball_Un) blast
qed simp

lemma ownership_disjoint:
  assumes "validate_global_ownership N (node_table nodes) = Inr ()" "m \<in> set nodes" "n \<in> set nodes" "tn_node_id m \<noteq> tn_node_id n"
    and "p \<in> set (tn_advertised_prefixes m)" "q \<in> set (tn_advertised_prefixes n)"
  shows "\<not> prefixes_overlap N p q"
proof -
  have "map snd (node_table nodes) = nodes" by (simp add: node_table_def comp_def)
  then have s: "sorted_wrt (\<lambda>m n. tn_node_id n \<noteq> tn_node_id m \<longrightarrow>
      (\<forall>p\<in>set (tn_advertised_prefixes n). \<forall>q\<in>set (tn_advertised_prefixes m). \<not> prefixes_overlap N p q)) nodes"
    using assms(1) by (simp add: validate_global_ownership_def check_ownership_Inr)
  obtain i j where ij: "i < length nodes" "nodes ! i = m" "j < length nodes" "nodes ! j = n"
    using assms(2,3) by (meson in_set_conv_nth)
  show ?thesis
  proof (cases "i < j")
    case True
    then show ?thesis using sorted_wrt_nth_less [OF s True ij(3)] ij assms(4-6) prefixes_overlap_sym [of N p q] by auto
  next
    case False
    then have "j < i" using ij assms(4) by (metis linorder_neqE_nat)
    from sorted_wrt_nth_less [OF s this ij(1)] show ?thesis using ij assms(4-6) by auto
  qed
qed

lemma contains_overlap:
  assumes N: "ipnet_ok N" and c: "net_contains N m a" "net_contains N n a"
  shows "prefixes_overlap N m n"
proof -
  have *: "net_contains N k (net_network N l)" if kl: "unat (net_prefix_len N k) \<le> unat (net_prefix_len N l)" "net_contains N k a" "net_contains N l a" for k l
  proof -
    have "same_prefix (unat (net_prefix_len N l)) (net_network N l) (net_addr N l)" using N unfolding ipnet_ok_def by blast
    moreover have "same_prefix (unat (net_prefix_len N l)) (net_addr N l) a" using kl(3) net_contains_iff [OF N] same_prefix_sym by blast
    ultimately have "same_prefix (unat (net_prefix_len N l)) (net_network N l) a" by (rule same_prefix_trans)
    moreover have "unat (net_prefix_len N l) \<le> addr_width (net_network N l)" using net_len [OF N, of l] net_network_masked [OF N, of l] by simp
    ultimately have "same_prefix (unat (net_prefix_len N k)) (net_network N l) a" using same_prefix_mono kl(1) by blast
    then show ?thesis using kl(2) net_contains_iff [OF N] same_prefix_trans by blast
  qed
  have "is_ipv4 (net_addr N m) = is_ipv4 (net_addr N n)" using c net_contains_iff [OF N] by (simp add: same_prefix_def)
  then show ?thesis using * [of m n] * [of n m] c nat_le_linear [of "unat (net_prefix_len N m)" "unat (net_prefix_len N n)"]
    by (auto simp: prefixes_overlap_def)
qed

section \<open>Successful compilations\<close>

lemma compile_selected_cases:
  obtains e where "compile_topology_selected N generation ep nodes links allow sel = Some (Inl e)"
  | G where "valid_topology N generation ep nodes links allow G" "case sel of None \<Rightarrow> True | Some n \<Rightarrow> n \<in> tn_node_id ` set nodes"
proof -
  let ?pre = "ensure (generation \<noteq> 0) ''V2 topology generation zero is reserved'' (
       ensure (ep \<noteq> 0) ''V2 route epoch zero is reserved'' (
       ensure (nodes \<noteq> []) ''V2 topology has no nodes'' (
       bindR (collect_nodes N allow nodes []) (\<lambda>node_map.
       bindR (validate_global_ownership N node_map) (\<lambda>_.
       bindR (build_graph (set (map fst node_map)) links) (\<lambda>graph.
       ensure (case sel of None \<Rightarrow> True | Some n \<Rightarrow> map_of node_map n \<noteq> None) ''selected V2 topology node is absent'' (
       Inr (node_map, graph))))))))"
  show ?thesis
  proof (cases ?pre)
    case (Inl e)
    then show ?thesis using that(1) [of e] by (simp only: compile_topology_selected_def bindD_Inr)
  next
    case (Inr x)
    then obtain m G where c: "generation \<noteq> 0" "ep \<noteq> 0" "nodes \<noteq> []" "collect_nodes N allow nodes [] = Inr m" "validate_global_ownership N m = Inr ()"
      "build_graph (set (map fst m)) links = Inr G" "case sel of None \<Rightarrow> True | Some n \<Rightarrow> map_of m n \<noteq> None"
      by (auto simp: result_iff)
    then have m: "m = node_table nodes" by (simp add: collect_nodes_new)
    have "case sel of None \<Rightarrow> True | Some n \<Rightarrow> n \<in> tn_node_id ` set nodes"
      using c(7) node_table_facts(5) [of nodes] unfolding m by (cases sel) (auto simp del: not_None_eq)
    moreover have "valid_topology N generation ep nodes links allow G"
      using c node_table_facts(1) [of nodes] unfolding valid_topology_def m by (simp add: collect_nodes_new)
    ultimately show ?thesis using that(2) by blast
  qed
qed

lemma mapR_table:
  assumes "mapR (\<lambda>x. bindR (f x) (\<lambda>y. Inr (x, y))) xs = Inr ys"
  shows "map_of ys x = (if x \<in> set xs then Some (projr (f x)) else None)" "x \<in> set xs \<Longrightarrow> is_ok (f x)"
  using assms by (induction xs arbitrary: ys) (auto simp: result_iff)

lemma mapR_table_total: "\<forall>x\<in>set xs. is_ok (f x) \<Longrightarrow> \<exists>ys. mapR (\<lambda>x. bindR (f x) (\<lambda>y. Inr (x, y))) xs = Inr ys"
  by (induction xs) (auto simp: is_ok_iff)

lemma compile_topology_Inr:
  assumes "compile_topology N generation ep nodes links allow = Some (Inr t)"
  obtains G where "valid_topology N generation ep nodes links allow G" "length (topology_plan N nodes G) \<le> MAX_ROUTE_LABELS"
    "\<forall>n. topology_snapshot t n = (if n \<in> tn_node_id ` set nodes then Some (projr (planned_snapshot N generation ep nodes G allow n)) else None)"
    "\<forall>n\<in>tn_node_id ` set nodes. is_ok (planned_snapshot N generation ep nodes G allow n)"
proof (cases rule: compile_selected_cases [of N generation ep nodes links allow None])
  case (1 e)
  then show ?thesis using assms by (simp add: compile_topology_def)
next
  case (2 G)
  note c = compile_selected_planned [OF 2, folded compile_topology_def, unfolded assms]
  have len: "length (topology_plan N nodes G) \<le> MAX_ROUTE_LABELS" using c by (auto split: if_splits)
  then obtain ss where ss: "mapR (\<lambda>n. bindR (planned_snapshot N generation ep nodes G allow n) (\<lambda>s. Inr (n, s))) (sorted_ids nodes) = Inr ss"
    "ct_snapshots t = ss" using c by (auto simp: selected_nodes_def bindR_def split: sum.splits)
  show ?thesis using mapR_table [OF ss(1)] by (intro that [OF 2(1) len]) (simp_all add: topology_snapshot_def ss(2) node_table_facts)
qed

lemma filter_single: "distinct xs \<Longrightarrow> n \<in> set xs \<Longrightarrow> filter ((=) n) xs = [n]"
  by (induction xs) (auto simp: filter_empty_conv)

lemma compile_local_planned:
  assumes v: "valid_topology N generation ep nodes links allow G" and len: "length (topology_plan N nodes G) \<le> MAX_ROUTE_LABELS"
    and n: "n \<in> tn_node_id ` set nodes"
  shows "compile_local_snapshot N generation ep nodes links allow n = Some (planned_snapshot N generation ep nodes G allow n)"
proof -
  have "distinct (sorted_ids nodes)" "n \<in> set (sorted_ids nodes)" using v n by (auto simp: sorted_ids_def valid_topology_def)
  then have "selected_nodes (Some n) (sorted_ids nodes) = [n]" by (simp add: selected_nodes_def filter_single)
  then show ?thesis using compile_selected_planned [OF v, of "Some n"] n len
    by (cases "planned_snapshot N generation ep nodes G allow n") (simp_all add: compile_local_snapshot_def)
qed

section \<open>The route of a destination\<close>

lemma plan_first:
  "filter (\<lambda>r. pr_prefix r = p) (plan_prefixes G ep l plan n) = r # rs \<Longrightarrow>
     \<exists>xs prefixes path ws. plan = xs @ (n, prefixes, path) # ws \<and> p \<in> set prefixes \<and>
       pr_route r = planned_route G ep (l + word_of_nat (length xs)) path \<and> (\<forall>(s, qs, _)\<in>set xs. s = n \<longrightarrow> p \<notin> set qs)"
proof (induction plan arbitrary: l)
  case (Cons x plan)
  obtain s qs path where x: "x = (s, qs, path)" by (cases x)
  show ?case
  proof (cases "s = n \<and> p \<in> set qs")
    case True
    then have "pr_route r = planned_route G ep l path"
    proof -
      have "filter (\<lambda>r. pr_prefix r = p) (planned_prefixes G ep l x n) \<noteq> []"
        using True x by (auto simp: planned_prefixes_def filter_empty_conv)
      then have "r \<in> set (filter (\<lambda>r. pr_prefix r = p) (planned_prefixes G ep l x n))"
        using Cons.prems by (cases "filter (\<lambda>r. pr_prefix r = p) (planned_prefixes G ep l x n)") (simp_all del: set_filter)
      then show ?thesis using True x by (auto simp: planned_prefixes_def)
    qed
    then have "x # plan = [] @ (n, qs, path) # plan \<and> p \<in> set qs \<and> pr_route r = planned_route G ep (l + word_of_nat (length [])) path \<and>
        (\<forall>(s, qs, _)\<in>set ([] :: 'a planned list). s = n \<longrightarrow> p \<notin> set qs)" using True x by simp
    then show ?thesis by blast
  next
    case False
    then have "filter (\<lambda>r. pr_prefix r = p) (planned_prefixes G ep l x n) = []" using x by (auto simp: planned_prefixes_def filter_empty_conv)
    then have "filter (\<lambda>r. pr_prefix r = p) (plan_prefixes G ep (l + 1) plan n) = r # rs" using Cons.prems by simp
    from Cons.IH [OF this] obtain xs prefixes path' ws where i: "plan = xs @ (n, prefixes, path') # ws" "p \<in> set prefixes"
      "pr_route r = planned_route G ep (l + 1 + word_of_nat (length xs)) path'" "\<forall>(s, qs, _)\<in>set xs. s = n \<longrightarrow> p \<notin> set qs" by blast
    then have "x # plan = (x # xs) @ (n, prefixes, path') # ws \<and> p \<in> set prefixes \<and>
        pr_route r = planned_route G ep (l + word_of_nat (length (x # xs))) path' \<and> (\<forall>(s, qs, _)\<in>set (x # xs). s = n \<longrightarrow> p \<notin> set qs)"
      using False x by (simp add: add.assoc)
    then show ?thesis by blast
  qed
qed simp

lemma concat_split:
  "concat (map f as) = xs @ x # ws \<Longrightarrow> \<exists>a\<in>set as. \<exists>us vs. f a = us @ x # vs \<and> set us \<subseteq> set xs"
proof (induction as arbitrary: xs)
  case (Cons a as)
  then consider us where "xs = f a @ us" "concat (map f as) = us @ x # ws" | vs where "f a = xs @ x # vs"
    by (auto simp: append_eq_append_conv2 append_eq_Cons_conv)
  then show ?case
  proof cases
    case (1 us)
    from Cons.IH [OF 1(2)] obtain a' us' vs where "a' \<in> set as" "f a' = us' @ x # vs" "set us' \<subseteq> set us" by blast
    moreover have "set us \<subseteq> set xs" using 1(1) by simp
    ultimately show ?thesis by (meson list.set_intros(2) subset_trans)
  next
    case (2 vs)
    then show ?thesis by auto
  qed
qed simp

text \<open>The first route a source holds for a prefix leads to the owner of the prefix, along a cheapest path.\<close>

lemma plan_first_best:
  assumes v: "valid_topology N generation ep nodes links allow G"
    and r: "filter (\<lambda>r. pr_prefix r = p) (plan_prefixes G ep 1 (topology_plan N nodes G) s) = r # rs"
  obtains i prefixes path node where "i < length (topology_plan N nodes G)" "topology_plan N nodes G ! i = (s, prefixes, path)"
    "pr_route r = planned_route G ep (1 + word_of_nat i) path" "node \<in> set nodes" "p \<in> set (tn_advertised_prefixes node)"
    "route_path G (transit_set nodes) s (tn_node_id node) path"
    "\<And>q. route_path G (transit_set nodes) s (tn_node_id node) q \<Longrightarrow> path_cost G path \<le> path_cost G q"
proof -
  let ?plan = "topology_plan N nodes G" and ?T = "transit_set nodes"
  have b: "build_graph (tn_node_id ` set nodes) links = Inr G" and d: "distinct (map tn_node_id nodes)" using v by (simp_all add: valid_topology_def)
  obtain xs prefixes path ws where f: "?plan = xs @ (s, prefixes, path) # ws" "p \<in> set prefixes"
    "pr_route r = planned_route G ep (1 + word_of_nat (length xs)) path" "\<forall>(s', qs, _)\<in>set xs. s' = s \<longrightarrow> p \<notin> set qs"
    using plan_first [OF r] by blast
  obtain s' z us vs where pp: "pair_plan N (node_table nodes) G ?T (s', z) = us @ (s, prefixes, path) # vs" "set us \<subseteq> set xs"
    using concat_split [OF f(1) [unfolded topology_plan_def]] by fastforce
  obtain node where node: "map_of (node_table nodes) z = Some node" "s' \<noteq> z"
    "map (\<lambda>path. (s', sort_key (prefix_key N) (tn_advertised_prefixes node), path)) (the (candidate_paths s' z G ?T)) = us @ (s, prefixes, path) # vs"
    using pp(1) by (cases "map_of (node_table nodes) z") (auto simp: pair_plan_def split: if_splits)
  then have items: "\<forall>x\<in>set (us @ (s, prefixes, path) # vs). fst x = s' \<and> fst (snd x) = sort_key (prefix_key N) (tn_advertised_prefixes node)"
    by (metis (mono_tags, lifting) ex_map_conv fst_conv snd_conv)
  have "us = []"
  proof (cases us)
    case (Cons u us')
    then have "u \<in> set xs" "fst u = s" "fst (snd u) = prefixes" using pp(2) items by auto
    then show ?thesis using f(2,4) by (cases u) auto
  qed simp
  then have hd: "the (candidate_paths s' z G ?T) \<noteq> []" "hd (the (candidate_paths s' z G ?T)) = path"
    using node(3) by (cases "the (candidate_paths s' z G ?T)"; auto)+
  obtain ps where ps: "candidate_paths s' z G ?T = Some ps" "candidates_ok G ?T s' z ps"
    using candidate_paths_ok [OF build_graph_ok [OF b] node(2)] by blast
  have s: "s' = s" "prefixes = sort_key (prefix_key N) (tn_advertised_prefixes node)" using items by auto
  have z: "node \<in> set nodes" "tn_node_id node = z" using node(1) d by (simp_all add: node_table_Some)
  have "route_path G ?T s z path" "\<And>q. route_path G ?T s z q \<Longrightarrow> path_cost G path \<le> path_cost G q"
    using ps hd s(1) by (auto simp: candidates_ok_def)
  moreover have "?plan ! length xs = (s, prefixes, path)" "length xs < length ?plan" using f(1) by simp_all
  ultimately show ?thesis using that f(2,3) z s(2) by (metis set_sort)
qed

end
