(* ===== verification/TopologyJourney.thy ===== *)
theory TopologyJourney
  imports TopologyMesh
begin

text \<open>
  The journey of a Cell through the nodes of a compiled topology, as a step relation over their snapshots and the wiring of
  the links, and the route a source looks up for a destination.
\<close>

section \<open>The journey of a Cell\<close>

text \<open>A Cell at a node, received on an adjacency, is dispatched by the snapshot of the node; a forwarded Cell arrives at
  the other end of the link.  The list is the nodes it visits, the last argument what becomes of it.\<close>

inductive carries :: "(node_id \<Rightarrow> 'n snapshot option) \<Rightarrow> topology_link list \<Rightarrow> node_id \<Rightarrow> adjacency_id \<Rightarrow> bytes \<Rightarrow> node_id list \<Rightarrow> disposition \<Rightarrow> bool"
  for snaps links where
  carry_end: "snaps n = Some s \<Longrightarrow> snapshot_dispatch s incoming bs = Inr d \<Longrightarrow> \<nexists>hop cell. d = ForwardCell hop cell \<Longrightarrow>
    carries snaps links n incoming bs [n] d"
| carry_on: "snaps n = Some s \<Longrightarrow> snapshot_dispatch s incoming bs = Inr (ForwardCell hop (bs', h)) \<Longrightarrow>
    other_end links n hop = Some (m, incoming') \<Longrightarrow> carries snaps links m incoming' bs' ns d \<Longrightarrow>
    carries snaps links n incoming bs (n # ns) d"

definition adjacency :: "link_graph \<Rightarrow> node_id \<Rightarrow> node_id \<Rightarrow> adjacency_id" where
  "adjacency G u v = dl_adjacency (projr (directed_link_v2 G u v))"

fun labelled :: "(node_id \<Rightarrow> 'n snapshot option) \<Rightarrow> link_graph \<Rightarrow> u32 \<Rightarrow> route_label \<Rightarrow> node_id list \<Rightarrow> bool" where
  "labelled snaps G ep label (previous # current # rest) \<longleftrightarrow>
     (\<exists>s e. snaps current = Some s \<and> ss_local_node s = current \<and> map_of (ss_labels s) label = Some e \<and>
        e = \<lparr> lr_route_label = label, lr_route_epoch = ep, lr_action = projr (hop_action G previous current rest) \<rparr> \<and> check_label e = Inr ()) \<and>
     labelled snaps G ep label (current # rest)"
| "labelled snaps G ep label _ \<longleftrightarrow> True"

text \<open>What a Cell keeps on its way: its bytes but the two hop counters, so its contents.\<close>

definition same_cell :: "nat \<Rightarrow> bytes \<Rightarrow> route_header \<Rightarrow> bytes \<Rightarrow> route_header \<Rightarrow> bool" where
  "same_cell k bs h bs' h' \<longleftrightarrow> decode_route_header bs' = Inr h' \<and> length bs' = length bs \<and> (\<forall>i. i \<noteq> 34 \<longrightarrow> i \<noteq> 35 \<longrightarrow> bs' ! i = bs ! i) \<and>
     unat (hdr_overlay_hop_limit h') + k = unat (hdr_overlay_hop_limit h) \<and> unat (hdr_overlay_hops h') = unat (hdr_overlay_hops h) + k \<and>
     (\<forall>c. decode_cell bs = Inr c \<longrightarrow>
        decode_cell bs' = Inr (c\<lparr> cell_overlay_hop_limit := hdr_overlay_hop_limit h', cell_overlay_hops := hdr_overlay_hops h' \<rparr>))"

lemma same_cell_refl: "decode_route_header bs = Inr h \<Longrightarrow> same_cell 0 bs h bs h"
proof -
  assume h: "decode_route_header bs = Inr h"
  have "c = c\<lparr> cell_overlay_hop_limit := hdr_overlay_hop_limit h, cell_overlay_hops := hdr_overlay_hops h \<rparr>" if "decode_cell bs = Inr c" for c
  proof -
    have "decode_with_header bs h = Inr c" using that h by (simp add: decode_cell_def)
    from decode_with_headerD [OF h this] have "header_of c = h" by blast
    then show ?thesis by (cases c) (auto simp: header_of_def)
  qed
  then show ?thesis using h by (simp add: same_cell_def)
qed

lemma same_cell_advance:
  assumes h: "decode_route_header bs = Inr h" and a: "advance_overlay_hop bs = Inr (bs1, h1)" and s: "same_cell k bs1 h1 bs' h'"
  shows "same_cell (Suc k) bs h bs' h'"
proof -
  note c = advance_overlay_hop_counts [OF a h] and b = advance_overlay_hop_bytes [OF a] and d = advance_overlay_hop_cell [OF a]
  have "decode_cell bs' = Inr (c\<lparr> cell_overlay_hop_limit := hdr_overlay_hop_limit h', cell_overlay_hops := hdr_overlay_hops h' \<rparr>)"
    if "decode_cell bs = Inr c" for c
    using d [OF that] s unfolding same_cell_def by fastforce
  then show ?thesis using c b s unfolding same_cell_def by auto
qed

lemma hop_action_eq:
  assumes "hops_ok G (previous # current # rest)"
  shows "projr (hop_action G previous current rest) =
    (case rest of [] \<Rightarrow> Local (adjacency G current previous) | nxt # _ \<Rightarrow> Forward (adjacency G current previous) (adjacency G current nxt))"
  using assms by (cases rest) (auto simp: hops_ok_def hop_action_def adjacency_def is_ok_iff)

lemma other_end_hop:
  assumes "build_graph known links = Inr G" "v \<in> dl_peer ` set (edges G u)"
  shows "other_end links u (adjacency G u v) = Some (v, adjacency G v u)"
  by (rule build_graph_hop [OF assms]) (simp add: adjacency_def)

lemma carries_path:
  assumes b: "build_graph known links = Inr G" and e: "\<forall>(u, v)\<in>set (hops (previous # current # rest)). v \<in> dl_peer ` set (edges G u)"
    and lab: "labelled snaps G (hdr_session_epoch h) (hdr_route_label h) (previous # current # rest)" and h: "decode_route_header bs = Inr h"
  shows "if length rest < unat (hdr_overlay_hop_limit h)
    then \<exists>bs' h'. carries snaps links current (adjacency G current previous) bs (current # rest) (LocalCell h' bs') \<and> same_cell (length rest) bs h bs' h'
    else \<exists>r. carries snaps links current (adjacency G current previous) bs (take (unat (hdr_overlay_hop_limit h)) (current # rest)) (ExpiredCell r) \<and>
      ot_reporter r = (current # rest) ! (unat (hdr_overlay_hop_limit h) - 1)"
  using e lab h
proof (induction rest arbitrary: previous current bs h)
  note ok = edges_hops_ok [OF b]
  {
    case Nil
    note act = hop_action_eq [OF ok [OF Nil.prems(1)]]
    have lim: "0 < unat (hdr_overlay_hop_limit h)" using Nil.prems(3) by (auto simp: decode_route_header_def Let_def result_iff unat_gt_0)
    have "carries snaps links current (adjacency G current previous) bs [current] (LocalCell h bs)"
      using Nil.prems(2,3) act by (auto simp: snapshot_dispatch_def check_label_def adjacency_new_def result_iff intro!: carry_end)
    then show ?case using lim same_cell_refl [OF Nil.prems(3)] by auto
  next
    case (Cons nxt rest)
    let ?in = "adjacency G current previous" and ?out = "adjacency G current nxt"
    note act = hop_action_eq [OF ok [OF Cons.prems(1)]]
    obtain s where s: "snaps current = Some s" "ss_local_node s = current"
      "map_of (ss_labels s) (hdr_route_label h) = Some \<lparr> lr_route_label = hdr_route_label h, lr_route_epoch = hdr_session_epoch h, lr_action = Forward ?in ?out \<rparr>"
      "?in \<noteq> 0" "?in \<noteq> ?out"
      using Cons.prems(2) act by (auto simp: check_label_def adjacency_new_def route_label_new_def result_iff)
    have lim: "0 < unat (hdr_overlay_hop_limit h)" using Cons.prems(3) by (auto simp: decode_route_header_def Let_def result_iff unat_gt_0)
    show ?case
    proof (cases "unat (hdr_overlay_hop_limit h) = 1")
      case True
      then have "hdr_overlay_hop_limit h \<le> 1" by (simp add: word_le_nat_alt)
      then have "\<exists>r. snapshot_dispatch s ?in bs = Inr (ExpiredCell r) \<and> ot_reporter r = current"
        using s Cons.prems(3) by (simp add: snapshot_dispatch_def adjacency_new_def)
      then show ?thesis using True carry_end [of snaps current s, OF s(1)] by fastforce
    next
      case False
      then have l: "1 < unat (hdr_overlay_hop_limit h)" using lim by simp
      obtain bs1 h1 where a: "advance_overlay_hop bs = Inr (bs1, h1)" using advance_overlay_hopE [OF Cons.prems(3) l] by blast
      obtain h0 where h0: "decode_route_header bs = Inr h0" "decode_route_header bs1 = Inr h1"
        "h1 = h0\<lparr> hdr_overlay_hop_limit := hdr_overlay_hop_limit h0 - 1, hdr_overlay_hops := hdr_overlay_hops h0 + 1 \<rparr>"
        using a by (rule advance_overlay_hop_Inr)
      have h1: "hdr_session_epoch h1 = hdr_session_epoch h" "hdr_route_label h1 = hdr_route_label h" "decode_route_header bs1 = Inr h1"
        using h0 Cons.prems(3) by simp_all
      have n1: "unat (hdr_overlay_hop_limit h) = Suc (unat (hdr_overlay_hop_limit h1))" using advance_overlay_hop_counts(1) [OF a Cons.prems(3)] by simp
      have d: "snapshot_dispatch s ?in bs = Inr (ForwardCell ?out (bs1, h1))"
        using s Cons.prems(3) l a by (simp add: snapshot_dispatch_def adjacency_new_def word_le_nat_alt)
      have "nxt \<in> dl_peer ` set (edges G current)" using Cons.prems(1) by simp
      note on = carry_on [of snaps current s, OF s(1) d other_end_hop [OF b this]]
      have IH: "if length rest < unat (hdr_overlay_hop_limit h1)
        then \<exists>bs' h'. carries snaps links nxt (adjacency G nxt current) bs1 (nxt # rest) (LocalCell h' bs') \<and> same_cell (length rest) bs1 h1 bs' h'
        else \<exists>r. carries snaps links nxt (adjacency G nxt current) bs1 (take (unat (hdr_overlay_hop_limit h1)) (nxt # rest)) (ExpiredCell r) \<and>
          ot_reporter r = (nxt # rest) ! (unat (hdr_overlay_hop_limit h1) - 1)"
        using Cons.IH [of current nxt h1 bs1] Cons.prems(1,2) h1 by simp
      show ?thesis
      proof (cases "length rest < unat (hdr_overlay_hop_limit h1)")
        case True
        then show ?thesis using IH on same_cell_advance [OF Cons.prems(3) a] n1 by fastforce
      next
        case False
        have "0 < unat (hdr_overlay_hop_limit h1)" using l n1 by simp
        then show ?thesis using False IH on n1 by (fastforce simp: nth_Cons')
      qed
    qed
  }
qed

section \<open>The tables of the plan\<close>

lemma plan_prefixes_iff:
  "r \<in> set (plan_prefixes G ep l plan n) \<longleftrightarrow> (\<exists>i<length plan. r \<in> set (planned_prefixes G ep (l + word_of_nat i) (plan ! i) n))"
proof (induction plan arbitrary: l)
  case (Cons x plan)
  then show ?case by (auto simp: add.assoc Ex_less_Suc2 cong: conj_cong)
qed simp

lemma plan_labels_iff:
  "e \<in> set (plan_labels G ep l plan n) \<longleftrightarrow> (\<exists>i<length plan. e \<in> set (hop_labels G ep (l + word_of_nat i) (snd (snd (plan ! i))) n))"
proof (induction plan arbitrary: l)
  case (Cons x plan)
  then show ?case by (auto simp: add.assoc Ex_less_Suc2 cong: conj_cong)
qed simp

lemma hop_labels_label: "e \<in> set (hop_labels G ep l path n) \<Longrightarrow> lr_route_label e = l \<and> lr_route_epoch e = ep \<and> n \<in> set (tl path)"
  by (induction G ep l path n rule: hop_labels.induct) (auto split: if_splits)

lemma hop_labels_length: "distinct (tl path) \<Longrightarrow> length (hop_labels G ep l path n) \<le> 1"
proof (induction G ep l path n rule: hop_labels.induct)
  case (1 G ep l previous current rest n)
  have "hop_labels G ep l (current # rest) n = []" if "n = current"
    using 1(2) that hop_labels_label [of _ G ep l "current # rest" n] by (cases "hop_labels G ep l (current # rest) n") auto
  then show ?case using 1 by (auto simp: distinct_tl)
qed simp_all

lemma hop_labels_labelled:
  assumes "\<forall>n\<in>set (tl path). \<exists>s. snaps n = Some s \<and> ss_local_node s = n \<and>
    (\<forall>e\<in>set (hop_labels G ep l path n). map_of (ss_labels s) l = Some e \<and> check_label e = Inr ())"
  shows "labelled snaps G ep l path"
  using assms
proof (induction snaps G ep l path rule: labelled.induct)
  case (1 snaps G ep l previous current rest)
  have "labelled snaps G ep l (current # rest)"
  proof (rule "1.IH", intro ballI)
    fix n assume "n \<in> set (tl (current # rest))"
    then obtain s where "snaps n = Some s" "ss_local_node s = n"
      "\<forall>e\<in>set (hop_labels G ep l (previous # current # rest) n). map_of (ss_labels s) l = Some e \<and> check_label e = Inr ()"
      using "1.prems" by fastforce
    then show "\<exists>s. snaps n = Some s \<and> ss_local_node s = n \<and>
        (\<forall>e\<in>set (hop_labels G ep l (current # rest) n). map_of (ss_labels s) l = Some e \<and> check_label e = Inr ())" by auto
  qed
  moreover obtain s where "snaps current = Some s" "ss_local_node s = current"
    "\<forall>e\<in>set (hop_labels G ep l (previous # current # rest) current). map_of (ss_labels s) l = Some e \<and> check_label e = Inr ()"
    using "1.prems" by force
  ultimately show ?case by simp
qed simp_all

lemma planned_snapshot_Inr:
  assumes "distinct (map tn_node_id nodes)" "node \<in> set nodes" "planned_snapshot N generation ep nodes G allow (tn_node_id node) = Inr s"
  shows "snapshot_compile N generation (tn_node_id node) (plan_prefixes G ep 1 (topology_plan N nodes G) (tn_node_id node))
    (plan_labels G ep 1 (topology_plan N nodes G) (tn_node_id node)) (tn_underlay_exclusion_prefixes node) allow = Inr s"
proof -
  have "map_of (node_table nodes) (tn_node_id node) = Some node" using assms(1,2) by (simp add: node_table_Some)
  then show ?thesis using assms(3) by (simp add: planned_snapshot_def)
qed

lemma route_path_nodes:
  assumes b: "build_graph known links = Inr G" and p: "route_path G T s z path"
  shows "set (tl path) \<subseteq> known"
proof
  fix v assume "v \<in> set (tl path)"
  then obtain u where "(u, v) \<in> set (hops path)" using hops_targets by blast
  then have "v \<in> dl_peer ` set (edges G u)" using p by (auto simp: route_path_def)
  then show "v \<in> known" using build_graph_Inr(1) [OF b]
    by (auto simp: build_graph_edge [OF b] left_edge_def right_edge_def links_ok_def link_ok_def)
qed

lemma map_of_labels: "distinct (map lr_route_label ls) \<Longrightarrow> e \<in> set ls \<Longrightarrow> map_of (map (\<lambda>e. (lr_route_label e, e)) ls) (lr_route_label e) = Some e"
  by (induction ls) (auto simp: image_iff)

lemma plan_labelled:
  assumes v: "valid_topology N generation ep nodes links allow G"
    and sn: "\<And>n. n \<in> tn_node_id ` set nodes \<Longrightarrow> snaps n = Some (projr (planned_snapshot N generation ep nodes G allow n)) \<and>
      is_ok (planned_snapshot N generation ep nodes G allow n)"
    and i: "i < length (topology_plan N nodes G)" "topology_plan N nodes G ! i = (s, prefixes, path)" and p: "route_path G T s z path"
  shows "labelled snaps G ep (1 + word_of_nat i) path"
proof (rule hop_labels_labelled, intro ballI)
  fix n assume n: "n \<in> set (tl path)"
  have b: "build_graph (tn_node_id ` set nodes) links = Inr G" and d: "distinct (map tn_node_id nodes)" using v by (simp_all add: valid_topology_def)
  obtain node where node: "node \<in> set nodes" "n = tn_node_id node" using route_path_nodes [OF b p] n by blast
  then obtain sn where s: "snaps n = Some sn" "planned_snapshot N generation ep nodes G allow n = Inr sn" using assms(2) by (fastforce simp: is_ok_iff)
  note c = planned_snapshot_Inr [OF d node(1) s(2) [unfolded node(2)]]
  note cc = snapshot_compile_Inr [OF c]
  have "map_of (ss_labels sn) (1 + word_of_nat i) = Some e \<and> check_label e = Inr ()" if "e \<in> set (hop_labels G ep (1 + word_of_nat i) path n)" for e
  proof -
    have "e \<in> set (plan_labels G ep 1 (topology_plan N nodes G) n)" using that i by (auto simp: plan_labels_iff)
    then show ?thesis using cc(6,7) map_of_labels [OF cc(8), of e] hop_labels_label [OF that] node(2) by simp
  qed
  then show "\<exists>s. snaps n = Some s \<and> ss_local_node s = n \<and>
      (\<forall>e\<in>set (hop_labels G ep (1 + word_of_nat i) path n). map_of (ss_labels s) (1 + word_of_nat i) = Some e \<and> check_label e = Inr ())"
    using s(1) cc(3) node(2) by blast
qed

section \<open>Looking up a destination\<close>

lemma same_length_prefix:
  assumes N: "ipnet_ok N" and c: "net_contains N m a" "net_contains N n a" and l: "net_prefix_len N m = net_prefix_len N n"
    and can: "net_addr N m = net_network N m" "net_addr N n = net_network N n"
  shows "m = n"
proof (rule net_eqI [OF N _ l])
  show "net_addr N m = net_addr N n" using c l net_contains_masked [OF N] can by metis
qed

text \<open>The first route of the longest match is the first route held for its prefix.\<close>

lemma longest_match_first:
  assumes N: "ipnet_ok N" and can: "\<forall>r\<in>set routes. net_addr N (pr_prefix r) = net_network N (pr_prefix r)"
    and lm: "longest_match N routes a = r # rs"
  shows "net_contains N (pr_prefix r) a \<and> (\<exists>rs'. filter (\<lambda>q. pr_prefix q = pr_prefix r) routes = r # rs')"
proof -
  let ?k = "Max ((net_prefix_len N \<circ> pr_prefix) ` set (filter (\<lambda>r. net_contains N (pr_prefix r) a) routes))"
  have lm': "filter (\<lambda>q. net_contains N (pr_prefix q) a \<and> net_prefix_len N (pr_prefix q) = ?k) routes = r # rs"
    using lm by (simp add: longest_match_def Let_def conj_commute)
  then have r: "r \<in> set routes" "net_contains N (pr_prefix r) a" "net_prefix_len N (pr_prefix r) = ?k"
    by (auto dest!: filter_eq_ConsD)
  have "(net_contains N (pr_prefix q) a \<and> net_prefix_len N (pr_prefix q) = ?k) = (pr_prefix q = pr_prefix r)" if "q \<in> set routes" for q
    using same_length_prefix [OF N, of "pr_prefix q" a "pr_prefix r"] r can that by auto
  then have "filter (\<lambda>q. net_contains N (pr_prefix q) a \<and> net_prefix_len N (pr_prefix q) = ?k) routes = filter (\<lambda>q. pr_prefix q = pr_prefix r) routes"
    by (intro filter_cong) auto
  then show ?thesis using lm' r(2) by simp
qed

lemma planned_lookup:
  assumes N: "ipnet_ok N" and c: "snapshot_compile N generation n routes labels exclusions allow = Inr s"
    and ex: "\<not> (\<exists>x\<in>set exclusions. net_contains N x a)" and r: "r \<in> set routes" "net_contains N (pr_prefix r) a"
  obtains r' rs where "lookup_destination s a = Inr (pr_route r')" "net_contains N (pr_prefix r') a"
    "filter (\<lambda>q. pr_prefix q = pr_prefix r') routes = r' # rs"
proof -
  have can: "\<forall>r\<in>set routes. net_addr N (pr_prefix r) = net_network N (pr_prefix r)"
    using c by (auto simp: snapshot_compile_def result_iff Let_def validate_prefix_set_Inr [OF N])
  let ?m = "filter (\<lambda>r. net_contains N (pr_prefix r) a) routes" and ?len = "net_prefix_len N \<circ> pr_prefix"
  have "?len ` set ?m \<noteq> {}" using r by auto
  then have "Max (?len ` set ?m) \<in> ?len ` set ?m" by (intro Max_in) auto
  then have "longest_match N routes a \<noteq> []" by (auto simp: longest_match_def Let_def filter_empty_conv)
  then obtain r' rs where lm: "longest_match N routes a = r' # rs" by (cases "longest_match N routes a") auto
  have "lookup_destination s a = Inr (pr_route r')"
    using lm ex snapshot_compile_Inr(4,5) [OF c]
    by (simp add: lookup_destination_def index_lookup_longest [OF N] prefix_set_contains_iff [OF N])
  then show ?thesis using that longest_match_first [OF N can lm] by blast
qed

lemma path_edges_nonempty: "2 \<le> length path \<Longrightarrow> path_edges G path \<noteq> []"
  by (cases path rule: hops.cases) (auto simp: path_edges_def)

lemma planned_route_sel:
  assumes "2 \<le> length path"
  shows "rr_route_label (planned_route G ep l path) = l" "rr_route_epoch (planned_route G ep l path) = ep"
    "rr_adjacency (planned_route G ep l path) = adjacency G (hd path) (path ! 1)"
    "rr_maximum_datagram_size (planned_route G ep l path) = Min (dl_maximum_datagram_size ` set (path_edges G path))"
proof -
  obtain a b rest where "path = a # b # rest" using assms by (cases path rule: hops.cases) auto
  then have "planned_route G ep l path = \<lparr> rr_adjacency = adjacency G (hd path) (path ! 1), rr_route_label = l, rr_route_epoch = ep,
      rr_maximum_datagram_size = Min (dl_maximum_datagram_size ` set (path_edges G path)) \<rparr>"
    by (simp add: planned_route_def path_route_def path_edges_def adjacency_def image_image)
  then show "rr_route_label (planned_route G ep l path) = l" "rr_route_epoch (planned_route G ep l path) = ep"
    "rr_adjacency (planned_route G ep l path) = adjacency G (hd path) (path ! 1)"
    "rr_maximum_datagram_size (planned_route G ep l path) = Min (dl_maximum_datagram_size ` set (path_edges G path))" by simp_all
qed

lemma route_mtu:
  assumes b: "build_graph known links = Inr G" and p: "route_path G T s z path" and uv: "(u, v) \<in> set (hops path)"
  shows "\<exists>link\<in>set links. tl_healthy link \<and> {tl_left link, tl_right link} = {u, v} \<and>
    rr_maximum_datagram_size (planned_route G ep l path) \<le> tl_maximum_datagram_size link"
proof -
  have "v \<in> dl_peer ` set (edges G u)" "2 \<le> length path" using p uv by (auto simp: route_path_def)
  obtain e where e: "directed_link_v2 G u v = Inr e"
    "\<exists>link\<in>set links. tl_healthy link \<and> {tl_left link, tl_right link} = {u, v} \<and> tl_maximum_datagram_size link = dl_maximum_datagram_size e"
    using b \<open>v \<in> dl_peer ` set (edges G u)\<close> by (rule build_graph_hop)
  have "e \<in> set (path_edges G path)" using uv e(1) by (force simp: path_edges_def)
  then have "rr_maximum_datagram_size (planned_route G ep l path) \<le> dl_maximum_datagram_size e"
    using \<open>2 \<le> length path\<close> by (simp add: planned_route_sel)
  then show ?thesis using e(2) by metis
qed

lemma plan_reaches:
  assumes v: "valid_topology N generation ep nodes links allow G" and src: "src \<in> set nodes"
    and own: "owner \<in> set nodes" "owner \<noteq> src" "p \<in> set (tn_advertised_prefixes owner)"
    and reach: "route_path G (transit_set nodes) (tn_node_id src) (tn_node_id owner) q"
  shows "\<exists>r\<in>set (plan_prefixes G ep 1 (topology_plan N nodes G) (tn_node_id src)). pr_prefix r = p"
proof -
  let ?s = "tn_node_id src" and ?z = "tn_node_id owner" and ?ps = "sort_key (prefix_key N) (tn_advertised_prefixes owner)"
  have d: "distinct (map tn_node_id nodes)" and b: "build_graph (tn_node_id ` set nodes) links = Inr G" using v by (simp_all add: valid_topology_def)
  have ne: "?s \<noteq> ?z" using d src own by (auto simp: distinct_map dest: inj_onD)
  obtain paths where ps: "candidate_paths ?s ?z G (transit_set nodes) = Some paths" "paths \<noteq> []"
    using candidate_paths_ok [OF build_graph_ok [OF b] ne, of "transit_set nodes"] reach by (auto simp: candidates_ok_def)
  have node: "map_of (node_table nodes) ?z = Some owner" using d own by (simp add: node_table_Some)
  have "(?s, ?ps, hd paths) \<in> set (pair_plan N (node_table nodes) G (transit_set nodes) (?s, ?z))"
    using ps node ne own(3) by (auto simp: pair_plan_def)
  moreover have "(?s, ?z) \<in> set (List.product (sorted_ids nodes) (sorted_ids nodes))" using src own by (simp add: node_table_facts)
  ultimately have "(?s, ?ps, hd paths) \<in> set (topology_plan N nodes G)" unfolding topology_plan_def by auto
  then obtain i where "i < length (topology_plan N nodes G)" "topology_plan N nodes G ! i = (?s, ?ps, hd paths)" by (auto simp: in_set_conv_nth)
  moreover have "\<exists>r\<in>set (planned_prefixes G ep (1 + word_of_nat i) (?s, ?ps, hd paths) ?s). pr_prefix r = p" for i
    using own(3) by (auto simp: planned_prefixes_def)
  ultimately show ?thesis unfolding plan_prefixes_iff Bex_def by metis
qed

text \<open>A Cell sent on a planned route whose label is installed along its path follows the path.\<close>

lemma labelled_carries:
  assumes b: "build_graph known links = Inr G" and p: "route_path G T s z path" and lab: "labelled snaps G ep l path"
  defines "r \<equiv> planned_route G ep l path"
  shows "other_end links s (rr_adjacency r) = Some (path ! 1, adjacency G (path ! 1) s)"
    and "\<forall>bs h. decode_route_header bs = Inr h \<and> hdr_route_label h = rr_route_label r \<and> hdr_session_epoch h = rr_route_epoch r \<longrightarrow>
      (if length path - 2 < unat (hdr_overlay_hop_limit h)
       then \<exists>bs' h'. carries snaps links (path ! 1) (adjacency G (path ! 1) s) bs (tl path) (LocalCell h' bs') \<and> same_cell (length path - 2) bs h bs' h'
       else \<exists>e. carries snaps links (path ! 1) (adjacency G (path ! 1) s) bs (take (unat (hdr_overlay_hop_limit h)) (tl path)) (ExpiredCell e) \<and>
         ot_reporter e = path ! unat (hdr_overlay_hop_limit h))"
proof -
  obtain cur rest where path: "path = s # cur # rest" using p by (cases path rule: hops.cases) (auto simp: route_path_def)
  have e: "\<forall>(u, v)\<in>set (hops path). v \<in> dl_peer ` set (edges G u)" using p by (simp add: route_path_def)
  have len: "2 \<le> length path" using path by simp
  show "other_end links s (rr_adjacency r) = Some (path ! 1, adjacency G (path ! 1) s)"
    using other_end_hop [OF b, of cur s] e path by (simp add: r_def planned_route_sel)
  show "\<forall>bs h. decode_route_header bs = Inr h \<and> hdr_route_label h = rr_route_label r \<and> hdr_session_epoch h = rr_route_epoch r \<longrightarrow>
      (if length path - 2 < unat (hdr_overlay_hop_limit h)
       then \<exists>bs' h'. carries snaps links (path ! 1) (adjacency G (path ! 1) s) bs (tl path) (LocalCell h' bs') \<and> same_cell (length path - 2) bs h bs' h'
       else \<exists>e. carries snaps links (path ! 1) (adjacency G (path ! 1) s) bs (take (unat (hdr_overlay_hop_limit h)) (tl path)) (ExpiredCell e) \<and>
         ot_reporter e = path ! unat (hdr_overlay_hop_limit h))"
  proof (intro allI impI, goal_cases)
    case (1 bs h)
    then have eq: "hdr_route_label h = l" "hdr_session_epoch h = ep" by (simp_all add: r_def planned_route_sel [OF len])
    have "0 < unat (hdr_overlay_hop_limit h)" using 1 by (auto simp: decode_route_header_def Let_def result_iff unat_gt_0)
    then have "path ! unat (hdr_overlay_hop_limit h) = (cur # rest) ! (unat (hdr_overlay_hop_limit h) - 1)" by (simp add: path nth_Cons')
    then show ?case using carries_path [OF b, of s cur rest snaps h bs] e lab 1
      by (cases "length rest < unat (hdr_overlay_hop_limit h)") (simp_all add: path eq)
  qed
qed

end
