(* ===== verification/TopologyCompile.thy ===== *)
theory TopologyCompile
  imports TopologyJourney
begin

text \<open>
  Which topologies compile: the checks of the snapshots hold for the tables of the plan, and the plan stays within the
  labels for up to 128 nodes.
\<close>

section \<open>Compiling valid topologies\<close>

lemma adjacency_ok:
  assumes b: "build_graph known links = Inr G" and v: "v \<in> dl_peer ` set (edges G u)"
  shows "u \<in> dl_peer ` set (edges G v)" "adjacency G u v \<noteq> 0"
proof -
  obtain e e' where e: "directed_link_v2 G u v = Inr e" "directed_link_v2 G v u = Inr e'" "dl_adjacency e \<noteq> 0"
    using b v by (rule build_graph_hop)
  show "adjacency G u v \<noteq> 0" using e by (simp add: adjacency_def)
  show "u \<in> dl_peer ` set (edges G v)" using e(2) by (auto simp: directed_link_v2_def find_Some_iff split: option.splits)
qed

lemma hop_labels_check:
  assumes b: "build_graph known links = Inr G" and "\<forall>(u, v)\<in>set (hops path). v \<in> dl_peer ` set (edges G u)"
    and "distinct path" "ep \<noteq> 0" "l \<noteq> 0" "x \<in> set (hop_labels G ep l path n)"
  shows "check_label x = Inr ()"
  using assms
proof (induction G ep l path n rule: hop_labels.induct)
  case (1 G ep l previous current rest n)
  note b = "1.prems"(1) and e = "1.prems"(2)
  show ?case
  proof (cases "x \<in> set (hop_labels G ep l (current # rest) n)")
    case True
    then show ?thesis using "1.IH" "1.prems" by auto
  next
    case False
    then have x: "x = \<lparr> lr_route_label = l, lr_route_epoch = ep, lr_action = projr (hop_action G previous current rest) \<rparr>"
      using "1.prems"(6) by (auto split: if_splits)
    note x = x [unfolded hop_action_eq [OF edges_hops_ok [OF b e]]]
    have "previous \<in> dl_peer ` set (edges G current)" using adjacency_ok(1) [OF b] e by simp
    note p = adjacency_ok(2) [OF b this] other_end_hop [OF b this]
    show ?thesis
    proof (cases rest)
      case Nil
      then show ?thesis using p(1) "1.prems"(4,5) by (simp add: x check_label_def route_label_new_def adjacency_new_def)
    next
      case (Cons nxt ys)
      then have "nxt \<in> dl_peer ` set (edges G current)" "nxt \<noteq> previous" using e "1.prems"(3) by auto
      then have "adjacency G current nxt \<noteq> 0" "adjacency G current previous \<noteq> adjacency G current nxt"
        using adjacency_ok(2) [OF b] other_end_hop [OF b] p(2) by fastforce+
      then show ?thesis using Cons p(1) "1.prems"(4,5) by (simp add: x check_label_def route_label_new_def adjacency_new_def)
    qed
  qed
qed simp_all

lemma plan_labels_range:
  assumes "unat l + length plan \<le> MAX_ROUTE_LABELS + 1" "e \<in> set (plan_labels G ep l plan n)"
  shows "unat l \<le> unat (lr_route_label e) \<and> unat (lr_route_label e) < unat l + length plan"
proof -
  obtain i where i: "i < length plan" "lr_route_label e = l + word_of_nat i"
    using assms(2) hop_labels_label by (fastforce simp: plan_labels_iff)
  have "unat (l + word_of_nat i) = unat l + i"
    using assms(1) i(1) by (simp add: unat_word_ariths unsigned_of_nat take_bit_eq_mod MAX_ROUTE_LABELS_def)
  then show ?thesis using i by simp
qed

lemma plan_labels_distinct:
  assumes "unat l + length plan \<le> MAX_ROUTE_LABELS + 1" "\<forall>(s, prefixes, path)\<in>set plan. distinct path"
  shows "distinct (map lr_route_label (plan_labels G ep l plan n)) \<and> length (plan_labels G ep l plan n) \<le> length plan"
  using assms
proof (induction plan arbitrary: l)
  case (Cons x plan)
  let ?h = "hop_labels G ep l (snd (snd x)) n"
  have h: "length ?h \<le> 1" using hop_labels_length [of "snd (snd x)" G ep l n] Cons.prems(2) by (cases x) (auto simp: distinct_tl)
  show ?case
  proof (cases plan)
    case Nil
    then show ?thesis using h by (cases ?h) auto
  next
    case (Cons y ys)
    have l: "unat (l + 1) = unat l + 1" using Cons.prems(1) Cons by (simp add: unat_word_ariths MAX_ROUTE_LABELS_def)
    then have IH: "distinct (map lr_route_label (plan_labels G ep (l + 1) plan n)) \<and> length (plan_labels G ep (l + 1) plan n) \<le> length plan"
      using Cons.IH [of "l + 1"] Cons.prems by simp
    have "lr_route_label e \<noteq> l" if "e \<in> set (plan_labels G ep (l + 1) plan n)" for e
      using plan_labels_range [OF _ that] l Cons.prems(1) by auto
    then have "set (map lr_route_label ?h) \<inter> set (map lr_route_label (plan_labels G ep (l + 1) plan n)) = {}"
      using hop_labels_label by fastforce
    moreover have "distinct (map lr_route_label ?h)" using h by (cases ?h) auto
    ultimately show ?thesis using IH h by simp
  qed
qed simp

lemma label_unat:
  assumes "i < length plan" "length plan \<le> MAX_ROUTE_LABELS"
  shows "unat (1 + word_of_nat i :: u32) = Suc i" "(1 + word_of_nat i :: u32) \<noteq> 0"
proof -
  show "unat (1 + word_of_nat i :: u32) = Suc i"
    using assms by (simp add: unat_word_ariths unsigned_of_nat take_bit_eq_mod MAX_ROUTE_LABELS_def)
  then show "(1 + word_of_nat i :: u32) \<noteq> 0" by (metis nat.distinct(1) unat_0)
qed

lemma planned_prefix:
  assumes "r \<in> set (plan_prefixes G ep 1 plan n)"
  obtains i s prefixes path where "i < length plan" "plan ! i = (s, prefixes, path)" "n = s" "pr_prefix r \<in> set prefixes"
    "pr_route r = planned_route G ep (1 + word_of_nat i) path"
proof -
  obtain i where i: "i < length plan" "r \<in> set (planned_prefixes G ep (1 + word_of_nat i) (plan ! i) n)" using assms by (auto simp: plan_prefixes_iff)
  obtain s prefixes path where x: "plan ! i = (s, prefixes, path)" by (cases "plan ! i")
  show ?thesis using i(2) by (intro that [OF i(1) x]) (auto simp: x planned_prefixes_def split: if_splits)
qed

lemma plan_route_unique:
  assumes cap: "length plan \<le> MAX_ROUTE_LABELS" and ok: "\<forall>(s, prefixes, path)\<in>set plan. hops_ok G path \<and> 2 \<le> length path"
    and r: "r \<in> set (plan_prefixes G ep 1 plan n)" "q \<in> set (plan_prefixes G ep 1 plan n)" "rr_route_label (pr_route r) = rr_route_label (pr_route q)"
  shows "pr_route r = pr_route q"
proof -
  obtain i s prefixes path where i: "i < length plan" "plan ! i = (s, prefixes, path)" "pr_route r = planned_route G ep (1 + word_of_nat i) path"
    using r(1) by (rule planned_prefix)
  obtain j s' prefixes' path' where j: "j < length plan" "plan ! j = (s', prefixes', path')" "pr_route q = planned_route G ep (1 + word_of_nat j) path'"
    using r(2) by (rule planned_prefix)
  have "2 \<le> length path" "2 \<le> length path'" using ok i(1,2) j(1,2) nth_mem [of _ plan] by fastforce+
  then have "(1 + word_of_nat i :: u32) = 1 + word_of_nat j" using r(3) i(3) j(3) by (simp add: planned_route_sel)
  from arg_cong [OF this, of unat] have "Suc i = Suc j" unfolding label_unat(1) [OF i(1) cap] label_unat(1) [OF j(1) cap] .
  then have "i = j" by simp
  then show ?thesis using i j by simp
qed

lemma planned_route_checks:
  assumes b: "build_graph known links = Inr G" and p: "route_path G T s z path" and "ep \<noteq> 0" "l \<noteq> 0"
  shows "check_source_route (planned_route G ep l path) = Inr ()"
proof -
  have len: "2 \<le> length path" using p by (simp add: route_path_def)
  obtain cur rest where path: "path = s # cur # rest" using p by (cases path rule: hops.cases) (auto simp: route_path_def)
  have "adjacency G (hd path) (path ! 1) \<noteq> 0" using adjacency_ok(2) [OF b] p path by (simp add: route_path_def)
  moreover have "HEADER_LEN < unat (rr_maximum_datagram_size (planned_route G ep l path))"
  proof -
    have "rr_maximum_datagram_size (planned_route G ep l path) \<in> dl_maximum_datagram_size ` set (path_edges G path)"
      using path_edges_nonempty [OF len] by (simp add: planned_route_sel [OF len])
    then obtain u v where uv: "(u, v) \<in> set (hops path)" "rr_maximum_datagram_size (planned_route G ep l path) = dl_maximum_datagram_size (projr (directed_link_v2 G u v))"
      by (auto simp: path_edges_def)
    have "v \<in> dl_peer ` set (edges G u)" using p uv(1) by (auto simp: route_path_def)
    with b obtain e where "directed_link_v2 G u v = Inr e" "\<exists>link\<in>set links. tl_healthy link \<and> {tl_left link, tl_right link} = {u, v} \<and> tl_maximum_datagram_size link = dl_maximum_datagram_size e"
      by (rule build_graph_hop)
    then show ?thesis using uv(2) build_graph_Inr(1) [OF b] by (auto simp: links_ok_def link_ok_def)
  qed
  ultimately show ?thesis using assms(3,4)
    by (simp add: check_source_route_def adjacency_new_def route_label_new_def planned_route_sel [OF len])
qed

lemma planned_labels_compile:
  assumes b: "build_graph known links = Inr G" and ep: "ep \<noteq> 0" and cap: "length (topology_plan N nodes G) \<le> MAX_ROUTE_LABELS"
  shows "\<exists>m. compile_labels (plan_labels G ep 1 (topology_plan N nodes G) n) [] = Inr m"
    "length (plan_labels G ep 1 (topology_plan N nodes G) n) \<le> MAX_ROUTE_LABELS"
proof -
  let ?plan = "topology_plan N nodes G" and ?ls = "plan_labels G ep 1 (topology_plan N nodes G) n"
  have path: "\<exists>z. route_path G (transit_set nodes) s z path" if x: "(s, prefixes, path) \<in> set ?plan" for s prefixes path
    using b x by (rule plan_item) auto
  then have "\<forall>(s, prefixes, path)\<in>set ?plan. distinct path" by (fastforce simp: route_path_def)
  then have dl: "distinct (map lr_route_label ?ls) \<and> length ?ls \<le> length ?plan" using plan_labels_distinct [of 1 ?plan] cap by simp
  moreover have "check_label e = Inr ()" if "e \<in> set ?ls" for e
  proof -
    obtain i where i: "i < length ?plan" "e \<in> set (hop_labels G ep (1 + word_of_nat i) (snd (snd (?plan ! i))) n)" using \<open>e \<in> set ?ls\<close> by (auto simp: plan_labels_iff)
    obtain s prefixes path where x: "?plan ! i = (s, prefixes, path)" by (cases "?plan ! i")
    then obtain z where "route_path G (transit_set nodes) s z path" using path i(1) by (metis nth_mem)
    then show ?thesis using hop_labels_check [OF b _ _ ep label_unat(2) [OF i(1) cap], of path e n] i(2) x by (simp add: route_path_def)
  qed
  ultimately show "\<exists>m. compile_labels ?ls [] = Inr m" "length ?ls \<le> MAX_ROUTE_LABELS" using cap by (simp_all add: compile_labels_Inr)
qed

lemma planned_snapshot_total:
  assumes N: "ipnet_ok N" and v: "valid_topology N generation ep nodes links allow G"
    and cap: "length (topology_plan N nodes G) \<le> MAX_ROUTE_LABELS" and n: "n \<in> tn_node_id ` set nodes"
  shows "is_ok (planned_snapshot N generation ep nodes G allow n)"
proof -
  let ?plan = "topology_plan N nodes G"
  let ?ps = "plan_prefixes G ep 1 ?plan n" and ?ls = "plan_labels G ep 1 ?plan n"
  have b: "build_graph (tn_node_id ` set nodes) links = Inr G" and d: "distinct (map tn_node_id nodes)" and ep: "ep \<noteq> 0" "generation \<noteq> 0"
    and val: "\<forall>node\<in>set nodes. validate_prefix_set N (tn_advertised_prefixes node) allow = Inr () \<and> validate_prefix_set N (tn_underlay_exclusion_prefixes node) True = Inr ()"
    using v by (simp_all add: valid_topology_def)
  obtain node where node: "node \<in> set nodes" "tn_node_id node = n" using n by blast
  have item: "\<exists>z owner. route_path G (transit_set nodes) s z path \<and> owner \<in> set nodes \<and> set prefixes = set (tn_advertised_prefixes owner)"
    if x: "(s, prefixes, path) \<in> set ?plan" for s prefixes path
    using b x by (rule plan_item) (use d in \<open>auto simp: node_table_Some\<close>)
  note labels = planned_labels_compile [OF b ep(1) cap, of n]
  have routes: "validate_prefix_set N [pr_prefix r] allow = Inr () \<and> check_source_route (pr_route r) = Inr ()" if "r \<in> set ?ps" for r
  proof -
    obtain i s prefixes path where i: "i < length ?plan" "?plan ! i = (s, prefixes, path)" "pr_prefix r \<in> set prefixes"
      "pr_route r = planned_route G ep (1 + word_of_nat i) path" using \<open>r \<in> set ?ps\<close> by (rule planned_prefix)
    then obtain z owner where o: "route_path G (transit_set nodes) s z path" "owner \<in> set nodes" "set prefixes = set (tn_advertised_prefixes owner)" using item by (metis nth_mem)
    then show ?thesis using val i(3,4) planned_route_checks [OF b o(1) ep(1) label_unat(2) [OF i(1) cap]] by (simp add: validate_prefix_set_Inr [OF N])
  qed
  have "validate_prefix_set N (remdups_adj (sort_key (prefix_key N) (map pr_prefix ?ps))) allow = Inr ()"
    using routes distinct_sort_key(2) [OF prefix_key_inj [OF N]] by (auto simp: validate_prefix_set_Inr [OF N])
  moreover have "allR (check_source_route \<circ> pr_route) ?ps = Inr ()" using routes by (simp add: allR_Inr_iff)
  moreover have "\<exists>m. compile_sources (map pr_route ?ps) [] = Inr m"
  proof (rule compile_sources_total)
    show "\<forall>r\<in>set (map pr_route ?ps). \<forall>q\<in>set (map pr_route ?ps). rr_route_epoch r = rr_route_epoch q \<and> rr_route_label r = rr_route_label q \<longrightarrow> r = q"
      using plan_route_unique [OF cap plan_hops_ok [OF b]] by auto
  qed simp
  ultimately show ?thesis using labels val node ep(2) d
    by (auto simp: planned_snapshot_def snapshot_compile_def Let_def is_ok_iff node_table_Some [OF d] split: option.split)
qed

lemma plan_count:
  assumes "build_graph known links = Inr G"
  shows "length (topology_plan N nodes G) \<le> MAX_CANDIDATE_ROUTES * (length nodes * length nodes)"
proof -
  have "length (pair_plan N (node_table nodes) G (transit_set nodes) pair) \<le> MAX_CANDIDATE_ROUTES" for pair
  proof (cases pair)
    case (Pair s z)
    show ?thesis
    proof (cases "s = z")
      case False
      then obtain ps where "candidate_paths s z G (transit_set nodes) = Some ps" "length ps \<le> MAX_CANDIDATE_ROUTES"
        using candidate_paths_ok [OF build_graph_ok [OF assms]] unfolding candidates_ok_def by blast
      then show ?thesis using Pair by (simp add: pair_plan_def split: option.split)
    qed (simp add: Pair pair_plan_def split: option.split)
  qed
  then have "length (concat (map (pair_plan N (node_table nodes) G (transit_set nodes)) pairs)) \<le> MAX_CANDIDATE_ROUTES * length pairs" for pairs
  proof (induction pairs)
    case (Cons pair pairs)
    have "length (pair_plan N (node_table nodes) G (transit_set nodes) pair) \<le> MAX_CANDIDATE_ROUTES" by (rule Cons.prems)
    with Cons.IH [OF Cons.prems] show ?case by simp
  qed simp
  from this [of "List.product (sorted_ids nodes) (sorted_ids nodes)"] show ?thesis by (simp add: topology_plan_def sorted_ids_def)
qed

text \<open>A topology is valid when its identifiers are distinct, the prefixes of a node canonical, without repetition and not a
  default route unless allowed, the prefixes of different nodes disjoint, and the links well formed.\<close>

definition topology_ok :: "'n ipnet \<Rightarrow> u64 \<Rightarrow> u32 \<Rightarrow> 'n topology_node list \<Rightarrow> topology_link list \<Rightarrow> bool \<Rightarrow> bool" where
  "topology_ok N generation ep nodes links allow \<longleftrightarrow> generation \<noteq> 0 \<and> ep \<noteq> 0 \<and> nodes \<noteq> [] \<and> distinct (map tn_node_id nodes) \<and>
     (\<forall>node\<in>set nodes. distinct (tn_advertised_prefixes node) \<and> distinct (tn_underlay_exclusion_prefixes node) \<and>
        (\<forall>p\<in>set (tn_advertised_prefixes node). net_addr N p = net_network N p \<and> (allow \<or> net_prefix_len N p \<noteq> 0)) \<and>
        (\<forall>p\<in>set (tn_underlay_exclusion_prefixes node). net_addr N p = net_network N p)) \<and>
     (\<forall>m\<in>set nodes. \<forall>n\<in>set nodes. m \<noteq> n \<longrightarrow>
        (\<forall>p\<in>set (tn_advertised_prefixes m). \<forall>q\<in>set (tn_advertised_prefixes n). \<not> prefixes_overlap N p q)) \<and>
     links_ok (tn_node_id ` set nodes) links"

lemma ownership_total:
  assumes "distinct nodes" "\<forall>m\<in>set nodes. \<forall>n\<in>set nodes. m \<noteq> n \<longrightarrow>
    (\<forall>p\<in>set (tn_advertised_prefixes m). \<forall>q\<in>set (tn_advertised_prefixes n). \<not> prefixes_overlap N p q)"
  shows "validate_global_ownership N (node_table nodes) = Inr ()"
proof -
  have "map snd (node_table nodes) = nodes" by (simp add: node_table_def comp_def)
  moreover have "sorted_wrt (\<lambda>m n. tn_node_id n \<noteq> tn_node_id m \<longrightarrow>
       (\<forall>p\<in>set (tn_advertised_prefixes n). \<forall>q\<in>set (tn_advertised_prefixes m). \<not> prefixes_overlap N p q)) nodes"
    using assms by (induction nodes) auto
  ultimately show ?thesis by (simp add: validate_global_ownership_def check_ownership_Inr)
qed

lemma valid_topology_iff:
  assumes N: "ipnet_ok N"
  shows "(\<exists>G. valid_topology N generation ep nodes links allow G) \<longleftrightarrow> topology_ok N generation ep nodes links allow"
proof
  assume "\<exists>G. valid_topology N generation ep nodes links allow G"
  then obtain G where v: "valid_topology N generation ep nodes links allow G" by blast
  then have d: "distinct (map tn_node_id nodes)" and b: "build_graph (tn_node_id ` set nodes) links = Inr G"
    and o: "validate_global_ownership N (node_table nodes) = Inr ()" by (simp_all add: valid_topology_def)
  have "\<not> prefixes_overlap N p q" if "m \<in> set nodes" "n \<in> set nodes" "m \<noteq> n" "p \<in> set (tn_advertised_prefixes m)" "q \<in> set (tn_advertised_prefixes n)" for m n p q
    using ownership_disjoint [OF o that(1,2) _ that(4,5)] that(1-3) d by (auto simp: distinct_map dest: inj_onD)
  then show "topology_ok N generation ep nodes links allow"
    using v build_graph_Inr(1) [OF b] by (simp add: valid_topology_def topology_ok_def validate_prefix_set_Inr [OF N])
next
  assume ok: "topology_ok N generation ep nodes links allow"
  then have "links_ok (tn_node_id ` set nodes) links" by (simp add: topology_ok_def)
  then obtain G where "build_graph (tn_node_id ` set nodes) links = Inr G" using build_graph_total by blast
  moreover have "distinct nodes" using ok by (simp add: topology_ok_def distinct_map)
  then have "validate_global_ownership N (node_table nodes) = Inr ()" by (rule ownership_total) (use ok in \<open>simp add: topology_ok_def\<close>)
  ultimately show "\<exists>G. valid_topology N generation ep nodes links allow G"
    using ok by (auto simp: valid_topology_def topology_ok_def validate_prefix_set_Inr [OF N])
qed

lemma valid_compiles:
  assumes N: "ipnet_ok N" and v: "valid_topology N generation ep nodes links allow G" and len: "length nodes \<le> 128"
  shows "\<exists>t. compile_topology N generation ep nodes links allow = Some (Inr t)"
proof -
  have b: "build_graph (tn_node_id ` set nodes) links = Inr G" using v by (simp add: valid_topology_def)
  have "length nodes * length nodes \<le> 128 * 128" using len by (intro mult_mono) auto
  then have cap: "length (topology_plan N nodes G) \<le> MAX_ROUTE_LABELS"
    using plan_count [OF b, of N nodes] by (simp add: MAX_CANDIDATE_ROUTES_def MAX_ROUTE_LABELS_def)
  have "\<forall>n\<in>set (sorted_ids nodes). is_ok (planned_snapshot N generation ep nodes G allow n)"
    using planned_snapshot_total [OF N v cap] by (simp add: node_table_facts)
  then obtain ss where "mapR (\<lambda>n. bindR (planned_snapshot N generation ep nodes G allow n) (\<lambda>s. Inr (n, s))) (sorted_ids nodes) = Inr ss"
    using mapR_table_total by blast
  then show ?thesis using compile_selected_planned [OF v, of None] cap by (simp add: compile_topology_def selected_nodes_def)
qed

lemma compile_local_absent:
  assumes v: "valid_topology N generation ep nodes links allow G" and n: "n \<notin> tn_node_id ` set nodes"
  shows "compile_local_snapshot N generation ep nodes links allow n = Some (Inl (Err ''selected V2 topology node is absent''))"
proof -
  have "collect_nodes N allow nodes [] = Inr (node_table nodes)" using v by (simp add: collect_nodes_new valid_topology_def)
  moreover have "fst ` set (node_table nodes) = tn_node_id ` set nodes" using node_table_facts(1) [of nodes] by simp
  moreover have "map_of (node_table nodes) n = None" using n node_table_facts(5) [of nodes n] by simp
  ultimately show ?thesis using v
    by (simp add: compile_local_snapshot_def compile_topology_selected_def valid_topology_def)
qed

lemma compile_selected_returns: "\<exists>result. compile_topology_selected N generation ep nodes links allow sel = Some result"
proof (cases rule: compile_selected_cases [of N generation ep nodes links allow sel])
  case (2 G)
  then show ?thesis using compile_selected_planned by blast
qed blast

end
