(* ===== verification/TopologyProperties.thy ===== *)
theory TopologyProperties
  imports TopologyCompile
begin

text \<open>
  The properties of the topology compiler: the nodes of a compiled topology together deliver a Cell to the owner of its
  destination, the candidate paths are the best ones, compilation returns and accepts exactly the valid
  topologies, and the local compilation is the full one seen from a node.
\<close>

section \<open>Properties\<close>

text \<open>C1. The snapshots of a compiled topology together deliver: let a node advertise a prefix that contains a destination, be
  reachable from a source over healthy links and transit nodes, and let the source not exclude the
  destination. Then no other node advertises a prefix that contains it; the source's lookup finds a route; the route is a cheapest simple path to the owner, every
  link of which is healthy and carries DATAGRAMs of the route's size; and a Cell sent on it is forwarded from node to node along the
  path, each node visited once, until the owner takes it, unchanged but for the two hop counters, if
  its hop limit exceeds the number of transit nodes, and otherwise until the node where the limit ends reports the expiry.\<close>

theorem mesh_delivers:
  assumes N: "ipnet_ok N" and t: "compile_topology N generation ep nodes links allow = Some (Inr t)"
    and G: "build_graph (tn_node_id ` set nodes) links = Inr G"
    and src: "src \<in> set nodes" "\<not> (\<exists>x\<in>set (tn_underlay_exclusion_prefixes src). net_contains N x destination)"
    and own: "owner \<in> set nodes" "p \<in> set (tn_advertised_prefixes owner)" "net_contains N p destination" "owner \<noteq> src"
    and reach: "route_path G (transit_set nodes) (tn_node_id src) (tn_node_id owner) q"
  shows "(\<forall>node\<in>set nodes. (\<exists>p\<in>set (tn_advertised_prefixes node). net_contains N p destination) \<longrightarrow> node = owner) \<and>
    (\<exists>s r path incoming. topology_snapshot t (tn_node_id src) = Some s \<and> lookup_destination s destination = Inr r \<and>
      rr_route_label r \<noteq> 0 \<and> rr_route_epoch r = ep \<and> route_path G (transit_set nodes) (tn_node_id src) (tn_node_id owner) path \<and>
      (\<forall>q. route_path G (transit_set nodes) (tn_node_id src) (tn_node_id owner) q \<longrightarrow> path_cost G path \<le> path_cost G q) \<and>
      (\<forall>(u, v)\<in>set (hops path). \<exists>link\<in>set links. tl_healthy link \<and> {tl_left link, tl_right link} = {u, v} \<and>
         rr_maximum_datagram_size r \<le> tl_maximum_datagram_size link) \<and>
      other_end links (tn_node_id src) (rr_adjacency r) = Some (path ! 1, incoming) \<and>
      (\<forall>bs h. decode_route_header bs = Inr h \<and> hdr_route_label h = rr_route_label r \<and> hdr_session_epoch h = rr_route_epoch r \<longrightarrow>
         (if length path - 2 < unat (hdr_overlay_hop_limit h)
          then \<exists>bs' h'. carries (topology_snapshot t) links (path ! 1) incoming bs (tl path) (LocalCell h' bs') \<and>
            same_cell (length path - 2) bs h bs' h'
          else \<exists>e. carries (topology_snapshot t) links (path ! 1) incoming bs (take (unat (hdr_overlay_hop_limit h)) (tl path)) (ExpiredCell e) \<and>
            ot_reporter e = path ! unat (hdr_overlay_hop_limit h))))"
proof -
  let ?s = "tn_node_id src" and ?T = "transit_set nodes"
  obtain G' where v': "valid_topology N generation ep nodes links allow G'" and cap: "length (topology_plan N nodes G') \<le> MAX_ROUTE_LABELS"
    and sn': "\<forall>n. topology_snapshot t n = (if n \<in> tn_node_id ` set nodes then Some (projr (planned_snapshot N generation ep nodes G' allow n)) else None)"
      "\<forall>n\<in>tn_node_id ` set nodes. is_ok (planned_snapshot N generation ep nodes G' allow n)"
    using t by (rule compile_topology_Inr)
  have eq: "G' = G" using v' G by (simp add: valid_topology_def)
  note v = v' [unfolded eq] and sn = sn' [unfolded eq]
  have d: "distinct (map tn_node_id nodes)" using v by (simp add: valid_topology_def)
  have unique: "node = owner" if "node \<in> set nodes" "x \<in> set (tn_advertised_prefixes node)" "net_contains N x destination" for node x
    using ownership_disjoint [of N nodes node owner x p] contains_overlap [OF N that(3) own(3)] that own(1,2) v d
    by (auto simp: valid_topology_def distinct_map dest: inj_onD)
  obtain s where s: "planned_snapshot N generation ep nodes G allow ?s = Inr s" using sn(2) src(1) by (auto simp: is_ok_iff)
  note c = planned_snapshot_Inr [OF d src(1) s]
  obtain r0 where r0: "r0 \<in> set (plan_prefixes G ep 1 (topology_plan N nodes G) ?s)" "pr_prefix r0 = p"
    using plan_reaches [OF v src(1) own(1,4,2) reach] by blast
  obtain r rs where r: "lookup_destination s destination = Inr (pr_route r)" "net_contains N (pr_prefix r) destination"
    "filter (\<lambda>q. pr_prefix q = pr_prefix r) (plan_prefixes G ep 1 (topology_plan N nodes G) ?s) = r # rs"
    using planned_lookup [OF N c src(2) r0(1)] own(3) r0(2) by metis
  obtain i prefixes path node where i: "i < length (topology_plan N nodes G)" "topology_plan N nodes G ! i = (?s, prefixes, path)"
    "pr_route r = planned_route G ep (1 + word_of_nat i) path" "node \<in> set nodes" "pr_prefix r \<in> set (tn_advertised_prefixes node)"
    "route_path G ?T ?s (tn_node_id node) path" "\<And>q. route_path G ?T ?s (tn_node_id node) q \<Longrightarrow> path_cost G path \<le> path_cost G q"
    using plan_first_best [OF v r(3)] by metis
  have [simp]: "node = owner" using unique [OF i(4,5) r(2)] .
  have lab: "labelled (topology_snapshot t) G ep (1 + word_of_nat i) path"
    by (rule plan_labelled [OF v _ i(1,2,6)]) (use sn in auto)
  note go = labelled_carries [OF G i(6) lab, folded i(3)]
  show ?thesis
  proof (intro conjI exI [of _ s] exI [of _ "pr_route r"] exI [of _ path] exI [of _ "adjacency G (path ! 1) ?s"])
    show "\<forall>node\<in>set nodes. (\<exists>p\<in>set (tn_advertised_prefixes node). net_contains N p destination) \<longrightarrow> node = owner" using unique by blast
    show "topology_snapshot t ?s = Some s" using sn(1) s src(1) by simp
    have "2 \<le> length path" using i(6) by (simp add: route_path_def)
    then show "rr_route_label (pr_route r) \<noteq> 0" "rr_route_epoch (pr_route r) = ep"
      using label_unat(2) [OF i(1) cap [unfolded eq]] by (simp_all add: i(3) planned_route_sel del: word_of_nat_eq_0_iff)
    show "route_path G ?T ?s (tn_node_id owner) path" using i(6) by simp
    show "\<forall>q. route_path G ?T ?s (tn_node_id owner) q \<longrightarrow> path_cost G path \<le> path_cost G q" using i(7) by simp
    show "\<forall>(u, v)\<in>set (hops path). \<exists>link\<in>set links. tl_healthy link \<and> {tl_left link, tl_right link} = {u, v} \<and>
        rr_maximum_datagram_size (pr_route r) \<le> tl_maximum_datagram_size link"
      using route_mtu [OF G i(6), of _ _ ep "1 + word_of_nat i", folded i(3)] by blast
  qed (use r(1) go in blast)+
qed


text \<open>C34. The candidate paths of a source are the best ones: over the graph of any accepted links the search always returns;
  it gives at most four simple paths over healthy links and transit nodes, no two with the same first
  hop, in the order of their costs, each the cheapest over its first hop, and if the destination can
  be reached at all, the first is a cheapest path to it.\<close>

theorem candidate_paths_best:
  assumes "build_graph known links = Inr G" and "source \<noteq> destination"
  shows "\<exists>paths. candidate_paths source destination G transit = Some paths \<and> length paths \<le> MAX_CANDIDATE_ROUTES \<and>
    distinct (map (\<lambda>p. p ! 1) paths) \<and> sorted (map (path_cost G) paths) \<and>
    (\<forall>p\<in>set paths. route_path G transit source destination p \<and>
       (\<forall>q. route_path G transit source destination q \<and> q ! 1 = p ! 1 \<longrightarrow> path_cost G p \<le> path_cost G q)) \<and>
    (\<forall>q. route_path G transit source destination q \<longrightarrow> paths \<noteq> [] \<and> path_cost G (hd paths) \<le> path_cost G q)"
  using candidate_paths_ok [OF build_graph_ok [OF assms(1)] assms(2)] unfolding candidates_ok_def .

text \<open>C35. Compilation always returns, for any number of nodes; it succeeds only on valid topologies, and on every valid
  topology of up to 128 nodes: the checks of the compiled snapshots never refuse what the compiler itself built, and
  the labels never run out.\<close>

theorem compile_topology_total:
  assumes "ipnet_ok N"
  shows "\<exists>result. compile_topology N generation ep nodes links allow = Some result \<and>
    (is_ok result \<longrightarrow> topology_ok N generation ep nodes links allow) \<and>
    (length nodes \<le> 128 \<longrightarrow> (is_ok result \<longleftrightarrow> topology_ok N generation ep nodes links allow))"
proof -
  obtain result where r: "compile_topology N generation ep nodes links allow = Some result"
    using compile_selected_returns [of N generation ep nodes links allow None] by (auto simp: compile_topology_def)
  have "\<exists>G. valid_topology N generation ep nodes links allow G" if "is_ok result"
    using that r by (auto simp: is_ok_iff elim: compile_topology_Inr)
  moreover have "is_ok result" if "valid_topology N generation ep nodes links allow G" "length nodes \<le> 128" for G
    using valid_compiles [OF assms that] r by auto
  ultimately show ?thesis using r valid_topology_iff [OF assms] by blast
qed

text \<open>C36. A node that compiles only its own view gets the same snapshot as a full compilation would give it, labels
  included; a node that is not in the topology is refused.\<close>

theorem compile_local_eq:
  assumes "compile_topology N generation ep nodes links allow = Some (Inr t)"
  shows "compile_local_snapshot N generation ep nodes links allow n =
    Some (case topology_snapshot t n of Some s \<Rightarrow> Inr s | None \<Rightarrow> Inl (Err ''selected V2 topology node is absent''))"
proof -
  obtain G where v: "valid_topology N generation ep nodes links allow G" and cap: "length (topology_plan N nodes G) \<le> MAX_ROUTE_LABELS"
    and sn: "\<forall>n. topology_snapshot t n = (if n \<in> tn_node_id ` set nodes then Some (projr (planned_snapshot N generation ep nodes G allow n)) else None)"
      "\<forall>n\<in>tn_node_id ` set nodes. is_ok (planned_snapshot N generation ep nodes G allow n)"
    using assms by (rule compile_topology_Inr)
  show ?thesis
  proof (cases "n \<in> tn_node_id ` set nodes")
    case True
    then obtain s where "planned_snapshot N generation ep nodes G allow n = Inr s" using sn(2) by (auto simp: is_ok_iff)
    then show ?thesis using compile_local_planned [OF v cap True] sn(1) True by simp
  next
    case False
    then show ?thesis using compile_local_absent [OF v] sn(1) by simp
  qed
qed

section \<open>A concrete topology\<close>

text \<open>Three nodes in a line; the middle one is a transit node, the last one owns a prefix.\<close>

definition line_node :: "byte \<Rightarrow> node_id" where
  "line_node k = replicate 32 k"

definition line_src :: "ip_net topology_node" where
  "line_src = \<lparr> tn_node_id = line_node 1, tn_advertised_prefixes = [], tn_transit_enabled = False, tn_underlay_exclusion_prefixes = [] \<rparr>"

definition line_owner :: "ip_net topology_node" where
  "line_owner = \<lparr> tn_node_id = line_node 3, tn_advertised_prefixes = [net (V4 0x0A010000) 16], tn_transit_enabled = False,
     tn_underlay_exclusion_prefixes = [] \<rparr>"

definition line_nodes :: "ip_net topology_node list" where
  "line_nodes = [line_src, \<lparr> tn_node_id = line_node 2, tn_advertised_prefixes = [], tn_transit_enabled = True, tn_underlay_exclusion_prefixes = [] \<rparr>, line_owner]"

definition line_links :: "topology_link list" where
  "line_links = [\<lparr> tl_left = line_node 1, tl_right = line_node 2, tl_left_adjacency = 12, tl_right_adjacency = 21, tl_cost = 5,
       tl_healthy = True, tl_maximum_datagram_size = 1200 \<rparr>,
     \<lparr> tl_left = line_node 2, tl_right = line_node 3, tl_left_adjacency = 23, tl_right_adjacency = 32, tl_cost = 7,
       tl_healthy = True, tl_maximum_datagram_size = 1400 \<rparr>]"

lemma line_node_eq [simp]: "line_node a = line_node b \<longleftrightarrow> a = b"
  by (simp add: line_node_def)

lemma line_ok: "topology_ok ip_net_ops 1 7 line_nodes line_links False"
proof -
  have "links_ok (tn_node_id ` set line_nodes) line_links"
    by (auto simp: links_ok_def link_ok_def line_nodes_def line_links_def line_src_def line_owner_def link_ends_def link_pair_def HEADER_LEN_def)
  then show ?thesis
    by (simp add: topology_ok_def line_nodes_def line_src_def line_owner_def net_sel demo_masks del: masked_address.simps)
qed

lemma line_graph:
  obtains G where "build_graph (tn_node_id ` set line_nodes) line_links = Inr G" "valid_topology ip_net_ops 1 7 line_nodes line_links False G"
proof -
  obtain G where v: "valid_topology ip_net_ops 1 7 line_nodes line_links False G" using line_ok valid_topology_iff [OF ip_net_ok] by blast
  then show ?thesis using that by (simp add: valid_topology_def)
qed

lemma line_edges:
  assumes "build_graph known line_links = Inr G"
  shows "dl_peer ` set (edges G (line_node 1)) = {line_node 2}" "dl_peer ` set (edges G (line_node 2)) = {line_node 1, line_node 3}"
  unfolding set_eq_iff build_graph_peer [OF assms] by (auto simp: line_links_def)

lemma line_transit: "line_node 2 \<in> transit_set line_nodes"
  unfolding transit_set_def by (rule image_eqI [of _ _ "line_nodes ! 1"]) (simp_all add: line_nodes_def)

lemma line_path:
  assumes b: "build_graph known line_links = Inr G"
  shows "route_path G (transit_set line_nodes) (line_node 1) (line_node 3) p \<longleftrightarrow> p = [line_node 1, line_node 2, line_node 3]"
proof
  note peers = line_edges [OF b]
  assume p: "route_path G (transit_set line_nodes) (line_node 1) (line_node 3) p"
  then obtain x rest where x: "p = line_node 1 # x # rest" by (cases p rule: hops.cases) (auto simp: route_path_def)
  then have "x = line_node 2" using p peers(1) by (simp add: route_path_def)
  moreover obtain y ys where y: "rest = y # ys" using p x calculation by (cases rest) (auto simp: route_path_def)
  moreover have "y = line_node 3" using p x y calculation peers(2) by (auto simp: route_path_def)
  moreover have "ys = []" using p x y calculation by (cases ys rule: rev_cases) (auto simp: route_path_def)
  ultimately show "p = [line_node 1, line_node 2, line_node 3]" using x by simp
next
  assume "p = [line_node 1, line_node 2, line_node 3]"
  then show "route_path G (transit_set line_nodes) (line_node 1) (line_node 3) p"
    using line_edges [OF b] line_transit by (auto simp: route_path_def)
qed

theorem candidate_paths_best_witness:
  "\<exists>G paths. build_graph (tn_node_id ` set line_nodes) line_links = Inr G \<and>
    candidate_paths (line_node 1) (line_node 3) G (transit_set line_nodes) = Some paths \<and> hd paths = [line_node 1, line_node 2, line_node 3]"
proof -
  obtain G where b: "build_graph (tn_node_id ` set line_nodes) line_links = Inr G" by (rule line_graph)
  then show ?thesis using candidate_paths_best [OF b, of "line_node 1" "line_node 3" "transit_set line_nodes"] line_path [OF b] by fastforce
qed

theorem compile_topology_total_witness:
  "\<exists>t. compile_topology ip_net_ops 1 7 line_nodes line_links False = Some (Inr t)"
  using compile_topology_total [OF ip_net_ok, of 1 7 line_nodes line_links False] line_ok by (auto simp: line_nodes_def is_ok_iff)

theorem compile_local_eq_witness:
  "\<exists>s. compile_local_snapshot ip_net_ops 1 7 line_nodes line_links False (line_node 2) = Some (Inr s)"
proof -
  obtain G where v: "valid_topology ip_net_ops 1 7 line_nodes line_links False G" by (rule line_graph)
  then obtain t where t: "compile_topology ip_net_ops 1 7 line_nodes line_links False = Some (Inr t)"
    using valid_compiles [OF ip_net_ok v] by (auto simp: line_nodes_def)
  then have "topology_snapshot t (line_node 2) \<noteq> None"
    by (rule compile_topology_Inr) (simp add: line_nodes_def)
  then show ?thesis using compile_local_eq [OF t, of "line_node 2"] by auto
qed

lemma labelled_cell: "l \<noteq> 0 \<Longrightarrow> \<exists>bs h. decode_route_header bs = Inr h \<and> hdr_route_label h = l \<and> hdr_session_epoch h = 7 \<and> hdr_overlay_hop_limit h = 3"
proof -
  assume l: "l \<noteq> 0"
  let ?c = "demo_cell\<lparr> cell_route_label := l \<rparr>"
  have "validate_cell demo_cell = Inr ()" using demo_decodes by (simp only: decode_cell_Inr_iff)
  then have v: "validate_cell ?c = Inr ()" using l
    by (auto simp: validate_cell_def validate_cell_header_def result_iff demo_cell_def)
  have "length (encode_header (cell_flags ?c) (header_of ?c) @ encode_body (cell_body ?c)) \<le> MAX_CELL_BYTES"
    by (simp add: demo_cell_def cell_eval wire_eval)
  note d = decode_header_of [OF v refl this]
  have "hdr_route_label (header_of ?c) = l \<and> hdr_session_epoch (header_of ?c) = 7 \<and> hdr_overlay_hop_limit (header_of ?c) = 3"
    by (simp add: header_of_def demo_cell_def)
  with d show ?thesis by blast
qed

theorem mesh_delivers_witness:
  "\<exists>t s r bs bs' h'. compile_topology ip_net_ops 1 7 line_nodes line_links False = Some (Inr t) \<and>
    topology_snapshot t (line_node 1) = Some s \<and> lookup_destination s (V4 0x0A010304) = Inr r \<and>
    carries (topology_snapshot t) line_links (line_node 2) 21 bs [line_node 2, line_node 3] (LocalCell h' bs')"
proof -
  obtain G where b: "build_graph (tn_node_id ` set line_nodes) line_links = Inr G" and v: "valid_topology ip_net_ops 1 7 line_nodes line_links False G"
    by (rule line_graph)
  obtain t where t: "compile_topology ip_net_ops 1 7 line_nodes line_links False = Some (Inr t)"
    using valid_compiles [OF ip_net_ok v] by (auto simp: line_nodes_def)
  have ids: "tn_node_id line_src = line_node 1" "tn_node_id line_owner = line_node 3" by (simp_all add: line_src_def line_owner_def)
  have "line_src \<in> set line_nodes" "line_owner \<in> set line_nodes" "line_owner \<noteq> line_src"
    "\<not> (\<exists>x\<in>set (tn_underlay_exclusion_prefixes line_src). net_contains ip_net_ops x (V4 0x0A010304))"
    "net (V4 0x0A010000) 16 \<in> set (tn_advertised_prefixes line_owner)" "net_contains ip_net_ops (net (V4 0x0A010000) 16) (V4 0x0A010304)"
    by (simp_all add: line_nodes_def line_src_def line_owner_def net_sel same_prefix_def)
  from mesh_delivers [OF ip_net_ok t b this(1,4,2,5,6,3), unfolded ids line_path [OF b], OF refl]
  obtain s r incoming where m: "topology_snapshot t (line_node 1) = Some s" "lookup_destination s (V4 0x0A010304) = Inr r"
    "rr_route_label r \<noteq> 0" "rr_route_epoch r = 7" "other_end line_links (line_node 1) (rr_adjacency r) = Some (line_node 2, incoming)"
    "\<forall>bs h. decode_route_header bs = Inr h \<and> hdr_route_label h = rr_route_label r \<and> hdr_session_epoch h = rr_route_epoch r \<longrightarrow>
      1 < unat (hdr_overlay_hop_limit h) \<longrightarrow> (\<exists>bs' h'. carries (topology_snapshot t) line_links (line_node 2) incoming bs [line_node 2, line_node 3] (LocalCell h' bs'))"
    by fastforce
  have "incoming = 21" using m(5) by (auto simp: other_end_def line_links_def link_ends_def split: if_splits)
  then show ?thesis using t m labelled_cell [OF m(3)] by fastforce
qed

end
