(* ===== verification/Repair.thy ===== *)
theory Repair
  imports Cell Hash_Map Interfaces
begin

text \<open>
  Selective repair (\<open>src/src/protocol/v2/repair.rs\<close>): the request and response records with their
  codecs, and the sender's cache of encoded Cells from which requests are answered. The lemmas give
  the codecs' round trips, the cache's byte and stripe accounting, its time to live, and that an
  answer to a valid request always encodes and carries only requested Cells of the right stripe.
\<close>

section \<open>Keys, requests and responses\<close>

definition REQUEST_MAGIC :: bytes where "REQUEST_MAGIC = [0x46, 0x52, 0x51, 0x32]"
definition RESPONSE_MAGIC :: bytes where "RESPONSE_MAGIC = [0x46, 0x52, 0x53, 0x32]"
definition FIXED_KEY_BYTES :: nat where "FIXED_KEY_BYTES = 25"
definition MAX_REPAIR_CELLS :: nat where "MAX_REPAIR_CELLS = 32"

record repair_key =
  rk_class :: traffic_class
  rk_session_epoch :: u32
  rk_route_label :: u32
  rk_train_id :: u64
  rk_stripe_id :: u32

definition encode_key :: "repair_key \<Rightarrow> bytes" where
  "encode_key k = put_u8 (traffic_class_wire (rk_class k)) @ put_u32 (rk_session_epoch k) @
     put_u32 (rk_route_label k) @ put_u64 (rk_train_id k) @ put_u32 (rk_stripe_id k) @ put_u32 0"

definition decode_key :: "bytes \<Rightarrow> repair_key result" where
  "decode_key bs =
     ensure (FIXED_KEY_BYTES \<le> length bs) ''truncated V2 Repair key'' (
     bindR (if bs ! 0 = 1 then Inr Latency else if bs ! 0 = 2 then Inr Bulk
            else Inl (Err ''unknown V2 Repair traffic class'')) (\<lambda>class.
     let key = \<lparr> rk_class = class, rk_session_epoch = get_u32 (slice 1 5 bs),
                 rk_route_label = get_u32 (slice 5 9 bs), rk_train_id = get_u64 (slice 9 17 bs),
                 rk_stripe_id = get_u32 (slice 17 21 bs) \<rparr> in
     ensure (slice 21 25 bs = [0, 0, 0, 0]) ''unsupported V2 Repair key flags'' (
     ensure (rk_session_epoch key \<noteq> 0) ''V2 Repair epoch zero is reserved'' (
     ensure (rk_route_label key \<noteq> 0) ''V2 Repair route label zero is reserved'' (
     ensure (rk_train_id key \<noteq> 0) ''V2 Repair train id zero is reserved'' (
     ensure (rk_stripe_id key \<noteq> 0) ''V2 Repair stripe id zero is reserved'' (Inr key)))))))"

record repair_request =
  rq_key :: repair_key
  rq_request_id :: u64
  rq_missing_sequences :: "u16 list"

text \<open>\<open>windows(2).all(|pair| pair[0] < pair[1])\<close>.\<close>

fun increasing :: "u16 list \<Rightarrow> bool" where
  "increasing (a # b # rest) = (a < b \<and> increasing (b # rest))"
| "increasing _ = True"

definition validate_sequences :: "u16 list \<Rightarrow> unit result" where
  "validate_sequences qs =
     ensure (qs \<noteq> [] \<and> length qs \<le> MAX_REPAIR_CELLS) ''invalid V2 Repair missing Cell count'' (
     ensure (increasing qs) ''V2 Repair Cell sequences are not strictly increasing'' (Inr ()))"

definition encode_request :: "repair_request \<Rightarrow> bytes result" where
  "encode_request r =
     bindR (validate_sequences (rq_missing_sequences r)) (\<lambda>_.
     ensure (rq_request_id r \<noteq> 0) ''V2 Repair request id zero is reserved'' (
     Inr (REQUEST_MAGIC @ encode_key (rq_key r) @ put_u64 (rq_request_id r) @
       put_u16 (word_of_nat (length (rq_missing_sequences r))) @ put_u16 0 @
       concat (map put_u16 (rq_missing_sequences r)))))"

text \<open>\<open>as_chunks::<2>\<close> read as big-endian \<open>u16\<close>.\<close>

fun read_u16s :: "bytes \<Rightarrow> u16 list" where
  "read_u16s (a # b # rest) = get_u16 [a, b] # read_u16s rest"
| "read_u16s _ = []"

definition decode_request :: "bytes \<Rightarrow> repair_request result" where
  "decode_request bs =
     ensure (4 + FIXED_KEY_BYTES + 12 \<le> length bs) ''truncated V2 Repair request'' (
     ensure (slice 0 4 bs = REQUEST_MAGIC) ''invalid V2 Repair request magic'' (
     bindR (decode_key (slice 4 (4 + FIXED_KEY_BYTES) bs)) (\<lambda>key.
     let cursor = 4 + FIXED_KEY_BYTES; request_id = get_u64 (slice cursor (cursor + 8) bs) in
     ensure (request_id \<noteq> 0) ''V2 Repair request id zero is reserved'' (
     let count = unat (get_u16 (slice (cursor + 8) (cursor + 10) bs)) in
     ensure (slice (cursor + 10) (cursor + 12) bs = [0, 0]) ''unsupported V2 Repair request flags'' (
     ensure (length bs = cursor + 12 + count * 2) ''invalid V2 Repair request length'' (
     let missing = read_u16s (drop (cursor + 12) bs) in
     bindR (validate_sequences missing) (\<lambda>_.
     Inr \<lparr> rq_key = key, rq_request_id = request_id, rq_missing_sequences = missing \<rparr>)))))))"

record repair_response =
  rp_key :: repair_key
  rp_request_id :: u64
  rp_cells :: "bytes list"

definition carries_records :: "cell_v2 \<Rightarrow> bool" where
  "carries_records c = (case cell_body c of Records _ \<Rightarrow> True | Parity _ \<Rightarrow> False)"

definition validate_repaired :: "repair_key \<Rightarrow> bytes \<Rightarrow> unit result" where
  "validate_repaired key bs =
     bindR (decode_cell bs) (\<lambda>c.
     ensure (cell_class c = rk_class key \<and> cell_session_epoch c = rk_session_epoch key \<and>
       cell_route_label c = rk_route_label key \<and> cell_train_id c = rk_train_id key \<and>
       cell_stripe_id c = rk_stripe_id key \<and> carries_records c)
       ''repaired V2 Cell identity mismatch'' (Inr ()))"

fun response_capacity :: "nat \<Rightarrow> bytes list \<Rightarrow> nat result" where
  "response_capacity n [] = Inr n"
| "response_capacity n (b # bs) =
     (case checked_add n (2 + length b) of
        None \<Rightarrow> Inl (Err ''V2 Repair response length overflow'')
      | Some n \<Rightarrow> response_capacity n bs)"

fun encode_repaired :: "repair_key \<Rightarrow> bytes list \<Rightarrow> bytes result" where
  "encode_repaired key [] = Inr []"
| "encode_repaired key (b # bs) =
     ensure (b \<noteq> [] \<and> length b \<le> MAX_CELL_BYTES) ''invalid repaired V2 Cell length'' (
     bindR (validate_repaired key b) (\<lambda>_.
     bindR (encode_repaired key bs) (\<lambda>rest. Inr (put_u16 (word_of_nat (length b)) @ b @ rest))))"

definition encode_response :: "repair_response \<Rightarrow> bytes result" where
  "encode_response r =
     ensure (rp_request_id r \<noteq> 0) ''V2 Repair response id zero is reserved'' (
     ensure (length (rp_cells r) \<le> MAX_REPAIR_CELLS) ''too many V2 Repair response Cells'' (
     bindR (response_capacity (4 + FIXED_KEY_BYTES + 12) (rp_cells r)) (\<lambda>_.
     bindR (encode_repaired (rp_key r) (rp_cells r)) (\<lambda>cells.
     Inr (RESPONSE_MAGIC @ encode_key (rp_key r) @ put_u64 (rp_request_id r) @
       put_u16 (word_of_nat (length (rp_cells r))) @ put_u16 0 @ cells)))))"

fun decode_repaired :: "repair_key \<Rightarrow> bytes \<Rightarrow> nat \<Rightarrow> nat \<Rightarrow> (bytes list \<times> nat) result" where
  "decode_repaired key bs 0 cursor = Inr ([], cursor)"
| "decode_repaired key bs (Suc n) cursor =
     ensure (cursor + 2 \<le> length bs) ''truncated V2 repaired Cell length'' (
     let len = unat (get_u16 (slice cursor (cursor + 2) bs)); cursor = cursor + 2 in
     ensure (0 < len \<and> cursor + len \<le> length bs) ''truncated V2 repaired Cell'' (
     let cell = slice cursor (cursor + len) bs in
     bindR (validate_repaired key cell) (\<lambda>_.
     bindR (decode_repaired key bs n (cursor + len)) (\<lambda>(cells, cursor). Inr (cell # cells, cursor)))))"

definition decode_response :: "bytes \<Rightarrow> repair_response result" where
  "decode_response bs =
     ensure (4 + FIXED_KEY_BYTES + 12 \<le> length bs) ''truncated V2 Repair response'' (
     ensure (slice 0 4 bs = RESPONSE_MAGIC) ''invalid V2 Repair response magic'' (
     bindR (decode_key (slice 4 (4 + FIXED_KEY_BYTES) bs)) (\<lambda>key.
     let cursor = 4 + FIXED_KEY_BYTES; request_id = get_u64 (slice cursor (cursor + 8) bs) in
     ensure (request_id \<noteq> 0) ''V2 Repair response id zero is reserved'' (
     let count = unat (get_u16 (slice (cursor + 8) (cursor + 10) bs)) in
     ensure (count \<le> MAX_REPAIR_CELLS) ''too many V2 repaired Cells'' (
     ensure (slice (cursor + 10) (cursor + 12) bs = [0, 0]) ''unsupported V2 Repair response flags'' (
     bindR (decode_repaired key bs count (cursor + 12)) (\<lambda>(cells, cursor).
     ensure (cursor = length bs) ''trailing V2 Repair response bytes'' (
     Inr \<lparr> rp_key = key, rp_request_id = request_id, rp_cells = cells \<rparr>))))))))"

datatype repair_control = Request repair_request | Response repair_response

definition is_request :: "bytes \<Rightarrow> bool" where "is_request bs = (take 4 bs = REQUEST_MAGIC)"
definition is_response :: "bytes \<Rightarrow> bool" where "is_response bs = (take 4 bs = RESPONSE_MAGIC)"

definition decode_control :: "bytes \<Rightarrow> repair_control result" where
  "decode_control bs =
     ensure (4 \<le> length bs) ''truncated V2 Repair control record'' (
     if slice 0 4 bs = REQUEST_MAGIC then bindR (decode_request bs) (\<lambda>r. Inr (Request r))
     else if slice 0 4 bs = RESPONSE_MAGIC then bindR (decode_response bs) (\<lambda>r. Inr (Response r))
     else Inl (Err ''unknown V2 Repair control record''))"

section \<open>The cache\<close>

record cached_stripe =
  cs_created :: instant
  cs_cells :: "(u16 \<times> bytes) list"
  cs_bytes :: nat

record repair_cache =
  rc_ttl :: duration
  rc_maximum_bytes :: nat
  rc_maximum_stripes :: nat
  rc_stripes :: "(repair_key \<times> cached_stripe) list"
  rc_order :: "(repair_key \<times> instant) list"
  rc_bytes :: nat

definition cache_new :: "duration \<Rightarrow> nat \<Rightarrow> nat \<Rightarrow> repair_cache result" where
  "cache_new ttl maximum_bytes maximum_stripes =
     ensure (ttl \<noteq> 0) ''V2 Repair cache TTL is zero'' (
     ensure (0 < maximum_stripes) ''V2 Repair cache stripe limit is zero'' (
     Inr \<lparr> rc_ttl = ttl, rc_maximum_bytes = maximum_bytes, rc_maximum_stripes = maximum_stripes,
           rc_stripes = [], rc_order = [], rc_bytes = 0 \<rparr>))"

definition cache_remove :: "repair_key \<Rightarrow> repair_cache \<Rightarrow> repair_cache" where
  "cache_remove key c =
     (let c = (case map_of (rc_stripes c) key of
                 None \<Rightarrow> c
               | Some s \<Rightarrow> c\<lparr> rc_stripes := AList.delete key (rc_stripes c), rc_bytes := rc_bytes c - cs_bytes s \<rparr>) in
      c\<lparr> rc_order := filter (\<lambda>(candidate, _). candidate \<noteq> key) (rc_order c) \<rparr>)"

definition live_generation :: "repair_key \<Rightarrow> instant \<Rightarrow> repair_cache \<Rightarrow> bool" where
  "live_generation key generation c =
     (case map_of (rc_stripes c) key of None \<Rightarrow> False | Some s \<Rightarrow> cs_created s = generation)"

lemma cache_remove_order: "length (rc_order (cache_remove key c)) \<le> length (rc_order c)"
  by (simp add: cache_remove_def Let_def split: option.splits)

function cache_expire_loop :: "instant \<Rightarrow> repair_cache \<Rightarrow> nat \<Rightarrow> repair_cache \<times> nat" where
  "cache_expire_loop now c expired =
     (case rc_order c of
        [] \<Rightarrow> (c, expired)
      | (key, generation) # rest \<Rightarrow>
          if (case map_of (rc_stripes c) key of
                None \<Rightarrow> True
              | Some s \<Rightarrow> cs_created s \<noteq> generation \<or> rc_ttl c \<le> now - cs_created s)
          then
            let c1 = c\<lparr> rc_order := rest \<rparr> in
            if live_generation key generation c1 then cache_expire_loop now (cache_remove key c1) (expired + 1)
            else cache_expire_loop now c1 expired
          else (c, expired))"
  by pat_completeness auto
termination
  by (relation "measure (\<lambda>(now, c, n). length (rc_order c))")
    (auto intro: le_less_trans [OF cache_remove_order])

declare cache_expire_loop.simps [simp del]

definition cache_expire :: "instant \<Rightarrow> repair_cache \<Rightarrow> repair_cache \<times> nat" where
  "cache_expire now c = cache_expire_loop now c 0"

function evict_oldest :: "repair_cache \<Rightarrow> repair_cache \<times> bool" where
  "evict_oldest c =
     (case rc_order c of
        [] \<Rightarrow> (c, False)
      | (key, generation) # rest \<Rightarrow>
          let c = c\<lparr> rc_order := rest \<rparr> in
          if live_generation key generation c then (cache_remove key c, True) else evict_oldest c)"
  by pat_completeness auto
termination
  by (relation "measure (\<lambda>c. length (rc_order c))") auto

declare evict_oldest.simps [simp del]

lemma evict_oldest_order: "evict_oldest c = (c', True) \<Longrightarrow> length (rc_order c') < length (rc_order c)"
proof (induction c rule: evict_oldest.induct)
  case (1 c)
  show ?case
  proof (cases "rc_order c")
    case Nil
    with 1(2) show ?thesis by (simp add: evict_oldest.simps [of c])
  next
    case (Cons e rest)
    obtain key generation where e: "e = (key, generation)" by fastforce
    let ?c = "c\<lparr> rc_order := rest \<rparr>"
    show ?thesis
    proof (cases "live_generation key generation ?c")
      case True
      with 1(2) Cons e have "c' = cache_remove key ?c" by (simp add: evict_oldest.simps [of c])
      with cache_remove_order [of key ?c] Cons show ?thesis by simp
    next
      case False
      with 1(2) Cons e have "evict_oldest ?c = (c', True)" by (simp add: evict_oldest.simps [of c])
      with 1(1) [OF Cons e [symmetric] refl False] Cons show ?thesis by simp
    qed
  qed
qed

definition cache_full :: "nat \<Rightarrow> repair_cache \<Rightarrow> bool" where
  "cache_full bytes c \<longleftrightarrow> rc_maximum_bytes c < sat_add (rc_bytes c) bytes \<or> rc_maximum_stripes c \<le> length (rc_stripes c)"

function cache_make_room :: "nat \<Rightarrow> repair_cache \<Rightarrow> repair_cache" where
  "cache_make_room bytes c =
     (if cache_full bytes c then
        (case evict_oldest c of (c', True) \<Rightarrow> cache_make_room bytes c' | (c', False) \<Rightarrow> c')
      else c)"
  by pat_completeness auto
termination
  by (relation "measure (\<lambda>(n, c). length (rc_order c))") (auto intro: evict_oldest_order [OF sym])

declare cache_make_room.simps [simp del]

definition cell_repair_key :: "cell_v2 \<Rightarrow> repair_key" where
  "cell_repair_key c = \<lparr> rk_class = cell_class c, rk_session_epoch = cell_session_epoch c,
     rk_route_label = cell_route_label c, rk_train_id = cell_train_id c, rk_stripe_id = cell_stripe_id c \<rparr>"

fun group_cells :: "bytes list \<Rightarrow> (repair_key \<times> (u16 \<times> bytes) list) list \<Rightarrow>
    (repair_key \<times> (u16 \<times> bytes) list) list result" where
  "group_cells [] grouped = Inr grouped"
| "group_cells (b # bs) grouped =
     bindR (decode_cell b) (\<lambda>c.
     if cell_stripe_id c = 0 \<or> \<not> carries_records c then group_cells bs grouped
     else
       let key = cell_repair_key c;
           cells = (case map_of grouped key of None \<Rightarrow> [] | Some cells \<Rightarrow> cells) in
       group_cells bs (AList.update key (AList.update (cell_sequence c) b cells) grouped))"

text \<open>The source iterates the grouped stripes in hash order; the model fixes the order of first
  appearance. The lemmas about \<open>insert_groups\<close> hold for every list of groups, so for every order.\<close>

fun insert_groups :: "instant \<Rightarrow> (repair_key \<times> (u16 \<times> bytes) list) list \<Rightarrow> repair_cache \<Rightarrow> nat \<Rightarrow> repair_cache \<times> nat" where
  "insert_groups now [] c inserted = (c, inserted)"
| "insert_groups now ((key, cells) # groups) c inserted =
     (let bytes = alist_sum length cells in
      if rc_maximum_bytes c < bytes then insert_groups now groups c inserted
      else
        let c = cache_make_room bytes (cache_remove key c) in
        if cache_full bytes c then insert_groups now groups c inserted
        else
          insert_groups now groups
            (c\<lparr> rc_stripes := AList.update key \<lparr> cs_created = now, cs_cells = cells, cs_bytes = bytes \<rparr> (rc_stripes c),
                rc_order := rc_order c @ [(key, now)], rc_bytes := rc_bytes c + bytes \<rparr>) (inserted + 1))"

definition cache_insert_at :: "bytes list \<Rightarrow> instant \<Rightarrow> repair_cache \<Rightarrow> repair_cache \<times> nat result" where
  "cache_insert_at cells now c =
     (let c = fst (cache_expire now c) in
      case group_cells cells [] of
        Inl e \<Rightarrow> (c, Inl e)
      | Inr grouped \<Rightarrow> (case insert_groups now grouped c 0 of (c, n) \<Rightarrow> (c, Inr n)))"

definition cache_respond :: "repair_request \<Rightarrow> instant \<Rightarrow> repair_cache \<Rightarrow> repair_cache \<times> repair_response" where
  "cache_respond r now c =
     (let c = fst (cache_expire now c);
          cells = (case map_of (rc_stripes c) (rq_key r) of
                     None \<Rightarrow> []
                   | Some s \<Rightarrow> List.map_filter (map_of (cs_cells s)) (rq_missing_sequences r)) in
      (c, \<lparr> rp_key = rq_key r, rp_request_id = rq_request_id r, rp_cells = cells \<rparr>))"

definition cache_resize :: "nat \<Rightarrow> instant \<Rightarrow> repair_cache \<Rightarrow> repair_cache" where
  "cache_resize maximum now c = (fst (cache_expire now c))\<lparr> rc_maximum_bytes := maximum \<rparr>"

definition cache_set_ttl :: "duration \<Rightarrow> repair_cache \<Rightarrow> repair_cache" where
  "cache_set_ttl ttl c = (if ttl \<noteq> 0 then c\<lparr> rc_ttl := ttl \<rparr> else c)"


section \<open>Codecs\<close>

definition key_valid :: "repair_key \<Rightarrow> bool" where
  "key_valid k \<longleftrightarrow> rk_session_epoch k \<noteq> 0 \<and> rk_route_label k \<noteq> 0 \<and> rk_train_id k \<noteq> 0 \<and> rk_stripe_id k \<noteq> 0"

lemma repair_magic [simp]: "length REQUEST_MAGIC = 4" "length RESPONSE_MAGIC = 4" "REQUEST_MAGIC \<noteq> RESPONSE_MAGIC"
  by (simp_all add: REQUEST_MAGIC_def RESPONSE_MAGIC_def)

lemma encode_key_length [simp]: "length (encode_key k) = 25"
  by (simp add: encode_key_def)


lemma decode_encode_key: "key_valid k \<Longrightarrow> decode_key (encode_key k) = Inr k"
proof -
  assume "key_valid k"
  moreover have "encode_key k ! 0 = traffic_class_wire (rk_class k)" by (simp add: encode_key_def put_u8_def)
  moreover have "slice 21 25 (encode_key k) = [0, 0, 0, 0]"
    by (simp add: encode_key_def slice_layout put_zero)
  moreover have "get_u32 (slice 1 5 (encode_key k)) = rk_session_epoch k" "get_u32 (slice 5 9 (encode_key k)) = rk_route_label k"
    "get_u64 (slice 9 17 (encode_key k)) = rk_train_id k" "get_u32 (slice 17 21 (encode_key k)) = rk_stripe_id k"
    by (simp_all add: encode_key_def slice_layout)
  ultimately show ?thesis
    by (cases "rk_class k") (simp_all add: decode_key_def FIXED_KEY_BYTES_def key_valid_def)
qed

lemma encode_decode_key: "decode_key bs = Inr k \<Longrightarrow> length bs = 25 \<Longrightarrow> encode_key k = bs \<and> key_valid k"
proof -
  assume dec: "decode_key bs = Inr k" and len: "length bs = 25"
  have join: "slice 0 1 bs @ slice 1 5 bs @ slice 5 9 bs @ slice 9 17 bs @ slice 17 21 bs @ slice 21 25 bs = bs"
    by (simp add: slice_join slice_full len del: One_nat_def)
  have "slice 0 1 bs = [bs ! 0]" using slice_one [of 0 bs] len by simp
  moreover have "slice 21 25 bs = [0, 0, 0, 0]" using dec by (auto simp: decode_key_def result_iff Let_def)
  moreover have "put_u8 (traffic_class_wire (rk_class k)) = [bs ! 0]"
    using dec by (auto simp: decode_key_def result_iff Let_def put_u8_def split: if_splits)
  moreover have "rk_session_epoch k = get_u32 (slice 1 5 bs)" "rk_route_label k = get_u32 (slice 5 9 bs)"
    "rk_train_id k = get_u64 (slice 9 17 bs)" "rk_stripe_id k = get_u32 (slice 17 21 bs)" "key_valid k"
    using dec by (auto simp: decode_key_def result_iff Let_def key_valid_def)
  ultimately show ?thesis
    using join by (simp add: encode_key_def put_get_u32 put_get_u64 len put_zero)
qed

text \<open>The header that requests and responses share.\<close>

lemma control_layout:
  assumes "length M = 4" "bs = M @ encode_key k @ put_u64 i @ put_u16 n @ put_u16 0 @ tail"
  shows "slice 0 4 bs = M" "slice 4 29 bs = encode_key k" "get_u64 (slice 29 37 bs) = i" "get_u16 (slice 37 39 bs) = n"
    "slice 39 41 bs = [0, 0]" "drop 41 bs = tail" "length bs = 41 + length tail"
  using assms by (simp_all add: slice_layout) (simp add: put_zero)

lemma control_split:
  assumes "41 \<le> length bs" "slice 39 41 bs = [0, 0]"
  shows "slice 0 4 bs @ slice 4 29 bs @ put_u64 (get_u64 (slice 29 37 bs)) @ put_u16 (get_u16 (slice 37 39 bs)) @
    put_u16 0 @ drop 41 bs = bs"
proof -
  have "put_u64 (get_u64 (slice 29 37 bs)) = slice 29 37 bs" "put_u16 (get_u16 (slice 37 39 bs)) = slice 37 39 bs"
    "put_u16 0 = slice 39 41 bs"
    using assms by (simp_all add: put_get_u64 put_get_u16 put_zero)
  then show ?thesis
    using assms(1) by (simp add: slice_drop [symmetric] slice_join) (simp add: slice_full)
qed

lemma read_put_u16s [simp]: "read_u16s (concat (map put_u16 qs)) = qs"
proof (induction qs)
  case (Cons q qs)
  obtain a b where ab: "put_u16 q = [a, b]" by (simp add: put_u16_def be_of_nat_eval)
  then have "get_u16 [a, b] = q" by (metis get_put_u16)
  with Cons ab show ?case by simp
qed simp

lemma put_read_u16s: "length bs = 2 * n \<Longrightarrow> concat (map put_u16 (read_u16s bs)) = bs \<and> length (read_u16s bs) = n"
proof (induction n arbitrary: bs)
  case (Suc n)
  then obtain a b rest where bs: "bs = a # b # rest" "length rest = 2 * n"
    by (cases bs; cases "tl bs") auto
  with Suc.IH [OF bs(2)] put_get_u16 [of "[a, b]"] show ?case by simp
qed simp

lemma concat_put_u16s_length [simp]: "length (concat (map put_u16 qs)) = 2 * length qs"
  by (induction qs) auto

lemma decode_request_iff: "decode_request bs = Inr r \<longleftrightarrow> encode_request r = Inr bs \<and> key_valid (rq_key r)"
proof
  assume "encode_request r = Inr bs \<and> key_valid (rq_key r)"
  then have val: "validate_sequences (rq_missing_sequences r) = Inr ()" and id: "rq_request_id r \<noteq> 0" and kv: "key_valid (rq_key r)"
    and bs: "bs = REQUEST_MAGIC @ encode_key (rq_key r) @ put_u64 (rq_request_id r) @
       put_u16 (word_of_nat (length (rq_missing_sequences r))) @ put_u16 0 @ concat (map put_u16 (rq_missing_sequences r))"
    by (auto simp: encode_request_def result_iff)
  note lay = control_layout [OF _ bs]
  have "length (rq_missing_sequences r) \<le> 64" using val by (simp add: validate_sequences_def result_iff MAX_REPAIR_CELLS_def)
  then show "decode_request bs = Inr r"
    using lay val id decode_encode_key [OF kv]
    by (simp add: decode_request_def FIXED_KEY_BYTES_def unat_small_u16)
next
  assume dec: "decode_request bs = Inr r"
  let ?n = "unat (get_u16 (slice 37 39 bs))"
  have len: "41 \<le> length bs" "length bs = 41 + ?n * 2" and z: "slice 39 41 bs = [0, 0]" and m: "slice 0 4 bs = REQUEST_MAGIC"
    and key: "decode_key (slice 4 29 bs) = Inr (rq_key r)" and id: "rq_request_id r = get_u64 (slice 29 37 bs)" "rq_request_id r \<noteq> 0"
    and miss: "rq_missing_sequences r = read_u16s (drop 41 bs)" and val: "validate_sequences (read_u16s (drop 41 bs)) = Inr ()"
    using dec by (auto simp: decode_request_def FIXED_KEY_BYTES_def result_iff Let_def)
  have k: "encode_key (rq_key r) = slice 4 29 bs" "key_valid (rq_key r)"
    using encode_decode_key [OF key] len(1) by simp_all
  have "length (drop 41 bs) = 2 * ?n" using len(2) by simp
  note rd = put_read_u16s [OF this]
  have "put_u16 (word_of_nat (length (rq_missing_sequences r))) = put_u16 (get_u16 (slice 37 39 bs))"
    using rd miss by simp
  with control_split [OF len(1) z] rd miss val id k m show "encode_request r = Inr bs \<and> key_valid (rq_key r)"
    by (simp add: encode_request_def)
qed

lemma encode_repaired_decode:
  assumes "encode_repaired key cells = Inr enc" "drop cursor bs = enc @ rest" "cursor \<le> length bs"
  shows "decode_repaired key bs (length cells) cursor = Inr (cells, cursor + length enc)"
  using assms
proof (induction cells arbitrary: enc cursor)
  case (Cons b cells)
  obtain enc' where ok: "b \<noteq> []" "length b \<le> MAX_CELL_BYTES" "validate_repaired key b = Inr ()"
    and rec: "encode_repaired key cells = Inr enc'" and enc: "enc = put_u16 (word_of_nat (length b)) @ b @ enc'"
    using Cons.prems(1) by (auto simp: result_iff)
  have dr: "drop cursor bs = put_u16 (word_of_nat (length b)) @ b @ enc' @ rest" using Cons.prems(2) enc by simp
  have len: "unat (word_of_nat (length b) :: u16) = length b"
    using ok(2) by (intro unat_u16_of_nat) (simp add: MAX_CELL_BYTES_def u16_max_def)
  have s1: "slice cursor (cursor + 2) bs = put_u16 (word_of_nat (length b))" by (simp add: slice_def dr)
  have "drop (cursor + 2) bs = b @ enc' @ rest"
    using arg_cong [OF dr, of "drop 2"] by (simp add: add.commute)
  then have s2: "slice (cursor + 2) (cursor + 2 + length b) bs = b" and
      dr2: "drop (cursor + 2 + length b) bs = enc' @ rest"
    by (simp add: slice_def) (metis add.commute append_eq_conv_conj drop_drop \<open>drop (cursor + 2) bs = b @ enc' @ rest\<close>)
  have total: "length bs = cursor + 2 + length b + length (enc' @ rest)"
    using arg_cong [OF dr, of length] Cons.prems(3) by simp
  from Cons.IH [OF rec dr2] total s1 s2 len ok show ?case by (simp add: enc add.assoc)
qed simp

lemma decode_repaired_encode:
  assumes "decode_repaired key bs n cursor = Inr (cells, end')" "cursor \<le> length bs"
  shows "length cells = n \<and> encode_repaired key cells = Inr (slice cursor end' bs) \<and> cursor \<le> end' \<and> end' \<le> length bs \<and>
    list_all (\<lambda>b. length b \<le> MAX_CELL_BYTES) cells"
  using assms
proof (induction n arbitrary: cursor cells)
  case (Suc n)
  define len where "len = unat (get_u16 (slice cursor (cursor + 2) bs))"
  define b where "b = slice (cursor + 2) (cursor + 2 + len) bs"
  obtain rest where fits: "cursor + 2 \<le> length bs" "0 < len" "cursor + 2 + len \<le> length bs"
    and val: "validate_repaired key b = Inr ()" and rec: "decode_repaired key bs n (cursor + 2 + len) = Inr (rest, end')"
    and cells: "cells = b # rest"
    using Suc.prems(1) by (auto simp: result_iff Let_def len_def b_def)
  from Suc.IH [OF rec fits(3)] have IH: "length rest = n" "encode_repaired key rest = Inr (slice (cursor + 2 + len) end' bs)"
    "cursor + 2 + len \<le> end'" "end' \<le> length bs" "list_all (\<lambda>b. length b \<le> MAX_CELL_BYTES) rest" by blast+
  have lb: "length b = len" using fits by (simp add: b_def)
  have small: "len \<le> MAX_CELL_BYTES" unfolding len_def MAX_CELL_BYTES_def using unat_u16_le by (simp add: u16_max_def)
  have "put_u16 (word_of_nat (length b)) = slice cursor (cursor + 2) bs"
    using fits(1) by (simp add: lb len_def put_get_u16)
  then have "put_u16 (word_of_nat (length b)) @ b @ slice (cursor + 2 + len) end' bs = slice cursor end' bs"
    using IH(3) by (simp add: b_def slice_join)
  with IH val fits lb small show ?case by (auto simp: cells)
qed (simp add: slice_def)

lemma response_capacity_ok:
  "n + sum_list (map (\<lambda>b. 2 + length b) cells) \<le> usize_max \<Longrightarrow>
    response_capacity n cells = Inr (n + sum_list (map (\<lambda>b. 2 + length b) cells))"
  by (induction cells arbitrary: n) (auto simp: checked_add_def)

lemma repaired_total:
  "list_all (\<lambda>b. length b \<le> MAX_CELL_BYTES) cells \<Longrightarrow>
    sum_list (map (\<lambda>b. 2 + length b) cells) \<le> length cells * (2 + MAX_CELL_BYTES)"
  by (induction cells) auto

lemma decode_response_iff: "decode_response bs = Inr r \<longleftrightarrow> encode_response r = Inr bs \<and> key_valid (rp_key r)"
proof
  assume "encode_response r = Inr bs \<and> key_valid (rp_key r)"
  then obtain cells where id: "rp_request_id r \<noteq> 0" and n: "length (rp_cells r) \<le> MAX_REPAIR_CELLS" and kv: "key_valid (rp_key r)"
    and cells: "encode_repaired (rp_key r) (rp_cells r) = Inr cells"
    and bs: "bs = RESPONSE_MAGIC @ encode_key (rp_key r) @ put_u64 (rp_request_id r) @
       put_u16 (word_of_nat (length (rp_cells r))) @ put_u16 0 @ cells"
    by (auto simp: encode_response_def result_iff)
  note lay = control_layout [OF _ bs]
  have n': "unat (word_of_nat (length (rp_cells r)) :: u16) = length (rp_cells r)"
    using n by (intro unat_small_u16) (simp add: MAX_REPAIR_CELLS_def)
  have "decode_repaired (rp_key r) bs (length (rp_cells r)) 41 = Inr (rp_cells r, 41 + length cells)"
    using lay(6,7) by (intro encode_repaired_decode [OF cells, where rest = "[]"]) simp_all
  then show "decode_response bs = Inr r"
    using lay id n n' decode_encode_key [OF kv]
    by (simp add: decode_response_def FIXED_KEY_BYTES_def)
next
  assume dec: "decode_response bs = Inr r"
  let ?n = "unat (get_u16 (slice 37 39 bs))"
  have len: "41 \<le> length bs" and z: "slice 39 41 bs = [0, 0]" and m: "slice 0 4 bs = RESPONSE_MAGIC"
    and key: "decode_key (slice 4 29 bs) = Inr (rp_key r)" and id: "rp_request_id r = get_u64 (slice 29 37 bs)" "rp_request_id r \<noteq> 0"
    and n: "?n \<le> MAX_REPAIR_CELLS" and cells: "decode_repaired (rp_key r) bs ?n 41 = Inr (rp_cells r, length bs)"
    using dec by (auto simp: decode_response_def FIXED_KEY_BYTES_def result_iff Let_def split: prod.splits)
  have k: "encode_key (rp_key r) = slice 4 29 bs" "key_valid (rp_key r)"
    using encode_decode_key [OF key] len by simp_all
  note c = decode_repaired_encode [OF cells len]
  have "sum_list (map (\<lambda>b. 2 + length b) (rp_cells r)) \<le> length (rp_cells r) * (2 + MAX_CELL_BYTES)"
    using c by (intro repaired_total) blast
  also have "\<dots> \<le> MAX_REPAIR_CELLS * (2 + MAX_CELL_BYTES)" using c n by (intro mult_le_mono1) simp
  finally have "is_ok (response_capacity 41 (rp_cells r))"
    using response_capacity_ok [of 41 "rp_cells r"] by (simp add: MAX_REPAIR_CELLS_def MAX_CELL_BYTES_def usize_max_def)
  then obtain cap where cap: "response_capacity 41 (rp_cells r) = Inr cap" by (auto simp: is_ok_iff)
  have "put_u16 (word_of_nat (length (rp_cells r))) = put_u16 (get_u16 (slice 37 39 bs))" using c by simp
  with control_split [OF len z] c id k m n cap show "encode_response r = Inr bs \<and> key_valid (rp_key r)"
    by (simp add: encode_response_def FIXED_KEY_BYTES_def slice_drop)
qed


section \<open>Cache invariant\<close>

definition cached_cells_ok :: "repair_key \<Rightarrow> (u16 \<times> bytes) list \<Rightarrow> bool" where
  "cached_cells_ok k cells \<longleftrightarrow> distinct (map fst cells) \<and>
     (\<forall>(q, b)\<in>set cells. \<exists>c. decode_cell b = Inr c \<and> cell_repair_key c = k \<and> cell_sequence c = q \<and> carries_records c)"

definition stripe_ok :: "repair_key \<times> cached_stripe \<Rightarrow> bool" where
  "stripe_ok e \<longleftrightarrow> cached_cells_ok (fst e) (cs_cells (snd e)) \<and> cs_bytes (snd e) = alist_sum length (cs_cells (snd e))"

definition cache_ok :: "nat \<Rightarrow> repair_cache \<Rightarrow> bool" where
  "cache_ok B c \<longleftrightarrow> distinct (map fst (rc_stripes c)) \<and> list_all stripe_ok (rc_stripes c) \<and>
     distinct (map fst (rc_order c)) \<and> set (rc_order c) = (\<lambda>(k, s). (k, cs_created s)) ` set (rc_stripes c) \<and>
     rc_bytes c = alist_sum cs_bytes (rc_stripes c) \<and> rc_bytes c \<le> B \<and> rc_maximum_bytes c \<le> B \<and> B < usize_max \<and>
     length (rc_stripes c) \<le> rc_maximum_stripes c"

definition cache_sub :: "repair_cache \<Rightarrow> repair_cache \<Rightarrow> bool" where
  "cache_sub c c' \<longleftrightarrow> rc_maximum_bytes c' = rc_maximum_bytes c \<and> rc_maximum_stripes c' = rc_maximum_stripes c \<and> rc_ttl c' = rc_ttl c \<and>
     set (rc_stripes c') \<subseteq> set (rc_stripes c) \<and> (\<exists>P. rc_order c' = filter P (rc_order c))"

lemma cache_sub_refl [simp]: "cache_sub c c"
proof -
  have "rc_order c = filter (\<lambda>_. True) (rc_order c)" by simp
  then show ?thesis unfolding cache_sub_def by blast
qed

lemma cache_sub_trans: "cache_sub a b \<Longrightarrow> cache_sub b c \<Longrightarrow> cache_sub a c"
  by (auto simp: cache_sub_def)

lemma cache_remove_sel:
  assumes "cache_ok B c"
  shows "rc_stripes (cache_remove k c) = AList.delete k (rc_stripes c)"
    "rc_order (cache_remove k c) = filter (\<lambda>e. fst e \<noteq> k) (rc_order c)"
    "rc_bytes (cache_remove k c) = alist_sum cs_bytes (AList.delete k (rc_stripes c))"
    "rc_maximum_bytes (cache_remove k c) = rc_maximum_bytes c" "rc_maximum_stripes (cache_remove k c) = rc_maximum_stripes c"
    "rc_ttl (cache_remove k c) = rc_ttl c"
proof -
  have f: "filter (\<lambda>(candidate, _). candidate \<noteq> k) xs = filter (\<lambda>e. fst e \<noteq> k) xs" for xs :: "(repair_key \<times> instant) list"
    by (rule filter_cong) auto
  have dist: "distinct (map fst (rc_stripes c))" and bytes: "rc_bytes c = alist_sum cs_bytes (rc_stripes c)"
    using assms by (simp_all add: cache_ok_def)
  show "rc_order (cache_remove k c) = filter (\<lambda>e. fst e \<noteq> k) (rc_order c)"
    "rc_maximum_bytes (cache_remove k c) = rc_maximum_bytes c" "rc_maximum_stripes (cache_remove k c) = rc_maximum_stripes c"
    "rc_ttl (cache_remove k c) = rc_ttl c"
    by (simp_all add: cache_remove_def Let_def f split: option.splits)
  show "rc_stripes (cache_remove k c) = AList.delete k (rc_stripes c)"
    by (auto simp: cache_remove_def Let_def delete_absent map_of_eq_None_iff split: option.splits)
  show "rc_bytes (cache_remove k c) = alist_sum cs_bytes (AList.delete k (rc_stripes c))"
    using alist_sum_delete [OF dist, of k _ cs_bytes] bytes
    by (auto simp: cache_remove_def Let_def delete_absent map_of_eq_None_iff split: option.splits)
qed

lemma cache_remove_ok:
  assumes "cache_ok B c"
  shows "cache_ok B (cache_remove k c)" "cache_sub c (cache_remove k c)" "k \<notin> fst ` set (rc_stripes (cache_remove k c))"
proof -
  note sel = cache_remove_sel [OF assms, of k]
  have le: "alist_sum cs_bytes (AList.delete k (rc_stripes c)) \<le> rc_bytes c"
    using assms alist_sum_delete_le [of cs_bytes k "rc_stripes c"] by (simp add: cache_ok_def)
  have ord: "set (rc_order c) = (\<lambda>(k, s). (k, cs_created s)) ` set (rc_stripes c)" using assms by (simp add: cache_ok_def)
  have "set (filter (\<lambda>e. fst e \<noteq> k) (rc_order c)) = (\<lambda>(k, s). (k, cs_created s)) ` set (AList.delete k (rc_stripes c))"
    unfolding set_filter ord by (force simp: mem_delete)
  moreover have "length (AList.delete k (rc_stripes c)) \<le> rc_maximum_stripes c"
    using assms order_trans [OF length_filter_le, of "rc_stripes c" "rc_maximum_stripes c"]
    unfolding cache_ok_def delete_filter by blast
  ultimately show "cache_ok B (cache_remove k c)"
    using assms le unfolding cache_ok_def sel by (auto simp: distinct_delete list_all_iff mem_delete distinct_map_filter)
  show "cache_sub c (cache_remove k c)" unfolding cache_sub_def sel by (auto simp: mem_delete)
  show "k \<notin> fst ` set (rc_stripes (cache_remove k c))" by (simp add: sel keys_delete)
qed

text \<open>The head of the order queue is always a live stripe.\<close>

lemma cache_head:
  assumes ok: "cache_ok B c" and ord: "rc_order c = (k, g) # rest"
  obtains s where "map_of (rc_stripes c) k = Some s" "cs_created s = g" "live_generation k g (c\<lparr> rc_order := rest \<rparr>)"
    "cache_remove k (c\<lparr> rc_order := rest \<rparr>) = cache_remove k c"
proof -
  have "(k, g) \<in> (\<lambda>(k, s). (k, cs_created s)) ` set (rc_stripes c)"
    using ok ord unfolding cache_ok_def by (metis list.set_intros(1))
  then obtain s where s: "(k, s) \<in> set (rc_stripes c)" "cs_created s = g" by auto
  then have m: "map_of (rc_stripes c) k = Some s" using ok by (simp add: cache_ok_def)
  with s ord show thesis
    by (intro that [of s]) (simp_all add: live_generation_def cache_remove_def Let_def)
qed

lemma cache_expire_loop_spec:
  assumes "cache_ok B c" "cache_expire_loop now c n = (c', n')"
  shows "cache_ok B c' \<and> cache_sub c c' \<and>
    (sorted (map snd (rc_order c)) \<longrightarrow> (\<forall>e\<in>set (rc_order c'). now - snd e < rc_ttl c'))"
  using assms
proof (induction now c n rule: cache_expire_loop.induct)
  case (1 now c n)
  show ?case
  proof (cases "rc_order c")
    case Nil
    with 1(3,4) show ?thesis by (simp add: cache_expire_loop.simps [of now c n])
  next
    case (Cons e rest)
    obtain k g where e: "e = (k, g)" by fastforce
    note ord = Cons [unfolded e]
    obtain s where s: "map_of (rc_stripes c) k = Some s" "cs_created s = g" and live: "live_generation k g (c\<lparr> rc_order := rest \<rparr>)"
      and rem: "cache_remove k (c\<lparr> rc_order := rest \<rparr>) = cache_remove k c" by (rule cache_head [OF 1(3) ord])
    show ?thesis
    proof (cases "rc_ttl c \<le> now - g")
      case False
      with 1(4) ord s have "c' = c" by (simp add: cache_expire_loop.simps [of now c n])
      moreover have "now - snd e' < rc_ttl c" if "sorted (map snd (rc_order c))" "e' \<in> set (rc_order c)" for e'
      proof -
        have "g \<le> snd e'" using that ord by auto
        with False show ?thesis by simp
      qed
      ultimately show ?thesis using 1(3) by simp
    next
      case True
      have st: "case map_of (rc_stripes c) k of None \<Rightarrow> True | Some s \<Rightarrow> cs_created s \<noteq> g \<or> rc_ttl c \<le> now - cs_created s"
        using s True by simp
      have rec: "cache_expire_loop now (cache_remove k c) (n + 1) = (c', n')"
        using 1(4) ord live st rem by (simp add: cache_expire_loop.simps [of now c n])
      have "cache_ok B c' \<and> cache_sub (cache_remove k c) c' \<and> (sorted (map snd (rc_order (cache_remove k c))) \<longrightarrow>
          (\<forall>e\<in>set (rc_order c'). now - snd e < rc_ttl c'))"
        using 1(1) [OF ord refl st refl live] cache_remove_ok(1) [OF 1(3)] rec rem by simp
      moreover have "sorted (map snd (rc_order (cache_remove k c)))" if "sorted (map snd (rc_order c))"
        using sorted_filter [OF that] by (simp add: cache_remove_sel [OF 1(3)])
      ultimately show ?thesis using cache_remove_ok(2) [OF 1(3)] cache_sub_trans by blast
    qed
  qed
qed


lemma evict_oldest_spec:
  assumes "cache_ok B c" "evict_oldest c = (c', b)"
  shows "cache_ok B c' \<and> cache_sub c c' \<and> (\<not> b \<longrightarrow> c' = c \<and> rc_stripes c = [])"
proof (cases "rc_order c")
  case Nil
  then have "rc_stripes c = []" using assms(1) by (simp add: cache_ok_def)
  with Nil assms show ?thesis by (simp add: evict_oldest.simps [of c])
next
  case (Cons e rest)
  obtain k g where e: "e = (k, g)" by fastforce
  note ord = Cons [unfolded e]
  have live: "live_generation k g (c\<lparr> rc_order := rest \<rparr>)" and rem: "cache_remove k (c\<lparr> rc_order := rest \<rparr>) = cache_remove k c"
    by (rule cache_head [OF assms(1) ord], assumption)+
  with assms(2) ord have "c' = cache_remove k c" "b" by (simp_all add: evict_oldest.simps [of c])
  with cache_remove_ok [OF assms(1)] show ?thesis by simp
qed

lemma cache_make_room_spec:
  assumes "cache_ok B c"
  shows "cache_ok B (cache_make_room n c) \<and> cache_sub c (cache_make_room n c)"
  using assms
proof (induction n c rule: cache_make_room.induct)
  case (1 n c)
  obtain c1 b where ev: "evict_oldest c = (c1, b)" by fastforce
  note spec = evict_oldest_spec [OF 1(2) ev]
  show ?case
  proof (cases "cache_full n c \<and> b")
    case True
    with ev have "cache_make_room n c = cache_make_room n c1" by (simp add: cache_make_room.simps [of n c])
    moreover have "cache_ok B (cache_make_room n c1) \<and> cache_sub c1 (cache_make_room n c1)"
      using 1(1) [OF _ ev [symmetric]] True spec by simp
    ultimately show ?thesis using spec cache_sub_trans [of c c1 "cache_make_room n c1"] by simp
  next
    case False
    then have "cache_make_room n c = (if cache_full n c then c1 else c)"
      by (subst cache_make_room.simps) (simp add: ev)
    with False spec have "cache_make_room n c = c" by (simp split: if_splits)
    with 1(2) show ?thesis by simp
  qed
qed

definition groups_ok :: "(repair_key \<times> (u16 \<times> bytes) list) list \<Rightarrow> bool" where
  "groups_ok gs \<longleftrightarrow> distinct (map fst gs) \<and> (\<forall>(k, cells)\<in>set gs. cached_cells_ok k cells)"

lemma cells_ok_update:
  assumes "cached_cells_ok k cells" "decode_cell b = Inr c" "cell_repair_key c = k" "carries_records c"
  shows "cached_cells_ok k (AList.update (cell_sequence c) b cells)"
  using assms by (auto simp: cached_cells_ok_def distinct_update mem_update)

lemma group_cells_ok: "groups_ok gs \<Longrightarrow> group_cells bs gs = Inr gs' \<Longrightarrow> groups_ok gs'"
proof (induction bs arbitrary: gs)
  case (Cons b bs)
  obtain c where c: "decode_cell b = Inr c" using Cons.prems(2) by (auto simp: result_iff)
  show ?case
  proof (cases "cell_stripe_id c = 0 \<or> \<not> carries_records c")
    case True
    with Cons c show ?thesis by simp
  next
    case False
    let ?k = "cell_repair_key c"
    define cells where "cells = (case map_of gs ?k of None \<Rightarrow> [] | Some cells \<Rightarrow> cells)"
    have dist: "distinct (map fst gs)" using Cons.prems(1) by (simp add: groups_ok_def)
    have "cached_cells_ok ?k cells"
      using Cons.prems(1) by (auto simp: cells_def groups_ok_def cached_cells_ok_def split: option.splits dest!: map_of_SomeD)
    then have "cached_cells_ok ?k (AList.update (cell_sequence c) b cells)" using c False by (intro cells_ok_update) auto
    then have "groups_ok (AList.update ?k (AList.update (cell_sequence c) b cells) gs)"
      using Cons.prems(1) dist by (auto simp: groups_ok_def distinct_update mem_update)
    with Cons c False show ?thesis by (simp add: cells_def Let_def)
  qed
qed simp

lemma cache_store_ok:
  assumes ok: "cache_ok B c" and k: "k \<notin> fst ` set (rc_stripes c)" and cells: "cached_cells_ok k cells"
    and room: "\<not> cache_full (alist_sum length cells) c"
  shows "cache_ok B (c\<lparr> rc_stripes := AList.update k \<lparr> cs_created = now, cs_cells = cells, cs_bytes = alist_sum length cells \<rparr> (rc_stripes c),
      rc_order := rc_order c @ [(k, now)], rc_bytes := rc_bytes c + alist_sum length cells \<rparr>)"
proof -
  let ?n = "alist_sum length cells"
  have ord: "set (rc_order c) = (\<lambda>(k, s). (k, cs_created s)) ` set (rc_stripes c)" using ok by (simp add: cache_ok_def)
  have "fst ` set (rc_order c) = fst ` set (rc_stripes c)" unfolding ord by force
  then have "k \<notin> fst ` set (rc_order c)" using k by simp
  moreover have "rc_bytes c + ?n \<le> B" "length (rc_stripes c) < rc_maximum_stripes c"
    using room ok by (auto simp: cache_full_def cache_ok_def not_less not_le sat_add_le_iff)
  ultimately show ?thesis
    using ok cells ord by (auto simp: cache_ok_def update_new [OF k] k stripe_ok_def)
qed

lemma insert_groups_ok:
  "groups_ok gs \<Longrightarrow> cache_ok B c \<Longrightarrow> insert_groups now gs c n = (c', n') \<Longrightarrow> cache_ok B c' \<and> rc_maximum_bytes c' = rc_maximum_bytes c"
proof (induction gs arbitrary: c n)
  case (Cons g gs)
  obtain k cells where g: "g = (k, cells)" by fastforce
  let ?n = "alist_sum length cells"
  let ?c = "cache_make_room ?n (cache_remove k c)"
  have gs: "groups_ok gs" "cached_cells_ok k cells" using Cons.prems(1) by (auto simp: g groups_ok_def)
  note rem = cache_remove_ok [OF Cons.prems(2), of k]
  note room = cache_make_room_spec [OF rem(1), of ?n]
  have k: "k \<notin> fst ` set (rc_stripes ?c)" using room rem(3) by (auto simp: cache_sub_def)
  have max: "rc_maximum_bytes ?c = rc_maximum_bytes c" using room rem(2) by (simp add: cache_sub_def)
  show ?case
  proof (cases "rc_maximum_bytes c < ?n")
    case True
    with Cons gs show ?thesis by (simp add: g)
  next
    case False
    show ?thesis
    proof (cases "cache_full ?n ?c")
      case True
      with Cons.prems(3) False have "insert_groups now gs ?c n = (c', n')" by (simp add: g Let_def)
      from Cons.IH [OF gs(1) _ this] room max show ?thesis by simp
    next
      case full: False
      let ?s = "?c\<lparr> rc_stripes := AList.update k \<lparr> cs_created = now, cs_cells = cells, cs_bytes = ?n \<rparr> (rc_stripes ?c),
        rc_order := rc_order ?c @ [(k, now)], rc_bytes := rc_bytes ?c + ?n \<rparr>"
      have "insert_groups now gs ?s (n + 1) = (c', n')" using Cons.prems(3) False full by (simp add: g Let_def)
      from Cons.IH [OF gs(1) _ this] cache_store_ok [OF _ k gs(2) full, of B now] room max show ?thesis by simp
    qed
  qed
qed auto

lemma cache_expire_ok:
  assumes "cache_ok B c"
  shows "cache_ok B (fst (cache_expire now c))" "cache_sub c (fst (cache_expire now c))"
proof -
  obtain c' n where e: "cache_expire now c = (c', n)" by fastforce
  from cache_expire_loop_spec [OF assms e [unfolded cache_expire_def]]
  show "cache_ok B (fst (cache_expire now c))" "cache_sub c (fst (cache_expire now c))" by (simp_all add: e)
qed

lemma cache_insert_at_ok:
  assumes "cache_ok B c" "cache_insert_at cells now c = (c', res)"
  shows "cache_ok B c'"
  using assms cache_expire_ok(1) [OF assms(1), of now] insert_groups_ok group_cells_ok [of "[]" cells]
  by (auto simp: cache_insert_at_def groups_ok_def Let_def split: sum.splits prod.splits)


section \<open>Answers\<close>

definition answer_ok :: "repair_request \<Rightarrow> repair_response \<Rightarrow> bool" where
  "answer_ok r resp \<longleftrightarrow> rp_key resp = rq_key r \<and> rp_request_id resp = rq_request_id r \<and>
     length (rp_cells resp) \<le> length (rq_missing_sequences r) \<and>
     (\<forall>b\<in>set (rp_cells resp). \<exists>c. decode_cell b = Inr c \<and> cell_repair_key c = rq_key r \<and>
        cell_sequence c \<in> set (rq_missing_sequences r) \<and> carries_records c)"

lemma map_filter_length: "length (List.map_filter f xs) \<le> length xs"
  by (simp add: List.map_filter_def)

lemma map_filter_mem: "y \<in> set (List.map_filter f xs) \<longleftrightarrow> (\<exists>x\<in>set xs. f x = Some y)"
  by (force simp: List.map_filter_def)

lemma cache_respond_ok:
  assumes ok: "cache_ok B c" and resp: "cache_respond r now c = (c', resp)"
  shows "cache_ok B c'" "answer_ok r resp"
proof -
  let ?c = "fst (cache_expire now c)"
  have c': "c' = ?c" and eq: "resp = \<lparr> rp_key = rq_key r, rp_request_id = rq_request_id r, rp_cells =
      (case map_of (rc_stripes ?c) (rq_key r) of None \<Rightarrow> [] | Some s \<Rightarrow> List.map_filter (map_of (cs_cells s)) (rq_missing_sequences r)) \<rparr>"
    using resp by (auto simp: cache_respond_def Let_def)
  show ok': "cache_ok B c'" unfolding c' by (rule cache_expire_ok(1) [OF ok])
  show "answer_ok r resp"
  proof (cases "map_of (rc_stripes ?c) (rq_key r)")
    case None
    then show ?thesis by (simp add: eq answer_ok_def)
  next
    case (Some s)
    have "stripe_ok (rq_key r, s)" using ok' Some by (auto simp: c' cache_ok_def list_all_iff dest: map_of_SomeD)
    then have "\<exists>c. decode_cell b = Inr c \<and> cell_repair_key c = rq_key r \<and> cell_sequence c = q \<and> carries_records c"
      if "map_of (cs_cells s) q = Some b" for q b
      using map_of_SomeD [OF that] by (force simp: stripe_ok_def cached_cells_ok_def)
    then show ?thesis
      using Some map_filter_length by (fastforce simp: eq answer_ok_def map_filter_mem)
  qed
qed

lemma encode_repaired_ok:
  assumes "\<forall>b\<in>set cells. b \<noteq> [] \<and> length b \<le> MAX_CELL_BYTES \<and> validate_repaired key b = Inr ()"
  shows "\<exists>enc. encode_repaired key cells = Inr enc"
  using assms by (induction cells) auto

lemma decode_cell_length: "decode_cell b = Inr c \<Longrightarrow> b \<noteq> [] \<and> length b \<le> MAX_CELL_BYTES"
  by (auto simp: decode_cell_def decode_route_header_def result_iff HEADER_LEN_def)

lemma answer_encodes:
  assumes ans: "answer_ok r resp" and id: "rq_request_id r \<noteq> 0" and n: "length (rq_missing_sequences r) \<le> MAX_REPAIR_CELLS"
  shows "\<exists>wire. encode_response resp = Inr wire"
proof -
  have cells: "\<forall>b\<in>set (rp_cells resp). b \<noteq> [] \<and> length b \<le> MAX_CELL_BYTES \<and> validate_repaired (rp_key resp) b = Inr ()"
  proof
    fix b assume "b \<in> set (rp_cells resp)"
    then obtain c where "decode_cell b = Inr c" "rp_key resp = cell_repair_key c" "carries_records c"
      using ans by (fastforce simp: answer_ok_def)
    then show "b \<noteq> [] \<and> length b \<le> MAX_CELL_BYTES \<and> validate_repaired (rp_key resp) b = Inr ()"
      using decode_cell_length by (auto simp: validate_repaired_def cell_repair_key_def)
  qed
  then obtain enc where enc: "encode_repaired (rp_key resp) (rp_cells resp) = Inr enc" using encode_repaired_ok by blast
  have len: "length (rp_cells resp) \<le> MAX_REPAIR_CELLS" using ans n by (simp add: answer_ok_def)
  have "sum_list (map (\<lambda>b. 2 + length b) (rp_cells resp)) \<le> length (rp_cells resp) * (2 + MAX_CELL_BYTES)"
    using cells by (intro repaired_total) (simp add: list_all_iff)
  also have "\<dots> \<le> MAX_REPAIR_CELLS * (2 + MAX_CELL_BYTES)" using len by (rule mult_le_mono1)
  finally have "is_ok (response_capacity 41 (rp_cells resp))"
    using response_capacity_ok [of 41 "rp_cells resp"] by (simp add: MAX_REPAIR_CELLS_def MAX_CELL_BYTES_def usize_max_def)
  then show ?thesis
    using enc len id ans by (auto simp: encode_response_def FIXED_KEY_BYTES_def answer_ok_def is_ok_iff)
qed

section \<open>Runs of cache operations\<close>

datatype cache_op =
    CacheInsert "bytes list" instant
  | CacheRespond repair_request instant
  | CacheResize nat instant
  | CacheSetTtl duration
  | CacheExpire instant

fun cache_step :: "cache_op \<Rightarrow> repair_cache \<Rightarrow> repair_cache \<times> repair_response option" where
  "cache_step (CacheInsert cells now) c = (fst (cache_insert_at cells now c), None)"
| "cache_step (CacheRespond r now) c = (case cache_respond r now c of (c', resp) \<Rightarrow> (c', Some resp))"
| "cache_step (CacheResize m now) c = (cache_resize m now c, None)"
| "cache_step (CacheSetTtl ttl) c = (cache_set_ttl ttl c, None)"
| "cache_step (CacheExpire now) c = (fst (cache_expire now c), None)"

fun resize_within :: "nat \<Rightarrow> cache_op \<Rightarrow> bool" where
  "resize_within B (CacheResize m now) = (m \<le> B)"
| "resize_within B _ = True"

fun answers :: "cache_op \<Rightarrow> repair_response option \<Rightarrow> bool" where
  "answers (CacheRespond r now) (Some resp) = answer_ok r resp"
| "answers _ _ = True"

interpretation cache_runs: invariant_system "cache_ok B" cache_step "resize_within B" answers for B
proof
  fix s s' :: repair_cache and x r
  assume ok: "cache_ok B s" and x: "resize_within B x" and step: "cache_step x s = (s', r)"
  have "cache_ok B s' \<and> answers x r"
  proof (cases x)
    case (CacheInsert cells now)
    obtain s1 res where e: "cache_insert_at cells now s = (s1, res)" by fastforce
    with cache_insert_at_ok [OF ok e] CacheInsert step show ?thesis by auto
  next
    case (CacheRespond q now)
    obtain s1 resp where e: "cache_respond q now s = (s1, resp)" by fastforce
    with cache_respond_ok [OF ok e] CacheRespond step show ?thesis by auto
  next
    case (CacheResize m now)
    with cache_expire_ok(1) [OF ok, of now] x step show ?thesis by (auto simp: cache_resize_def cache_ok_def)
  next
    case (CacheSetTtl ttl)
    have "cache_ok B (s\<lparr> rc_ttl := ttl \<rparr>) = cache_ok B s" by (simp add: cache_ok_def)
    with ok step CacheSetTtl show ?thesis by (auto simp: cache_set_ttl_def split: if_splits)
  next
    case (CacheExpire now)
    with cache_expire_ok(1) [OF ok, of now] step show ?thesis by auto
  qed
  then show "cache_ok B s'" "answers x r" by blast+
qed

text \<open>With a monotonic clock the order queue is sorted by admission time.\<close>

definition clocked :: "instant \<Rightarrow> repair_cache \<Rightarrow> bool" where
  "clocked t c \<longleftrightarrow> sorted (map snd (rc_order c)) \<and> (\<forall>e\<in>set (rc_order c). snd e \<le> t)"

lemma clocked_sub: "cache_sub c c' \<Longrightarrow> clocked t c \<Longrightarrow> clocked t c'"
  by (auto simp: cache_sub_def clocked_def intro: sorted_filter)

lemma clocked_later: "clocked t c \<Longrightarrow> t \<le> t' \<Longrightarrow> clocked t' c"
  by (auto simp: clocked_def intro: order_trans)

lemma insert_groups_clocked:
  "cache_ok B c \<Longrightarrow> groups_ok gs \<Longrightarrow> clocked now c \<Longrightarrow> insert_groups now gs c n = (c', n') \<Longrightarrow> clocked now c'"
proof (induction gs arbitrary: c n)
  case (Cons g gs)
  obtain k cells where g: "g = (k, cells)" by fastforce
  let ?n = "alist_sum length cells"
  let ?c = "cache_make_room ?n (cache_remove k c)"
  have gs: "groups_ok gs" "cached_cells_ok k cells" using Cons.prems(2) by (auto simp: g groups_ok_def)
  note rem = cache_remove_ok [OF Cons.prems(1), of k]
  note room = cache_make_room_spec [OF rem(1), of ?n]
  have k: "k \<notin> fst ` set (rc_stripes ?c)" using room rem(3) by (auto simp: cache_sub_def)
  have cl: "clocked now ?c" using Cons.prems(3) rem(2) room clocked_sub by blast
  show ?case
  proof (cases "rc_maximum_bytes c < ?n")
    case True
    with Cons gs show ?thesis by (simp add: g)
  next
    case False
    show ?thesis
    proof (cases "cache_full ?n ?c")
      case True
      with Cons.prems(4) False have "insert_groups now gs ?c n = (c', n')" by (simp add: g Let_def)
      from Cons.IH [OF _ gs(1) cl this] room show ?thesis by simp
    next
      case full: False
      let ?s = "?c\<lparr> rc_stripes := AList.update k \<lparr> cs_created = now, cs_cells = cells, cs_bytes = ?n \<rparr> (rc_stripes ?c),
        rc_order := rc_order ?c @ [(k, now)], rc_bytes := rc_bytes ?c + ?n \<rparr>"
      have "insert_groups now gs ?s (n + 1) = (c', n')" using Cons.prems(4) False full by (simp add: g Let_def)
      moreover have "clocked now ?s" using cl by (simp add: clocked_def sorted_append)
      ultimately show ?thesis
        using Cons.IH [OF cache_store_ok [OF _ k gs(2) full, of B now] gs(1)] room by simp
    qed
  qed
qed auto


lemma cache_insert_clocked:
  assumes ok: "cache_ok B c" and cl: "clocked t c" and t: "t \<le> now" and ins: "cache_insert_at cells now c = (c', res)"
  shows "clocked now c'"
proof -
  have cl1: "clocked now (fst (cache_expire now c))"
    by (rule clocked_sub [OF cache_expire_ok(2) [OF ok] clocked_later [OF cl t]])
  show ?thesis
  proof (cases "group_cells cells []")
    case (Inl e)
    with ins have "c' = fst (cache_expire now c)" by (simp add: cache_insert_at_def)
    with cl1 show ?thesis by simp
  next
    case (Inr gs)
    have gs: "groups_ok gs" by (rule group_cells_ok [OF _ Inr]) (simp add: groups_ok_def)
    obtain n where "insert_groups now gs (fst (cache_expire now c)) 0 = (c', n)"
      using ins Inr by (cases "insert_groups now gs (fst (cache_expire now c)) 0") (simp add: cache_insert_at_def)
    then show ?thesis by (rule insert_groups_clocked [OF cache_expire_ok(1) [OF ok] gs cl1])
  qed
qed

fun op_time :: "cache_op \<Rightarrow> instant option" where
  "op_time (CacheInsert cells now) = Some now"
| "op_time (CacheRespond r now) = Some now"
| "op_time (CacheResize m now) = Some now"
| "op_time (CacheSetTtl ttl) = None"
| "op_time (CacheExpire now) = Some now"

text \<open>The times at which a run calls the cache.\<close>

fun op_times :: "cache_op list \<Rightarrow> instant list" where
  "op_times [] = []"
| "op_times (x # xs) = (case op_time x of None \<Rightarrow> op_times xs | Some t \<Rightarrow> t # op_times xs)"

lemma cache_step_clocked:
  assumes ok: "cache_ok B c" and cl: "clocked t c" and t: "case op_time x of None \<Rightarrow> t' = t | Some n \<Rightarrow> t \<le> n \<and> t' = n"
    and step: "cache_step x c = (c', r)"
  shows "clocked t' c'"
proof (cases x)
  case (CacheInsert cells now)
  obtain c1 res where e: "cache_insert_at cells now c = (c1, res)" by fastforce
  with cache_insert_clocked [OF ok cl _ e] CacheInsert step t show ?thesis by auto
next
  case (CacheSetTtl ttl)
  with cl step t show ?thesis by (auto simp: cache_set_ttl_def clocked_def split: if_splits)
next
  case (CacheRespond q now)
  with clocked_sub [OF cache_expire_ok(2) [OF ok] clocked_later [OF cl], of now now] step t show ?thesis
    by (auto simp: cache_respond_def Let_def)
next
  case (CacheResize m now)
  with clocked_sub [OF cache_expire_ok(2) [OF ok] clocked_later [OF cl], of now now] step t show ?thesis
    by (auto simp: cache_resize_def clocked_def)
next
  case (CacheExpire now)
  with clocked_sub [OF cache_expire_ok(2) [OF ok] clocked_later [OF cl], of now now] step t show ?thesis by auto
qed

lemma cache_run_clocked:
  assumes "cache_ok B c" "clocked t c" "list_all (resize_within B) xs" "sorted (t # op_times xs @ [now])"
    "run_ops cache_step xs c = (c', outs)"
  shows "clocked now c'"
  using assms
proof (induction xs arbitrary: c t outs)
  case Nil
  then show ?case using clocked_later [of t c now] by simp
next
  case (Cons x xs)
  obtain c1 r rs where step: "cache_step x c = (c1, r)" and rest: "run_ops cache_step xs c1 = (c', rs)"
    using Cons.prems(5) by (auto split: prod.splits)
  have ok1: "cache_ok B c1" using cache_runs.inv_step [OF Cons.prems(1) _ step] Cons.prems(3) by simp
  show ?case
  proof (cases "op_time x")
    case None
    with cache_step_clocked [OF Cons.prems(1,2) _ step, of t] have "clocked t c1" by simp
    with Cons.IH [OF ok1 _ _ _ rest] Cons.prems(3,4) None show ?thesis by simp
  next
    case (Some n)
    with cache_step_clocked [OF Cons.prems(1,2) _ step, of n] Cons.prems(4) have "clocked n c1" by simp
    with Cons.IH [OF ok1 _ _ _ rest] Cons.prems(3,4) Some show ?thesis by simp
  qed
qed

lemma cache_new_ok:
  assumes "cache_new ttl m n = Inr c" "m \<le> B" "B < usize_max"
  shows "cache_ok B c" "clocked 0 c"
  using assms by (auto simp: cache_new_def result_iff cache_ok_def clocked_def)

section \<open>Properties\<close>

definition demo_request :: repair_request where
  "demo_request = \<lparr> rq_key = \<lparr> rk_class = Bulk, rk_session_epoch = 7, rk_route_label = 9, rk_train_id = 11, rk_stripe_id = 4 \<rparr>,
     rq_request_id = 1, rq_missing_sequences = [0, 2] \<rparr>"

definition demo_striped :: cell_v2 where
  "demo_striped = demo_cell\<lparr> cell_stripe_id := 4 \<rparr>"

definition demo_striped_bytes :: bytes where
  "demo_striped_bytes = (case encode_into 1200 demo_striped of Inr bs \<Rightarrow> bs | Inl _ \<Rightarrow> [])"

lemma demo_striped_encodes: "encode_into 1200 demo_striped = Inr demo_striped_bytes"
proof -
  have "is_ok (encode_into 1200 demo_striped)"
    by (simp add: demo_striped_def demo_cell_def cell_eval wire_eval)
  then show ?thesis by (auto simp: is_ok_iff demo_striped_bytes_def)
qed

lemma demo_striped_decodes: "decode_cell demo_striped_bytes = Inr demo_striped"
  by (rule cell_wire_max.dec_enc [OF demo_striped_encodes])

lemma demo_striped_small: "length demo_striped_bytes \<le> 1200"
  using demo_striped_encodes [unfolded encode_into_Inr_iff] by blast

definition demo_cache :: repair_cache where
  "demo_cache = \<lparr> rc_ttl = 500, rc_maximum_bytes = 4096, rc_maximum_stripes = 2, rc_stripes = [], rc_order = [], rc_bytes = 0 \<rparr>"

lemma demo_cache_new: "cache_new 500 4096 2 = Inr demo_cache"
  by (simp add: cache_new_def demo_cache_def)

definition demo_stripe :: cached_stripe where
  "demo_stripe = \<lparr> cs_created = 10, cs_cells = [(0, demo_striped_bytes)], cs_bytes = length demo_striped_bytes \<rparr>"

definition demo_filled :: repair_cache where
  "demo_filled = demo_cache\<lparr> rc_stripes := [(rq_key demo_request, demo_stripe)], rc_order := [(rq_key demo_request, 10)],
     rc_bytes := length demo_striped_bytes \<rparr>"

lemma demo_insert: "fst (cache_insert_at [demo_striped_bytes] 10 demo_cache) = demo_filled"
proof -
  have "cell_repair_key demo_striped = rq_key demo_request" "cell_stripe_id demo_striped = 4" "carries_records demo_striped"
    "cell_sequence demo_striped = 0"
    by (simp_all add: cell_repair_key_def demo_striped_def demo_cell_def demo_request_def carries_records_def)
  then show ?thesis
    using demo_striped_small
    by (simp add: cache_insert_at_def cache_expire_def cache_expire_loop.simps demo_cache_def demo_striped_decodes
        cache_remove_def cache_make_room.simps cache_full_def sat_add_def usize_max_def demo_filled_def demo_stripe_def Let_def)
qed

lemma demo_respond: "snd (cache_respond demo_request 20 demo_filled) =
    \<lparr> rp_key = rq_key demo_request, rp_request_id = 1, rp_cells = [demo_striped_bytes] \<rparr>"
  by (simp add: cache_respond_def cache_expire_def cache_expire_loop.simps demo_filled_def demo_cache_def demo_stripe_def Let_def)
    (simp add: demo_request_def List.map_filter_def)

lemma request_decodes:
  "decode_control bs = Inr (Request r) \<longleftrightarrow> encode_request r = Inr bs \<and> key_valid (rq_key r)"
proof -
  have "4 \<le> length bs \<and> slice 0 4 bs = REQUEST_MAGIC" if "decode_request bs = Inr r"
    using that by (auto simp: decode_request_def result_iff)
  then have "decode_control bs = Inr (Request r) \<longleftrightarrow> decode_request bs = Inr r"
    by (auto simp: decode_control_def result_iff)
  then show ?thesis by (simp add: decode_request_iff)
qed

lemma response_decodes:
  "decode_control bs = Inr (Response r) \<longleftrightarrow> encode_response r = Inr bs \<and> key_valid (rp_key r)"
proof -
  have "4 \<le> length bs \<and> slice 0 4 bs = RESPONSE_MAGIC" if "decode_response bs = Inr r"
    using that by (auto simp: decode_response_def result_iff)
  then have "decode_control bs = Inr (Response r) \<longleftrightarrow> decode_response bs = Inr r"
    by (auto simp: decode_control_def result_iff repair_magic(3) [symmetric])
  then show ?thesis by (simp add: decode_response_iff)
qed

text \<open>C29. Repair records are canonical on the wire: the decoder accepts exactly the encodings of records
  whose key is valid, for requests and for responses, and returns the record encoded.\<close>

theorem repair_control_canonical:
  "decode_control bs = Inr ctl \<longleftrightarrow>
     (case ctl of
        Request r \<Rightarrow> encode_request r = Inr bs \<and> key_valid (rq_key r)
      | Response r \<Rightarrow> encode_response r = Inr bs \<and> key_valid (rp_key r))"
  by (cases ctl) (simp_all add: request_decodes response_decodes)

text \<open>C27. The repair cache is bounded in every run: its byte counter is the sum of the cached Cells and
  never exceeds the largest limit ever in force, and the stripe limit holds.\<close>

theorem repair_cache_bounds:
  assumes "cache_new ttl maximum stripes = Inr c" and "maximum \<le> B" and "B < usize_max"
    and "list_all (resize_within B) ops" and "run_ops cache_step ops c = (c', outs)"
  shows "rc_bytes c' = (\<Sum>e\<leftarrow>rc_stripes c'. \<Sum>x\<leftarrow>cs_cells (snd e). length (snd x)) \<and> rc_bytes c' \<le> B \<and>
    length (rc_stripes c') \<le> rc_maximum_stripes c' \<and> distinct (map fst (rc_stripes c'))"
proof -
  have ok: "cache_ok B c'" using cache_runs.run_inv [OF cache_new_ok(1) [OF assms(1-3)] assms(4,5)] by blast
  have "alist_sum cs_bytes es = (\<Sum>e\<leftarrow>es. \<Sum>x\<leftarrow>cs_cells (snd e). length (snd x))" if "list_all stripe_ok es" for es
    using that by (induction es) (auto simp: stripe_ok_def alist_sum_def comp_def)
  with ok show ?thesis by (auto simp: cache_ok_def)
qed

theorem repair_cache_bounds_witness:
  "rc_bytes (fst (run_ops cache_step [CacheInsert [demo_striped_bytes] 10, CacheResize 64 20] demo_cache)) \<le> 4096"
proof -
  obtain c' outs where run: "run_ops cache_step [CacheInsert [demo_striped_bytes] 10, CacheResize 64 20] demo_cache = (c', outs)"
    by fastforce
  from repair_cache_bounds [OF demo_cache_new _ _ _ run, of 4096] show ?thesis
    unfolding run by (simp add: usize_max_def)
qed

text \<open>C26. Every valid request gets a correct answer: the response to a request that decoded carries its
  identity, contains only record Cells of the requested stripe with requested sequence numbers, always
  encodes, and the requester decodes exactly that response.\<close>

theorem repair_answer_correct:
  assumes "cache_ok B c" and "decode_control bs = Inr (Request r)" and "cache_respond r now c = (c', resp)"
  shows "rp_key resp = rq_key r \<and> rp_request_id resp = rq_request_id r \<and>
    (\<forall>b\<in>set (rp_cells resp). \<exists>x. decode_cell b = Inr x \<and> cell_repair_key x = rq_key r \<and>
       cell_sequence x \<in> set (rq_missing_sequences r)) \<and>
    (\<exists>wire. encode_response resp = Inr wire \<and> decode_control wire = Inr (Response resp))"
proof -
  have ans: "answer_ok r resp" by (rule cache_respond_ok(2) [OF assms(1,3)])
  have enc: "encode_request r = Inr bs" and kv: "key_valid (rq_key r)" using assms(2) by (simp_all add: request_decodes)
  then have "rq_request_id r \<noteq> 0" "length (rq_missing_sequences r) \<le> MAX_REPAIR_CELLS"
    by (auto simp: encode_request_def validate_sequences_def result_iff)
  then obtain wire where w: "encode_response resp = Inr wire" using answer_encodes [OF ans] by blast
  moreover have "key_valid (rp_key resp)" using ans kv by (simp add: answer_ok_def)
  ultimately have "decode_control wire = Inr (Response resp)" by (simp add: response_decodes)
  with ans w show ?thesis by (auto simp: answer_ok_def)
qed

theorem repair_answer_correct_witness:
  "\<exists>bs wire. decode_control bs = Inr (Request demo_request) \<and>
     decode_control wire = Inr (Response (snd (cache_respond demo_request 20 demo_filled)))"
proof -
  obtain bs where enc: "encode_request demo_request = Inr bs"
    by (simp add: encode_request_def demo_request_def validate_sequences_def MAX_REPAIR_CELLS_def MAX_CELL_BYTES_def
        FIXED_KEY_BYTES_def)
  have "key_valid (rq_key demo_request)" by (simp add: key_valid_def demo_request_def)
  with enc have dec: "decode_control bs = Inr (Request demo_request)" by (simp add: request_decodes)
  have ok: "cache_ok 4096 demo_filled"
    using cache_insert_at_ok [OF cache_new_ok(1) [OF demo_cache_new, of 4096] prod.collapse [symmetric], of "[demo_striped_bytes]" 10]
    unfolding demo_insert [symmetric] by (simp add: usize_max_def)
  obtain c' resp where "cache_respond demo_request 20 demo_filled = (c', resp)" by fastforce
  with repair_answer_correct [OF ok dec this] dec show ?thesis by auto
qed

text \<open>C28. No Cell is served past its time to live: with a monotonic clock, a non-empty answer at any point
  of any run comes from a stripe admitted less than the current time to live ago.\<close>

theorem repair_respects_ttl:
  assumes "cache_new ttl maximum stripes = Inr c" and "maximum \<le> B" and "B < usize_max"
    and "list_all (resize_within B) ops" and "sorted (op_times ops @ [now])"
    and "run_ops cache_step ops c = (c1, outs)" and "cache_respond r now c1 = (c2, resp)" and "rp_cells resp \<noteq> []"
  shows "\<exists>s. map_of (rc_stripes c1) (rq_key r) = Some s \<and> now - cs_created s < rc_ttl c1"
proof -
  note new = cache_new_ok [OF assms(1-3)]
  have ok: "cache_ok B c1" using cache_runs.run_inv [OF new(1) assms(4,6)] by blast
  have cl: "clocked now c1" using assms(5) by (intro cache_run_clocked [OF new assms(4) _ assms(6)]) simp
  obtain c' n where e: "cache_expire now c1 = (c', n)" by fastforce
  note spec = cache_expire_loop_spec [OF ok e [unfolded cache_expire_def]]
  obtain s where s: "map_of (rc_stripes c') (rq_key r) = Some s"
    using assms(7,8) by (auto simp: cache_respond_def Let_def e split: option.splits)
  have ok': "cache_ok B c'" using spec by blast
  then have "(rq_key r, cs_created s) \<in> set (rc_order c')"
    using map_of_SomeD [OF s] unfolding cache_ok_def by (metis (mono_tags, lifting) case_prod_conv rev_image_eqI)
  then have "now - cs_created s < rc_ttl c'" using spec cl by (force simp: clocked_def)
  moreover have "map_of (rc_stripes c1) (rq_key r) = Some s"
    using map_of_SomeD [OF s] spec ok by (auto simp: cache_sub_def cache_ok_def)
  ultimately show ?thesis using spec by (auto simp: cache_sub_def)
qed

theorem repair_respects_ttl_witness:
  "\<exists>s. map_of (rc_stripes demo_filled) (rq_key demo_request) = Some s \<and> 20 - cs_created s < rc_ttl demo_filled"
proof -
  obtain outs where run: "run_ops cache_step [CacheInsert [demo_striped_bytes] 10] demo_cache = (demo_filled, outs)"
    using demo_insert by (cases "cache_insert_at [demo_striped_bytes] 10 demo_cache") auto
  obtain c' resp where resp: "cache_respond demo_request 20 demo_filled = (c', resp)" by fastforce
  have "rp_cells resp \<noteq> []" using demo_respond resp by simp
  from repair_respects_ttl [OF demo_cache_new _ _ _ _ run resp this, of 4096] show ?thesis
    by (simp add: usize_max_def)
qed

end
