(* ===== verification/Fec.thy ===== *)
theory Fec
  imports Repair
begin

text \<open>
  Cell-level forward error correction (\<open>src/src/protocol/v2/fec.rs\<close>): the stripe encoder, the parity
  record and its decoder, and the receive-side stripe decoder with its byte and stripe budgets.
  The Reed-Solomon code itself is the \<open>reed-solomon-simd\<close> package and a parameter of the model.
\<close>

section \<open>Geometry\<close>

definition PARITY_MAGIC :: bytes where "PARITY_MAGIC = [0x46, 0x50, 0x56, 0x32]"
definition PARITY_FIXED_LEN :: nat where "PARITY_FIXED_LEN = 12"
definition ALIGNMENT_RESERVE :: nat where "ALIGNMENT_RESERVE = 1"
definition STRIPE_DATA_SHIFT :: nat where "STRIPE_DATA_SHIFT = 24"
definition STRIPE_SEQUENCE_MASK :: u32 where "STRIPE_SEQUENCE_MASK = push_bit STRIPE_DATA_SHIFT 1 - 1"
definition MAX_DATA_CELLS :: nat where "MAX_DATA_CELLS = 16"
definition MAX_PARITY_CELLS :: nat where "MAX_PARITY_CELLS = 8"
definition DEFAULT_MAX_STRIPES :: nat where "DEFAULT_MAX_STRIPES = 4096"
definition DEFAULT_MAX_BUFFERED_BYTES :: nat where "DEFAULT_MAX_BUFFERED_BYTES = 32 * 1024 * 1024"

record fec_geometry =
  fg_data_cells :: nat
  fg_parity_cells :: nat

definition geometry_validate :: "fec_geometry \<Rightarrow> unit result" where
  "geometry_validate g =
     ensure (2 \<le> fg_data_cells g \<and> fg_data_cells g \<le> MAX_DATA_CELLS) ''V2 FEC data Cell count is out of range'' (
     ensure (fg_parity_cells g \<le> MAX_PARITY_CELLS) ''V2 FEC parity Cell count is out of range'' (Inr ()))"

definition protected_cell_maximum :: "nat \<Rightarrow> nat \<Rightarrow> nat result" where
  "protected_cell_maximum path_maximum data_cells =
     ensure (2 \<le> data_cells \<and> data_cells \<le> MAX_DATA_CELLS) ''invalid V2 FEC data Cell count'' (
     case checked_add HEADER_LEN (PARITY_FIXED_LEN + data_cells * 2) of
       None \<Rightarrow> Inl (Err ''V2 FEC overhead overflow'')
     | Some v \<Rightarrow> (case checked_add v ALIGNMENT_RESERVE of
         None \<Rightarrow> Inl (Err ''V2 FEC overhead overflow'')
       | Some overhead \<Rightarrow>
           ensure (overhead + HEADER_LEN < path_maximum) ''QUIC DATAGRAM limit is too small for V2 Cell FEC'' (
           Inr (path_maximum - overhead))))"

section \<open>The erasure code\<close>

text \<open>
  The operations of \<open>reed-solomon-simd\<close> that the source calls, for original count, recovery count
  and shard size: whether the geometry is supported (\<open>ReedSolomonEncoder::new\<close>, \<open>reset\<close> and
  \<open>ReedSolomonDecoder::new\<close> succeed), the recovery shards of a complete list of originals
  (\<open>add_original_shard\<close> for each and \<open>encode\<close>), and the restored originals with their indices from
  indexed originals and recovery shards (\<open>add_original_shard\<close>, \<open>add_recovery_shard\<close>, \<open>decode\<close> and
  \<open>restored_original_iter\<close>).
\<close>

record reed_solomon =
  rs_supports :: "nat \<Rightarrow> nat \<Rightarrow> nat \<Rightarrow> bool"
  rs_encode :: "nat \<Rightarrow> nat \<Rightarrow> nat \<Rightarrow> bytes list \<Rightarrow> bytes list result"
  rs_decode :: "nat \<Rightarrow> nat \<Rightarrow> nat \<Rightarrow> (nat \<times> bytes) list \<Rightarrow> (nat \<times> bytes) list \<Rightarrow> (nat \<times> bytes) list result"

section \<open>Stripe identifiers and parity records\<close>

definition encode_stripe_id :: "u16 \<Rightarrow> nat \<Rightarrow> u32 result" where
  "encode_stripe_id first_sequence data_cells =
     ensure (2 \<le> data_cells \<and> data_cells \<le> MAX_DATA_CELLS) ''invalid V2 stripe data count'' (
     let seq = (ucast first_sequence :: u32) + 1 in
     ensure (seq \<le> STRIPE_SEQUENCE_MASK) ''V2 FEC stripe sequence is out of range'' (
     Inr (push_bit STRIPE_DATA_SHIFT (word_of_nat data_cells) OR seq)))"

definition decode_stripe_id :: "u32 \<Rightarrow> (u16 \<times> nat) result" where
  "decode_stripe_id v =
     (let data_cells = unat (drop_bit STRIPE_DATA_SHIFT v); encoded_sequence = v AND STRIPE_SEQUENCE_MASK in
      ensure (2 \<le> data_cells \<and> data_cells \<le> MAX_DATA_CELLS \<and> encoded_sequence \<noteq> 0)
        ''invalid self-describing V2 FEC stripe ID'' (
      ensure (unat (encoded_sequence - 1) \<le> u16_max) ''V2 FEC stripe sequence overflow'' (
      Inr (ucast (encoded_sequence - 1), data_cells))))"

fun segments_wire_len :: "nat \<Rightarrow> record_segment list \<Rightarrow> nat result" where
  "segments_wire_len acc [] = Inr acc"
| "segments_wire_len acc (s # ss) =
     (case checked_add acc SEGMENT_HEADER_LEN of
        None \<Rightarrow> Inl (Err ''V2 systematic Cell length overflow'')
      | Some a \<Rightarrow> (case checked_add a (length (seg_metadata s)) of
          None \<Rightarrow> Inl (Err ''V2 systematic Cell length overflow'')
        | Some b \<Rightarrow> (case checked_add b (length (seg_data s)) of
            None \<Rightarrow> Inl (Err ''V2 systematic Cell length overflow'')
          | Some d \<Rightarrow> segments_wire_len d ss)))"

definition encoded_data_cell_len :: "cell_v2 \<Rightarrow> nat result" where
  "encoded_data_cell_len c =
     (case cell_body c of
        Records segments \<Rightarrow> segments_wire_len HEADER_LEN segments
      | Parity _ \<Rightarrow> Inl (Err ''V2 FEC systematic Cell is not data''))"

definition encode_parity_payload :: "nat \<Rightarrow> nat \<Rightarrow> nat \<Rightarrow> u16 \<Rightarrow> nat \<Rightarrow> u16 list \<Rightarrow> bytes \<Rightarrow> bytes result" where
  "encode_parity_payload data_cells parity_cells recovery_index first_sequence symbol_bytes lengths recovery =
     ensure (data_cells = length lengths) ''V2 FEC length table mismatch'' (
     ensure (length recovery = symbol_bytes) ''V2 FEC symbol length mismatch'' (
     Inr (PARITY_MAGIC @ put_u8 (word_of_nat data_cells) @ put_u8 (word_of_nat parity_cells) @
       put_u8 (word_of_nat recovery_index) @ put_u8 0 @ put_u16 first_sequence @
       put_u16 (word_of_nat symbol_bytes) @ concat (map put_u16 lengths) @ recovery)))"

record parity_payload =
  pp_data_cells :: nat
  pp_parity_cells :: nat
  pp_recovery_index :: nat
  pp_first_sequence :: u16
  pp_symbol_bytes :: nat
  pp_lengths :: "u16 list"
  pp_recovery :: bytes

definition decode_parity_payload :: "bytes \<Rightarrow> parity_payload result" where
  "decode_parity_payload bs =
     ensure (PARITY_FIXED_LEN \<le> length bs) ''truncated V2 parity prefix'' (
     ensure (slice 0 4 bs = PARITY_MAGIC) ''invalid V2 parity magic'' (
     let data_cells = unat (bs ! 4); parity_cells = unat (bs ! 5); recovery_index = unat (bs ! 6) in
     ensure (bs ! 7 = 0) ''unsupported V2 parity flags'' (
     bindR (geometry_validate \<lparr> fg_data_cells = data_cells, fg_parity_cells = parity_cells \<rparr>) (\<lambda>_.
     ensure (0 < parity_cells \<and> recovery_index < parity_cells) ''invalid V2 parity recovery index'' (
     let first_sequence = get_u16 (slice 8 10 bs); symbol_bytes = unat (get_u16 (slice 10 12 bs)) in
     ensure (0 < symbol_bytes \<and> even symbol_bytes) ''invalid V2 FEC symbol size'' (
     let lengths_end = PARITY_FIXED_LEN + data_cells * 2 in
     ensure (lengths_end \<le> length bs) ''truncated V2 parity length table'' (
     let lengths = read_u16s (slice PARITY_FIXED_LEN lengths_end bs) in
     ensure (list_all (\<lambda>l. 0 < l \<and> unat l \<le> symbol_bytes) lengths) ''invalid V2 FEC original length'' (
     ensure (length bs - lengths_end = symbol_bytes) ''invalid V2 parity symbol length'' (
     Inr \<lparr> pp_data_cells = data_cells, pp_parity_cells = parity_cells, pp_recovery_index = recovery_index,
           pp_first_sequence = first_sequence, pp_symbol_bytes = symbol_bytes, pp_lengths = lengths,
           pp_recovery = drop lengths_end bs \<rparr>)))))))))"

definition same_geometry :: "parity_payload \<Rightarrow> parity_payload \<Rightarrow> bool" where
  "same_geometry l r \<longleftrightarrow> pp_data_cells l = pp_data_cells r \<and> pp_parity_cells l = pp_parity_cells r \<and>
     pp_first_sequence l = pp_first_sequence r \<and> pp_symbol_bytes l = pp_symbol_bytes r \<and> pp_lengths l = pp_lengths r"

section \<open>Encoder\<close>

text \<open>\<open>Vec::resize\<close>, and the normalisation of the two routing bytes, which indexes the symbol.\<close>

definition resize_bytes :: "nat \<Rightarrow> bytes \<Rightarrow> bytes" where
  "resize_bytes n bs = take n bs @ replicate (n - length bs) 0"

definition normalize_routing_shim :: "bytes \<Rightarrow> bytes result" where
  "normalize_routing_shim symbol =
     (if OVERLAY_HOPS_OFFSET < length symbol then Inr (symbol[OVERLAY_HOP_LIMIT_OFFSET := 0, OVERLAY_HOPS_OFFSET := 0])
      else Inl (Panic ''index out of bounds''))"

definition restore_routing_shim :: "u8 \<times> u8 \<Rightarrow> bytes \<Rightarrow> bytes result" where
  "restore_routing_shim shim bs =
     (if OVERLAY_HOPS_OFFSET < length bs then Inr (bs[OVERLAY_HOP_LIMIT_OFFSET := fst shim, OVERLAY_HOPS_OFFSET := snd shim])
      else Inl (Panic ''index out of bounds''))"

record fec_encode_stats =
  fe_protected_data_cells :: nat
  fe_parity_cells :: nat
  fe_parity_bytes :: nat
  fe_encode_copy_bytes :: nat
  fe_unprotected_tail_cells :: nat

record encoded_train =
  et_systematic :: "bytes list"
  et_parity :: "bytes list"
  et_ordered :: "(bytes \<times> bool) list"
  et_stats :: fec_encode_stats

definition encoded_train_default :: encoded_train where
  "encoded_train_default = \<lparr> et_systematic = [], et_parity = [], et_ordered = [],
     et_stats = \<lparr> fe_protected_data_cells = 0, fe_parity_cells = 0, fe_parity_bytes = 0, fe_encode_copy_bytes = 0,
       fe_unprotected_tail_cells = 0 \<rparr> \<rparr>"

definition fec_identity :: "cell_v2 \<Rightarrow> traffic_class \<times> u32 \<times> u32 \<times> u64 \<times> u8 \<times> u8" where
  "fec_identity c = (cell_class c, cell_session_epoch c, cell_route_label c, cell_train_id c,
     cell_overlay_hop_limit c, cell_overlay_hops c)"

fun chunks :: "nat \<Rightarrow> 'a list \<Rightarrow> 'a list list" where
  "chunks n [] = []"
| "chunks n (x # xs) = take (Suc (n - 1)) (x # xs) # chunks n (drop (n - 1) xs)"

fun stamp_stripe :: "u16 \<Rightarrow> u32 \<Rightarrow> nat \<Rightarrow> cell_v2 list \<Rightarrow> cell_v2 list result" where
  "stamp_stripe first_sequence stripe_id offset [] = Inr []"
| "stamp_stripe first_sequence stripe_id offset (c # cs) =
     ensure (unat (cell_sequence c) = unat first_sequence + offset) ''V2 FEC data Cells are not contiguous'' (
     bindR (stamp_stripe first_sequence stripe_id (offset + 1) cs) (\<lambda>rest.
     Inr (c\<lparr> cell_stripe_id := stripe_id \<rparr> # rest)))"

definition systematic_length :: "cell_v2 \<Rightarrow> u16 result" where
  "systematic_length c = bindR (encoded_data_cell_len c) (\<lambda>n.
     ensure (n \<le> u16_max) ''V2 systematic Cell length overflow'' (Inr (word_of_nat n)))"

definition next_even :: "nat \<Rightarrow> nat" where
  "next_even n = (if even n then n else n + 1)"

text \<open>One systematic Cell in its recyclable buffer: encoded, padded to the symbol size and normalised for
  the code, then restored and truncated to the wire length. The result is the wire bytes and the shard.\<close>

definition systematic_cell :: "nat \<Rightarrow> nat \<Rightarrow> cell_v2 \<Rightarrow> u16 \<Rightarrow> (bytes \<times> bytes) result" where
  "systematic_cell protected_maximum symbol_bytes c len =
     bindR (encode_into protected_maximum c) (\<lambda>out.
     let out = resize_bytes symbol_bytes out in
     bindR (normalize_routing_shim out) (\<lambda>shard.
     bindR (restore_routing_shim (out ! OVERLAY_HOP_LIMIT_OFFSET, out ! OVERLAY_HOPS_OFFSET) shard) (\<lambda>restored.
     Inr (take (unat len) restored, shard))))"

fun systematic_cells :: "nat \<Rightarrow> nat \<Rightarrow> cell_v2 list \<Rightarrow> u16 list \<Rightarrow> (bytes \<times> bytes) list result" where
  "systematic_cells protected_maximum symbol_bytes (c # cs) (l # ls) =
     bindR (systematic_cell protected_maximum symbol_bytes c l) (\<lambda>x.
     bindR (systematic_cells protected_maximum symbol_bytes cs ls) (\<lambda>xs. Inr (x # xs)))"
| "systematic_cells _ _ _ _ = Inr []"

definition parity_cell :: "traffic_class \<times> u32 \<times> u32 \<times> u64 \<times> u8 \<times> u8 \<Rightarrow> u32 \<Rightarrow> nat \<Rightarrow> bytes \<Rightarrow> cell_v2" where
  "parity_cell identity stripe_id recovery_index payload =
     (case identity of (class, epoch, label, train, hop_limit, hops) \<Rightarrow>
        \<lparr> cell_class = class, cell_flags = 0, cell_session_epoch = epoch, cell_route_label = label,
          cell_train_id = train, cell_sequence = word_of_nat recovery_index, cell_stripe_id = stripe_id,
          cell_overlay_hop_limit = hop_limit, cell_overlay_hops = hops, cell_body = Parity payload \<rparr>)"

fun parity_wires :: "traffic_class \<times> u32 \<times> u32 \<times> u64 \<times> u8 \<times> u8 \<Rightarrow> u32 \<Rightarrow> nat \<Rightarrow> nat \<Rightarrow> nat \<Rightarrow> u16 \<Rightarrow> nat \<Rightarrow> u16 list \<Rightarrow>
    nat \<Rightarrow> bytes list \<Rightarrow> bytes list result" where
  "parity_wires identity stripe_id path_maximum data_cells parity_cells first_sequence symbol_bytes lengths i [] = Inr []"
| "parity_wires identity stripe_id path_maximum data_cells parity_cells first_sequence symbol_bytes lengths i (r # rs) =
     bindR (encode_parity_payload data_cells parity_cells i first_sequence symbol_bytes lengths r) (\<lambda>payload.
     bindR (encode_into path_maximum (parity_cell identity stripe_id i payload)) (\<lambda>wire.
     bindR (parity_wires identity stripe_id path_maximum data_cells parity_cells first_sequence symbol_bytes lengths (i + 1) rs) (\<lambda>wires.
     Inr (wire # wires))))"

definition unprotected_cell :: "nat \<Rightarrow> cell_v2 \<Rightarrow> encoded_train \<Rightarrow> encoded_train result" where
  "unprotected_cell path_maximum c out =
     bindR (encode_into path_maximum (c\<lparr> cell_stripe_id := 0 \<rparr>)) (\<lambda>bs.
     Inr (out\<lparr> et_systematic := et_systematic out @ [bs], et_ordered := et_ordered out @ [(bs, False)],
       et_stats := (et_stats out)\<lparr> fe_unprotected_tail_cells := fe_unprotected_tail_cells (et_stats out) + 1 \<rparr> \<rparr>))"

definition emit_stripe :: "nat \<Rightarrow> bytes list \<Rightarrow> bytes list \<Rightarrow> encoded_train \<Rightarrow> encoded_train" where
  "emit_stripe parity_cells systematic parity out =
     (let all_parity = et_parity out @ parity;
          stats = et_stats out in
      out\<lparr> et_systematic := et_systematic out @ systematic, et_parity := all_parity,
        et_ordered := et_ordered out @ map (\<lambda>b. (b, False)) systematic @
          map (\<lambda>b. (b, True)) (drop (length all_parity - parity_cells) all_parity),
        et_stats := stats\<lparr> fe_parity_cells := fe_parity_cells stats + length parity,
          fe_parity_bytes := foldl (\<lambda>n b. sat_add n (length b)) (fe_parity_bytes stats) parity,
          fe_protected_data_cells := fe_protected_data_cells stats + length systematic \<rparr> \<rparr>)"

definition encode_stripe :: "reed_solomon \<Rightarrow> nat \<Rightarrow> nat \<Rightarrow> nat \<Rightarrow> traffic_class \<times> u32 \<times> u32 \<times> u64 \<times> u8 \<times> u8 \<Rightarrow>
    cell_v2 list \<Rightarrow> (bytes list \<times> bytes list) result" where
  "encode_stripe rs parity_cells protected_maximum path_maximum identity stripe =
     (let first_sequence = cell_sequence (hd stripe); data_cells = length stripe in
      bindR (encode_stripe_id first_sequence data_cells) (\<lambda>stripe_id.
      bindR (stamp_stripe first_sequence stripe_id 0 stripe) (\<lambda>stripe.
      bindR (mapR systematic_length stripe) (\<lambda>lengths.
      let symbol_bytes = next_even (Max (unat ` set lengths)) in
      ensure (HEADER_LEN + (PARITY_FIXED_LEN + data_cells * 2) + symbol_bytes \<le> path_maximum)
        ''V2 parity Cell exceeds QUIC DATAGRAM limit'' (
      ensure (rs_supports rs data_cells parity_cells symbol_bytes) ''unsupported V2 FEC encoder geometry'' (
      bindR (systematic_cells protected_maximum symbol_bytes stripe lengths) (\<lambda>systematic.
      bindR (rs_encode rs data_cells parity_cells symbol_bytes (map snd systematic)) (\<lambda>recovery.
      bindR (parity_wires identity stripe_id path_maximum (length systematic) parity_cells first_sequence
               symbol_bytes lengths 0 recovery) (\<lambda>parity.
      Inr (map fst systematic, parity))))))))))"

fun encode_stripes :: "reed_solomon \<Rightarrow> nat \<Rightarrow> nat \<Rightarrow> nat \<Rightarrow> traffic_class \<times> u32 \<times> u32 \<times> u64 \<times> u8 \<times> u8 \<Rightarrow>
    cell_v2 list list \<Rightarrow> encoded_train \<Rightarrow> encoded_train result" where
  "encode_stripes rs parity_cells protected_maximum path_maximum identity [] out = Inr out"
| "encode_stripes rs parity_cells protected_maximum path_maximum identity (stripe # stripes) out =
     bindR (case stripe of
              [c] \<Rightarrow> unprotected_cell path_maximum c out
            | _ \<Rightarrow> bindR (encode_stripe rs parity_cells protected_maximum path_maximum identity stripe)
                (\<lambda>(systematic, parity). Inr (emit_stripe parity_cells systematic parity out))) (\<lambda>out.
     encode_stripes rs parity_cells protected_maximum path_maximum identity stripes out)"

definition fec_encoder_new :: "fec_geometry \<Rightarrow> fec_geometry result" where
  "fec_encoder_new g = bindR (geometry_validate g) (\<lambda>_. Inr g)"

definition fec_reconfigure :: "fec_geometry \<Rightarrow> fec_geometry \<Rightarrow> fec_geometry \<times> unit result" where
  "fec_reconfigure g enc = (case geometry_validate g of Inl e \<Rightarrow> (enc, Inl e) | Inr u \<Rightarrow> (g, Inr ()))"

text \<open>The encoder's state is its geometry: the byte pool recycles allocations and the cached
  Reed-Solomon encoder is reset to the stripe's geometry before use.\<close>

definition fec_encode :: "reed_solomon \<Rightarrow> fec_geometry \<Rightarrow> cell_v2 list \<Rightarrow> nat \<Rightarrow> encoded_train result" where
  "fec_encode rs g cells path_maximum =
     ensure (cells \<noteq> []) ''cannot FEC-encode an empty V2 train'' (
     let identity = fec_identity (hd cells) in
     ensure (list_all (\<lambda>c. carries_records c \<and> fec_identity c = identity) cells)
       ''V2 FEC stripe crosses train, route, epoch, or class'' (
     if fg_parity_cells g = 0 then
       bindR (mapR (encode_into path_maximum) cells) (\<lambda>systematic.
       Inr (encoded_train_default\<lparr> et_systematic := systematic, et_ordered := map (\<lambda>b. (b, False)) systematic \<rparr>))
     else
       bindR (protected_cell_maximum path_maximum (fg_data_cells g)) (\<lambda>protected_maximum.
       encode_stripes rs (fg_parity_cells g) protected_maximum path_maximum identity
         (chunks (fg_data_cells g) cells) encoded_train_default)))"

section \<open>Loss runs\<close>

record loss_run_histogram =
  lr_run_1 :: nat
  lr_run_2 :: nat
  lr_run_3_4 :: nat
  lr_run_5_plus :: nat

definition observe_run :: "nat \<Rightarrow> loss_run_histogram \<Rightarrow> loss_run_histogram" where
  "observe_run n h =
     (if n = 0 then h
      else if n = 1 then h\<lparr> lr_run_1 := sat_add (lr_run_1 h) 1 \<rparr>
      else if n = 2 then h\<lparr> lr_run_2 := sat_add (lr_run_2 h) 1 \<rparr>
      else if n \<le> 4 then h\<lparr> lr_run_3_4 := sat_add (lr_run_3_4 h) 1 \<rparr>
      else h\<lparr> lr_run_5_plus := sat_add (lr_run_5_plus h) 1 \<rparr>)"

fun observe_runs :: "nat \<Rightarrow> u16 list \<Rightarrow> loss_run_histogram \<Rightarrow> loss_run_histogram" where
  "observe_runs run (a # b # rest) h =
     (if unat b = min (unat a + 1) u16_max then observe_runs (run + 1) (b # rest) h
      else observe_runs 1 (b # rest) (observe_run run h))"
| "observe_runs run _ h = observe_run run h"

definition from_missing_sequences :: "u16 list \<Rightarrow> loss_run_histogram" where
  "from_missing_sequences qs =
     (let none = \<lparr> lr_run_1 = 0, lr_run_2 = 0, lr_run_3_4 = 0, lr_run_5_plus = 0 \<rparr> in
      if qs = [] then none else observe_runs 1 (remdups_adj (sort qs)) none)"

section \<open>Decoder state\<close>

record stripe_key =
  sk_class :: traffic_class
  sk_session_epoch :: u32
  sk_route_label :: u32
  sk_train_id :: u64
  sk_stripe_id :: u32

definition stripe_key_from_cell :: "cell_v2 \<Rightarrow> stripe_key" where
  "stripe_key_from_cell c = \<lparr> sk_class = cell_class c, sk_session_epoch = cell_session_epoch c,
     sk_route_label = cell_route_label c, sk_train_id = cell_train_id c, sk_stripe_id = cell_stripe_id c \<rparr>"

record decode_stripe =
  ds_created :: instant
  ds_updated :: instant
  ds_geometry :: "parity_payload option"
  ds_repair_shape :: "u16 \<times> nat"
  ds_routing_shim :: "u8 \<times> u8"
  ds_originals :: "(u16 \<times> bytes) list"
  ds_recoveries :: "(nat \<times> bytes) list"
  ds_delivered :: "u16 set"
  ds_repair_requested :: bool

record missing_stripe =
  ms_class :: traffic_class
  ms_session_epoch :: u32
  ms_route_label :: u32
  ms_train_id :: u64
  ms_stripe_id :: u32
  ms_missing_sequences :: "u16 list"

definition stripe_buffered :: "decode_stripe \<Rightarrow> nat" where
  "stripe_buffered s = alist_sum length (ds_originals s) + alist_sum length (ds_recoveries s)"

record fec_decode_output =
  fo_cells :: "cell_v2 list"
  fo_parity_received :: nat
  fo_recovered_cells :: nat
  fo_wasted_parity :: nat
  fo_expired_stripes :: nat
  fo_decode_copy_bytes :: nat
  fo_recovery_latency_micros :: nat

record fec_decoder =
  fd_session_epoch :: u32
  fd_ttl :: duration
  fd_maximum_stripes :: nat
  fd_maximum_buffered_bytes :: nat
  fd_stripes :: "(stripe_key \<times> decode_stripe) list"
  fd_order :: "(stripe_key \<times> instant) list"
  fd_completed :: "stripe_key set"
  fd_completed_order :: "stripe_key list"
  fd_buffered_bytes :: nat

definition decoder_with_limits :: "u32 \<Rightarrow> duration \<Rightarrow> nat \<Rightarrow> nat \<Rightarrow> fec_decoder result" where
  "decoder_with_limits session_epoch ttl maximum_stripes maximum_buffered_bytes =
     ensure (session_epoch \<noteq> 0) ''V2 FEC session epoch zero is reserved'' (
     ensure (ttl \<noteq> 0) ''V2 FEC stripe TTL is zero'' (
     ensure (0 < maximum_stripes) ''V2 FEC stripe limit is zero'' (
     ensure (0 < maximum_buffered_bytes) ''V2 FEC byte limit is zero'' (
     Inr \<lparr> fd_session_epoch = session_epoch, fd_ttl = ttl, fd_maximum_stripes = maximum_stripes,
           fd_maximum_buffered_bytes = maximum_buffered_bytes, fd_stripes = [], fd_order = [],
           fd_completed = {}, fd_completed_order = [], fd_buffered_bytes = 0 \<rparr>))))"

definition decoder_new :: "u32 \<Rightarrow> duration \<Rightarrow> fec_decoder result" where
  "decoder_new session_epoch ttl =
     decoder_with_limits session_epoch ttl DEFAULT_MAX_STRIPES DEFAULT_MAX_BUFFERED_BYTES"

definition remove_stripe :: "stripe_key \<Rightarrow> fec_decoder \<Rightarrow> fec_decoder" where
  "remove_stripe key d =
     (let d = (case map_of (fd_stripes d) key of
                 None \<Rightarrow> d
               | Some s \<Rightarrow> d\<lparr> fd_stripes := AList.delete key (fd_stripes d),
                             fd_buffered_bytes := fd_buffered_bytes d - stripe_buffered s \<rparr>) in
      d\<lparr> fd_order := filter (\<lambda>(candidate, _). candidate \<noteq> key) (fd_order d) \<rparr>)"

lemma remove_stripe_order: "length (fd_order (remove_stripe key d)) \<le> length (fd_order d)"
  by (simp add: remove_stripe_def Let_def split: option.splits)

text \<open>The stripe's recorded generation is the one queued (\<open>updated == generation\<close>).\<close>

definition current_generation :: "stripe_key \<Rightarrow> instant \<Rightarrow> fec_decoder \<Rightarrow> bool" where
  "current_generation key generation d =
     (case map_of (fd_stripes d) key of None \<Rightarrow> False | Some s \<Rightarrow> ds_updated s = generation)"

function decoder_expire_loop :: "instant \<Rightarrow> fec_decoder \<Rightarrow> nat \<Rightarrow> fec_decoder \<times> nat" where
  "decoder_expire_loop now d expired =
     (case fd_order d of
        [] \<Rightarrow> (d, expired)
      | (key, generation) # rest \<Rightarrow>
          let current = current_generation key generation d \<and>
                (case map_of (fd_stripes d) key of None \<Rightarrow> False | Some s \<Rightarrow> fd_ttl d \<le> now - ds_updated s);
              obsolete = \<not> current_generation key generation d in
          if \<not> current \<and> \<not> obsolete then (d, expired)
          else
            let d1 = d\<lparr> fd_order := rest \<rparr> in
            if current then decoder_expire_loop now (remove_stripe key d1) (expired + 1)
            else decoder_expire_loop now d1 expired)"
  by pat_completeness auto
termination
  by (relation "measure (\<lambda>(now, d, n). length (fd_order d))")
    (auto intro: le_less_trans [OF remove_stripe_order])

declare decoder_expire_loop.simps [simp del]

definition decoder_expire :: "instant \<Rightarrow> fec_decoder \<Rightarrow> fec_decoder \<times> nat" where
  "decoder_expire now d = decoder_expire_loop now d 0"

function evict_for_stripe :: "fec_decoder \<Rightarrow> fec_decoder" where
  "evict_for_stripe d =
     (if fd_maximum_stripes d \<le> length (fd_stripes d) then
        (case fd_order d of
           [] \<Rightarrow> d
         | (oldest, _) # rest \<Rightarrow> evict_for_stripe (remove_stripe oldest (d\<lparr> fd_order := rest \<rparr>)))
      else d)"
  by pat_completeness auto
termination
  by (relation "measure (\<lambda>d. length (fd_order d))") (auto intro: le_less_trans [OF remove_stripe_order])

declare evict_for_stripe.simps [simp del]

definition ensure_stripe :: "stripe_key \<Rightarrow> instant \<Rightarrow> u8 \<times> u8 \<Rightarrow> fec_decoder \<Rightarrow> fec_decoder \<times> unit result" where
  "ensure_stripe key now shim d =
     (case map_of (fd_stripes d) key of
        Some s \<Rightarrow> (d, ensure (ds_routing_shim s = shim) ''V2 FEC stripe crossed overlay hop generations'' (Inr ()))
      | None \<Rightarrow>
          let d = evict_for_stripe d in
          if fd_maximum_stripes d \<le> length (fd_stripes d) then (d, Inl (Err ''too many active V2 FEC stripes''))
          else (case decode_stripe_id (sk_stripe_id key) of
              Inl e \<Rightarrow> (d, Inl e)
            | Inr shape \<Rightarrow>
                (d\<lparr> fd_stripes := AList.update key \<lparr> ds_created = now, ds_updated = now, ds_geometry = None,
                      ds_repair_shape = shape, ds_routing_shim = shim, ds_originals = [], ds_recoveries = [],
                      ds_delivered = {}, ds_repair_requested = False \<rparr> (fd_stripes d),
                    fd_order := fd_order d @ [(key, now)] \<rparr>, Inr ())))"

text \<open>The loop of \<open>reserve\<close> rotates entries of the protected stripe to the back of the queue; nothing in
  the loop itself bounds that, so running forever is the value \<open>None\<close>.\<close>

partial_function (option) reserve_loop :: "nat \<Rightarrow> stripe_key \<Rightarrow> fec_decoder \<Rightarrow> (fec_decoder \<times> unit result) option" where
  "reserve_loop additional protected d =
     (if fd_maximum_buffered_bytes d < sat_add (fd_buffered_bytes d) additional then
        (case fd_order d of
           [] \<Rightarrow> Some (d, Inr ())
         | e # rest \<Rightarrow>
             if fst e = protected then
               (case map_of (fd_stripes d) (fst e) of
                  None \<Rightarrow> Some (d\<lparr> fd_order := rest \<rparr>, Inl (Panic ''no entry found for key''))
                | Some s \<Rightarrow>
                    if length (fd_stripes d) = 1 then
                      Some (d\<lparr> fd_order := rest @ [(fst e, ds_updated s)] \<rparr>, Inr ())
                    else reserve_loop additional protected (d\<lparr> fd_order := rest @ [(fst e, ds_updated s)] \<rparr>))
             else reserve_loop additional protected (remove_stripe (fst e) (d\<lparr> fd_order := rest \<rparr>)))
      else Some (d, Inr ()))"

definition reserve :: "nat \<Rightarrow> stripe_key \<Rightarrow> fec_decoder \<Rightarrow> (fec_decoder \<times> unit result) option" where
  "reserve additional protected d =
     (case reserve_loop additional protected d of
        None \<Rightarrow> None
      | Some (d, Inl e) \<Rightarrow> Some (d, Inl e)
      | Some (d, Inr _) \<Rightarrow>
          Some (d, ensure (sat_add (fd_buffered_bytes d) additional \<le> fd_maximum_buffered_bytes d)
            ''V2 FEC buffered byte limit exceeded'' (Inr ())))"


section \<open>Recovery\<close>

definition stripe_sequence :: "parity_payload \<Rightarrow> nat \<Rightarrow> u16 option" where
  "stripe_sequence g i =
     (if unat (pp_first_sequence g) + i \<le> u16_max then Some (word_of_nat (unat (pp_first_sequence g) + i)) else None)"

definition present_originals :: "parity_payload \<Rightarrow> decode_stripe \<Rightarrow> nat" where
  "present_originals g s = length (filter (\<lambda>i. case stripe_sequence g i of
       None \<Rightarrow> False | Some q \<Rightarrow> map_of (ds_originals s) q \<noteq> None) [0..<pp_data_cells g])"

definition expand_original :: "nat \<Rightarrow> bytes \<Rightarrow> bytes result" where
  "expand_original symbol_bytes original =
     (if length original \<le> symbol_bytes then
        normalize_routing_shim (original @ replicate (symbol_bytes - length original) 0)
      else Inl (Panic ''range end index out of range''))"

fun expand_originals :: "parity_payload \<Rightarrow> decode_stripe \<Rightarrow> nat list \<Rightarrow> (nat \<times> bytes) list result" where
  "expand_originals g s [] = Inr []"
| "expand_originals g s (i # is) =
     (case stripe_sequence g i of
        None \<Rightarrow> Inl (Err ''V2 FEC sequence overflow'')
      | Some q \<Rightarrow>
          (case map_of (ds_originals s) q of
             None \<Rightarrow> expand_originals g s is
           | Some original \<Rightarrow>
               bindR (expand_original (pp_symbol_bytes g) original) (\<lambda>symbol.
               bindR (expand_originals g s is) (\<lambda>rest. Inr ((i, symbol) # rest)))))"

definition rebuild_cell :: "stripe_key \<Rightarrow> parity_payload \<Rightarrow> u8 \<times> u8 \<Rightarrow> nat \<Rightarrow> bytes \<Rightarrow> (u16 \<times> nat \<times> cell_v2) result" where
  "rebuild_cell key g shim i symbol =
     (case stripe_sequence g i of
        None \<Rightarrow> Inl (Err ''V2 recovered Cell sequence overflow'')
      | Some q \<Rightarrow>
          if length (pp_lengths g) \<le> i then Inl (Panic ''index out of bounds'')
          else
            let len = unat (pp_lengths g ! i) in
            if length symbol < len then Inl (Panic ''range end index out of range'')
            else
              bindR (restore_routing_shim shim (take len symbol)) (\<lambda>bs.
              bindR (decode_cell bs) (\<lambda>c.
              ensure (stripe_key_from_cell c = key \<and> cell_sequence c = q) ''recovered V2 Cell identity mismatch'' (
              Inr (q, len, c)))))"

fun rebuild_cells :: "stripe_key \<Rightarrow> parity_payload \<Rightarrow> (nat \<times> bytes) list \<Rightarrow> decode_stripe \<Rightarrow>
    decode_stripe \<times> (u16 \<times> nat \<times> cell_v2) list result" where
  "rebuild_cells key g [] s = (s, Inr [])"
| "rebuild_cells key g ((i, symbol) # restored) s =
     (case rebuild_cell key g (ds_routing_shim s) i symbol of
        Inl e \<Rightarrow> (s, Inl e)
      | Inr (q, len, c) \<Rightarrow>
          (case rebuild_cells key g restored (s\<lparr> ds_delivered := insert q (ds_delivered s) \<rparr>) of
             (s', Inl e) \<Rightarrow> (s', Inl e)
           | (s', Inr cs) \<Rightarrow> (s', Inr (if q \<in> ds_delivered s then cs else (q, len, c) # cs))))"

definition set_stripe :: "stripe_key \<Rightarrow> decode_stripe \<Rightarrow> fec_decoder \<Rightarrow> fec_decoder" where
  "set_stripe key s d = d\<lparr> fd_stripes := AList.update key s (fd_stripes d) \<rparr>"

definition try_recover :: "reed_solomon \<Rightarrow> stripe_key \<Rightarrow> fec_decoder \<Rightarrow>
    fec_decoder \<times> (u16 \<times> nat \<times> cell_v2) list option result" where
  "try_recover rs key d =
     (case map_of (fd_stripes d) key of
        None \<Rightarrow> (d, Inl (Err ''missing V2 FEC stripe''))
      | Some s \<Rightarrow> (case ds_geometry s of
          None \<Rightarrow> (d, Inr None)
        | Some g \<Rightarrow>
            if present_originals g s = pp_data_cells g \<or>
               present_originals g s + length (ds_recoveries s) < pp_data_cells g then (d, Inr None)
            else if \<not> rs_supports rs (pp_data_cells g) (pp_parity_cells g) (pp_symbol_bytes g) then
              (d, Inl (Err ''unsupported V2 FEC decoder geometry''))
            else (case expand_originals g s [0..<pp_data_cells g] of
                Inl e \<Rightarrow> (d, Inl e)
              | Inr expanded \<Rightarrow>
                  (case rs_decode rs (pp_data_cells g) (pp_parity_cells g) (pp_symbol_bytes g) expanded (ds_recoveries s) of
                     Inl e \<Rightarrow> (d, Inl e)
                   | Inr restored \<Rightarrow>
                       (case rebuild_cells key g restored s of
                          (s', Inl e) \<Rightarrow> (set_stripe key s' d, Inl e)
                        | (s', Inr cs) \<Rightarrow> (set_stripe key s' d, Inr (Some cs)))))))"

definition stripe_complete :: "stripe_key \<Rightarrow> fec_decoder \<Rightarrow> bool" where
  "stripe_complete key d =
     (case map_of (fd_stripes d) key of
        None \<Rightarrow> False
      | Some s \<Rightarrow> (case ds_geometry s of
          None \<Rightarrow> False
        | Some g \<Rightarrow> list_all (\<lambda>i. case stripe_sequence g i of None \<Rightarrow> False | Some q \<Rightarrow> q \<in> ds_delivered s)
            [0..<pp_data_cells g]))"

function trim_completed_stripes :: "fec_decoder \<Rightarrow> fec_decoder" where
  "trim_completed_stripes d =
     (if fd_maximum_stripes d < card (fd_completed d) then
        (case fd_completed_order d of
           [] \<Rightarrow> d
         | oldest # rest \<Rightarrow>
             trim_completed_stripes (d\<lparr> fd_completed := fd_completed d - {oldest}, fd_completed_order := rest \<rparr>))
      else d)"
  by pat_completeness auto
termination
  by (relation "measure (\<lambda>d. length (fd_completed_order d))") auto

declare trim_completed_stripes.simps [simp del]

definition complete_stripe :: "stripe_key \<Rightarrow> fec_decoder \<Rightarrow> fec_decoder" where
  "complete_stripe key d =
     (let d = remove_stripe key d in
      trim_completed_stripes (d\<lparr> fd_completed := insert key (fd_completed d), fd_completed_order := fd_completed_order d @ [key] \<rparr>))"

section \<open>Decoder operations\<close>

text \<open>A systematic Cell of a stripe: a known sequence must repeat the same bytes, a new one is admitted
  within the byte budget and delivered at once.\<close>

definition admit_data :: "stripe_key \<Rightarrow> cell_v2 \<Rightarrow> bytes \<Rightarrow> fec_decode_output \<Rightarrow> fec_decoder \<Rightarrow>
    (fec_decoder \<times> fec_decode_output result) option" where
  "admit_data key c bs out d =
     (case map_of (fd_stripes d) key of
        None \<Rightarrow> Some (d, Inl (Panic ''stripe was inserted''))
      | Some s \<Rightarrow> (case map_of (ds_originals s) (cell_sequence c) of
          Some existing \<Rightarrow> Some (d, ensure (existing = bs) ''conflicting V2 FEC data Cell duplicate'' (Inr out))
        | None \<Rightarrow> (case reserve (length bs) key d of
            None \<Rightarrow> None
          | Some (d, Inl e) \<Rightarrow> Some (d, Inl e)
          | Some (d, Inr _) \<Rightarrow> (case map_of (fd_stripes d) key of
              None \<Rightarrow> Some (d, Inl (Panic ''stripe remains present''))
            | Some s \<Rightarrow>
                Some ((set_stripe key (s\<lparr> ds_originals := AList.update (cell_sequence c) bs (ds_originals s),
                          ds_delivered := insert (cell_sequence c) (ds_delivered s) \<rparr>) d)
                        \<lparr> fd_buffered_bytes := fd_buffered_bytes d + length bs \<rparr>,
                      Inr (out\<lparr> fo_cells := fo_cells out @ [c] \<rparr>))))))"

text \<open>A parity Cell: its record must agree with the stripe id and with the geometry of earlier parity.
  The geometry is recorded before the byte budget is checked.\<close>

definition admit_parity :: "stripe_key \<Rightarrow> u16 \<times> nat \<Rightarrow> bytes \<Rightarrow> fec_decode_output \<Rightarrow> fec_decoder \<Rightarrow>
    (fec_decoder \<times> fec_decode_output result) option" where
  "admit_parity key shape payload out d =
     (let out = out\<lparr> fo_parity_received := 1 \<rparr> in
      case decode_parity_payload payload of
        Inl e \<Rightarrow> Some (d, Inl e)
      | Inr metadata \<Rightarrow>
          if \<not> (pp_data_cells metadata = snd shape \<and> pp_first_sequence metadata = fst shape) then
            Some (d, Inl (Err ''V2 parity metadata disagrees with stripe ID''))
          else (case map_of (fd_stripes d) key of
              None \<Rightarrow> Some (d, Inl (Panic ''stripe was inserted''))
            | Some s \<Rightarrow>
                if (case ds_geometry s of None \<Rightarrow> False | Some existing \<Rightarrow> \<not> same_geometry existing metadata) then
                  Some (d, Inl (Err ''V2 FEC stripe geometry changed''))
                else
                  let d = (case ds_geometry s of None \<Rightarrow> set_stripe key (s\<lparr> ds_geometry := Some metadata \<rparr>) d | Some _ \<Rightarrow> d) in
                  (case map_of (ds_recoveries s) (pp_recovery_index metadata) of
                     Some existing \<Rightarrow>
                       Some (d, ensure (existing = pp_recovery metadata) ''conflicting V2 parity duplicate'' (Inr out))
                   | None \<Rightarrow> (case reserve (length (pp_recovery metadata)) key d of
                       None \<Rightarrow> None
                     | Some (d, Inl e) \<Rightarrow> Some (d, Inl e)
                     | Some (d, Inr _) \<Rightarrow> (case map_of (fd_stripes d) key of
                         None \<Rightarrow> Some (d, Inl (Panic ''stripe remains present''))
                       | Some s \<Rightarrow>
                           Some ((set_stripe key (s\<lparr> ds_recoveries :=
                                     AList.update (pp_recovery_index metadata) (pp_recovery metadata) (ds_recoveries s) \<rparr>) d)
                                   \<lparr> fd_buffered_bytes := fd_buffered_bytes d + length (pp_recovery metadata) \<rparr>,
                                 Inr out))))))"

text \<open>The tail of \<open>push_at\<close>: recovery, then completion or a new generation of the stripe.\<close>

definition finish_push :: "reed_solomon \<Rightarrow> stripe_key \<Rightarrow> instant \<Rightarrow> fec_decode_output \<Rightarrow> fec_decoder \<Rightarrow>
    fec_decoder \<times> fec_decode_output result" where
  "finish_push rs key now out d =
     (case try_recover rs key d of
        (d, Inl e) \<Rightarrow> (d, Inl e)
      | (d, Inr recovered) \<Rightarrow>
          let out = (case recovered of
                 None \<Rightarrow> out
               | Some cs \<Rightarrow> out\<lparr>
                   fo_recovery_latency_micros := (case map_of (fd_stripes d) key of None \<Rightarrow> 0
                     | Some s \<Rightarrow> min ((now - ds_created s) div 1000) (2 ^ 64 - 1)),
                   fo_recovered_cells := length cs,
                   fo_decode_copy_bytes := sum_list (map (fst \<circ> snd) cs),
                   fo_cells := fo_cells out @ map (snd \<circ> snd) cs \<rparr>) in
          if stripe_complete key d then
            let parity_count = (case map_of (fd_stripes d) key of None \<Rightarrow> 0 | Some s \<Rightarrow> length (ds_recoveries s));
                out = (if fo_recovered_cells out = 0 \<and> fo_parity_received out \<noteq> 0
                       then out\<lparr> fo_wasted_parity := parity_count \<rparr> else out) in
            (complete_stripe key d, Inr out)
          else (case map_of (fd_stripes d) key of
              None \<Rightarrow> (d, Inr out)
            | Some s \<Rightarrow> ((set_stripe key (s\<lparr> ds_updated := now \<rparr>) d)\<lparr> fd_order := fd_order d @ [(key, now)] \<rparr>, Inr out)))"

definition empty_output :: "nat \<Rightarrow> fec_decode_output" where
  "empty_output expired = \<lparr> fo_cells = [], fo_parity_received = 0, fo_recovered_cells = 0, fo_wasted_parity = 0,
     fo_expired_stripes = expired, fo_decode_copy_bytes = 0, fo_recovery_latency_micros = 0 \<rparr>"

definition within_stripe :: "u16 \<times> nat \<Rightarrow> u16 \<Rightarrow> bool" where
  "within_stripe shape q \<longleftrightarrow> unat (fst shape) \<le> unat q \<and> unat q < min (unat (fst shape) + snd shape) u16_max"

definition push_striped :: "reed_solomon \<Rightarrow> cell_v2 \<Rightarrow> bytes \<Rightarrow> instant \<Rightarrow> fec_decode_output \<Rightarrow> fec_decoder \<Rightarrow>
    (fec_decoder \<times> fec_decode_output result) option" where
  "push_striped rs c bs now out d =
     (let key = stripe_key_from_cell c in
      case decode_stripe_id (cell_stripe_id c) of
        Inl e \<Rightarrow> Some (d, Inl e)
      | Inr shape \<Rightarrow>
          if carries_records c \<and> \<not> within_stripe shape (cell_sequence c) then
            Some (d, Inl (Err ''V2 systematic Cell is outside its stripe''))
          else if key \<in> fd_completed d then
            Some (d, Inr (if carries_records c then out else out\<lparr> fo_parity_received := 1, fo_wasted_parity := 1 \<rparr>))
          else (case ensure_stripe key now (cell_overlay_hop_limit c, cell_overlay_hops c) d of
              (d, Inl e) \<Rightarrow> Some (d, Inl e)
            | (d, Inr _) \<Rightarrow>
                (case (case cell_body c of
                         Records _ \<Rightarrow> admit_data key c bs out d
                       | Parity payload \<Rightarrow> admit_parity key shape payload out d) of
                   None \<Rightarrow> None
                 | Some (d, Inl e) \<Rightarrow> Some (d, Inl e)
                 | Some (d, Inr out) \<Rightarrow> Some (finish_push rs key now out d))))"

definition push_at :: "reed_solomon \<Rightarrow> bytes \<Rightarrow> instant \<Rightarrow> fec_decoder \<Rightarrow> (fec_decoder \<times> fec_decode_output result) option" where
  "push_at rs bs now d =
     (case decode_cell bs of
        Inl e \<Rightarrow> Some (d, Inl e)
      | Inr c \<Rightarrow>
          if cell_session_epoch c \<noteq> fd_session_epoch d then
            Some (d, Inl (Err ''V2 FEC Cell belongs to another session epoch''))
          else
            (case decoder_expire now d of (d, expired) \<Rightarrow>
               let out = empty_output expired in
               if cell_stripe_id c = 0 then
                 Some (d, ensure (carries_records c) ''unstriped V2 parity Cell'' (Inr (out\<lparr> fo_cells := [c] \<rparr>)))
               else push_striped rs c bs now out d))"

function shrink_loop :: "fec_decoder \<Rightarrow> nat \<Rightarrow> fec_decoder \<times> nat" where
  "shrink_loop d evicted =
     (if fd_maximum_buffered_bytes d < fd_buffered_bytes d then
        (case fd_order d of
           [] \<Rightarrow> (d, evicted)
         | (candidate, generation) # rest \<Rightarrow>
             let d1 = d\<lparr> fd_order := rest \<rparr> in
             if current_generation candidate generation d1 then shrink_loop (remove_stripe candidate d1) (evicted + 1)
             else shrink_loop d1 evicted)
      else (d, evicted))"
  by pat_completeness auto
termination
  by (relation "measure (\<lambda>(d, n). length (fd_order d))") (auto intro: le_less_trans [OF remove_stripe_order])

declare shrink_loop.simps [simp del]

definition decoder_set_maximum :: "nat \<Rightarrow> fec_decoder \<Rightarrow> fec_decoder \<times> nat result" where
  "decoder_set_maximum maximum d =
     (if maximum = 0 then (d, Inl (Err ''V2 FEC byte limit is zero''))
      else case shrink_loop (d\<lparr> fd_maximum_buffered_bytes := maximum \<rparr>) 0 of (d, n) \<Rightarrow> (d, Inr n))"

definition decoder_set_ttl :: "duration \<Rightarrow> instant \<Rightarrow> fec_decoder \<Rightarrow> fec_decoder \<times> unit result" where
  "decoder_set_ttl ttl now d =
     (if ttl = 0 then (d, Inl (Err ''V2 FEC stripe TTL is zero''))
      else (fst (decoder_expire now (d\<lparr> fd_ttl := ttl \<rparr>)), Inr ()))"

definition missing_sequences :: "decode_stripe \<Rightarrow> u16 list" where
  "missing_sequences s =
     filter (\<lambda>q. q \<notin> ds_delivered s)
       (List.map_filter (\<lambda>i. let n = unat (fst (ds_repair_shape s)) + i in
          if n \<le> u16_max then Some (word_of_nat n) else None) [0..<snd (ds_repair_shape s)])"

fun collect_candidates :: "instant \<Rightarrow> duration \<Rightarrow> (stripe_key \<times> decode_stripe) list \<Rightarrow>
    (stripe_key \<times> decode_stripe) list \<times> missing_stripe list" where
  "collect_candidates now minimum_age [] = ([], [])"
| "collect_candidates now minimum_age ((key, s) # rest) =
     (case collect_candidates now minimum_age rest of (rest', ms) \<Rightarrow>
        if ds_repair_requested s \<or> now - ds_updated s < minimum_age \<or> missing_sequences s = [] then ((key, s) # rest', ms)
        else ((key, s\<lparr> ds_repair_requested := True \<rparr>) # rest',
          \<lparr> ms_class = sk_class key, ms_session_epoch = sk_session_epoch key, ms_route_label = sk_route_label key,
            ms_train_id = sk_train_id key, ms_stripe_id = sk_stripe_id key,
            ms_missing_sequences = missing_sequences s \<rparr> # ms))"

definition repair_candidates :: "instant \<Rightarrow> duration \<Rightarrow> fec_decoder \<Rightarrow> fec_decoder \<times> missing_stripe list" where
  "repair_candidates now minimum_age d =
     (case collect_candidates now minimum_age (fd_stripes d) of (es, ms) \<Rightarrow> (d\<lparr> fd_stripes := es \<rparr>, ms))"


section \<open>Decoder invariant\<close>

definition stripe_wf :: "stripe_key \<times> decode_stripe \<Rightarrow> bool" where
  "stripe_wf e \<longleftrightarrow> distinct (map fst (ds_originals (snd e))) \<and> distinct (map fst (ds_recoveries (snd e)))"

definition queued :: "fec_decoder \<Rightarrow> bool" where
  "queued d \<longleftrightarrow> (\<forall>e\<in>set (fd_stripes d). (fst e, ds_updated (snd e)) \<in> set (fd_order d)) \<and>
     fst ` set (fd_order d) \<subseteq> fst ` set (fd_stripes d)"

definition stripes_ok :: "fec_decoder \<Rightarrow> bool" where
  "stripes_ok d \<longleftrightarrow> distinct (map fst (fd_stripes d)) \<and> list_all stripe_wf (fd_stripes d) \<and> queued d \<and>
     fd_buffered_bytes d = alist_sum stripe_buffered (fd_stripes d) \<and>
     length (fd_stripes d) \<le> fd_maximum_stripes d \<and> fd_maximum_buffered_bytes d < usize_max"

definition completed_ok :: "fec_decoder \<Rightarrow> bool" where
  "completed_ok d \<longleftrightarrow> distinct (fd_completed_order d) \<and> set (fd_completed_order d) = fd_completed d \<and>
     length (fd_completed_order d) \<le> fd_maximum_stripes d"

definition decoder_ok :: "fec_decoder \<Rightarrow> bool" where
  "decoder_ok d \<longleftrightarrow> stripes_ok d \<and> completed_ok d \<and> fd_buffered_bytes d \<le> fd_maximum_buffered_bytes d"

text \<open>Everything but the stripes and their queue.\<close>

definition same_limits :: "fec_decoder \<Rightarrow> fec_decoder \<Rightarrow> bool" where
  "same_limits d d' \<longleftrightarrow> fd_session_epoch d' = fd_session_epoch d \<and> fd_ttl d' = fd_ttl d \<and>
     fd_maximum_stripes d' = fd_maximum_stripes d \<and> fd_maximum_buffered_bytes d' = fd_maximum_buffered_bytes d \<and>
     fd_completed d' = fd_completed d \<and> fd_completed_order d' = fd_completed_order d"

text \<open>Eviction: stripes and queue shrink, what remains is unchanged.\<close>

definition evicts :: "fec_decoder \<Rightarrow> fec_decoder \<Rightarrow> bool" where
  "evicts d d' \<longleftrightarrow> same_limits d d' \<and> set (fd_stripes d') \<subseteq> set (fd_stripes d) \<and> fd_buffered_bytes d' \<le> fd_buffered_bytes d"

lemma evicts_refl [simp]: "evicts d d"
  by (simp add: evicts_def same_limits_def)

lemma evicts_trans: "evicts a b \<Longrightarrow> evicts b c \<Longrightarrow> evicts a c"
  by (auto simp: evicts_def same_limits_def)

lemma completed_ok_limits: "same_limits d d' \<Longrightarrow> completed_ok d' = completed_ok d"
  by (simp add: completed_ok_def same_limits_def)

lemma evicts_completed: "evicts d d' \<Longrightarrow> completed_ok d \<Longrightarrow> completed_ok d'"
  using completed_ok_limits [of d d'] by (simp add: evicts_def)

lemma evicts_map_of:
  assumes "stripes_ok d" "evicts d d'" "map_of (fd_stripes d') k = Some s"
  shows "map_of (fd_stripes d) k = Some s"
  using assms by (auto simp: evicts_def stripes_ok_def dest!: map_of_SomeD)

lemma remove_stripe_sel [simp]:
  "fd_order (remove_stripe k d) = filter (\<lambda>(c, _). c \<noteq> k) (fd_order d)"
  "fd_session_epoch (remove_stripe k d) = fd_session_epoch d" "fd_ttl (remove_stripe k d) = fd_ttl d"
  "fd_maximum_stripes (remove_stripe k d) = fd_maximum_stripes d"
  "fd_maximum_buffered_bytes (remove_stripe k d) = fd_maximum_buffered_bytes d"
  "fd_completed (remove_stripe k d) = fd_completed d" "fd_completed_order (remove_stripe k d) = fd_completed_order d"
  by (simp_all add: remove_stripe_def Let_def split: option.splits)

lemma remove_stripe_stripes: "fd_stripes (remove_stripe k d) = filter (\<lambda>e. fst e \<noteq> k) (fd_stripes d)"
  by (auto simp: remove_stripe_def Let_def delete_filter map_of_eq_None_iff filter_keys_id split: option.splits)

lemma remove_stripe_evicts: "evicts d (remove_stripe k d)"
  by (auto simp: evicts_def same_limits_def remove_stripe_stripes) (simp add: remove_stripe_def Let_def split: option.splits)

lemma remove_stripe_buffered:
  assumes "distinct (map fst (fd_stripes d))" "fd_buffered_bytes d = alist_sum stripe_buffered (fd_stripes d)"
  shows "fd_buffered_bytes (remove_stripe k d) = alist_sum stripe_buffered (fd_stripes (remove_stripe k d))"
proof (cases "map_of (fd_stripes d) k")
  case None
  then show ?thesis using assms by (simp add: remove_stripe_def)
next
  case (Some s)
  then show ?thesis using assms alist_sum_delete [OF assms(1) Some, of stripe_buffered] by (simp add: remove_stripe_def)
qed

text \<open>Dropping the head of the queue together with its stripe, or when the stripe has a newer entry.\<close>

lemma queued_remove:
  assumes "queued d" "fd_order d = (k, g) # rest"
  shows "queued (remove_stripe k (d\<lparr> fd_order := rest \<rparr>))"
  using assms by (fastforce simp: queued_def remove_stripe_stripes image_iff)

lemma stripes_ok_remove:
  assumes ok: "stripes_ok d" and ord: "fd_order d = (k, g) # rest"
  shows "stripes_ok (remove_stripe k (d\<lparr> fd_order := rest \<rparr>))"
proof -
  have "length (filter (\<lambda>e. fst e \<noteq> k) (fd_stripes d)) \<le> fd_maximum_stripes d"
    using ok by (auto simp: stripes_ok_def intro: order_trans [OF length_filter_le])
  with ok queued_remove [OF _ ord] remove_stripe_buffered [of "d\<lparr> fd_order := rest \<rparr>" k] show ?thesis
    by (auto simp: stripes_ok_def remove_stripe_stripes distinct_map_filter list_all_iff)
qed

lemma stripes_ok_obsolete:
  assumes ok: "stripes_ok d" and ord: "fd_order d = (k, g) # rest" and old: "\<not> current_generation k g d"
  shows "stripes_ok (d\<lparr> fd_order := rest \<rparr>)"
proof -
  have "(fst e, ds_updated (snd e)) \<noteq> (k, g)" if "e \<in> set (fd_stripes d)" for e
    using old that ok by (cases e) (auto simp: current_generation_def stripes_ok_def)
  then have "queued (d\<lparr> fd_order := rest \<rparr>)" using ok ord by (fastforce simp: stripes_ok_def queued_def)
  with ok show ?thesis by (simp add: stripes_ok_def)
qed

lemma remove_queued_evicts: "evicts d (remove_stripe k (d\<lparr> fd_order := rest \<rparr>))"
  using remove_stripe_evicts [of "d\<lparr> fd_order := rest \<rparr>" k] by (simp add: evicts_def same_limits_def)

lemma evicts_order [simp]: "evicts d (d\<lparr> fd_order := rest \<rparr>)"
  by (simp add: evicts_def same_limits_def)

section \<open>Eviction loops\<close>

lemma expire_loop_ok:
  assumes "stripes_ok d" "decoder_expire_loop now d n = (d', n')"
  shows "stripes_ok d' \<and> evicts d d'"
  using assms
proof (induction now d n rule: decoder_expire_loop.induct)
  case (1 now d n)
  show ?case
  proof (cases "fd_order d")
    case Nil
    with 1(3,4) show ?thesis by (simp add: decoder_expire_loop.simps [of now d n])
  next
    case (Cons e rest)
    obtain k g where e: "e = (k, g)" by fastforce
    note ord = Cons [unfolded e]
    let ?d = "d\<lparr> fd_order := rest \<rparr>"
    let ?cur = "current_generation k g d \<and> (case map_of (fd_stripes d) k of None \<Rightarrow> False | Some s \<Rightarrow> fd_ttl d \<le> now - ds_updated s)"
    consider (stop) "current_generation k g d" "\<not> ?cur" | (gone) ?cur | (old) "\<not> current_generation k g d" by blast
    then show ?thesis
    proof cases
      case stop
      with 1(3,4) ord show ?thesis by (simp add: decoder_expire_loop.simps [of now d n])
    next
      case gone
      then have step: "decoder_expire_loop now (remove_stripe k ?d) (n + 1) = (d', n')"
        using 1(4) ord by (simp add: decoder_expire_loop.simps [of now d n])
      have "\<not> (\<not> ?cur \<and> \<not> \<not> current_generation k g d)" using gone by blast
      from 1(1) [OF Cons e [symmetric] refl refl this refl gone stripes_ok_remove [OF 1(3) ord] step]
      show ?thesis using remove_queued_evicts evicts_trans by blast
    next
      case old
      then have step: "decoder_expire_loop now ?d n = (d', n')"
        using 1(4) ord by (simp add: decoder_expire_loop.simps [of now d n])
      have "\<not> (\<not> ?cur \<and> \<not> \<not> current_generation k g d)" "\<not> ?cur" using old by blast+
      from 1(2) [OF Cons e [symmetric] refl refl this(1) refl this(2) stripes_ok_obsolete [OF 1(3) ord old] step]
      show ?thesis using evicts_order evicts_trans by blast
    qed
  qed
qed

lemma decoder_expire_ok:
  assumes "stripes_ok d" "decoder_expire now d = (d', n)"
  shows "stripes_ok d'" "evicts d d'"
  using expire_loop_ok [OF assms(1), of now 0] assms(2) by (simp_all add: decoder_expire_def)

lemma shrink_loop_ok:
  assumes "stripes_ok d" "shrink_loop d n = (d', n')"
  shows "stripes_ok d' \<and> evicts d d' \<and> fd_buffered_bytes d' \<le> fd_maximum_buffered_bytes d'"
  using assms
proof (induction d n rule: shrink_loop.induct)
  case (1 d n)
  show ?case
  proof (cases "fd_maximum_buffered_bytes d < fd_buffered_bytes d")
    case False
    with 1(3,4) show ?thesis by (simp add: shrink_loop.simps [of d n])
  next
    case True
    show ?thesis
    proof (cases "fd_order d")
      case Nil
      with 1(3) True have "fd_stripes d = []" by (cases "fd_stripes d") (auto simp: stripes_ok_def queued_def)
      with 1(3) True show ?thesis by (simp add: stripes_ok_def)
    next
      case (Cons e rest)
      obtain k g where e: "e = (k, g)" by fastforce
      note ord = Cons [unfolded e]
      let ?d = "d\<lparr> fd_order := rest \<rparr>"
      have same: "current_generation k g ?d = current_generation k g d" by (simp add: current_generation_def)
      show ?thesis
      proof (cases "current_generation k g ?d")
        case cur: True
        then have step: "shrink_loop (remove_stripe k ?d) (n + 1) = (d', n')"
          using 1(4) ord True by (simp add: shrink_loop.simps [of d n])
        from 1(1) [OF True Cons e [symmetric] refl cur stripes_ok_remove [OF 1(3) ord] step]
        show ?thesis using remove_queued_evicts evicts_trans by blast
      next
        case old: False
        then have step: "shrink_loop ?d n = (d', n')" using 1(4) ord True by (simp add: shrink_loop.simps [of d n])
        from 1(2) [OF True Cons e [symmetric] refl old stripes_ok_obsolete [OF 1(3) ord old [unfolded same]] step]
        show ?thesis using evicts_order evicts_trans by blast
      qed
    qed
  qed
qed

lemma evict_for_stripe_ok:
  assumes "stripes_ok d" "0 < fd_maximum_stripes d"
  shows "stripes_ok (evict_for_stripe d) \<and> evicts d (evict_for_stripe d) \<and>
    length (fd_stripes (evict_for_stripe d)) < fd_maximum_stripes (evict_for_stripe d)"
  using assms
proof (induction d rule: evict_for_stripe.induct)
  case (1 d)
  show ?case
  proof (cases "fd_maximum_stripes d \<le> length (fd_stripes d)")
    case False
    with 1(2) show ?thesis by (simp add: evict_for_stripe.simps [of d])
  next
    case True
    show ?thesis
    proof (cases "fd_order d")
      case Nil
      with 1(2) have "fd_stripes d = []" by (cases "fd_stripes d") (auto simp: stripes_ok_def queued_def)
      with 1(3) True show ?thesis by simp
    next
      case (Cons e rest)
      obtain k g where e: "e = (k, g)" by fastforce
      note ord = Cons [unfolded e]
      have "evict_for_stripe d = evict_for_stripe (remove_stripe k (d\<lparr> fd_order := rest \<rparr>))"
        using True ord by (subst evict_for_stripe.simps) simp
      with 1(1) [OF True Cons e [symmetric] stripes_ok_remove [OF 1(2) ord]] 1(3) show ?thesis
        using evicts_trans [OF remove_queued_evicts [of d k rest]] by simp
    qed
  qed
qed

section \<open>Making room for bytes\<close>

definition foreign :: "stripe_key \<Rightarrow> fec_decoder \<Rightarrow> nat" where
  "foreign p d = length (filter (\<lambda>e. fst e \<noteq> p) (fd_order d))"

definition leading :: "stripe_key \<Rightarrow> fec_decoder \<Rightarrow> nat" where
  "leading p d = length (takeWhile (\<lambda>e. fst e = p) (fd_order d))"

lemma map_of_remove_stripe: "k \<noteq> p \<Longrightarrow> map_of (fd_stripes (remove_stripe k d)) p = map_of (fd_stripes d) p"
  by (simp add: remove_stripe_stripes delete_filter [symmetric] delete_conv)

lemma other_queued:
  assumes "stripes_ok d" "map_of (fd_stripes d) p = Some s" "length (fd_stripes d) \<noteq> 1"
  shows "\<exists>e\<in>set (fd_order d). fst e \<noteq> p"
proof -
  obtain a b rest where es: "fd_stripes d = a # b # rest"
    using assms(2,3) by (cases "fd_stripes d"; cases "tl (fd_stripes d)") auto
  with assms(1) have "fst a \<noteq> fst b" by (auto simp: stripes_ok_def)
  then obtain e where "e \<in> set (fd_stripes d)" "fst e \<noteq> p" using es that [of a] that [of b] by (cases "fst a = p") simp_all
  then show ?thesis using assms(1) by (force simp: stripes_ok_def queued_def)
qed

lemma stripes_ok_rotate:
  assumes "stripes_ok d" "fd_order d = (p, g) # rest" "map_of (fd_stripes d) p = Some s"
  shows "stripes_ok (d\<lparr> fd_order := rest @ [(p, ds_updated s)] \<rparr>)"
proof -
  have "(fst e, ds_updated (snd e)) \<in> set (rest @ [(p, ds_updated s)])" if "e \<in> set (fd_stripes d)" for e
  proof (cases "fst e = p")
    case True
    have "map_of (fd_stripes d) (fst e) = Some (snd e)" using that assms(1) by (simp add: stripes_ok_def)
    with True assms(3) have "snd e = s" by simp
    with True show ?thesis by simp
  next
    case False
    with that assms show ?thesis by (auto simp: stripes_ok_def queued_def)
  qed
  moreover have "p \<in> fst ` set (fd_stripes d)" using map_of_SomeD [OF assms(3)] by force
  ultimately have "queued (d\<lparr> fd_order := rest @ [(p, ds_updated s)] \<rparr>)"
    using assms(1,2) by (auto simp: stripes_ok_def queued_def)
  with assms(1) show ?thesis by (simp add: stripes_ok_def)
qed


lemma reserve_loop_returns:
  assumes "stripes_ok d" "map_of (fd_stripes d) p = Some s"
  shows "\<exists>d'. reserve_loop n p d = Some (d', Inr ()) \<and> stripes_ok d' \<and> evicts d d' \<and> map_of (fd_stripes d') p = Some s"
  using assms
proof (induction d rule: wf_induct_rule [OF wf_measures [of "[foreign p, leading p]"], case_names less])
  case (less d)
  show ?case
  proof (cases "fd_maximum_buffered_bytes d < sat_add (fd_buffered_bytes d) n \<and> fd_order d \<noteq> []")
    case False
    with less.prems show ?thesis by (subst reserve_loop.simps) (auto split: list.splits)
  next
    case True
    then obtain k g rest where ord: "fd_order d = (k, g) # rest" by (cases "fd_order d") auto
    show ?thesis
    proof (cases "k = p")
      case other: False
      let ?d = "remove_stripe k (d\<lparr> fd_order := rest \<rparr>)"
      have "length (filter (\<lambda>x. (case x of (c, _) \<Rightarrow> c \<noteq> k) \<and> fst x \<noteq> p) rest) \<le> length (filter (\<lambda>e. fst e \<noteq> p) rest)"
        by (induction rest) auto
      then have "foreign p ?d < foreign p d" using other by (simp add: foreign_def ord conj_commute)
      then have "(?d, d) \<in> measures [foreign p, leading p]" by simp
      moreover have "map_of (fd_stripes ?d) p = Some s" using map_of_remove_stripe [OF other] less.prems(2) by simp
      moreover have "reserve_loop n p d = reserve_loop n p ?d" using True ord other by (subst reserve_loop.simps) simp
      ultimately show ?thesis
        using less.IH [OF _ stripes_ok_remove [OF less.prems(1) ord]] evicts_trans [OF remove_queued_evicts] by force
    next
      case same: True
      note ord = ord [unfolded same]
      let ?d = "d\<lparr> fd_order := rest @ [(p, ds_updated s)] \<rparr>"
      note ok = stripes_ok_rotate [OF less.prems(1) ord less.prems(2)]
      show ?thesis
      proof (cases "length (fd_stripes d) = 1")
        case one: True
        then have "reserve_loop n p d = Some (?d, Inr ())" using True ord less.prems(2) by (subst reserve_loop.simps) simp
        with ok less.prems(2) show ?thesis by auto
      next
        case many: False
        then have eq: "reserve_loop n p d = reserve_loop n p ?d" using True ord less.prems(2) by (subst reserve_loop.simps) simp
        obtain e where e: "e \<in> set rest" "fst e \<noteq> p" using other_queued [OF less.prems many] ord by auto
        have "foreign p ?d = foreign p d" by (simp add: foreign_def ord)
        moreover have "leading p ?d < leading p d" using e by (simp add: leading_def ord takeWhile_append1 [of e rest "\<lambda>e. fst e = p"])
        ultimately have "(?d, d) \<in> measures [foreign p, leading p]" by simp
        from less.IH [OF this ok] less.prems(2) eq show ?thesis using evicts_trans [OF evicts_order] by force
      qed
    qed
  qed
qed

lemma reserve_returns:
  assumes "stripes_ok d" "map_of (fd_stripes d) p = Some s"
  obtains d' res where "reserve n p d = Some (d', res)" "stripes_ok d'" "evicts d d'" "map_of (fd_stripes d') p = Some s"
    "res = Inr () \<longleftrightarrow> fd_buffered_bytes d' + n \<le> fd_maximum_buffered_bytes d'"
proof -
  obtain d' where "reserve_loop n p d = Some (d', Inr ())" and ok: "stripes_ok d'" "evicts d d'" "map_of (fd_stripes d') p = Some s"
    using reserve_loop_returns [OF assms] by blast
  then have "reserve n p d = Some (d', ensure (sat_add (fd_buffered_bytes d') n \<le> fd_maximum_buffered_bytes d')
            ''V2 FEC buffered byte limit exceeded'' (Inr ()))" by (simp add: reserve_def)
  moreover have "sat_add (fd_buffered_bytes d') n \<le> fd_maximum_buffered_bytes d' \<longleftrightarrow> fd_buffered_bytes d' + n \<le> fd_maximum_buffered_bytes d'"
    using ok(1) by (simp add: sat_add_le_iff stripes_ok_def)
  ultimately show ?thesis using that [of d'] ok by (auto simp: ensure_def)
qed


section \<open>Operations keep the invariant\<close>

lemma set_stripe_sel [simp]:
  "fd_stripes (set_stripe k s d) = AList.update k s (fd_stripes d)" "fd_order (set_stripe k s d) = fd_order d"
  "fd_session_epoch (set_stripe k s d) = fd_session_epoch d" "fd_ttl (set_stripe k s d) = fd_ttl d"
  "fd_maximum_stripes (set_stripe k s d) = fd_maximum_stripes d"
  "fd_maximum_buffered_bytes (set_stripe k s d) = fd_maximum_buffered_bytes d"
  "fd_completed (set_stripe k s d) = fd_completed d" "fd_completed_order (set_stripe k s d) = fd_completed_order d"
  "fd_buffered_bytes (set_stripe k s d) = fd_buffered_bytes d"
  by (simp_all add: set_stripe_def)

lemma same_limits_refl [simp]: "same_limits d d"
  by (simp add: same_limits_def)

lemma same_limits_trans: "same_limits a b \<Longrightarrow> same_limits b c \<Longrightarrow> same_limits a c"
  by (simp add: same_limits_def)

lemma evicts_limits: "evicts d d' \<Longrightarrow> same_limits d d'"
  by (simp add: evicts_def)

lemma stripes_ok_set:
  assumes ok: "stripes_ok d" and s: "map_of (fd_stripes d) k = Some s" and wf: "stripe_wf (k, s')"
    and upd: "ds_updated s' = ds_updated s \<or> (k, ds_updated s') \<in> set q" and q: "set q \<subseteq> insert (k, ds_updated s') (set (fd_order d))"
    and sub: "set (fd_order d) \<subseteq> set q" and b: "b + stripe_buffered s = fd_buffered_bytes d + stripe_buffered s'"
  shows "stripes_ok ((set_stripe k s' d)\<lparr> fd_order := q, fd_buffered_bytes := b \<rparr>)"
proof -
  have dist: "distinct (map fst (fd_stripes d))" and bb: "fd_buffered_bytes d = alist_sum stripe_buffered (fd_stripes d)"
    and len: "length (fd_stripes d) \<le> fd_maximum_stripes d" using ok by (auto simp: stripes_ok_def)
  have mem: "(k, s) \<in> set (fd_stripes d)" by (rule map_of_SomeD [OF s])
  have in_q: "(k, ds_updated s) \<in> set q" using ok mem sub by (force simp: stripes_ok_def queued_def)
  have "(fst e, ds_updated (snd e)) \<in> set q" if "e \<in> set (AList.update k s' (fd_stripes d))" for e
    using that ok upd sub in_q by (auto simp: mem_update [OF dist] stripes_ok_def queued_def)
  moreover have "fst ` set q \<subseteq> fst ` set (AList.update k s' (fd_stripes d))"
  proof -
    have "fst ` set q \<subseteq> insert k (fst ` set (fd_order d))" using image_mono [OF q, of fst] by simp
    moreover have "fst ` set (fd_order d) \<subseteq> fst ` set (fd_stripes d)" using ok by (simp add: stripes_ok_def queued_def)
    ultimately show ?thesis unfolding dom_update by blast
  qed
  ultimately have "queued ((set_stripe k s' d)\<lparr> fd_order := q, fd_buffered_bytes := b \<rparr>)" by (simp add: queued_def)
  moreover have "b = alist_sum stripe_buffered (AList.update k s' (fd_stripes d))"
    using alist_sum_update [OF s, of stripe_buffered s'] b bb by linarith
  moreover have "length (AList.update k s' (fd_stripes d)) = length (fd_stripes d)"
    using mem by (force simp: length_update)
  moreover have "list_all stripe_wf (AList.update k s' (fd_stripes d))"
    using ok wf by (auto simp: stripes_ok_def list_all_iff mem_update [OF dist])
  ultimately show ?thesis using ok distinct_update [OF dist, of k s'] by (simp add: stripes_ok_def)
qed

lemma stripes_ok_set_same:
  assumes "stripes_ok d" "map_of (fd_stripes d) k = Some s" "stripe_wf (k, s')" "ds_updated s' = ds_updated s"
    "b + stripe_buffered s = fd_buffered_bytes d + stripe_buffered s'"
  shows "stripes_ok ((set_stripe k s' d)\<lparr> fd_buffered_bytes := b \<rparr>)"
proof -
  have eq: "(set_stripe k s' d)\<lparr> fd_buffered_bytes := b \<rparr> = (set_stripe k s' d)\<lparr> fd_order := fd_order d, fd_buffered_bytes := b \<rparr>"
    by (simp add: set_stripe_def)
  show ?thesis unfolding eq by (rule stripes_ok_set [OF assms(1-3) _ _ _ assms(5)]) (use assms(4) in auto)
qed

lemma stripes_ok_set_quiet:
  assumes "stripes_ok d" "map_of (fd_stripes d) k = Some s" "stripe_wf (k, s')" "ds_updated s' = ds_updated s"
    "stripe_buffered s' = stripe_buffered s"
  shows "stripes_ok (set_stripe k s' d)"
proof -
  have "stripes_ok ((set_stripe k s' d)\<lparr> fd_buffered_bytes := fd_buffered_bytes d \<rparr>)"
    by (rule stripes_ok_set_same [OF assms(1-4)]) (simp add: assms(5))
  then show ?thesis by (simp add: set_stripe_def)
qed

lemma decoder_ok_evicts: "decoder_ok d \<Longrightarrow> stripes_ok d' \<Longrightarrow> evicts d d' \<Longrightarrow> decoder_ok d'"
  using evicts_completed by (auto simp: decoder_ok_def evicts_def same_limits_def)

lemma stripe_wf_of: "stripes_ok d \<Longrightarrow> map_of (fd_stripes d) k = Some s \<Longrightarrow> stripe_wf (k, s)"
  by (auto simp: stripes_ok_def list_all_iff dest: map_of_SomeD)

lemma ensure_stripe_ok:
  assumes ok: "decoder_ok d" and pos: "0 < fd_maximum_stripes d" and st: "ensure_stripe k now shim d = (d', res)"
  shows "decoder_ok d' \<and> same_limits d d' \<and> (res = Inr () \<longrightarrow> map_of (fd_stripes d') k \<noteq> None)"
proof (cases "map_of (fd_stripes d) k")
  case (Some s)
  with st ok show ?thesis by (auto simp: ensure_stripe_def)
next
  case None
  let ?d = "evict_for_stripe d"
  have ev: "stripes_ok ?d" "evicts d ?d" "length (fd_stripes ?d) < fd_maximum_stripes ?d"
    using evict_for_stripe_ok [of d] ok pos by (auto simp: decoder_ok_def)
  note ok1 = decoder_ok_evicts [OF ok ev(1,2)]
  show ?thesis
  proof (cases "decode_stripe_id (sk_stripe_id k)")
    case (Inl e)
    with st None ev ok1 show ?thesis by (auto simp: ensure_stripe_def Let_def evicts_limits)
  next
    case (Inr shape)
    let ?s = "\<lparr> ds_created = now, ds_updated = now, ds_geometry = None, ds_repair_shape = shape, ds_routing_shim = shim,
      ds_originals = [], ds_recoveries = [], ds_delivered = {}, ds_repair_requested = False \<rparr>"
    have none: "map_of (fd_stripes ?d) k = None" using evicts_map_of [OF _ ev(2), of k] ok None
      by (cases "map_of (fd_stripes ?d) k") (simp_all add: decoder_ok_def)
    then have new: "k \<notin> fst ` set (fd_stripes ?d)" by (simp add: map_of_eq_None_iff)
    have d': "d' = ?d\<lparr> fd_stripes := fd_stripes ?d @ [(k, ?s)], fd_order := fd_order ?d @ [(k, now)] \<rparr>" "res = Inr ()"
      using st None Inr ev(3) by (auto simp: ensure_stripe_def Let_def update_new [OF new])
    have "queued d'" using ev(1) unfolding d' by (auto simp: stripes_ok_def queued_def)
    then have "stripes_ok d'" using ev(1,3) new unfolding d'
      by (auto simp: stripes_ok_def stripe_wf_def stripe_buffered_def)
    moreover have "same_limits d d'" using evicts_limits [OF ev(2)] unfolding d' by (simp add: same_limits_def)
    moreover have "completed_ok d'" "fd_buffered_bytes d' \<le> fd_maximum_buffered_bytes d'"
      using ok1 unfolding d' by (simp_all add: decoder_ok_def completed_ok_def)
    moreover have "map_of (fd_stripes d') k \<noteq> None" unfolding d' by (simp add: map_of_eq_None_iff)
    ultimately show ?thesis by (simp add: decoder_ok_def)
  qed
qed

lemma admit_data_ok:
  assumes ok: "decoder_ok d" and s: "map_of (fd_stripes d) k = Some s"
  obtains d' res where "admit_data k c bs out d = Some (d', res)" "decoder_ok d'" "same_limits d d'" "map_of (fd_stripes d') k \<noteq> None"
proof (cases "map_of (ds_originals s) (cell_sequence c)")
  case (Some b)
  then show ?thesis using that ok s by (simp add: admit_data_def)
next
  case None
  have sok: "stripes_ok d" using ok by (simp add: decoder_ok_def)
  obtain d1 r where r: "reserve (length bs) k d = Some (d1, r)" "stripes_ok d1" "evicts d d1" "map_of (fd_stripes d1) k = Some s"
    "r = Inr () \<longleftrightarrow> fd_buffered_bytes d1 + length bs \<le> fd_maximum_buffered_bytes d1"
    by (rule reserve_returns [OF sok s])
  note ok1 = decoder_ok_evicts [OF ok r(2,3)]
  show ?thesis
  proof (cases r)
    case (Inl e)
    with that r None s ok1 evicts_limits [OF r(3)] show ?thesis by (simp add: admit_data_def)
  next
    case (Inr u)
    let ?s = "s\<lparr> ds_originals := AList.update (cell_sequence c) bs (ds_originals s),
      ds_delivered := insert (cell_sequence c) (ds_delivered s) \<rparr>"
    let ?d = "(set_stripe k ?s d1)\<lparr> fd_buffered_bytes := fd_buffered_bytes d1 + length bs \<rparr>"
    have "stripe_buffered ?s = stripe_buffered s + length bs" by (simp add: stripe_buffered_def alist_sum_update_new [OF None])
    moreover have "stripe_wf (k, ?s)" using stripe_wf_of [OF sok s] by (simp add: stripe_wf_def distinct_update)
    ultimately have "stripes_ok ?d" by (intro stripes_ok_set_same [OF r(2,4)]) simp_all
    moreover have "same_limits d ?d" using evicts_limits [OF r(3)] by (simp add: same_limits_def)
    moreover have "fd_buffered_bytes ?d \<le> fd_maximum_buffered_bytes ?d" using r(5) Inr by simp
    ultimately have "decoder_ok ?d" using ok1 completed_ok_limits [of d ?d] ok by (simp add: decoder_ok_def)
    moreover have "admit_data k c bs out d = Some (?d, Inr (out\<lparr> fo_cells := fo_cells out @ [c] \<rparr>))"
      using r None s Inr by (simp add: admit_data_def)
    ultimately show ?thesis using that \<open>same_limits d ?d\<close> by (simp add: update_conv')
  qed
qed


lemma admit_parity_ok:
  assumes ok: "decoder_ok d" and s: "map_of (fd_stripes d) k = Some s"
  obtains d' res where "admit_parity k shape payload out d = Some (d', res)" "decoder_ok d'" "same_limits d d'"
    "map_of (fd_stripes d') k \<noteq> None"
proof (cases "decode_parity_payload payload")
  case (Inl e)
  then show ?thesis using that ok s by (simp add: admit_parity_def)
next
  case (Inr g)
  show ?thesis
  proof (cases "pp_data_cells g = snd shape \<and> pp_first_sequence g = fst shape \<and>
      (case ds_geometry s of None \<Rightarrow> True | Some x \<Rightarrow> same_geometry x g)")
    case False
    then have "\<exists>e. admit_parity k shape payload out d = Some (d, Inl e)"
      using s Inr by (auto simp: admit_parity_def Let_def split: option.splits)
    then show ?thesis using that ok s by auto
  next
    case agree: True
    define s0 where "s0 = (case ds_geometry s of None \<Rightarrow> s\<lparr> ds_geometry := Some g \<rparr> | Some _ \<Rightarrow> s)"
    define d0 where "d0 = (case ds_geometry s of None \<Rightarrow> set_stripe k (s\<lparr> ds_geometry := Some g \<rparr>) d | Some _ \<Rightarrow> d)"
    have sok: "stripes_ok d" using ok by (simp add: decoder_ok_def)
    have s0: "ds_originals s0 = ds_originals s" "ds_recoveries s0 = ds_recoveries s" "ds_updated s0 = ds_updated s"
      by (simp_all add: s0_def split: option.splits)
    have wf: "stripe_wf (k, s0)" using stripe_wf_of [OF sok s] by (simp add: stripe_wf_def s0)
    have sok0: "stripes_ok d0"
      using stripes_ok_set_quiet [OF sok s, of "s\<lparr> ds_geometry := Some g \<rparr>"] sok stripe_wf_of [OF sok s]
      by (auto simp: d0_def stripe_wf_def stripe_buffered_def split: option.splits)
    have lim0: "same_limits d d0" "fd_buffered_bytes d0 = fd_buffered_bytes d" and s0_of: "map_of (fd_stripes d0) k = Some s0"
      using s by (simp_all add: same_limits_def d0_def s0_def update_conv' split: option.splits)
    have ok0: "decoder_ok d0"
      using ok sok0 lim0 completed_ok_limits [OF lim0(1)] by (simp add: decoder_ok_def same_limits_def)
    have run: "admit_parity k shape payload out d =
        (case map_of (ds_recoveries s) (pp_recovery_index g) of
           Some existing \<Rightarrow> Some (d0, ensure (existing = pp_recovery g) ''conflicting V2 parity duplicate'' (Inr (out\<lparr> fo_parity_received := 1 \<rparr>)))
         | None \<Rightarrow> (case reserve (length (pp_recovery g)) k d0 of
             None \<Rightarrow> None
           | Some (d, Inl e) \<Rightarrow> Some (d, Inl e)
           | Some (d, Inr _) \<Rightarrow> (case map_of (fd_stripes d) k of
               None \<Rightarrow> Some (d, Inl (Panic ''stripe remains present''))
             | Some s \<Rightarrow> Some ((set_stripe k (s\<lparr> ds_recoveries := AList.update (pp_recovery_index g) (pp_recovery g) (ds_recoveries s) \<rparr>) d)
                   \<lparr> fd_buffered_bytes := fd_buffered_bytes d + length (pp_recovery g) \<rparr>, Inr (out\<lparr> fo_parity_received := 1 \<rparr>)))))"
      unfolding admit_parity_def Let_def d0_def using agree Inr s by (cases "ds_geometry s") (simp_all del: One_nat_def)
    show ?thesis
    proof (cases "map_of (ds_recoveries s) (pp_recovery_index g)")
      case (Some b)
      then show ?thesis using that run ok0 lim0 s0_of by simp
    next
      case None
      obtain d1 r where r: "reserve (length (pp_recovery g)) k d0 = Some (d1, r)" "stripes_ok d1" "evicts d0 d1"
        "map_of (fd_stripes d1) k = Some s0"
        "r = Inr () \<longleftrightarrow> fd_buffered_bytes d1 + length (pp_recovery g) \<le> fd_maximum_buffered_bytes d1"
        by (rule reserve_returns [OF sok0 s0_of])
      note ok1 = decoder_ok_evicts [OF ok0 r(2,3)]
      have lim1: "same_limits d d1" using same_limits_trans [OF lim0(1) evicts_limits [OF r(3)]] .
      show ?thesis
      proof (cases r)
        case (Inl e)
        with that run r None ok1 lim1 show ?thesis by simp
      next
        case (Inr u)
        let ?s = "s0\<lparr> ds_recoveries := AList.update (pp_recovery_index g) (pp_recovery g) (ds_recoveries s0) \<rparr>"
        let ?d = "(set_stripe k ?s d1)\<lparr> fd_buffered_bytes := fd_buffered_bytes d1 + length (pp_recovery g) \<rparr>"
        have "stripe_buffered ?s = stripe_buffered s0 + length (pp_recovery g)"
          using None by (simp add: stripe_buffered_def alist_sum_update_new s0)
        moreover have "stripe_wf (k, ?s)" using wf by (simp add: stripe_wf_def distinct_update)
        ultimately have "stripes_ok ?d" by (intro stripes_ok_set_same [OF r(2,4)]) simp_all
        moreover have lim: "same_limits d ?d" using lim1 by (simp add: same_limits_def)
        moreover have "fd_buffered_bytes ?d \<le> fd_maximum_buffered_bytes ?d" using r(5) Inr by simp
        ultimately have "decoder_ok ?d" using completed_ok_limits [of d ?d] ok by (simp add: decoder_ok_def)
        moreover have "admit_parity k shape payload out d = Some (?d, Inr (out\<lparr> fo_parity_received := 1 \<rparr>))"
          using run r None Inr by simp
        ultimately show ?thesis using that lim by (simp add: update_conv')
      qed
    qed
  qed
qed

lemma rebuild_cells_sel: "\<exists>dl. fst (rebuild_cells k g xs s) = s\<lparr> ds_delivered := dl \<rparr>"
proof (induction k g xs s rule: rebuild_cells.induct)
  case (1 k g s)
  have "s = s\<lparr> ds_delivered := ds_delivered s \<rparr>" by simp
  then show ?case unfolding rebuild_cells.simps fst_conv by blast
next
  case (2 k g i symbol xs s)
  have same: "s = s\<lparr> ds_delivered := ds_delivered s \<rparr>" by simp
  show ?case
  proof (cases "rebuild_cell k g (ds_routing_shim s) i symbol")
    case (Inl e)
    with same show ?thesis unfolding rebuild_cells.simps Inl sum.case fst_conv by blast
  next
    case (Inr r)
    obtain q len c where r: "r = (q, len, c)" by (cases r) auto
    obtain dl where "fst (rebuild_cells k g xs (s\<lparr> ds_delivered := insert q (ds_delivered s) \<rparr>)) = s\<lparr> ds_delivered := dl \<rparr>"
      using 2 [OF Inr r [symmetric] refl] by auto
    then show ?thesis by (auto simp: Inr r split: prod.splits sum.splits)
  qed
qed

lemma try_recover_ok:
  assumes ok: "decoder_ok d" and s: "map_of (fd_stripes d) k = Some s" and run: "try_recover rs k d = (d', res)"
  shows "decoder_ok d'" "same_limits d d'" "fd_order d' = fd_order d"
    "\<exists>dl. map_of (fd_stripes d') k = Some (s\<lparr> ds_delivered := dl \<rparr>)"
proof -
  have "\<exists>dl. d' = set_stripe k (s\<lparr> ds_delivered := dl \<rparr>) d \<or> d' = d"
  proof (cases "\<exists>g xs. d' = set_stripe k (fst (rebuild_cells k g xs s)) d")
    case True
    then show ?thesis using rebuild_cells_sel by metis
  next
    case False
    then have "d' \<noteq> set_stripe k a d" if "rebuild_cells k g xs s = (a, b)" for g xs a b using that by (metis fst_conv)
    with run s have "d' = d" by (auto simp: try_recover_def split: option.splits if_splits sum.splits prod.splits)
    then show ?thesis by blast
  qed
  then consider (same) "d' = d" | (set) dl where "d' = set_stripe k (s\<lparr> ds_delivered := dl \<rparr>) d" by blast
  then have "decoder_ok d' \<and> same_limits d d' \<and> fd_order d' = fd_order d \<and> (\<exists>dl. map_of (fd_stripes d') k = Some (s\<lparr> ds_delivered := dl \<rparr>))"
  proof cases
    case same
    have "same_limits d d'" using same by simp
    moreover    have "map_of (fd_stripes d') k = Some (s\<lparr> ds_delivered := ds_delivered s \<rparr>)" using s same by simp
    ultimately show ?thesis using ok same by blast
  next
    case (set dl)
    have sok: "stripes_ok d" using ok by (simp add: decoder_ok_def)
    have "stripes_ok d'" unfolding set using stripe_wf_of [OF sok s]
      by (intro stripes_ok_set_quiet [OF sok s]) (simp_all add: stripe_wf_def stripe_buffered_def)
    moreover have "same_limits d d'" unfolding set by (simp add: same_limits_def)
    ultimately have "decoder_ok d'" using ok completed_ok_limits [of d d'] by (simp add: decoder_ok_def set)
    with \<open>same_limits d d'\<close> show ?thesis by (auto simp: set update_conv')
  qed
  then show "decoder_ok d'" "same_limits d d'" "fd_order d' = fd_order d"
    "\<exists>dl. map_of (fd_stripes d') k = Some (s\<lparr> ds_delivered := dl \<rparr>)" by blast+
qed

lemma trim_completed_stripes_ok:
  assumes "distinct (fd_completed_order d)" "set (fd_completed_order d) = fd_completed d"
  shows "completed_ok (trim_completed_stripes d) \<and> (\<exists>cs co. trim_completed_stripes d = d\<lparr> fd_completed := cs, fd_completed_order := co \<rparr>)"
  using assms
proof (induction d rule: trim_completed_stripes.induct)
  case (1 d)
  have card: "card (fd_completed d) = length (fd_completed_order d)" using 1(2,3) distinct_card by force
  show ?case
  proof (cases "fd_maximum_stripes d < card (fd_completed d)")
    case False
    have "d = d\<lparr> fd_completed := fd_completed d, fd_completed_order := fd_completed_order d \<rparr>" by simp
    moreover have "trim_completed_stripes d = d" using False by (subst trim_completed_stripes.simps) simp
    ultimately show ?thesis using False 1(2,3) card by (metis completed_ok_def not_le_imp_less)
  next
    case True
    then obtain x rest where ord: "fd_completed_order d = x # rest" using card by (cases "fd_completed_order d") auto
    let ?d = "d\<lparr> fd_completed := fd_completed d - {x}, fd_completed_order := rest \<rparr>"
    have "trim_completed_stripes d = trim_completed_stripes ?d" using True ord by (subst trim_completed_stripes.simps) simp
    moreover have "completed_ok (trim_completed_stripes ?d) \<and> (\<exists>cs co. trim_completed_stripes ?d = ?d\<lparr> fd_completed := cs, fd_completed_order := co \<rparr>)"
      using 1(2,3) ord by (intro 1(1) [OF True ord]) auto
    ultimately show ?thesis by auto
  qed
qed


definition same_config :: "fec_decoder \<Rightarrow> fec_decoder \<Rightarrow> bool" where
  "same_config d d' \<longleftrightarrow> fd_session_epoch d' = fd_session_epoch d \<and> fd_ttl d' = fd_ttl d \<and>
     fd_maximum_stripes d' = fd_maximum_stripes d \<and> fd_maximum_buffered_bytes d' = fd_maximum_buffered_bytes d"

lemma same_config_refl [simp]: "same_config d d"
  by (simp add: same_config_def)

lemma same_config_trans: "same_config a b \<Longrightarrow> same_config b c \<Longrightarrow> same_config a c"
  by (simp add: same_config_def)

lemma limits_config: "same_limits d d' \<Longrightarrow> same_config d d'"
  by (simp add: same_limits_def same_config_def)

lemma stripes_ok_remove_stripe:
  assumes ok: "stripes_ok d"
  shows "stripes_ok (remove_stripe k d)"
proof -
  have "length (filter (\<lambda>e. fst e \<noteq> k) (fd_stripes d)) \<le> fd_maximum_stripes d"
    using ok by (auto simp: stripes_ok_def intro: order_trans [OF length_filter_le])
  moreover have "queued (remove_stripe k d)" using ok by (fastforce simp: stripes_ok_def queued_def remove_stripe_stripes image_iff)
  ultimately show ?thesis using ok remove_stripe_buffered [of d k]
    by (auto simp: stripes_ok_def remove_stripe_stripes distinct_map_filter list_all_iff)
qed

lemma complete_stripe_ok:
  assumes ok: "decoder_ok d" and new: "k \<notin> fd_completed d"
  shows "decoder_ok (complete_stripe k d) \<and> same_config d (complete_stripe k d)"
proof -
  let ?r = "remove_stripe k d"
  let ?d = "?r\<lparr> fd_completed := insert k (fd_completed ?r), fd_completed_order := fd_completed_order ?r @ [k] \<rparr>"
  have "stripes_ok ?r" "fd_buffered_bytes ?r \<le> fd_maximum_buffered_bytes d"
    using ok stripes_ok_remove_stripe remove_stripe_evicts [of d k] by (auto simp: decoder_ok_def evicts_def)
  moreover obtain cs co where t: "completed_ok (trim_completed_stripes ?d)" "trim_completed_stripes ?d = ?d\<lparr> fd_completed := cs, fd_completed_order := co \<rparr>"
    using trim_completed_stripes_ok [of ?d] ok new by (auto simp: decoder_ok_def completed_ok_def)
  moreover have "complete_stripe k d = trim_completed_stripes ?d" by (simp add: complete_stripe_def Let_def)
  ultimately show ?thesis by (auto simp: decoder_ok_def same_config_def stripes_ok_def queued_def)
qed

lemma finish_push_ok:
  assumes ok: "decoder_ok d" and s: "map_of (fd_stripes d) k = Some s" and new: "k \<notin> fd_completed d"
    and run: "finish_push rs k now out d = (d', res)"
  shows "decoder_ok d'" "same_config d d'"
proof -
  obtain d1 r where r: "try_recover rs k d = (d1, r)" by fastforce
  note ok1 = try_recover_ok [OF ok s r]
  obtain dl where s1: "map_of (fd_stripes d1) k = Some (s\<lparr> ds_delivered := dl \<rparr>)" using ok1(4) by blast
  have new1: "k \<notin> fd_completed d1" using ok1(2) new by (simp add: same_limits_def)
  let ?s = "s\<lparr> ds_delivered := dl, ds_updated := now \<rparr>"
  let ?d = "(set_stripe k ?s d1)\<lparr> fd_order := fd_order d1 @ [(k, now)] \<rparr>"
  have d': "d' \<in> {d1, complete_stripe k d1, ?d}"
    using run r s1 by (auto simp: finish_push_def Let_def split: sum.splits if_splits)
  have sok: "stripes_ok d1" using ok1(1) by (simp add: decoder_ok_def)
  have "stripes_ok ((set_stripe k ?s d1)\<lparr> fd_order := fd_order d1 @ [(k, now)], fd_buffered_bytes := fd_buffered_bytes d1 \<rparr>)"
    using stripe_wf_of [OF sok s1] by (intro stripes_ok_set [OF sok s1]) (auto simp: stripe_wf_def stripe_buffered_def)
  then have "stripes_ok ?d" by (simp add: set_stripe_def)
  then have "decoder_ok ?d \<and> same_config d1 ?d" using ok1(1) by (simp add: decoder_ok_def completed_ok_def same_config_def)
  with d' ok1(1) complete_stripe_ok [OF ok1(1) new1] have "decoder_ok d' \<and> same_config d1 d'" by auto
  then show "decoder_ok d'" "same_config d d'" using same_config_trans [OF limits_config [OF ok1(2)]] by blast+
qed

lemma push_striped_ok:
  assumes ok: "decoder_ok d" and pos: "0 < fd_maximum_stripes d"
  shows "\<exists>d' res. push_striped rs c bs now out d = Some (d', res) \<and> decoder_ok d' \<and> same_config d d'"
proof -
  let ?k = "stripe_key_from_cell c"
  obtain d1 r where r: "ensure_stripe ?k now (cell_overlay_hop_limit c, cell_overlay_hops c) d = (d1, r)" by fastforce
  note e = ensure_stripe_ok [OF ok pos r]
  show ?thesis
  proof (cases "decode_stripe_id (cell_stripe_id c)")
    case (Inl x)
    then show ?thesis using ok by (simp add: push_striped_def Let_def)
  next
    case (Inr shape)
    show ?thesis
    proof (cases "(carries_records c \<and> \<not> within_stripe shape (cell_sequence c)) \<or> ?k \<in> fd_completed d \<or> r \<noteq> Inr ()")
      case True
      then show ?thesis using ok r e Inr limits_config [of d d1] by (cases r) (auto simp: push_striped_def Let_def)
    next
      case False
      then have rr: "r = Inr ()" and new: "?k \<notin> fd_completed d1" using e by (simp_all add: same_limits_def)
      then obtain s where s: "map_of (fd_stripes d1) ?k = Some s" using e by auto
      let ?a = "case cell_body c of Records _ \<Rightarrow> admit_data ?k c bs out d1 | Parity payload \<Rightarrow> admit_parity ?k shape payload out d1"
      have "\<exists>d2 r2. ?a = Some (d2, r2) \<and> decoder_ok d2 \<and> same_limits d1 d2 \<and> map_of (fd_stripes d2) ?k \<noteq> None"
      proof (cases "cell_body c")
        case (Records x)
        show ?thesis using admit_data_ok [OF _ s, of c bs out] e unfolding Records cell_body.case by metis
      next
        case (Parity x)
        show ?thesis using admit_parity_ok [OF _ s, of shape x out] e unfolding Parity cell_body.case by metis
      qed
      then obtain d2 r2 where a: "?a = Some (d2, r2)" and ok2: "decoder_ok d2" and lim: "same_limits d1 d2"
        and s2: "map_of (fd_stripes d2) ?k \<noteq> None" by blast
      have c12: "same_config d d2" using same_config_trans limits_config e lim by blast
      have new2: "?k \<notin> fd_completed d2" using new lim by (simp add: same_limits_def)
      have run: "push_striped rs c bs now out d =
          (case r2 of Inl x \<Rightarrow> Some (d2, Inl x) | Inr out \<Rightarrow> Some (finish_push rs ?k now out d2))"
        using False rr Inr r a by (auto simp: push_striped_def Let_def)
      show ?thesis
      proof (cases r2)
        case (Inl x)
        then show ?thesis using run ok2 c12 by simp
      next
        case (Inr out2)
        obtain d3 r3 where f: "finish_push rs ?k now out2 d2 = (d3, r3)" by fastforce
        obtain s' where "map_of (fd_stripes d2) ?k = Some s'" using s2 by blast
        from finish_push_ok [OF ok2 this new2 f] c12 show ?thesis using run Inr f same_config_trans by auto
      qed
    qed
  qed
qed

lemma push_at_ok:
  assumes ok: "decoder_ok d" and pos: "0 < fd_maximum_stripes d"
  shows "\<exists>d' res. push_at rs bs now d = Some (d', res) \<and> decoder_ok d' \<and> same_config d d'"
proof -
  obtain d1 n where e: "decoder_expire now d = (d1, n)" by fastforce
  have "stripes_ok d" using ok by (simp add: decoder_ok_def)
  note e1 = decoder_expire_ok [OF this e]
  have ok1: "decoder_ok d1" "same_config d d1" using decoder_ok_evicts [OF ok e1] limits_config [OF evicts_limits [OF e1(2)]] by auto
  have pos1: "0 < fd_maximum_stripes d1" using pos ok1(2) by (simp add: same_config_def)
  show ?thesis
  proof (cases "\<exists>c. decode_cell bs = Inr c \<and> cell_session_epoch c = fd_session_epoch d")
    case False
    then show ?thesis using ok by (cases "decode_cell bs") (auto simp: push_at_def)
  next
    case True
    then obtain c where c: "decode_cell bs = Inr c" "cell_session_epoch c = fd_session_epoch d" by blast
    show ?thesis
    proof (cases "cell_stripe_id c = 0")
      case True
      then show ?thesis using c e ok1 by (simp add: push_at_def)
    next
      case False
      then show ?thesis using c e ok1 push_striped_ok [OF ok1(1) pos1] same_config_trans by (fastforce simp: push_at_def)
    qed
  qed
qed

section \<open>Runs\<close>

datatype fec_op =
    FecPush bytes instant
  | FecSetMaximum nat
  | FecSetTtl duration instant
  | FecExpire instant
  | FecRepairCandidates instant duration

datatype fec_answer =
    Pushed "fec_decode_output result option"
  | Candidates "missing_stripe list"
  | Quiet

fun fec_step :: "reed_solomon \<Rightarrow> fec_op \<Rightarrow> fec_decoder \<Rightarrow> fec_decoder \<times> fec_answer" where
  "fec_step rs (FecPush bs now) d =
     (case push_at rs bs now d of None \<Rightarrow> (d, Pushed None) | Some (d', r) \<Rightarrow> (d', Pushed (Some r)))"
| "fec_step rs (FecSetMaximum n) d = (fst (decoder_set_maximum n d), Quiet)"
| "fec_step rs (FecSetTtl ttl now) d = (fst (decoder_set_ttl ttl now d), Quiet)"
| "fec_step rs (FecExpire now) d = (fst (decoder_expire now d), Quiet)"
| "fec_step rs (FecRepairCandidates now age) d =
     (case repair_candidates now age d of (d', ms) \<Rightarrow> (d', Candidates ms))"

fun limit_in_range :: "fec_op \<Rightarrow> bool" where
  "limit_in_range (FecSetMaximum n) = (n < usize_max)"
| "limit_in_range _ = True"

definition returns :: "fec_op \<Rightarrow> fec_answer \<Rightarrow> bool" where
  "returns x a \<longleftrightarrow> a \<noteq> Pushed None"

definition decoder_inv :: "fec_decoder \<Rightarrow> bool" where
  "decoder_inv d \<longleftrightarrow> decoder_ok d \<and> 0 < fd_maximum_stripes d"

lemma decoder_inv_config: "decoder_inv d \<Longrightarrow> decoder_ok d' \<Longrightarrow> same_config d d' \<Longrightarrow> decoder_inv d'"
  by (simp add: decoder_inv_def same_config_def)

lemma collect_candidates_sel:
  "map (\<lambda>e. (fst e, (snd e)\<lparr> ds_repair_requested := False \<rparr>)) (fst (collect_candidates now age es)) =
   map (\<lambda>e. (fst e, (snd e)\<lparr> ds_repair_requested := False \<rparr>)) es"
  by (induction now age es rule: collect_candidates.induct) (auto split: prod.splits)

lemma repair_candidates_ok:
  assumes ok: "decoder_ok d"
  shows "decoder_ok (fst (repair_candidates now age d)) \<and> same_config d (fst (repair_candidates now age d))"
proof -
  let ?es = "fst (collect_candidates now age (fd_stripes d))"
  let ?f = "\<lambda>e. (fst e, (snd e)\<lparr> ds_repair_requested := False \<rparr>) :: stripe_key \<times> decode_stripe"
  note eq = collect_candidates_sel [of now age "fd_stripes d"]
  have d': "fst (repair_candidates now age d) = d\<lparr> fd_stripes := ?es \<rparr>"
    by (simp add: repair_candidates_def split: prod.splits)
  have inv: "map g ?es = map g (fd_stripes d)" if "\<And>e. g (?f e) = g e" for g :: "stripe_key \<times> decode_stripe \<Rightarrow> 'z"
  proof -
    have "map g ?es = map g (map ?f ?es)" using that by simp
    also have "\<dots> = map g (map ?f (fd_stripes d))" unfolding eq ..
    also have "\<dots> = map g (fd_stripes d)" using that by simp
    finally show ?thesis .
  qed
  have keys: "map fst ?es = map fst (fd_stripes d)" by (rule inv) simp
  have "map stripe_wf ?es = map stripe_wf (fd_stripes d)" by (rule inv) (simp add: stripe_wf_def)
  moreover have "list_all stripe_wf xs = list_all (\<lambda>b. b) (map stripe_wf xs)" for xs by (simp add: list.pred_map comp_def)
  ultimately have wf: "list_all stripe_wf ?es = list_all stripe_wf (fd_stripes d)" by (simp only:)
  have "map (stripe_buffered \<circ> snd) ?es = map (stripe_buffered \<circ> snd) (fd_stripes d)" by (rule inv) (simp add: stripe_buffered_def)
  then have buf: "alist_sum stripe_buffered ?es = alist_sum stripe_buffered (fd_stripes d)" unfolding alist_sum_def by (rule arg_cong)
  have "map (\<lambda>e. (fst e, ds_updated (snd e))) ?es = map (\<lambda>e. (fst e, ds_updated (snd e))) (fd_stripes d)" by (rule inv) simp
  then have gen: "(\<lambda>e. (fst e, ds_updated (snd e))) ` set ?es = (\<lambda>e. (fst e, ds_updated (snd e))) ` set (fd_stripes d)"
    unfolding set_map [symmetric] by (rule arg_cong)
  have "queued (d\<lparr> fd_stripes := ?es \<rparr>) = queued d"
  proof -
    have "queued d0 \<longleftrightarrow> (\<lambda>e. (fst e, ds_updated (snd e))) ` set (fd_stripes d0) \<subseteq> set (fd_order d0) \<and>
        fst ` set (fd_order d0) \<subseteq> set (map fst (fd_stripes d0))" for d0 by (simp add: queued_def image_subset_iff)
    then show ?thesis using gen arg_cong [OF keys, of set] by simp
  qed
  with ok show ?thesis unfolding d' using keys wf buf map_eq_imp_length_eq [OF keys]
    by (simp add: decoder_ok_def stripes_ok_def completed_ok_def same_config_def)
qed


lemma decoder_expire_inv: "decoder_inv d \<Longrightarrow> decoder_inv (fst (decoder_expire now d))"
proof -
  assume d: "decoder_inv d"
  obtain d1 n where e: "decoder_expire now d = (d1, n)" by fastforce
  have "stripes_ok d" using d by (simp add: decoder_inv_def decoder_ok_def)
  note e1 = decoder_expire_ok [OF this e]
  have "decoder_ok d1" using decoder_ok_evicts [OF _ e1] d by (simp add: decoder_inv_def)
  with decoder_inv_config [OF d this limits_config [OF evicts_limits [OF e1(2)]]] show ?thesis by (simp add: e)
qed

lemma set_maximum_inv:
  assumes "decoder_inv d" "m < usize_max"
  shows "decoder_inv (fst (decoder_set_maximum m d))"
proof (cases "m = 0")
  case True
  then show ?thesis using assms by (simp add: decoder_set_maximum_def)
next
  case False
  let ?d = "d\<lparr> fd_maximum_buffered_bytes := m \<rparr>"
  obtain d' n where s: "shrink_loop ?d 0 = (d', n)" by fastforce
  have "stripes_ok ?d" using assms by (simp add: decoder_inv_def decoder_ok_def stripes_ok_def queued_def)
  note r = shrink_loop_ok [OF this s]
  have "completed_ok ?d" using assms by (simp add: decoder_inv_def decoder_ok_def completed_ok_def)
  then have "completed_ok d'" using r evicts_completed by blast
  with r assms False s show ?thesis
    by (simp add: decoder_set_maximum_def decoder_inv_def decoder_ok_def evicts_def same_limits_def)
qed

interpretation fec_runs: invariant_system decoder_inv "fec_step rs" limit_in_range returns for rs
proof
  fix d d' :: fec_decoder and x a
  assume inv: "decoder_inv d" and adm: "limit_in_range x" and step: "fec_step rs x d = (d', a)"
  have "decoder_inv d' \<and> returns x a"
  proof (cases x)
    case (FecPush bs now)
    obtain d1 r where "push_at rs bs now d = Some (d1, r)" "decoder_ok d1" "same_config d d1"
      using push_at_ok [of d rs bs now] inv by (auto simp: decoder_inv_def)
    with step FecPush decoder_inv_config [OF inv] show ?thesis by (auto simp: returns_def)
  next
    case (FecSetMaximum m)
    with step adm set_maximum_inv [OF inv, of m] show ?thesis by (auto simp: returns_def)
  next
    case (FecSetTtl ttl now)
    have "decoder_inv (d\<lparr> fd_ttl := ttl \<rparr>)"
      using inv by (simp add: decoder_inv_def decoder_ok_def stripes_ok_def queued_def completed_ok_def)
    from decoder_expire_inv [OF this] inv step FecSetTtl show ?thesis by (auto simp: decoder_set_ttl_def returns_def)
  next
    case (FecExpire now)
    with step decoder_expire_inv [OF inv] show ?thesis by (auto simp: returns_def)
  next
    case (FecRepairCandidates now age)
    have "decoder_inv (fst (repair_candidates now age d))"
      using repair_candidates_ok [of d now age] inv decoder_inv_config by (simp add: decoder_inv_def same_config_def)
    with step FecRepairCandidates show ?thesis by (auto simp: returns_def split: prod.splits)
  qed
  then show "decoder_inv d'" "returns x a" by blast+
qed

lemma decoder_new_inv:
  "decoder_with_limits epoch ttl stripes bytes = Inr d \<Longrightarrow> bytes < usize_max \<Longrightarrow> decoder_inv d"
  by (auto simp: decoder_with_limits_def result_iff decoder_inv_def decoder_ok_def stripes_ok_def queued_def completed_ok_def)


end
