(* ===== verification/FecRecovery.thy ===== *)
theory FecRecovery
  imports Fec
begin

text \<open>
  What the stripe encoder and the stripe decoder of \<open>fec.rs\<close> achieve together.  First the round trips of the
  stripe identifier and of the parity record; then the promise of an erasure code (\<open>rs_corrects\<close>), the shape
  of what the encoder sends for one stripe (\<open>sent_ok\<close>), and that the encoder produces it; then the frame
  lemmas of the decoder (what one push leaves alone) and the invariant \<open>stripe_received\<close> that follows one stripe
  through a run of arbitrary pushes.
\<close>

section \<open>Stripe identifiers and parity records\<close>

lemma stripe_mask: "STRIPE_SEQUENCE_MASK = mask 24"
  by (simp add: STRIPE_SEQUENCE_MASK_def STRIPE_DATA_SHIFT_def mask_eq_exp_minus_1 push_bit_eq_mult)

lemma stripe_id_roundtrip:
  assumes "encode_stripe_id f n = Inr v"
  shows "decode_stripe_id v = Inr (f, n)" "v \<noteq> 0" "2 \<le> n" "n \<le> 16"
proof -
  let ?s = "(ucast f :: u32) + 1"
  have n: "2 \<le> n" "n \<le> 16" and v: "v = push_bit 24 (word_of_nat n) OR ?s"
    using assms by (auto simp: encode_stripe_id_def result_iff Let_def MAX_DATA_CELLS_def STRIPE_DATA_SHIFT_def)
  have lt: "unat f < 65536" using unat_less_length [of f] by simp
  then have f: "unat (ucast f :: u32) = unat f" "unat f < 65536"
    by (simp_all add: unsigned_ucast_eq take_bit_nat_eq_self)
  then have s: "unat ?s = unat f + 1" by (simp add: unat_word_ariths)
  have small: "take_bit 24 ?s = ?s" "drop_bit 24 ?s = 0"
  proof -
    have "unat (take_bit 24 ?s) = unat ?s" "unat (drop_bit 24 ?s) = 0"
      unfolding unsigned_take_bit_eq unsigned_drop_bit_eq using s f(2) by (simp_all add: take_bit_nat_eq_self drop_bit_nat_def)
    then show "take_bit 24 ?s = ?s" "drop_bit 24 ?s = 0" by (simp_all add: word_unat_eq_iff)
  qed
  have un: "unat (word_of_nat n :: u32) = n" using n by (simp add: unsigned_of_nat take_bit_nat_eq_self)
  have dn: "drop_bit 24 (push_bit 24 (word_of_nat n :: u32)) = word_of_nat n"
  proof -
    have "unat (push_bit 24 (word_of_nat n :: u32)) = n * 2 ^ 24"
      unfolding unsigned_push_bit_eq un using n by (simp add: push_bit_nat_def take_bit_nat_eq_self)
    then have "unat (drop_bit 24 (push_bit 24 (word_of_nat n :: u32))) = n"
      unfolding unsigned_drop_bit_eq using n by (simp add: drop_bit_nat_def take_bit_nat_eq_self)
    then show ?thesis using un by (simp add: word_unat_eq_iff)
  qed
  have d: "unat (drop_bit 24 v) = n" unfolding v drop_bit_or dn small by (simp add: un)
  have "v AND mask 24 = take_bit 24 v" by (simp add: take_bit_eq_mask)
  also have "\<dots> = ?s" unfolding v take_bit_or small by (simp add: take_bit_push_bit)
  finally have m: "v AND mask 24 = ?s" .
  have "unat (ucast (ucast f :: u32) :: u16) = unat f"
    unfolding unsigned_ucast_eq [of "ucast f :: u32"] f(1) using lt by (simp add: take_bit_nat_eq_self)
  then have bk: "ucast (ucast f :: u32) = f" by (simp only: word_unat_eq_iff)
  have nz: "?s \<noteq> 0" using s by (metis add_is_0 one_neq_zero unat_0)
  show "decode_stripe_id v = Inr (f, n)"
    using n d m nz f by (simp add: decode_stripe_id_def stripe_mask Let_def STRIPE_DATA_SHIFT_def MAX_DATA_CELLS_def u16_max_def bk)
  show "v \<noteq> 0" using m nz by auto
  show "2 \<le> n" "n \<le> 16" using n by simp_all
qed

lemma parity_payload_roundtrip:
  assumes enc: "encode_parity_payload n k j f sb ls r = Inr p"
    and n: "2 \<le> n" "n \<le> 16" and k: "j < k" "k \<le> 8" and sb: "0 < sb" "even sb" "sb \<le> 65535"
    and ls: "\<forall>l\<in>set ls. 0 < l \<and> unat l \<le> sb"
  shows "decode_parity_payload p = Inr \<lparr> pp_data_cells = n, pp_parity_cells = k, pp_recovery_index = j,
    pp_first_sequence = f, pp_symbol_bytes = sb, pp_lengths = ls, pp_recovery = r \<rparr>"
    and "length p = 12 + 2 * n + sb"
proof -
  have len: "n = length ls" "length r = sb"
    and p: "p = PARITY_MAGIC @ put_u8 (word_of_nat n) @ put_u8 (word_of_nat k) @ put_u8 (word_of_nat j) @ put_u8 0 @
       put_u16 f @ put_u16 (word_of_nat sb) @ concat (map put_u16 ls) @ r"
    using enc by (auto simp: encode_parity_payload_def result_iff)
  have tab: "length (concat (map put_u16 ls)) = 2 * n" by (simp add: len(1) length_concat sum_list_triv comp_def)
  show lp: "length p = 12 + 2 * n + sb" unfolding p using tab len(2) by (simp add: PARITY_MAGIC_def)
  have mag: "length PARITY_MAGIC = 4" by (simp add: PARITY_MAGIC_def)
  have b: "unat (word_of_nat n :: u8) = n" "unat (word_of_nat k :: u8) = k" "unat (word_of_nat j :: u8) = j"
    using n k by (simp_all add: unat_byte_of_nat)
  have s: "unat (word_of_nat sb :: u16) = sb" using sb by (simp add: unat_u16_of_nat u16_max_def)
  have idx: "p ! 4 = word_of_nat n" "p ! 5 = word_of_nat k" "p ! 6 = word_of_nat j" "p ! 7 = 0"
    unfolding p by (simp_all add: nth_append mag put_u8_def)
  have sl: "slice 0 4 p = PARITY_MAGIC" "get_u16 (slice 8 10 p) = f" "get_u16 (slice 10 12 p) = word_of_nat sb"
    "slice 12 (12 + n * 2) p = concat (map put_u16 ls)" "drop (12 + n * 2) p = r"
    unfolding p using tab by (simp_all add: slice_layout mag)
  have all: "list_all (\<lambda>l. 0 < l \<and> unat l \<le> sb) ls" using ls by (simp add: list_all_iff)
  show "decode_parity_payload p = Inr \<lparr> pp_data_cells = n, pp_parity_cells = k, pp_recovery_index = j,
    pp_first_sequence = f, pp_symbol_bytes = sb, pp_lengths = ls, pp_recovery = r \<rparr>"
    using n k sb lp idx sl b s all
    by (simp add: decode_parity_payload_def PARITY_FIXED_LEN_def geometry_validate_def MAX_DATA_CELLS_def MAX_PARITY_CELLS_def
        Let_def del: unsigned_of_nat)
qed

lemma segments_wire_len_Inr:
  "segments_wire_len a ss = Inr n \<Longrightarrow> n = a + length (concat (map encode_segment ss))"
proof (induction ss arbitrary: a)
  case (Cons s ss)
  then have "segments_wire_len (a + 16 + length (seg_metadata s) + length (seg_data s)) ss = Inr n"
    by (auto simp: checked_add_def SEGMENT_HEADER_LEN_def split: option.splits if_splits)
  from Cons.IH [OF this] show ?case by simp
qed simp

lemma systematic_length_Inr:
  assumes "systematic_length c = Inr l"
  shows "unat l = 36 + length (encode_body (cell_body c))"
proof -
  obtain n where n: "encoded_data_cell_len c = Inr n" "n \<le> u16_max" "l = word_of_nat n"
    using assms by (auto simp: systematic_length_def result_iff)
  then have "n = 36 + length (encode_body (cell_body c))"
    using segments_wire_len_Inr by (auto simp: encoded_data_cell_len_def HEADER_LEN_def split: cell_body.splits)
  with unat_u16_of_nat [OF n(2)] show ?thesis unfolding n(3) by (simp only:)
qed

text \<open>The shard of a wire Cell: padded to the symbol size, with the two routing bytes zero. Padding and
  normalising leave the wire bytes as encoded.\<close>

definition shard_of :: "nat \<Rightarrow> bytes \<Rightarrow> bytes" where
  "shard_of sb w = (w @ replicate (sb - length w) 0)[34 := 0, 35 := 0]"

lemma shard_of_length [simp]: "length w \<le> sb \<Longrightarrow> length (shard_of sb w) = sb"
  by (simp add: shard_of_def)

lemma systematic_cell_Inr:
  assumes sc: "systematic_cell pm sb c l = Inr (w, sh)" and l: "systematic_length c = Inr l" and sb: "unat l \<le> sb"
  shows "encode_into pm c = Inr w" "length w = unat l" "sh = shard_of sb w"
proof -
  obtain out w' where enc: "encode_into pm c = Inr out" and n: "normalize_routing_shim (resize_bytes sb out) = Inr sh"
    and r: "restore_routing_shim (resize_bytes sb out ! 34, resize_bytes sb out ! 35) sh = Inr w'" "w = take (unat l) w'"
    using sc by (auto simp: systematic_cell_def result_iff Let_def OVERLAY_HOP_LIMIT_OFFSET_def OVERLAY_HOPS_OFFSET_def)
  have len: "length out = unat l" using enc systematic_length_Inr [OF l] by (auto simp: encode_into_Inr_iff)
  then have res: "resize_bytes sb out = out @ replicate (sb - length out) 0" using sb by (simp add: resize_bytes_def)
  have sh: "sh = shard_of sb out" and n35: "35 < length (resize_bytes sb out)"
    using n by (auto simp: normalize_routing_shim_def res shard_of_def OVERLAY_HOP_LIMIT_OFFSET_def OVERLAY_HOPS_OFFSET_def split: if_splits)
  have "w' = resize_bytes sb out"
    using r(1) n35 unfolding sh shard_of_def res
    by (auto simp: restore_routing_shim_def OVERLAY_HOP_LIMIT_OFFSET_def OVERLAY_HOPS_OFFSET_def list_update_swap [of 34 35] split: if_splits)
  then have "w = out" using r(2) len res by simp
  with enc len sh show "encode_into pm c = Inr w" "length w = unat l" "sh = shard_of sb w" by simp_all
qed


section \<open>What the erasure code promises\<close>

text \<open>
  The documented behaviour of \<open>reed-solomon-simd\<close> for a positive number of recovery shards (the source never
  calls it without parity): a geometry within the limits of the source is supported, encoding gives the requested number of recovery shards, and any set of original and
  recovery shards of one codeword, as many together as there are originals, restores exactly the
  missing originals, in the order of their indices.
\<close>

definition rs_restores :: "reed_solomon \<Rightarrow> nat \<Rightarrow> nat \<Rightarrow> nat \<Rightarrow> bytes list \<Rightarrow> bytes list \<Rightarrow> bool" where
  "rs_restores rs n k sb shards recs \<longleftrightarrow>
     (\<forall>P got. distinct (map fst got) \<and> (\<forall>e\<in>set got. fst e < k \<and> snd e = recs ! fst e) \<and>
        n \<le> length (filter P [0..<n]) + length got \<longrightarrow>
        rs_decode rs n k sb (map (\<lambda>i. (i, shards ! i)) (filter P [0..<n])) got =
          Inr (map (\<lambda>i. (i, shards ! i)) (filter (\<lambda>i. \<not> P i) [0..<n])))"

definition rs_corrects :: "reed_solomon \<Rightarrow> nat \<Rightarrow> bool" where
  "rs_corrects rs k \<longleftrightarrow>
     (\<forall>n sb shards. 0 < k \<and> 2 \<le> n \<and> n \<le> MAX_DATA_CELLS \<and> 0 < sb \<and> even sb \<and> length shards = n \<and> (\<forall>x\<in>set shards. length x = sb) \<longrightarrow>
        rs_supports rs n k sb \<and>
        (\<exists>recs. rs_encode rs n k sb shards = Inr recs \<and> length recs = k \<and> (\<forall>r\<in>set recs. length r = sb) \<and>
           rs_restores rs n k sb shards recs))"

section \<open>Stripes in transit\<close>

text \<open>Forwarding rewrites the two routing bytes of a Cell and nothing else.\<close>

definition reshim :: "u8 \<times> u8 \<Rightarrow> bytes \<Rightarrow> bytes" where
  "reshim shim bs = bs[OVERLAY_HOP_LIMIT_OFFSET := fst shim, OVERLAY_HOPS_OFFSET := snd shim]"

definition shim_valid :: "u8 \<times> u8 \<Rightarrow> bool" where
  "shim_valid shim \<longleftrightarrow> fst shim \<noteq> 0 \<and> unat (fst shim) + unat (snd shim) \<le> 255"

definition with_shim :: "u8 \<times> u8 \<Rightarrow> cell_v2 \<Rightarrow> cell_v2" where
  "with_shim shim c = c\<lparr> cell_overlay_hop_limit := fst shim, cell_overlay_hops := snd shim \<rparr>"

lemma with_shim_sel [simp]:
  "cell_class (with_shim h c) = cell_class c" "cell_session_epoch (with_shim h c) = cell_session_epoch c"
  "cell_route_label (with_shim h c) = cell_route_label c" "cell_train_id (with_shim h c) = cell_train_id c"
  "cell_sequence (with_shim h c) = cell_sequence c" "cell_stripe_id (with_shim h c) = cell_stripe_id c"
  "cell_body (with_shim h c) = cell_body c" "cell_flags (with_shim h c) = cell_flags c"
  "cell_overlay_hop_limit (with_shim h c) = fst h" "cell_overlay_hops (with_shim h c) = snd h"
  "stripe_key_from_cell (with_shim h c) = stripe_key_from_cell c"
  "carries_records (with_shim h c) = carries_records c"
  by (simp_all add: with_shim_def stripe_key_from_cell_def carries_records_def)

lemma reshim_length [simp]: "length (reshim h bs) = length bs"
  by (simp add: reshim_def)

lemma decode_cell_exceeds_header: "decode_cell bs = Inr c \<Longrightarrow> 36 < length bs"
  using body_length_bounds [of c] by (auto simp: decode_cell_Inr_iff)

lemma decode_reshim:
  assumes dec: "decode_cell bs = Inr c" and h: "shim_valid h"
  shows "decode_cell (reshim h bs) = Inr (with_shim h c)"
proof -
  have upd: "(encode_header f x @ r)[34 := a, 35 := b] =
      encode_header f (x\<lparr> hdr_overlay_hop_limit := a, hdr_overlay_hops := b \<rparr>) @ r" for f x r a b
    by (simp add: encode_header_def MAGIC_def put_u8_def list_update_append)
  have hd: "header_of (with_shim h c) = (header_of c)\<lparr> hdr_overlay_hop_limit := fst h, hdr_overlay_hops := snd h \<rparr>"
    by (simp add: header_of_def kind_of_def)
  have "validate_cell (with_shim h c) = Inr ()"
    using dec h by (auto simp: decode_cell_Inr_iff validate_cell_def validate_cell_header_def result_iff shim_valid_def
        split: cell_body.splits)
  then show ?thesis using dec
    by (auto simp: decode_cell_Inr_iff hd reshim_def OVERLAY_HOP_LIMIT_OFFSET_def OVERLAY_HOPS_OFFSET_def upd)
qed

lemma shard_of_reshim [simp]: "35 < length w \<Longrightarrow> shard_of sb (reshim h w) = shard_of sb w"
  by (simp add: shard_of_def reshim_def OVERLAY_HOP_LIMIT_OFFSET_def OVERLAY_HOPS_OFFSET_def list_update_append
      list_update_swap [of 35 34])

text \<open>A stripe as it arrives: its Cells and wire forms after forwarding, its parity and shards.\<close>

record sent_stripe =
  tx_key :: stripe_key
  tx_first :: u16
  tx_shim :: "u8 \<times> u8"
  tx_cells :: "cell_v2 list"
  tx_wires :: "bytes list"
  tx_parity :: "bytes list"
  tx_lengths :: "u16 list"
  tx_symbol :: nat
  tx_recs :: "bytes list"

definition tx_payload :: "sent_stripe \<Rightarrow> nat \<Rightarrow> parity_payload" where
  "tx_payload t j = \<lparr> pp_data_cells = length (tx_cells t), pp_parity_cells = length (tx_recs t), pp_recovery_index = j,
     pp_first_sequence = tx_first t, pp_symbol_bytes = tx_symbol t, pp_lengths = tx_lengths t, pp_recovery = tx_recs t ! j \<rparr>"

definition data_sent :: "sent_stripe \<Rightarrow> nat \<Rightarrow> bool" where
  "data_sent t i \<longleftrightarrow> decode_cell (tx_wires t ! i) = Inr (tx_cells t ! i) \<and> carries_records (tx_cells t ! i) \<and>
     stripe_key_from_cell (tx_cells t ! i) = tx_key t \<and> unat (cell_sequence (tx_cells t ! i)) = unat (tx_first t) + i \<and>
     (cell_overlay_hop_limit (tx_cells t ! i), cell_overlay_hops (tx_cells t ! i)) = tx_shim t \<and>
     length (tx_wires t ! i) = unat (tx_lengths t ! i) \<and> length (tx_wires t ! i) \<le> tx_symbol t"

definition parity_sent :: "sent_stripe \<Rightarrow> nat \<Rightarrow> bool" where
  "parity_sent t j \<longleftrightarrow> (\<exists>c p. decode_cell (tx_parity t ! j) = Inr c \<and> cell_body c = Parity p \<and>
     stripe_key_from_cell c = tx_key t \<and> (cell_overlay_hop_limit c, cell_overlay_hops c) = tx_shim t \<and>
     decode_parity_payload p = Inr (tx_payload t j) \<and> length (tx_recs t ! j) = tx_symbol t \<and>
     tx_symbol t \<le> length (tx_parity t ! j))"

definition sent_ok :: "reed_solomon \<Rightarrow> sent_stripe \<Rightarrow> bool" where
  "sent_ok rs t \<longleftrightarrow> sk_stripe_id (tx_key t) \<noteq> 0 \<and>
     decode_stripe_id (sk_stripe_id (tx_key t)) = Inr (tx_first t, length (tx_cells t)) \<and>
     unat (tx_first t) + length (tx_cells t) \<le> u16_max \<and> 0 < length (tx_cells t) \<and>
     length (tx_wires t) = length (tx_cells t) \<and> length (tx_lengths t) = length (tx_cells t) \<and>
     length (tx_parity t) = length (tx_recs t) \<and>
     (\<forall>i<length (tx_cells t). data_sent t i) \<and> (\<forall>j<length (tx_recs t). parity_sent t j) \<and>
     rs_supports rs (length (tx_cells t)) (length (tx_recs t)) (tx_symbol t) \<and>
     rs_restores rs (length (tx_cells t)) (length (tx_recs t)) (tx_symbol t) (map (shard_of (tx_symbol t)) (tx_wires t)) (tx_recs t)"


section \<open>What the encoder sends\<close>

lemma stamp_stripe_Inr:
  "stamp_stripe f sid off cs = Inr cs' \<Longrightarrow>
    cs' = map (\<lambda>c. c\<lparr> cell_stripe_id := sid \<rparr>) cs \<and> (\<forall>i<length cs. unat (cell_sequence (cs ! i)) = unat f + off + i)"
proof (induction cs arbitrary: off cs')
  case (Cons c cs)
  then obtain rest where h: "unat (cell_sequence c) = unat f + off" "stamp_stripe f sid (off + 1) cs = Inr rest"
    "cs' = c\<lparr> cell_stripe_id := sid \<rparr> # rest" by (auto simp: result_iff)
  from Cons.IH [OF h(2)] h show ?case by (auto simp: nth_Cons split: nat.splits)
qed simp

lemma systematic_cells_Inr:
  "systematic_cells pm sb cs ls = Inr xs \<Longrightarrow> length cs = length ls \<Longrightarrow>
    length xs = length cs \<and> (\<forall>i<length cs. systematic_cell pm sb (cs ! i) (ls ! i) = Inr (xs ! i))"
proof (induction pm sb cs ls arbitrary: xs rule: systematic_cells.induct)
  case (1 pm sb c cs l ls)
  then obtain x ys where h: "systematic_cell pm sb c l = Inr x" "systematic_cells pm sb cs ls = Inr ys" "xs = x # ys"
    by (auto simp: result_iff)
  from 1(1) [OF h(1,2)] 1(3) h show ?case by (auto simp: nth_Cons split: nat.splits)
qed auto

lemma parity_wires_Inr:
  "parity_wires ident sid path n k f sb ls i rs = Inr ws \<Longrightarrow>
    length ws = length rs \<and> (\<forall>j<length rs. \<exists>p. encode_parity_payload n k (i + j) f sb ls (rs ! j) = Inr p \<and>
      encode_into path (parity_cell ident sid (i + j) p) = Inr (ws ! j))"
proof (induction rs arbitrary: i ws)
  case (Cons r rs)
  then obtain p w rest where h: "encode_parity_payload n k i f sb ls r = Inr p"
    "encode_into path (parity_cell ident sid i p) = Inr w" "parity_wires ident sid path n k f sb ls (i + 1) rs = Inr rest"
    "ws = w # rest" by (auto simp: result_iff)
  from Cons.IH [OF h(3)] h show ?case by (auto simp: nth_Cons split: nat.splits)
qed simp

lemma next_even: "even (next_even n)" "n \<le> next_even n" "0 < n \<Longrightarrow> 0 < next_even n"
  by (simp_all add: next_even_def)

definition stamped :: "u32 \<Rightarrow> cell_v2 \<Rightarrow> cell_v2" where
  "stamped sid c = c\<lparr> cell_stripe_id := sid \<rparr>"

lemma encode_stripe_sent:
  assumes rs: "rs_corrects rs k" and k: "0 < k" "k \<le> 8" and h: "shim_valid h"
    and enc: "encode_stripe rs k pm path ident stripe = Inr (sys, par)"
    and cells: "\<forall>c\<in>set stripe. carries_records c \<and> fec_identity c = ident \<and> unat (cell_sequence c) < u16_max"
  obtains t sid where "encode_stripe_id (cell_sequence (hd stripe)) (length stripe) = Inr sid" "sent_ok rs t" "tx_shim t = h"
    "tx_wires t = map (reshim h) sys" "tx_parity t = map (reshim h) par" "length par = k"
    "tx_cells t = map (with_shim h \<circ> stamped sid) stripe" "\<forall>w\<in>set (sys @ par). length w \<le> path"
proof -
  let ?f = "cell_sequence (hd stripe)" let ?n = "length stripe"
  obtain sid cs ls xs recs where sid: "encode_stripe_id ?f ?n = Inr sid" and st: "stamp_stripe ?f sid 0 stripe = Inr cs"
    and ls: "mapR systematic_length cs = Inr ls" and xs: "systematic_cells pm (next_even (Max (unat ` set ls))) cs ls = Inr xs"
    and recs: "rs_encode rs ?n k (next_even (Max (unat ` set ls))) (map snd xs) = Inr recs"
    and par: "parity_wires ident sid path (length xs) k ?f (next_even (Max (unat ` set ls))) ls 0 recs = Inr par"
    and sys: "sys = map fst xs" and fit: "HEADER_LEN + (PARITY_FIXED_LEN + ?n * 2) + next_even (Max (unat ` set ls)) \<le> path"
    using enc by (auto simp: encode_stripe_def result_iff Let_def)
  define sb where "sb = next_even (Max (unat ` set ls))"
  note xs = xs [folded sb_def] and recs = recs [folded sb_def] and par = par [folded sb_def] and fit = fit [folded sb_def]
  note idr = stripe_id_roundtrip [OF sid]
  have cs: "cs = map (stamped sid) stripe" and seq: "\<forall>i<?n. unat (cell_sequence (stripe ! i)) = unat ?f + i"
    using stamp_stripe_Inr [OF st] by (simp_all add: stamped_def [abs_def])
  have len: "length cs = ?n" "length ls = ?n" using mapR_length [OF ls] by (simp_all add: cs)
  have l: "systematic_length (cs ! i) = Inr (ls ! i)" if "i < ?n" for i
    using mapR_list_all2 [OF ls] that len by (simp add: list_all2_conv_all_nth)
  have max: "unat (ls ! i) \<le> sb" if "i < ?n" for i
  proof -
    have "unat (ls ! i) \<le> Max (unat ` set ls)" using that len by (intro Max_ge) auto
    with next_even(2) [of "Max (unat ` set ls)"] show ?thesis by (simp add: sb_def)
  qed
  have sc: "length xs = ?n" "systematic_cell pm sb (cs ! i) (ls ! i) = Inr (sys ! i, snd (xs ! i))" if "i < ?n" for i
    using systematic_cells_Inr [OF xs] len that by (simp_all add: sys)
  have lx: "length xs = ?n" using systematic_cells_Inr [OF xs] len by simp
  have w: "encode_into pm (cs ! i) = Inr (sys ! i)" "length (sys ! i) = unat (ls ! i)" "snd (xs ! i) = shard_of sb (sys ! i)" if "i < ?n" for i
    using systematic_cell_Inr [OF sc(2) [OF that] l [OF that] max [OF that]] by blast+
  have dec: "decode_cell (sys ! i) = Inr (cs ! i)" if "i < ?n" for i using w(1) [OF that] by (rule cell_wire_max.dec_enc)
  have big: "36 < length (sys ! i)" if "i < ?n" for i using decode_cell_exceeds_header [OF dec [OF that]] .
  have shards: "map snd xs = map (shard_of sb) (map (reshim h) sys)"
  proof (rule nth_equalityI)
    fix i assume "i < length (map snd xs)"
    then have i: "i < ?n" using lx by simp
    then have "35 < length (sys ! i)" using big [OF i] by simp
    then show "map snd xs ! i = map (shard_of sb) (map (reshim h) sys) ! i" using w(3) [OF i] i by (simp add: lx sys)
  qed (simp add: sys)
  have n0: "0 < ?n" using idr(3) by linarith
  have sb: "0 < sb" "even sb" using big [OF n0] w(2) [OF n0] max [OF n0] by (simp_all add: sb_def next_even(1))
  have shl: "\<forall>x\<in>set (map snd xs). length x = sb"
  proof
    fix x assume "x \<in> set (map snd xs)"
    then obtain i where "i < ?n" "x = snd (xs ! i)" using lx by (auto simp: in_set_conv_nth)
    with w(2,3) [of i] max [of i] show "length x = sb" by simp
  qed
  have law: "rs_supports rs ?n k sb" "length recs = k" "rs_restores rs ?n k sb (map snd xs) recs"
  proof -
    have "rs_supports rs ?n k sb \<and> (\<exists>recs. rs_encode rs ?n k sb (map snd xs) = Inr recs \<and> length recs = k \<and> (\<forall>r\<in>set recs. length r = sb) \<and>
        rs_restores rs ?n k sb (map snd xs) recs)"
      using rs k(1) idr(3,4) sb shl lx unfolding rs_corrects_def MAX_DATA_CELLS_def by (metis length_map)
    with recs show "rs_supports rs ?n k sb" "length recs = k" "rs_restores rs ?n k sb (map snd xs) recs" by auto
  qed
  note pw = parity_wires_Inr [OF par, unfolded law(2) lx add_0]
  have path: "path \<le> 65535" using pw k(1) by (auto simp: encode_into_Inr_iff MAX_CELL_BYTES_def)
  with fit have sb16: "sb \<le> 65535" by simp
  have lpos: "\<forall>l\<in>set ls. 0 < l \<and> unat l \<le> sb"
  proof
    fix l assume "l \<in> set ls"
    then obtain i where "i < ?n" "l = ls ! i" using len by (auto simp: in_set_conv_nth)
    with big [of i] w(2) [of i] max [of i] show "0 < l \<and> unat l \<le> sb" by (simp add: word_less_nat_alt)
  qed
  define key where "key = stripe_key_from_cell (cs ! 0)"
  have key: "stripe_key_from_cell c = key" if "fec_identity c = ident" "cell_stripe_id c = sid" for c
    using that cells n0 unfolding key_def cs by (auto simp: stripe_key_from_cell_def fec_identity_def stamped_def)
  define t where "t = \<lparr> tx_key = key, tx_first = ?f, tx_shim = h, tx_cells = map (with_shim h \<circ> stamped sid) stripe,
    tx_wires = map (reshim h) sys, tx_parity = map (reshim h) par, tx_lengths = ls, tx_symbol = sb, tx_recs = recs \<rparr>"
  have data: "data_sent t i" if i: "i < ?n" for i
  proof -
    have c: "cs ! i = stamped sid (stripe ! i)" "stripe ! i \<in> set stripe" using i by (simp_all add: cs)
    have "stripe_key_from_cell (cs ! i) = key" using c cells by (intro key) (simp_all add: stamped_def fec_identity_def)
    with c cells seq i dec [OF i] decode_reshim [OF dec [OF i] h] w(2) [OF i] max [OF i] lx show ?thesis
      by (simp add: data_sent_def t_def sys) (simp add: stamped_def carries_records_def)
  qed
  have parity: "parity_sent t j" if j: "j < k" for j
  proof -
    obtain p where p: "encode_parity_payload ?n k j ?f sb ls (recs ! j) = Inr p"
      "encode_into path (parity_cell ident sid j p) = Inr (par ! j)" using pw j by blast
    let ?c = "parity_cell ident sid j p"
    have c: "fec_identity ?c = ident" "cell_stripe_id ?c = sid" "cell_body ?c = Parity p"
      by (simp_all add: parity_cell_def fec_identity_def split: prod.splits)
    note pr = parity_payload_roundtrip [OF p(1) idr(3,4) j k(2) sb sb16 lpos]
    have d: "decode_cell (par ! j) = Inr ?c" by (rule cell_wire_max.dec_enc [OF p(2)])
    have "length (par ! j) = 36 + length p" using p(2) c(3) by (simp add: encode_into_Inr_iff)
    moreover have "length (recs ! j) = sb" using p(1) by (auto simp: encode_parity_payload_def result_iff)
    ultimately show ?thesis using decode_reshim [OF d h] c key [OF c(1,2)] pr j pw law(2)
      by (auto simp: parity_sent_def t_def tx_payload_def)
  qed
  have "cell_stripe_id (cs ! 0) = sid" using n0 by (simp add: cs stamped_def)
  then have sk: "sk_stripe_id key = sid" by (simp add: key_def stripe_key_from_cell_def)
  have "?n - 1 < ?n" using n0 by linarith
  then have "unat ?f + (?n - 1) = unat (cell_sequence (stripe ! (?n - 1)))" "stripe ! (?n - 1) \<in> set stripe" using seq by simp_all
  then have "unat ?f + (?n - 1) < u16_max" using cells by metis
  then have "unat ?f + ?n \<le> u16_max" using n0 by linarith
  then have "sent_ok rs t" using sk idr(1,2) n0 len lx data parity law pw shards
    unfolding sent_ok_def by (simp add: t_def sys)
  moreover have "\<forall>x\<in>set (sys @ par). length x \<le> path"
  proof
    fix x assume "x \<in> set (sys @ par)"
    then consider i where "i < ?n" "x = sys ! i" | j where "j < k" "x = par ! j"
      using lx pw by (auto simp: in_set_conv_nth sys)
    then show "length x \<le> path"
    proof cases
      case 1
      then show ?thesis using w(2) [of i] max [of i] fit by simp
    next
      case 2
      then show ?thesis using pw by (auto simp: encode_into_Inr_iff)
    qed
  qed
  ultimately show ?thesis using that [OF sid, of t] pw law(2) by (simp add: t_def)
qed


section \<open>Recovery of one stripe\<close>

definition tx_seq :: "sent_stripe \<Rightarrow> nat \<Rightarrow> u16" where
  "tx_seq t i = word_of_nat (unat (tx_first t) + i)"

text \<open>The decoder's stripe after the data Cells \<open>D\<close> and the parity Cells \<open>R\<close> of a sent stripe.\<close>

definition stripe_has :: "sent_stripe \<Rightarrow> nat set \<Rightarrow> nat set \<Rightarrow> decode_stripe \<Rightarrow> bool" where
  "stripe_has t D R s \<longleftrightarrow> D \<subseteq> {..<length (tx_cells t)} \<and> R \<subseteq> {..<length (tx_recs t)} \<and> ds_routing_shim s = tx_shim t \<and>
     (\<forall>i<length (tx_cells t). map_of (ds_originals s) (tx_seq t i) = (if i \<in> D then Some (tx_wires t ! i) else None)) \<and>
     map_of (ds_recoveries s) = (\<lambda>j. if j \<in> R then Some (tx_recs t ! j) else None) \<and>
     (\<forall>i<length (tx_cells t). tx_seq t i \<in> ds_delivered s \<longleftrightarrow> i \<in> D) \<and>
     (case ds_geometry s of None \<Rightarrow> R = {} | Some g \<Rightarrow> R \<noteq> {} \<and> (\<exists>j. g = tx_payload t j))"

lemma tx_seq_unat:
  assumes "sent_ok rs t" "i < length (tx_cells t)"
  shows "unat (tx_seq t i) = unat (tx_first t) + i"
  using assms unfolding tx_seq_def by (intro unat_u16_of_nat) (simp add: sent_ok_def)

lemma tx_seq_inject:
  assumes "sent_ok rs t" "i < length (tx_cells t)" "j < length (tx_cells t)"
  shows "tx_seq t i = tx_seq t j \<longleftrightarrow> i = j"
proof
  assume "tx_seq t i = tx_seq t j"
  then have "unat (tx_seq t i) = unat (tx_seq t j)" by simp
  then show "i = j" unfolding tx_seq_unat [OF assms(1,2)] tx_seq_unat [OF assms(1,3)] by simp
qed simp

lemma tx_cell_seq:
  assumes "sent_ok rs t" "i < length (tx_cells t)"
  shows "cell_sequence (tx_cells t ! i) = tx_seq t i"
  using assms tx_seq_unat [OF assms] by (simp add: sent_ok_def data_sent_def word_unat_eq_iff)

lemma tx_payload_sel [simp]:
  "pp_data_cells (tx_payload t j) = length (tx_cells t)" "pp_parity_cells (tx_payload t j) = length (tx_recs t)"
  "pp_symbol_bytes (tx_payload t j) = tx_symbol t" "pp_lengths (tx_payload t j) = tx_lengths t"
  "pp_first_sequence (tx_payload t j) = tx_first t" "pp_recovery_index (tx_payload t j) = j"
  "pp_recovery (tx_payload t j) = tx_recs t ! j" "same_geometry (tx_payload t i) (tx_payload t j)"
  by (simp_all add: tx_payload_def same_geometry_def)

lemma tx_stripe_sequence:
  assumes "sent_ok rs t" "i < length (tx_cells t)"
  shows "stripe_sequence (tx_payload t j) i = Some (tx_seq t i)"
  using assms by (simp add: stripe_sequence_def tx_seq_def sent_ok_def)

lemma length_filter_mem: "D \<subseteq> {..<n} \<Longrightarrow> length (filter (\<lambda>i. i \<in> D) [0..<n]) = card D"
proof -
  assume "D \<subseteq> {..<n}"
  then have "set (filter (\<lambda>i. i \<in> D) [0..<n]) = D" by auto
  then show ?thesis using distinct_card [of "filter (\<lambda>i. i \<in> D) [0..<n]"] by simp
qed

lemma present_card:
  assumes "sent_ok rs t" "stripe_has t D R s"
  shows "present_originals (tx_payload t j) s = card D"
proof -
  have "filter (\<lambda>i. case stripe_sequence (tx_payload t j) i of None \<Rightarrow> False | Some q \<Rightarrow> map_of (ds_originals s) q \<noteq> None)
      [0..<length (tx_cells t)] = filter (\<lambda>i. i \<in> D) [0..<length (tx_cells t)]"
    using assms by (intro filter_cong) (auto simp: tx_stripe_sequence stripe_has_def)
  then show ?thesis using assms by (simp add: present_originals_def length_filter_mem stripe_has_def)
qed

lemma recoveries_card:
  assumes "distinct (map fst es)" "map_of es = (\<lambda>j. if j \<in> R then Some (f j) else None)"
  shows "length es = card R"
proof -
  have "fst ` set es = dom (map_of es)" by (simp add: dom_map_of_conv_image_fst)
  also have "\<dots> = R" using assms(2) by (auto split: if_splits)
  finally show ?thesis using assms(1) distinct_card [of "map fst es"] by simp
qed

lemma decode_cell_shim:
  assumes "decode_cell bs = Inr c"
  shows "bs ! 34 = cell_overlay_hop_limit c" "bs ! 35 = cell_overlay_hops c"
  using assms by (simp_all add: decode_cell_Inr_iff encode_header_def MAGIC_def put_u8_def nth_append header_of_def)

lemma expand_sent:
  assumes ok: "sent_ok rs t" and has: "stripe_has t D R s" and xs: "\<forall>i\<in>set xs. i < length (tx_cells t)"
  shows "expand_originals (tx_payload t j) s xs =
    Inr (map (\<lambda>i. (i, map (shard_of (tx_symbol t)) (tx_wires t) ! i)) (filter (\<lambda>i. i \<in> D) xs))"
  using xs
proof (induction xs)
  case (Cons i xs)
  then have i: "i < length (tx_cells t)" by simp
  have d: "data_sent t i" "length (tx_wires t) = length (tx_cells t)" using ok i by (auto simp: sent_ok_def)
  then have "36 < length (tx_wires t ! i)" unfolding data_sent_def using decode_cell_exceeds_header by blast
  with d have "expand_original (tx_symbol t) (tx_wires t ! i) = Inr (shard_of (tx_symbol t) (tx_wires t ! i))"
    by (auto simp: expand_original_def normalize_routing_shim_def shard_of_def data_sent_def OVERLAY_HOPS_OFFSET_def OVERLAY_HOP_LIMIT_OFFSET_def)
  with Cons has i d(2) tx_stripe_sequence [OF ok i] show ?case by (auto simp: stripe_has_def)
qed simp

lemma rebuild_sent:
  assumes ok: "sent_ok rs t" and i: "i < length (tx_cells t)"
  shows "rebuild_cell (tx_key t) (tx_payload t j) (tx_shim t) i (shard_of (tx_symbol t) (tx_wires t ! i)) =
    Inr (tx_seq t i, length (tx_wires t ! i), tx_cells t ! i)"
proof -
  let ?w = "tx_wires t ! i"
  have d: "decode_cell ?w = Inr (tx_cells t ! i)" "stripe_key_from_cell (tx_cells t ! i) = tx_key t"
    "length ?w = unat (tx_lengths t ! i)" "length ?w \<le> tx_symbol t" "length (tx_lengths t) = length (tx_cells t)"
    "(cell_overlay_hop_limit (tx_cells t ! i), cell_overlay_hops (tx_cells t ! i)) = tx_shim t"
    using ok i by (auto simp: sent_ok_def data_sent_def)
  have big: "36 < length ?w" by (rule decode_cell_exceeds_header [OF d(1)])
  have "take (length ?w) (shard_of (tx_symbol t) ?w) = ?w[34 := 0, 35 := 0]"
    using big by (simp add: shard_of_def list_update_append)
  moreover have "?w[34 := 0, 35 := 0, 34 := fst (tx_shim t), 35 := snd (tx_shim t)] = ?w"
    unfolding d(6) [symmetric] fst_conv snd_conv decode_cell_shim [OF d(1), symmetric]
    by (simp add: list_update_swap [of 35 34])
  ultimately have "restore_routing_shim (tx_shim t) (take (length ?w) (shard_of (tx_symbol t) ?w)) = Inr ?w"
    using big by (simp add: restore_routing_shim_def OVERLAY_HOPS_OFFSET_def OVERLAY_HOP_LIMIT_OFFSET_def)
  then show ?thesis using d i tx_stripe_sequence [OF ok i] tx_cell_seq [OF ok i] by (simp add: rebuild_cell_def Let_def)
qed

lemma rebuild_cells_sent:
  assumes ok: "sent_ok rs t" and "distinct xs" "\<forall>i\<in>set xs. i < length (tx_cells t) \<and> tx_seq t i \<notin> ds_delivered s"
    and "ds_routing_shim s = tx_shim t"
  shows "rebuild_cells (tx_key t) (tx_payload t j) (map (\<lambda>i. (i, map (shard_of (tx_symbol t)) (tx_wires t) ! i)) xs) s =
    (s\<lparr> ds_delivered := tx_seq t ` set xs \<union> ds_delivered s \<rparr>,
     Inr (map (\<lambda>i. (tx_seq t i, length (tx_wires t ! i), tx_cells t ! i)) xs))"
  using assms(2-)
proof (induction xs arbitrary: s)
  case Nil
  then show ?case by simp
next
  case (Cons i xs)
  have i: "i < length (tx_cells t)" "i < length (tx_wires t)" using Cons.prems ok by (auto simp: sent_ok_def)
  let ?s = "s\<lparr> ds_delivered := insert (tx_seq t i) (ds_delivered s) \<rparr>"
  have "\<forall>m\<in>set xs. m < length (tx_cells t) \<and> tx_seq t m \<notin> ds_delivered ?s"
    using Cons.prems(1,2) tx_seq_inject [OF ok _ i(1)] by auto
  then have IH: "rebuild_cells (tx_key t) (tx_payload t j) (map (\<lambda>i. (i, map (shard_of (tx_symbol t)) (tx_wires t) ! i)) xs) ?s =
    (?s\<lparr> ds_delivered := tx_seq t ` set xs \<union> ds_delivered ?s \<rparr>,
     Inr (map (\<lambda>i. (tx_seq t i, length (tx_wires t ! i), tx_cells t ! i)) xs))"
    using Cons.prems by (intro Cons.IH) simp_all
  then show ?case using rebuild_sent [OF ok i(1), of j] Cons.prems i(2) by simp
qed

lemma try_recover_quiet:
  assumes ok: "sent_ok rs t" and dec: "decoder_ok d" and s: "map_of (fd_stripes d) (tx_key t) = Some s" and has: "stripe_has t D R s"
    and few: "R = {} \<or> card D = length (tx_cells t) \<or> card D + card R < length (tx_cells t)"
  shows "try_recover rs (tx_key t) d = (d, Inr None)"
proof (cases "ds_geometry s")
  case None
  then show ?thesis using s by (simp add: try_recover_def)
next
  case (Some g)
  then obtain j where g: "g = tx_payload t j" and R: "R \<noteq> {}" using has by (auto simp: stripe_has_def)
  have "distinct (map fst (ds_recoveries s))" using stripe_wf_of [OF _ s] dec by (simp add: decoder_ok_def stripe_wf_def)
  then have "length (ds_recoveries s) = card R" using has by (intro recoveries_card) (auto simp: stripe_has_def)
  then show ?thesis using s Some g few R present_card [OF ok has] by (simp add: try_recover_def)
qed

lemma try_recover_sent:
  assumes ok: "sent_ok rs t" and dec: "decoder_ok d" and s: "map_of (fd_stripes d) (tx_key t) = Some s" and has: "stripe_has t D R s"
    and R: "R \<noteq> {}" and D: "card D < length (tx_cells t)" and enough: "length (tx_cells t) \<le> card D + card R"
  shows "try_recover rs (tx_key t) d =
    (set_stripe (tx_key t) (s\<lparr> ds_delivered := tx_seq t ` ({..<length (tx_cells t)} - D) \<union> ds_delivered s \<rparr>) d,
     Inr (Some (map (\<lambda>i. (tx_seq t i, length (tx_wires t ! i), tx_cells t ! i)) (filter (\<lambda>i. i \<notin> D) [0..<length (tx_cells t)]))))"
proof -
  let ?n = "length (tx_cells t)" let ?m = "filter (\<lambda>i. i \<notin> D) [0..<?n]"
  obtain j where g: "ds_geometry s = Some (tx_payload t j)" using has R by (auto simp: stripe_has_def split: option.splits)
  have dist: "distinct (map fst (ds_recoveries s))" using stripe_wf_of [OF _ s] dec by (simp add: decoder_ok_def stripe_wf_def)
  have rec: "map_of (ds_recoveries s) = (\<lambda>j. if j \<in> R then Some (tx_recs t ! j) else None)" using has by (simp add: stripe_has_def)
  have len: "length (ds_recoveries s) = card R" by (rule recoveries_card [OF dist rec])
  have got: "\<forall>e\<in>set (ds_recoveries s). fst e < length (tx_recs t) \<and> snd e = tx_recs t ! fst e"
  proof
    fix e assume "e \<in> set (ds_recoveries s)"
    then have "map_of (ds_recoveries s) (fst e) = Some (snd e)" using dist by simp
    then have "fst e \<in> R" "snd e = tx_recs t ! fst e" unfolding rec by (simp_all split: if_splits)
    then show "fst e < length (tx_recs t) \<and> snd e = tx_recs t ! fst e" using has by (auto simp: stripe_has_def)
  qed
  have cD: "length (filter (\<lambda>i. i \<in> D) [0..<?n]) = card D" using has by (intro length_filter_mem) (simp add: stripe_has_def)
  have "rs_decode rs ?n (length (tx_recs t)) (tx_symbol t)
      (map (\<lambda>i. (i, map (shard_of (tx_symbol t)) (tx_wires t) ! i)) (filter (\<lambda>i. i \<in> D) [0..<?n])) (ds_recoveries s) =
      Inr (map (\<lambda>i. (i, map (shard_of (tx_symbol t)) (tx_wires t) ! i)) ?m)"
    using ok dist got enough len cD unfolding sent_ok_def rs_restores_def by simp
  moreover have "rebuild_cells (tx_key t) (tx_payload t j) (map (\<lambda>i. (i, map (shard_of (tx_symbol t)) (tx_wires t) ! i)) ?m) s =
    (s\<lparr> ds_delivered := tx_seq t ` set ?m \<union> ds_delivered s \<rparr>,
     Inr (map (\<lambda>i. (tx_seq t i, length (tx_wires t ! i), tx_cells t ! i)) ?m))"
    using has by (intro rebuild_cells_sent [OF ok]) (auto simp: stripe_has_def)
  moreover have "set ?m = {..<?n} - D" by auto
  moreover have "rs_supports rs ?n (length (tx_recs t)) (tx_symbol t)" using ok by (simp add: sent_ok_def)
  moreover have "expand_originals (tx_payload t j) s [0..<?n] =
      Inr (map (\<lambda>i. (i, map (shard_of (tx_symbol t)) (tx_wires t) ! i)) (filter (\<lambda>i. i \<in> D) [0..<?n]))"
    by (rule expand_sent [OF ok has]) simp
  ultimately show ?thesis using s g D enough len present_card [OF ok has, of j] by (simp add: try_recover_def)
qed

lemma stripe_complete_sent:
  assumes ok: "sent_ok rs t" and "map_of (fd_stripes d) (tx_key t) = Some s" "ds_geometry s = Some (tx_payload t j)"
  shows "stripe_complete (tx_key t) d \<longleftrightarrow> (\<forall>i<length (tx_cells t). tx_seq t i \<in> ds_delivered s)"
  using assms by (auto simp: stripe_complete_def list_all_iff tx_stripe_sequence [OF ok])

section \<open>A push leaves other stripes alone\<close>

definition others :: "stripe_key \<Rightarrow> fec_decoder \<Rightarrow> fec_decoder \<Rightarrow> bool" where
  "others k d d' \<longleftrightarrow> (\<forall>k'. k' \<noteq> k \<longrightarrow> map_of (fd_stripes d') k' = map_of (fd_stripes d) k' \<and>
     (k' \<in> fd_completed d' \<longleftrightarrow> k' \<in> fd_completed d))"

definition grows :: "nat \<Rightarrow> nat \<Rightarrow> nat \<Rightarrow> fec_decoder \<Rightarrow> fec_decoder \<Rightarrow> bool" where
  "grows b n m d d' \<longleftrightarrow> fd_buffered_bytes d' \<le> fd_buffered_bytes d + b \<and> length (fd_stripes d') \<le> length (fd_stripes d) + n \<and>
     length (fd_completed_order d') \<le> length (fd_completed_order d) + m"

definition decoder_roomy :: "nat \<Rightarrow> fec_decoder \<Rightarrow> bool" where
  "decoder_roomy b d \<longleftrightarrow> fd_buffered_bytes d + b \<le> fd_maximum_buffered_bytes d \<and> length (fd_stripes d) < fd_maximum_stripes d \<and>
     length (fd_completed_order d) < fd_maximum_stripes d"

lemma others_refl [simp]: "others k d d"
  by (simp add: others_def)

lemma others_trans: "others k a b \<Longrightarrow> others k b c \<Longrightarrow> others k a c"
  by (simp add: others_def)

lemma grows_refl [simp]: "grows b n m d d"
  by (simp add: grows_def)

lemma grows_trans: "grows b n m x y \<Longrightarrow> grows b' n' m' y z \<Longrightarrow> grows (b + b') (n + n') (m + m') x z"
  by (auto simp: grows_def)

lemma others_set_stripe [simp]: "others k d (set_stripe k s d)"
  by (simp add: others_def update_conv')

lemma length_set_stripe: "map_of (fd_stripes d) k = Some s \<Longrightarrow> length (fd_stripes (set_stripe k s' d)) = length (fd_stripes d)"
  by (auto simp: length_update dest!: map_of_SomeD) (metis fst_conv image_eqI)

lemma reserve_roomy:
  assumes "stripes_ok d" "fd_buffered_bytes d + n \<le> fd_maximum_buffered_bytes d"
  shows "reserve n k d = Some (d, Inr ())"
proof -
  have "sat_add (fd_buffered_bytes d) n \<le> fd_maximum_buffered_bytes d"
    using assms by (simp add: sat_add_le_iff stripes_ok_def)
  then show ?thesis by (subst reserve_def, subst reserve_loop.simps) simp
qed

lemma ensure_stripe_roomy:
  assumes "length (fd_stripes d) < fd_maximum_stripes d" and "ensure_stripe k now shim d = (d', r)"
  shows "others k d d'" "grows 0 1 0 d d'" "fd_completed d' = fd_completed d"
proof -
  have ev: "evict_for_stripe d = d" using assms(1) by (subst evict_for_stripe.simps) simp
  show "others k d d'" "grows 0 1 0 d d'" "fd_completed d' = fd_completed d"
    using assms by (auto simp: ensure_stripe_def ev Let_def others_def grows_def update_conv' length_update
        split: option.splits sum.splits if_splits)
qed


lemma admit_data_roomy:
  assumes ok: "decoder_ok d" and room: "fd_buffered_bytes d + length bs \<le> fd_maximum_buffered_bytes d"
    and s: "map_of (fd_stripes d) k = Some s"
  shows "admit_data k c bs out d = Some (case map_of (ds_originals s) (cell_sequence c) of
      Some existing \<Rightarrow> (d, ensure (existing = bs) ''conflicting V2 FEC data Cell duplicate'' (Inr out))
    | None \<Rightarrow> ((set_stripe k (s\<lparr> ds_originals := AList.update (cell_sequence c) bs (ds_originals s),
                  ds_delivered := insert (cell_sequence c) (ds_delivered s) \<rparr>) d)\<lparr> fd_buffered_bytes := fd_buffered_bytes d + length bs \<rparr>,
               Inr (out\<lparr> fo_cells := fo_cells out @ [c] \<rparr>)))"
  using s reserve_roomy [OF _ room, of k] ok by (auto simp: admit_data_def decoder_ok_def split: option.splits)

lemma admit_data_frame:
  assumes "decoder_ok d" "fd_buffered_bytes d + length bs \<le> fd_maximum_buffered_bytes d" "map_of (fd_stripes d) k = Some s"
    and "admit_data k c bs out d = Some (d', r)"
  shows "others k d d'" "grows (length bs) 0 0 d d'" "fd_completed d' = fd_completed d"
    "\<And>out'. r = Inr out' \<Longrightarrow> set (fo_cells out') \<subseteq> insert c (set (fo_cells out))"
proof -
  have "length (fd_stripes (set_stripe k s' d)) = length (fd_stripes d)" for s' by (rule length_set_stripe [OF assms(3)])
  then show "others k d d'" "grows (length bs) 0 0 d d'" "fd_completed d' = fd_completed d"
    "\<And>out'. r = Inr out' \<Longrightarrow> set (fo_cells out') \<subseteq> insert c (set (fo_cells out))"
    using assms(4) unfolding admit_data_roomy [OF assms(1-3)]
    by (auto simp: others_def grows_def update_conv' ensure_def split: option.splits if_splits)
qed

text \<open>The decoder after a stripe's parity geometry has been noted.\<close>

definition noted :: "parity_payload \<Rightarrow> decode_stripe \<Rightarrow> decode_stripe" where
  "noted g s = (case ds_geometry s of None \<Rightarrow> s\<lparr> ds_geometry := Some g \<rparr> | Some _ \<Rightarrow> s)"

lemma noted_sel [simp]:
  "ds_recoveries (noted g s) = ds_recoveries s" "ds_originals (noted g s) = ds_originals s"
  "ds_updated (noted g s) = ds_updated s" "ds_delivered (noted g s) = ds_delivered s"
  "ds_routing_shim (noted g s) = ds_routing_shim s"
  "ds_geometry (noted g s) = Some (case ds_geometry s of None \<Rightarrow> g | Some x \<Rightarrow> x)"
  by (simp_all add: noted_def split: option.splits)

lemma set_stripe_id: "map_of (fd_stripes d) k = Some s \<Longrightarrow> set_stripe k s d = d"
proof -
  have "map_of es k = Some s \<Longrightarrow> AList.update k s es = es" for es by (induction es) (auto split: if_splits)
  then show "map_of (fd_stripes d) k = Some s \<Longrightarrow> set_stripe k s d = d" by (simp add: set_stripe_def)
qed

lemma set_stripe_twice: "set_stripe k s (set_stripe k s' d) = set_stripe k s d"
proof -
  have "AList.update k s (AList.update k s' es) = AList.update k s es" for es by (induction es) auto
  then show ?thesis by (simp add: set_stripe_def)
qed

lemma admit_parity_roomy:
  assumes ok: "decoder_ok d" and dec: "decode_parity_payload p = Inr g" and shape: "shape = (pp_first_sequence g, pp_data_cells g)"
    and room: "fd_buffered_bytes d + length (pp_recovery g) \<le> fd_maximum_buffered_bytes d"
    and s: "map_of (fd_stripes d) k = Some s" and geo: "case ds_geometry s of None \<Rightarrow> True | Some x \<Rightarrow> same_geometry x g"
  shows "admit_parity k shape p out d = Some (case map_of (ds_recoveries s) (pp_recovery_index g) of
      Some existing \<Rightarrow> (set_stripe k (noted g s) d, ensure (existing = pp_recovery g) ''conflicting V2 parity duplicate'' (Inr (out\<lparr> fo_parity_received := 1 \<rparr>)))
    | None \<Rightarrow> ((set_stripe k ((noted g s)\<lparr> ds_recoveries := AList.update (pp_recovery_index g) (pp_recovery g) (ds_recoveries s) \<rparr>) d)
                \<lparr> fd_buffered_bytes := fd_buffered_bytes d + length (pp_recovery g) \<rparr>, Inr (out\<lparr> fo_parity_received := 1 \<rparr>)))"
proof -
  let ?d = "set_stripe k (noted g s) d"
  have d0: "(case ds_geometry s of None \<Rightarrow> set_stripe k (s\<lparr> ds_geometry := Some g \<rparr>) d | Some _ \<Rightarrow> d) = ?d"
    using set_stripe_id [OF s] by (simp add: noted_def split: option.splits)
  have sok: "stripes_ok d" using ok by (simp add: decoder_ok_def)
  have "stripes_ok ?d" using stripe_wf_of [OF sok s] by (intro stripes_ok_set_quiet [OF sok s]) (simp_all add: stripe_wf_def stripe_buffered_def)
  then have r: "reserve (length (pp_recovery g)) k ?d = Some (?d, Inr ())" using room by (intro reserve_roomy) simp_all
  have geo': "\<not> (case ds_geometry s of None \<Rightarrow> False | Some existing \<Rightarrow> \<not> same_geometry existing g)"
    using geo by (simp split: option.splits)
  have "admit_parity k shape p out d =
      (case map_of (ds_recoveries s) (pp_recovery_index g) of
         Some existing \<Rightarrow> Some (?d, ensure (existing = pp_recovery g) ''conflicting V2 parity duplicate'' (Inr (out\<lparr> fo_parity_received := 1 \<rparr>)))
       | None \<Rightarrow> (case reserve (length (pp_recovery g)) k ?d of
           None \<Rightarrow> None
         | Some (d, Inl e) \<Rightarrow> Some (d, Inl e)
         | Some (d, Inr _) \<Rightarrow> (case map_of (fd_stripes d) k of
             None \<Rightarrow> Some (d, Inl (Panic ''stripe remains present''))
           | Some s \<Rightarrow> Some ((set_stripe k (s\<lparr> ds_recoveries := AList.update (pp_recovery_index g) (pp_recovery g) (ds_recoveries s) \<rparr>) d)
                 \<lparr> fd_buffered_bytes := fd_buffered_bytes d + length (pp_recovery g) \<rparr>, Inr (out\<lparr> fo_parity_received := 1 \<rparr>)))))"
    unfolding admit_parity_def Let_def dec sum.case s option.case d0 using geo' shape by (simp del: One_nat_def)
  then show ?thesis unfolding r option.case prod.case sum.case
    by (simp add: update_conv' set_stripe_twice del: One_nat_def split: option.splits)
qed

lemma parity_payload_short: "decode_parity_payload p = Inr g \<Longrightarrow> length (pp_recovery g) \<le> length p"
  by (auto simp: decode_parity_payload_def result_iff Let_def)

lemma admit_parity_frame:
  assumes ok: "decoder_ok d" and room: "fd_buffered_bytes d + length p \<le> fd_maximum_buffered_bytes d"
    and s: "map_of (fd_stripes d) k = Some s" and run: "admit_parity k shape p out d = Some (d', r)"
  shows "others k d d'" "grows (length p) 0 0 d d'" "fd_completed d' = fd_completed d"
    "\<And>out'. r = Inr out' \<Longrightarrow> fo_cells out' = fo_cells out"
proof -
  have len: "length (fd_stripes (set_stripe k s' d)) = length (fd_stripes d)" for s' by (rule length_set_stripe [OF s])
  have "others k d d' \<and> grows (length p) 0 0 d d' \<and> fd_completed d' = fd_completed d \<and> (\<forall>out'. r = Inr out' \<longrightarrow> fo_cells out' = fo_cells out)"
  proof (cases "\<exists>g. decode_parity_payload p = Inr g \<and> shape = (pp_first_sequence g, pp_data_cells g) \<and>
      (case ds_geometry s of None \<Rightarrow> True | Some x \<Rightarrow> same_geometry x g)")
    case True
    then obtain g where g: "decode_parity_payload p = Inr g" "shape = (pp_first_sequence g, pp_data_cells g)"
      "case ds_geometry s of None \<Rightarrow> True | Some x \<Rightarrow> same_geometry x g" by blast
    have short: "length (pp_recovery g) \<le> length p" by (rule parity_payload_short [OF g(1)])
    then have "fd_buffered_bytes d + length (pp_recovery g) \<le> fd_maximum_buffered_bytes d" using room by linarith
    from run [unfolded admit_parity_roomy [OF ok g(1,2) this s g(3)]] short len show ?thesis
      by (auto simp: others_def grows_def update_conv' ensure_def split: option.splits if_splits)
  next
    case False
    then have "\<exists>e. admit_parity k shape p out d = Some (d, Inl e)"
      using s by (cases "decode_parity_payload p") (auto simp: admit_parity_def Let_def prod_eq_iff split: option.splits)
    then show ?thesis using run by auto
  qed
  then show "others k d d'" "grows (length p) 0 0 d d'" "fd_completed d' = fd_completed d"
    "\<And>out'. r = Inr out' \<Longrightarrow> fo_cells out' = fo_cells out" by blast+
qed


lemma complete_roomy:
  assumes ok: "decoder_ok d" and new: "k \<notin> fd_completed d" and room: "length (fd_completed_order d) < fd_maximum_stripes d"
  shows "others k d (complete_stripe k d)" "grows 0 0 1 d (complete_stripe k d)" "k \<in> fd_completed (complete_stripe k d)"
    "map_of (fd_stripes (complete_stripe k d)) k = None"
proof -
  let ?r = "remove_stripe k d"
  let ?d = "?r\<lparr> fd_completed := insert k (fd_completed ?r), fd_completed_order := fd_completed_order ?r @ [k] \<rparr>"
  have "card (insert k (fd_completed d)) = length (fd_completed_order d @ [k])"
    using ok new distinct_card [of "fd_completed_order d @ [k]"] by (auto simp: decoder_ok_def completed_ok_def)
  then have "card (fd_completed ?d) \<le> fd_maximum_stripes ?d" using room by simp
  then have "trim_completed_stripes ?d = ?d" by (subst trim_completed_stripes.simps) simp
  then have eq: "complete_stripe k d = ?d" by (simp add: complete_stripe_def Let_def)
  have "fd_buffered_bytes ?r \<le> fd_buffered_bytes d" using remove_stripe_evicts [of d k] by (simp add: evicts_def)
  moreover have "length (fd_stripes ?r) \<le> length (fd_stripes d)" by (simp add: remove_stripe_stripes)
  ultimately show "others k d (complete_stripe k d)" "grows 0 0 1 d (complete_stripe k d)" "k \<in> fd_completed (complete_stripe k d)"
    "map_of (fd_stripes (complete_stripe k d)) k = None"
    unfolding eq using map_of_remove_stripe [of k _ d]
    by (auto simp: others_def grows_def map_of_eq_None_iff remove_stripe_stripes)
qed

lemma rebuild_cells_keys:
  "snd (rebuild_cells k g xs s) = Inr cs \<Longrightarrow> \<forall>x\<in>set cs. stripe_key_from_cell (snd (snd x)) = k"
proof (induction k g xs s arbitrary: cs rule: rebuild_cells.induct)
  case (2 k g i symbol xs s)
  obtain r where Inr: "rebuild_cell k g (ds_routing_shim s) i symbol = Inr r"
    using 2(2) by (cases "rebuild_cell k g (ds_routing_shim s) i symbol") auto
  obtain q len c where r: "r = (q, len, c)" by (cases r) auto
  have c: "stripe_key_from_cell c = k" using Inr unfolding r
    by (auto simp: rebuild_cell_def Let_def result_iff split: option.splits if_splits)
  obtain cs' where "snd (rebuild_cells k g xs (s\<lparr> ds_delivered := insert q (ds_delivered s) \<rparr>)) = Inr cs'"
    "cs = (if q \<in> ds_delivered s then cs' else (q, len, c) # cs')"
    using 2(2) by (auto simp: Inr r split: prod.splits sum.splits)
  with 2(1) [OF Inr r [symmetric] refl] c show ?case by auto
qed simp

lemma try_recover_frame:
  assumes s: "map_of (fd_stripes d) k = Some s" and run: "try_recover rs k d = (d', r)"
  shows "others k d d'" "grows 0 0 0 d d'" "\<And>cs. r = Inr (Some cs) \<Longrightarrow> \<forall>x\<in>set cs. stripe_key_from_cell (snd (snd x)) = k"
proof -
  have "others k d d' \<and> grows 0 0 0 d d'"
  proof (cases "\<exists>s'. d' = set_stripe k s' d")
    case True
    then obtain s' where d': "d' = set_stripe k s' d" by blast
    show ?thesis unfolding d' using length_set_stripe [OF s, of s'] by (simp add: grows_def)
  next
    case False
    with run s have "d' = d" by (auto simp: try_recover_def split: option.splits if_splits sum.splits prod.splits)
    then show ?thesis by simp
  qed
  then show "others k d d'" "grows 0 0 0 d d'" by blast+
  show "\<forall>x\<in>set cs. stripe_key_from_cell (snd (snd x)) = k" if r: "r = Inr (Some cs)" for cs
  proof -
    obtain g xs where "snd (rebuild_cells k g xs s) = Inr cs"
      using run s r that by (auto simp: try_recover_def split: option.splits if_splits sum.splits prod.splits) (metis snd_conv)
    then show ?thesis by (rule rebuild_cells_keys)
  qed
qed

lemma finish_push_frame:
  assumes ok: "decoder_ok d" and s: "map_of (fd_stripes d) k = Some s" and new: "k \<notin> fd_completed d"
    and room: "length (fd_completed_order d) < fd_maximum_stripes d" and run: "finish_push rs k now out d = (d', r)"
  shows "others k d d'" "grows 0 0 1 d d'"
    "\<And>out'. r = Inr out' \<Longrightarrow> \<forall>c\<in>set (fo_cells out'). c \<in> set (fo_cells out) \<or> stripe_key_from_cell c = k"
proof -
  obtain d1 r1 where r1: "try_recover rs k d = (d1, r1)" by fastforce
  note ok1 = try_recover_ok [OF ok s r1] and fr = try_recover_frame [OF s r1]
  obtain dl where s1: "map_of (fd_stripes d1) k = Some (s\<lparr> ds_delivered := dl \<rparr>)" using ok1(4) by blast
  have new1: "k \<notin> fd_completed d1" and room1: "length (fd_completed_order d1) < fd_maximum_stripes d1"
    using ok1(2) new room by (simp_all add: same_limits_def)
  let ?d = "(set_stripe k (s\<lparr> ds_delivered := dl, ds_updated := now \<rparr>) d1)\<lparr> fd_order := fd_order d1 @ [(k, now)] \<rparr>"
  have d': "d' \<in> {d1, complete_stripe k d1, ?d}"
    using run r1 s1 by (auto simp: finish_push_def Let_def split: sum.splits if_splits)
  note cr = complete_roomy [OF ok1(1) new1 room1]
  have "others k d1 ?d" "grows 0 0 1 d1 ?d" using length_set_stripe [OF s1] by (simp_all add: others_def grows_def update_conv')
  with d' cr(1,2) have "others k d1 d' \<and> grows 0 0 1 d1 d'" by (auto simp: others_def)
  with fr others_trans [OF fr(1)] grows_trans [OF fr(2)] show "others k d d'" "grows 0 0 1 d d'" by force+
  show "\<forall>c\<in>set (fo_cells out'). c \<in> set (fo_cells out) \<or> stripe_key_from_cell c = k" if "r = Inr out'" for out'
  proof (cases r1)
    case (Inl e)
    then show ?thesis using run r1 that by (simp add: finish_push_def)
  next
    case (Inr rec)
    have "fo_cells out' = fo_cells out @ (case rec of None \<Rightarrow> [] | Some cs \<Rightarrow> map (snd \<circ> snd) cs)"
      using run r1 that Inr s1 by (auto simp: finish_push_def Let_def split: option.splits if_splits)
    then show ?thesis using fr(3) Inr by (auto split: option.splits)
  qed
qed

lemma decode_cell_body_short: "decode_cell bs = Inr c \<Longrightarrow> cell_body c = Parity p \<Longrightarrow> length p \<le> length bs"
  by (simp add: decode_cell_Inr_iff)

lemma push_striped_frame:
  assumes ok: "decoder_ok d" and pos: "0 < fd_maximum_stripes d" and room: "decoder_roomy (length bs) d" and dec: "decode_cell bs = Inr c"
    and out: "fo_cells out = []" and run: "push_striped rs c bs now out d = Some (d', r)"
  shows "others (stripe_key_from_cell c) d d' \<and> grows (length bs) 1 1 d d' \<and>
    (\<forall>out'. r = Inr out' \<longrightarrow> (\<forall>x\<in>set (fo_cells out'). stripe_key_from_cell x = stripe_key_from_cell c))"
proof -
  let ?k = "stripe_key_from_cell c"
  obtain d1 r1 where r1: "ensure_stripe ?k now (cell_overlay_hop_limit c, cell_overlay_hops c) d = (d1, r1)" by fastforce
  have room0: "length (fd_stripes d) < fd_maximum_stripes d" using room by (simp add: decoder_roomy_def)
  note e = ensure_stripe_ok [OF ok pos r1] and fe = ensure_stripe_roomy [OF room0 r1]
  show ?thesis
  proof (cases "decode_stripe_id (cell_stripe_id c)")
    case (Inl x)
    then show ?thesis using run by (auto simp: push_striped_def Let_def)
  next
    case (Inr shape)
    show ?thesis
    proof (cases "(carries_records c \<and> \<not> within_stripe shape (cell_sequence c)) \<or> ?k \<in> fd_completed d \<or> r1 \<noteq> Inr ()")
      case True
      then have "(d' = d \<or> d' = d1) \<and> (\<forall>out'. r = Inr out' \<longrightarrow> fo_cells out' = [])"
        using run r1 Inr out by (cases r1) (auto simp: push_striped_def Let_def split: if_splits)
      moreover have "grows (length bs) 1 1 d d1" using fe(2) by (simp add: grows_def)
      ultimately show ?thesis using fe(1) by auto
    next
      case False
      then have rr: "r1 = Inr ()" and new: "?k \<notin> fd_completed d1" using fe(3) by simp_all
      then obtain s where s: "map_of (fd_stripes d1) ?k = Some s" using e by auto
      have ok1: "decoder_ok d1" using e by blast
      have room1: "fd_buffered_bytes d1 + length bs \<le> fd_maximum_buffered_bytes d1"
        "length (fd_completed_order d1) < fd_maximum_stripes d1"
        using room fe(2) e by (auto simp: decoder_roomy_def grows_def same_limits_def)
      let ?a = "case cell_body c of Records _ \<Rightarrow> admit_data ?k c bs out d1 | Parity payload \<Rightarrow> admit_parity ?k shape payload out d1"
      have run': "push_striped rs c bs now out d = (case ?a of None \<Rightarrow> None | Some (d2, Inl x) \<Rightarrow> Some (d2, Inl x)
          | Some (d2, Inr out) \<Rightarrow> Some (finish_push rs ?k now out d2))"
        using False rr Inr r1 by (auto simp: push_striped_def Let_def)
      obtain d2 r2 where a: "?a = Some (d2, r2)" using run run' by (cases ?a) auto
      have fa: "others ?k d1 d2" "grows (length bs) 0 0 d1 d2" "fd_completed d2 = fd_completed d1"
        "\<And>o'. r2 = Inr o' \<Longrightarrow> set (fo_cells o') \<subseteq> {c}" "decoder_ok d2" "same_limits d1 d2" "map_of (fd_stripes d2) ?k \<noteq> None"
      proof -
        have "others ?k d1 d2 \<and> grows (length bs) 0 0 d1 d2 \<and> fd_completed d2 = fd_completed d1 \<and>
          (\<forall>o'. r2 = Inr o' \<longrightarrow> set (fo_cells o') \<subseteq> {c}) \<and> decoder_ok d2 \<and> same_limits d1 d2 \<and> map_of (fd_stripes d2) ?k \<noteq> None"
        proof (cases "cell_body c")
          case (Records x)
          with a have ad: "admit_data ?k c bs out d1 = Some (d2, r2)" by simp
          show ?thesis using admit_data_frame [OF ok1 room1(1) s ad] admit_data_ok [OF ok1 s, of c bs out] ad out by auto
        next
          case (Parity p)
          with a have ad: "admit_parity ?k shape p out d1 = Some (d2, r2)" by simp
          have short: "length p \<le> length bs" by (rule decode_cell_body_short [OF dec Parity])
          then have "fd_buffered_bytes d1 + length p \<le> fd_maximum_buffered_bytes d1" using room1 by linarith
          from admit_parity_frame [OF ok1 this s ad] admit_parity_ok [OF ok1 s, of shape p out] ad out short show ?thesis
            by (auto simp: grows_def)
        qed
        then show "others ?k d1 d2" "grows (length bs) 0 0 d1 d2" "fd_completed d2 = fd_completed d1"
          "\<And>o'. r2 = Inr o' \<Longrightarrow> set (fo_cells o') \<subseteq> {c}" "decoder_ok d2" "same_limits d1 d2" "map_of (fd_stripes d2) ?k \<noteq> None" by blast+
      qed
      have g2: "others ?k d d2" "grows (length bs) 1 0 d d2" using others_trans [OF fe(1) fa(1)] grows_trans [OF fe(2) fa(2)] by simp_all
      show ?thesis
      proof (cases r2)
        case (Inl x)
        then have "d' = d2" "r = Inl x" using run run' a by simp_all
        then show ?thesis using g2 by (simp add: grows_def)
      next
        case (Inr o2)
        then have f: "finish_push rs ?k now o2 d2 = (d', r)" using run run' a by simp
        obtain s2 where s2: "map_of (fd_stripes d2) ?k = Some s2" using fa(7) by blast
        have "?k \<notin> fd_completed d2" "length (fd_completed_order d2) < fd_maximum_stripes d2"
          using new fa(3,6) room1(2) by (simp_all add: same_limits_def)
        note ff = finish_push_frame [OF fa(5) s2 this f]
        have "others ?k d d'" "grows (length bs) 1 1 d d'" using others_trans [OF g2(1) ff(1)] grows_trans [OF g2(2) ff(2)] by simp_all
        moreover have "stripe_key_from_cell x = ?k" if "r = Inr out'" "x \<in> set (fo_cells out')" for out' x
          using ff(3) [OF that(1)] that(2) fa(4) [OF Inr] by auto
        ultimately show ?thesis by blast
      qed
    qed
  qed
qed


lemma expire_keeps:
  assumes "stripes_ok d" "decoder_expire_loop now d n = (d', n')" "map_of (fd_stripes d) k = Some s" "now - ds_updated s < fd_ttl d"
  shows "map_of (fd_stripes d') k = Some s"
  using assms
proof (induction now d n rule: decoder_expire_loop.induct)
  case (1 now d n)
  show ?case
  proof (cases "fd_order d")
    case Nil
    with 1(4,5) show ?thesis by (simp add: decoder_expire_loop.simps [of now d n])
  next
    case (Cons e rest)
    obtain k0 g where e: "e = (k0, g)" by fastforce
    note ord = Cons [unfolded e]
    let ?d = "d\<lparr> fd_order := rest \<rparr>"
    let ?cur = "current_generation k0 g d \<and> (case map_of (fd_stripes d) k0 of None \<Rightarrow> False | Some s \<Rightarrow> fd_ttl d \<le> now - ds_updated s)"
    consider (stop) "current_generation k0 g d" "\<not> ?cur" | (gone) ?cur | (old) "\<not> current_generation k0 g d" by blast
    then show ?thesis
    proof cases
      case stop
      with 1(4,5) ord show ?thesis by (simp add: decoder_expire_loop.simps [of now d n])
    next
      case gone
      then have step: "decoder_expire_loop now (remove_stripe k0 ?d) (n + 1) = (d', n')"
        using 1(4) ord by (simp add: decoder_expire_loop.simps [of now d n])
      have ne: "k0 \<noteq> k" using gone 1(5,6) by (auto split: option.splits)
      have c: "\<not> (\<not> ?cur \<and> \<not> \<not> current_generation k0 g d)" using gone by blast
      show ?thesis
        by (rule 1(1) [OF Cons e [symmetric] refl refl c refl gone stripes_ok_remove [OF 1(3) ord] step])
          (use map_of_remove_stripe [OF ne, of ?d] 1(5,6) in simp_all)
    next
      case old
      then have step: "decoder_expire_loop now ?d n = (d', n')"
        using 1(4) ord by (simp add: decoder_expire_loop.simps [of now d n])
      have c: "\<not> (\<not> ?cur \<and> \<not> \<not> current_generation k0 g d)" "\<not> ?cur" using old by blast+
      show ?thesis
        by (rule 1(2) [OF Cons e [symmetric] refl refl c(1) refl c(2) stripes_ok_obsolete [OF 1(3) ord old] step])
          (use 1(5,6) in simp_all)
    qed
  qed
qed

lemma evicts_length: "stripes_ok d \<Longrightarrow> stripes_ok d' \<Longrightarrow> evicts d d' \<Longrightarrow> length (fd_stripes d') \<le> length (fd_stripes d)"
proof -
  assume a: "stripes_ok d" "stripes_ok d'" "evicts d d'"
  then have "distinct (fd_stripes d)" "distinct (fd_stripes d')" by (auto simp: stripes_ok_def distinct_map)
  then have "card (set (fd_stripes d')) = length (fd_stripes d')" "card (set (fd_stripes d)) = length (fd_stripes d)" by (simp_all add: distinct_card)
  with card_mono [of "set (fd_stripes d)" "set (fd_stripes d')"] a(3) show ?thesis by (simp add: evicts_def)
qed

lemma expired_decoder:
  assumes inv: "decoder_inv d" and e: "decoder_expire now d = (d1, n)"
  shows "decoder_inv d1" "same_limits d d1" "grows 0 0 0 d d1"
    "\<forall>s. map_of (fd_stripes d) k = Some s \<longrightarrow> now - ds_updated s < fd_ttl d \<Longrightarrow> map_of (fd_stripes d1) k = map_of (fd_stripes d) k"
proof -
  have sok: "stripes_ok d" using inv by (simp add: decoder_inv_def decoder_ok_def)
  note e1 = decoder_expire_ok [OF sok e]
  show "decoder_inv d1" using decoder_expire_inv [OF inv, of now] e by simp
  show lim: "same_limits d d1" by (rule evicts_limits [OF e1(2)])
  show "grows 0 0 0 d d1" using evicts_length [OF sok e1] e1(2) by (simp add: grows_def evicts_def same_limits_def)
  assume fresh: "\<forall>s. map_of (fd_stripes d) k = Some s \<longrightarrow> now - ds_updated s < fd_ttl d"
  show "map_of (fd_stripes d1) k = map_of (fd_stripes d) k"
  proof (cases "map_of (fd_stripes d) k")
    case None
    then show ?thesis using evicts_map_of [OF sok e1(2), of k] by (cases "map_of (fd_stripes d1) k") simp_all
  next
    case (Some s)
    then show ?thesis using expire_keeps [OF sok e [unfolded decoder_expire_def] Some] fresh by simp
  qed
qed

lemma roomy_expired: "decoder_roomy b d \<Longrightarrow> same_limits d d1 \<Longrightarrow> grows 0 0 0 d d1 \<Longrightarrow> decoder_roomy b d1"
  by (auto simp: decoder_roomy_def same_limits_def grows_def)

lemma push_frame:
  assumes inv: "decoder_inv d" and room: "decoder_roomy (length bs) d" and run: "push_at rs bs now d = Some (d', r)"
  shows "grows (length bs) 1 1 d d'"
    "(\<And>c. decode_cell bs = Inr c \<Longrightarrow> stripe_key_from_cell c \<noteq> k) \<Longrightarrow>
      ((\<forall>s. map_of (fd_stripes d) k = Some s \<longrightarrow> now - ds_updated s < fd_ttl d) \<longrightarrow> map_of (fd_stripes d') k = map_of (fd_stripes d) k) \<and> (k \<in> fd_completed d' \<longleftrightarrow> k \<in> fd_completed d) \<and>
      (\<forall>out c. r = Inr out \<longrightarrow> c \<in> set (fo_cells out) \<longrightarrow> stripe_key_from_cell c \<noteq> k)"
proof -
  obtain d1 n where e: "decoder_expire now d = (d1, n)" by fastforce
  note x = expired_decoder [OF inv e]
  have "grows (length bs) 1 1 d d' \<and> ((\<forall>c. decode_cell bs = Inr c \<longrightarrow> stripe_key_from_cell c \<noteq> k) \<longrightarrow>
      ((\<forall>s. map_of (fd_stripes d) k = Some s \<longrightarrow> now - ds_updated s < fd_ttl d) \<longrightarrow> map_of (fd_stripes d') k = map_of (fd_stripes d) k) \<and> (k \<in> fd_completed d' \<longleftrightarrow> k \<in> fd_completed d) \<and>
      (\<forall>out c. r = Inr out \<longrightarrow> c \<in> set (fo_cells out) \<longrightarrow> stripe_key_from_cell c \<noteq> k))"
  proof (cases "\<exists>c. decode_cell bs = Inr c \<and> cell_session_epoch c = fd_session_epoch d")
    case False
    then have "d' = d \<and> (\<exists>e. r = Inl e)" using run by (cases "decode_cell bs") (auto simp: push_at_def)
    then show ?thesis by auto
  next
    case True
    then obtain c where c: "decode_cell bs = Inr c" "cell_session_epoch c = fd_session_epoch d" by blast
    show ?thesis
    proof (cases "cell_stripe_id c = 0")
      case True
      then have "d' = d1" "\<forall>out. r = Inr out \<longrightarrow> fo_cells out = [c]" using run c e by (auto simp: push_at_def ensure_def split: if_splits)
      then show ?thesis using x c by (auto simp: grows_def same_limits_def)
    next
      case False
      then have p: "push_striped rs c bs now (empty_output n) d1 = Some (d', r)" using run c e by (simp add: push_at_def)
      have d1: "decoder_ok d1" "0 < fd_maximum_stripes d1" using x(1) by (simp_all add: decoder_inv_def)
      have "fo_cells (empty_output n) = []" by (simp add: empty_output_def)
      note f = push_striped_frame [OF d1 roomy_expired [OF room x(2,3)] c(1) this p]
      have "grows (length bs) 1 1 d d'" using grows_trans [OF x(3)] f by force
      then show ?thesis using f x(2,4) c(1) by (auto simp: others_def same_limits_def)
    qed
  qed
  then show "grows (length bs) 1 1 d d'"
    "(\<And>c. decode_cell bs = Inr c \<Longrightarrow> stripe_key_from_cell c \<noteq> k) \<Longrightarrow>
      ((\<forall>s. map_of (fd_stripes d) k = Some s \<longrightarrow> now - ds_updated s < fd_ttl d) \<longrightarrow> map_of (fd_stripes d') k = map_of (fd_stripes d) k) \<and> (k \<in> fd_completed d' \<longleftrightarrow> k \<in> fd_completed d) \<and>
      (\<forall>out c. r = Inr out \<longrightarrow> c \<in> set (fo_cells out) \<longrightarrow> stripe_key_from_cell c \<noteq> k)" by blast+
qed


section \<open>A push of the stripe itself\<close>

definition full :: "sent_stripe \<Rightarrow> nat set \<Rightarrow> nat set \<Rightarrow> bool" where
  "full t D R \<longleftrightarrow> R \<noteq> {} \<and> length (tx_cells t) \<le> card D + card R"

definition missing_cells :: "sent_stripe \<Rightarrow> nat set \<Rightarrow> cell_v2 list" where
  "missing_cells t D = map ((!) (tx_cells t)) (filter (\<lambda>i. i \<notin> D) [0..<length (tx_cells t)])"

lemma card_all_iff: "D \<subseteq> {..<n} \<Longrightarrow> card D = n \<longleftrightarrow> D = {..<n}"
  using card_subset_eq [of "{..<n}" D] by auto

lemma stripe_has_updated: "stripe_has t D R s \<Longrightarrow> stripe_has t D R (s\<lparr> ds_updated := now \<rparr>)"
  by (simp add: stripe_has_def)

lemma finish_sent:
  assumes sok: "sent_ok rs t" and ok: "decoder_ok d" and s: "map_of (fd_stripes d) (tx_key t) = Some s" and has: "stripe_has t D R s"
    and new: "tx_key t \<notin> fd_completed d" and room: "length (fd_completed_order d) < fd_maximum_stripes d"
  obtains d' out' where "finish_push rs (tx_key t) now out d = (d', Inr out')"
    "fo_cells out' = fo_cells out @ (if full t D R then missing_cells t D else [])"
    "if full t D R then tx_key t \<in> fd_completed d'
     else tx_key t \<notin> fd_completed d' \<and> (\<exists>s'. map_of (fd_stripes d') (tx_key t) = Some s' \<and> stripe_has t D R s' \<and> ds_updated s' = now)"
proof -
  let ?n = "length (tx_cells t)" let ?k = "tx_key t"
  have D: "D \<subseteq> {..<?n}" using has by (simp add: stripe_has_def)
  have cD: "card D \<le> ?n" using card_mono [OF _ D] by simp
  have del: "\<forall>i<?n. tx_seq t i \<in> ds_delivered s \<longleftrightarrow> i \<in> D" using has by (simp add: stripe_has_def)
  show ?thesis
  proof (cases "full t D R")
    case False
    then have few: "R = {} \<or> card D + card R < ?n" by (auto simp: full_def)
    then have tr: "try_recover rs ?k d = (d, Inr None)" by (intro try_recover_quiet [OF sok ok s has]) auto
    have "\<not> stripe_complete ?k d"
    proof (cases "ds_geometry s")
      case None
      then show ?thesis using s by (simp add: stripe_complete_def)
    next
      case (Some g)
      then obtain j where g: "ds_geometry s = Some (tx_payload t j)" "R \<noteq> {}" using has by (auto simp: stripe_has_def)
      then have "card D \<noteq> ?n" using few by auto
      then have "D \<noteq> {..<?n}" by auto
      then obtain i where "i < ?n" "i \<notin> D" using D by blast
      then show ?thesis using stripe_complete_sent [OF sok s g(1)] del by blast
    qed
    then have "finish_push rs ?k now out d = ((set_stripe ?k (s\<lparr> ds_updated := now \<rparr>) d)\<lparr> fd_order := fd_order d @ [(?k, now)] \<rparr>, Inr out)"
      using tr s by (simp add: finish_push_def Let_def)
    then show ?thesis using that False new stripe_has_updated [OF has, of now] by (simp add: update_conv')
  next
    case True
    then have R: "R \<noteq> {}" and en: "?n \<le> card D + card R" by (auto simp: full_def)
    obtain j where g: "ds_geometry s = Some (tx_payload t j)" using has R by (auto simp: stripe_has_def split: option.splits)
    obtain d1 r1 where tr: "try_recover rs ?k d = (d1, Inr r1)" "(case r1 of None \<Rightarrow> [] | Some cs \<Rightarrow> map (snd \<circ> snd) cs) = missing_cells t D"
      and c1: "stripe_complete ?k d1"
    proof (cases "card D = ?n")
      case all: True
      then have all': "D = {..<?n}" using card_all_iff [OF D] by simp
      have "try_recover rs ?k d = (d, Inr None)" using all by (intro try_recover_quiet [OF sok ok s has]) simp
      moreover have "missing_cells t D = []" by (simp add: missing_cells_def all' filter_empty_conv)
      moreover have "stripe_complete ?k d" using stripe_complete_sent [OF sok s g] del all' by blast
      ultimately show ?thesis using that by simp
    next
      case False
      then have lt: "card D < ?n" using cD by simp
      let ?s = "s\<lparr> ds_delivered := tx_seq t ` ({..<?n} - D) \<union> ds_delivered s \<rparr>"
      have "stripe_complete ?k (set_stripe ?k ?s d)"
        using stripe_complete_sent [OF sok, of "set_stripe ?k ?s d" ?s j] g del by (auto simp: update_conv')
      with try_recover_sent [OF sok ok s has R lt en] show ?thesis using that by (simp add: missing_cells_def comp_def)
    qed
    note ok1 = try_recover_ok [OF ok s tr(1)]
    have new1: "?k \<notin> fd_completed d1" and room1: "length (fd_completed_order d1) < fd_maximum_stripes d1"
      using ok1(2) new room by (simp_all add: same_limits_def)
    have "\<exists>out'. finish_push rs ?k now out d = (complete_stripe ?k d1, Inr out') \<and> fo_cells out' = fo_cells out @ missing_cells t D"
      using tr c1 by (auto simp: finish_push_def Let_def split: option.splits)
    then show ?thesis using that True complete_roomy(3) [OF ok1(1) new1 room1] by auto
  qed
qed

definition open_for :: "sent_stripe \<Rightarrow> nat set \<Rightarrow> nat set \<Rightarrow> instant \<Rightarrow> fec_decoder \<Rightarrow> bool" where
  "open_for t D R t0 d \<longleftrightarrow> tx_key t \<notin> fd_completed d \<and> \<not> full t D R \<and>
     (case map_of (fd_stripes d) (tx_key t) of None \<Rightarrow> D = {} \<and> R = {} | Some s \<Rightarrow> stripe_has t D R s \<and> t0 \<le> ds_updated s)"

lemma ensure_sent:
  assumes sok: "sent_ok rs t" and inv: "decoder_inv d" and room: "length (fd_stripes d) < fd_maximum_stripes d" and op: "open_for t D R t0 d"
  obtains d1 s where "ensure_stripe (tx_key t) now (tx_shim t) d = (d1, Inr ())" "map_of (fd_stripes d1) (tx_key t) = Some s"
    "stripe_has t D R s" "decoder_ok d1" "same_limits d d1" "fd_buffered_bytes d1 = fd_buffered_bytes d"
proof -
  obtain d1 r where e: "ensure_stripe (tx_key t) now (tx_shim t) d = (d1, r)" by fastforce
  have ok: "decoder_ok d" "0 < fd_maximum_stripes d" using inv by (simp_all add: decoder_inv_def)
  note e1 = ensure_stripe_ok [OF ok e]
  show ?thesis
  proof (cases "map_of (fd_stripes d) (tx_key t)")
    case (Some s)
    then have "ensure_stripe (tx_key t) now (tx_shim t) d = (d, Inr ())" using op by (auto simp: ensure_stripe_def open_for_def stripe_has_def)
    then show ?thesis using that Some op ok by (simp add: open_for_def)
  next
    case None
    have ev: "evict_for_stripe d = d" using room by (subst evict_for_stripe.simps) simp
    have id: "decode_stripe_id (sk_stripe_id (tx_key t)) = Inr (tx_first t, length (tx_cells t))" using sok by (simp add: sent_ok_def)
    let ?s = "\<lparr> ds_created = now, ds_updated = now, ds_geometry = None, ds_repair_shape = (tx_first t, length (tx_cells t)),
      ds_routing_shim = tx_shim t, ds_originals = [], ds_recoveries = [], ds_delivered = {}, ds_repair_requested = False \<rparr>"
    have "ensure_stripe (tx_key t) now (tx_shim t) d =
        (d\<lparr> fd_stripes := AList.update (tx_key t) ?s (fd_stripes d), fd_order := fd_order d @ [(tx_key t, now)] \<rparr>, Inr ())"
      using None room by (simp add: ensure_stripe_def ev id Let_def)
    moreover have "stripe_has t D R ?s" using op None by (simp add: open_for_def stripe_has_def)
    ultimately show ?thesis using that e e1 by (auto simp: update_conv')
  qed
qed


lemma has_data:
  assumes sok: "sent_ok rs t" and has: "stripe_has t D R s" and i: "i < length (tx_cells t)"
  shows "stripe_has t (insert i D) R (s\<lparr> ds_originals := AList.update (tx_seq t i) (tx_wires t ! i) (ds_originals s),
    ds_delivered := insert (tx_seq t i) (ds_delivered s) \<rparr>)"
proof -
  have inj: "tx_seq t m = tx_seq t i \<longleftrightarrow> m = i" if "m < length (tx_cells t)" for m by (rule tx_seq_inject [OF sok that i])
  show ?thesis using has i inj by (auto simp: stripe_has_def update_conv' split: option.splits)
qed

lemma has_parity:
  assumes has: "stripe_has t D R s" and j: "j < length (tx_recs t)"
  shows "stripe_has t D (insert j R) ((noted (tx_payload t j) s)\<lparr> ds_recoveries := AList.update j (tx_recs t ! j) (ds_recoveries s) \<rparr>)"
    and "j \<in> R \<Longrightarrow> stripe_has t D R (noted (tx_payload t j) s)"
  using has j by (auto simp: stripe_has_def update_conv' fun_eq_iff split: option.splits)

text \<open>The datagrams of a stripe: \<open>Left i\<close> is its data Cell \<open>i\<close>, \<open>Right j\<close> its parity Cell \<open>j\<close>.\<close>

fun tx_wire :: "sent_stripe \<Rightarrow> nat + nat \<Rightarrow> bytes" where
  "tx_wire t (Inl i) = tx_wires t ! i"
| "tx_wire t (Inr j) = tx_parity t ! j"

fun tx_index :: "sent_stripe \<Rightarrow> nat + nat \<Rightarrow> bool" where
  "tx_index t (Inl i) = (i < length (tx_cells t))"
| "tx_index t (Inr j) = (j < length (tx_recs t))"

definition with_data :: "nat + nat \<Rightarrow> nat set \<Rightarrow> nat set" where
  "with_data w D = (case w of Inl i \<Rightarrow> insert i D | Inr _ \<Rightarrow> D)"

definition with_parity :: "nat + nat \<Rightarrow> nat set \<Rightarrow> nat set" where
  "with_parity w R = (case w of Inl _ \<Rightarrow> R | Inr j \<Rightarrow> insert j R)"

definition fresh_cells :: "sent_stripe \<Rightarrow> nat + nat \<Rightarrow> nat set \<Rightarrow> cell_v2 list" where
  "fresh_cells t w D = (case w of Inl i \<Rightarrow> if i \<in> D then [] else [tx_cells t ! i] | Inr _ \<Rightarrow> [])"

lemma tx_wire_cell:
  assumes sok: "sent_ok rs t" and w: "tx_index t w"
  obtains c where "decode_cell (tx_wire t w) = Inr c" "stripe_key_from_cell c = tx_key t" "cell_stripe_id c \<noteq> 0"
    "(cell_overlay_hop_limit c, cell_overlay_hops c) = tx_shim t" "carries_records c \<longrightarrow> within_stripe (tx_first t, length (tx_cells t)) (cell_sequence c)"
    "cell_session_epoch c = sk_session_epoch (tx_key t)"
    "decode_stripe_id (cell_stripe_id c) = Inr (tx_first t, length (tx_cells t))"
    "case w of Inl i \<Rightarrow> c = tx_cells t ! i \<and> carries_records c \<and> (\<exists>x. cell_body c = Records x)
      | Inr j \<Rightarrow> \<exists>p. cell_body c = Parity p \<and> decode_parity_payload p = Inr (tx_payload t j)"
proof -
  have "\<exists>c. decode_cell (tx_wire t w) = Inr c \<and> stripe_key_from_cell c = tx_key t \<and>
    (cell_overlay_hop_limit c, cell_overlay_hops c) = tx_shim t \<and> (carries_records c \<longrightarrow> within_stripe (tx_first t, length (tx_cells t)) (cell_sequence c)) \<and>
    (case w of Inl i \<Rightarrow> c = tx_cells t ! i \<and> carries_records c \<and> (\<exists>x. cell_body c = Records x)
      | Inr j \<Rightarrow> \<exists>p. cell_body c = Parity p \<and> decode_parity_payload p = Inr (tx_payload t j))"
  proof (cases w)
    case (Inl i)
    with w have i: "i < length (tx_cells t)" by simp
    then have d: "data_sent t i" and fit: "unat (tx_first t) + length (tx_cells t) \<le> u16_max" using sok by (simp_all add: sent_ok_def)
    have "\<exists>x. cell_body (tx_cells t ! i) = Records x"
      using d by (cases "cell_body (tx_cells t ! i)") (simp_all add: data_sent_def carries_records_def)
    then show ?thesis using Inl i d fit by (simp add: data_sent_def within_stripe_def)
  next
    case (Inr j)
    with w sok have "parity_sent t j" by (simp add: sent_ok_def)
    then show ?thesis using Inr by (auto simp: parity_sent_def carries_records_def)
  qed
  then obtain c where c: "decode_cell (tx_wire t w) = Inr c" "stripe_key_from_cell c = tx_key t"
    "(cell_overlay_hop_limit c, cell_overlay_hops c) = tx_shim t" "carries_records c \<longrightarrow> within_stripe (tx_first t, length (tx_cells t)) (cell_sequence c)"
    "case w of Inl i \<Rightarrow> c = tx_cells t ! i \<and> carries_records c \<and> (\<exists>x. cell_body c = Records x)
      | Inr j \<Rightarrow> \<exists>p. cell_body c = Parity p \<and> decode_parity_payload p = Inr (tx_payload t j)" by blast
  have "cell_stripe_id c = sk_stripe_id (tx_key t)" "cell_session_epoch c = sk_session_epoch (tx_key t)"
    unfolding c(2) [symmetric] by (simp_all add: stripe_key_from_cell_def)
  then show ?thesis using that [OF c(1,2) _ c(3,4) _ _ c(5)] sok by (simp add: sent_ok_def)
qed

lemma admit_sent:
  assumes sok: "sent_ok rs t" and w: "tx_index t w" and ok: "decoder_ok d" and s: "map_of (fd_stripes d) (tx_key t) = Some s"
    and has: "stripe_has t D R s" and room: "fd_buffered_bytes d + length (tx_wire t w) \<le> fd_maximum_buffered_bytes d"
    and c: "decode_cell (tx_wire t w) = Inr c" "case w of Inl i \<Rightarrow> c = tx_cells t ! i \<and> carries_records c \<and> (\<exists>x. cell_body c = Records x)
      | Inr j \<Rightarrow> \<exists>p. cell_body c = Parity p \<and> decode_parity_payload p = Inr (tx_payload t j)"
  obtains d2 s2 out2 where "(case cell_body c of Records _ \<Rightarrow> admit_data (tx_key t) c (tx_wire t w) out d
      | Parity p \<Rightarrow> admit_parity (tx_key t) (tx_first t, length (tx_cells t)) p out d) = Some (d2, Inr out2)"
    "map_of (fd_stripes d2) (tx_key t) = Some s2" "stripe_has t (with_data w D) (with_parity w R) s2"
    "fo_cells out2 = fo_cells out @ fresh_cells t w D"
proof (cases w)
  case (Inl i)
  then have i: "i < length (tx_cells t)" and cc: "c = tx_cells t ! i" and body: "\<exists>x. cell_body c = Records x" using w c by auto
  have seq: "cell_sequence c = tx_seq t i" unfolding cc by (rule tx_cell_seq [OF sok i])
  have orig: "map_of (ds_originals s) (tx_seq t i) = (if i \<in> D then Some (tx_wires t ! i) else None)" using has i by (simp add: stripe_has_def)
  have room': "fd_buffered_bytes d + length (tx_wires t ! i) \<le> fd_maximum_buffered_bytes d" using room Inl by simp
  show ?thesis
  proof (cases "i \<in> D")
    case True
    then have "admit_data (tx_key t) c (tx_wires t ! i) out d = Some (d, Inr out)"
      using admit_data_roomy [OF ok room' s] orig seq by simp
    moreover have "insert i D = D" using True by blast
    ultimately show ?thesis using that [of d out s] body s has True Inl by (auto simp: with_data_def with_parity_def fresh_cells_def)
  next
    case False
    let ?s = "s\<lparr> ds_originals := AList.update (tx_seq t i) (tx_wires t ! i) (ds_originals s), ds_delivered := insert (tx_seq t i) (ds_delivered s) \<rparr>"
    let ?d = "(set_stripe (tx_key t) ?s d)\<lparr> fd_buffered_bytes := fd_buffered_bytes d + length (tx_wires t ! i) \<rparr>"
    have "admit_data (tx_key t) c (tx_wires t ! i) out d = Some (?d, Inr (out\<lparr> fo_cells := fo_cells out @ [c] \<rparr>))"
      using False admit_data_roomy [OF ok room' s] orig seq by simp
    then show ?thesis using that [of ?d _ ?s] body has_data [OF sok has i] False Inl cc
      by (auto simp: with_data_def with_parity_def fresh_cells_def update_conv')
  qed
next
  case (Inr j)
  then have j: "j < length (tx_recs t)" using w by simp
  obtain p where p: "cell_body c = Parity p" "decode_parity_payload p = Inr (tx_payload t j)" using c(2) Inr by auto
  have geo: "case ds_geometry s of None \<Rightarrow> True | Some x \<Rightarrow> same_geometry x (tx_payload t j)"
    using has by (auto simp: stripe_has_def split: option.splits)
  have short: "length (pp_recovery (tx_payload t j)) \<le> length (tx_wire t w)"
    using parity_payload_short [OF p(2)] decode_cell_body_short [OF c(1) p(1)] by linarith
  then have room': "fd_buffered_bytes d + length (pp_recovery (tx_payload t j)) \<le> fd_maximum_buffered_bytes d" using room by linarith
  have shape: "(tx_first t, length (tx_cells t)) = (pp_first_sequence (tx_payload t j), pp_data_cells (tx_payload t j))" by simp
  note run = admit_parity_roomy [OF ok p(2) shape room' s geo, of out]
  have rec: "map_of (ds_recoveries s) j = (if j \<in> R then Some (tx_recs t ! j) else None)" using has by (simp add: stripe_has_def)
  show ?thesis
  proof (cases "j \<in> R")
    case True
    then have "insert j R = R" by blast
    then show ?thesis using that [of "set_stripe (tx_key t) (noted (tx_payload t j) s) d" _ "noted (tx_payload t j) s"] run rec True p(1) Inr
        has_parity(2) [OF has j True] by (auto simp: with_data_def with_parity_def fresh_cells_def update_conv')
  next
    case False
    let ?s = "(noted (tx_payload t j) s)\<lparr> ds_recoveries := AList.update j (tx_recs t ! j) (ds_recoveries s) \<rparr>"
    show ?thesis using that [of "(set_stripe (tx_key t) ?s d)\<lparr> fd_buffered_bytes := fd_buffered_bytes d + length (tx_recs t ! j) \<rparr>" _ ?s]
        run rec False p(1) Inr has_parity(1) [OF has j] by (auto simp: with_data_def with_parity_def fresh_cells_def update_conv')
  qed
qed


lemma push_own:
  assumes sok: "sent_ok rs t" and w: "tx_index t w" and inv: "decoder_inv d" and room: "decoder_roomy (length (tx_wire t w)) d"
    and op: "open_for t D R t0 d" and now: "t0 \<le> now" "now < t0 + fd_ttl d" and epoch: "sk_session_epoch (tx_key t) = fd_session_epoch d"
  defines "D' \<equiv> with_data w D" and "R' \<equiv> with_parity w R"
  obtains d' out' where "push_at rs (tx_wire t w) now d = Some (d', Inr out')"
    "fo_cells out' = fresh_cells t w D @ (if full t D' R' then missing_cells t D' else [])"
    "if full t D' R' then tx_key t \<in> fd_completed d' else open_for t D' R' t0 d'"
proof -
  let ?k = "tx_key t"
  obtain c where c: "decode_cell (tx_wire t w) = Inr c" "stripe_key_from_cell c = ?k" "cell_stripe_id c \<noteq> 0"
    "(cell_overlay_hop_limit c, cell_overlay_hops c) = tx_shim t" "carries_records c \<longrightarrow> within_stripe (tx_first t, length (tx_cells t)) (cell_sequence c)"
    "cell_session_epoch c = sk_session_epoch ?k" "decode_stripe_id (cell_stripe_id c) = Inr (tx_first t, length (tx_cells t))"
    "case w of Inl i \<Rightarrow> c = tx_cells t ! i \<and> carries_records c \<and> (\<exists>x. cell_body c = Records x)
      | Inr j \<Rightarrow> \<exists>p. cell_body c = Parity p \<and> decode_parity_payload p = Inr (tx_payload t j)"
    by (rule tx_wire_cell [OF sok w])
  obtain d0 n where e: "decoder_expire now d = (d0, n)" by fastforce
  have fresh: "\<forall>s. map_of (fd_stripes d) ?k = Some s \<longrightarrow> now - ds_updated s < fd_ttl d" using op now by (auto simp: open_for_def)
  note x = expired_decoder [OF inv e] and same = expired_decoder(4) [OF inv e fresh]
  have op0: "open_for t D R t0 d0" using op x(2) same by (simp add: open_for_def same_limits_def)
  have room0: "decoder_roomy (length (tx_wire t w)) d0" by (rule roomy_expired [OF room x(2,3)])
  then have "length (fd_stripes d0) < fd_maximum_stripes d0" by (simp add: decoder_roomy_def)
  then obtain d1 s where e1: "ensure_stripe ?k now (tx_shim t) d0 = (d1, Inr ())" "map_of (fd_stripes d1) ?k = Some s"
    "stripe_has t D R s" "decoder_ok d1" "same_limits d0 d1" "fd_buffered_bytes d1 = fd_buffered_bytes d0"
    by (rule ensure_sent [OF sok x(1) _ op0])
  have room1: "fd_buffered_bytes d1 + length (tx_wire t w) \<le> fd_maximum_buffered_bytes d1" "length (fd_completed_order d1) < fd_maximum_stripes d1"
    using room0 e1(5,6) by (simp_all add: decoder_roomy_def same_limits_def)
  obtain d2 s2 out2 where a: "(case cell_body c of Records _ \<Rightarrow> admit_data ?k c (tx_wire t w) (empty_output n) d1
      | Parity p \<Rightarrow> admit_parity ?k (tx_first t, length (tx_cells t)) p (empty_output n) d1) = Some (d2, Inr out2)"
    "map_of (fd_stripes d2) ?k = Some s2" "stripe_has t D' R' s2" "fo_cells out2 = fo_cells (empty_output n) @ fresh_cells t w D"
    unfolding D'_def R'_def by (rule admit_sent [OF sok w e1(4,2,3) room1(1) c(1,8)])
  have a2: "decoder_ok d2 \<and> same_limits d1 d2"
  proof (cases "cell_body c")
    case (Records y)
    with a(1) show ?thesis using admit_data_ok [OF e1(4,2), of c "tx_wire t w" "empty_output n"] by auto
  next
    case (Parity p)
    with a(1) show ?thesis using admit_parity_ok [OF e1(4,2), of "(tx_first t, length (tx_cells t))" p "empty_output n"] by auto
  qed
  have new2: "?k \<notin> fd_completed d2" "length (fd_completed_order d2) < fd_maximum_stripes d2"
    using op0 e1(5) a2 room1 by (simp_all add: open_for_def same_limits_def)
  have ok2: "decoder_ok d2" using a2 by blast
  obtain d' out' where f: "finish_push rs ?k now out2 d2 = (d', Inr out')"
    "fo_cells out' = fo_cells out2 @ (if full t D' R' then missing_cells t D' else [])"
    "if full t D' R' then ?k \<in> fd_completed d'
     else ?k \<notin> fd_completed d' \<and> (\<exists>s'. map_of (fd_stripes d') ?k = Some s' \<and> stripe_has t D' R' s' \<and> ds_updated s' = now)"
    by (rule finish_sent [OF sok ok2 a(2,3) new2])
  have "push_striped rs c (tx_wire t w) now (empty_output n) d0 = Some (d', Inr out')"
    using c(2,4,5,7) op0 e1(1) a(1) f(1) by (auto simp: push_striped_def Let_def open_for_def)
  then have "push_at rs (tx_wire t w) now d = Some (d', Inr out')" using c(1,3,6) epoch e by (simp add: push_at_def)
  moreover have "fo_cells (empty_output n) = []" by (simp add: empty_output_def)
  moreover have "open_for t D' R' t0 d'" if "\<not> full t D' R'" using f(3) that now(1) by (auto simp: open_for_def)
  ultimately show ?thesis using that f a(4) by simp
qed

lemma push_closed:
  assumes sok: "sent_ok rs t" and w: "tx_index t w" and inv: "decoder_inv d" and closed: "tx_key t \<in> fd_completed d"
    and epoch: "sk_session_epoch (tx_key t) = fd_session_epoch d"
  obtains d' out' where "push_at rs (tx_wire t w) now d = Some (d', Inr out')" "fo_cells out' = []" "tx_key t \<in> fd_completed d'"
proof -
  obtain c where c: "decode_cell (tx_wire t w) = Inr c" "stripe_key_from_cell c = tx_key t" "cell_stripe_id c \<noteq> 0"
    "(cell_overlay_hop_limit c, cell_overlay_hops c) = tx_shim t" "carries_records c \<longrightarrow> within_stripe (tx_first t, length (tx_cells t)) (cell_sequence c)"
    "cell_session_epoch c = sk_session_epoch (tx_key t)" "decode_stripe_id (cell_stripe_id c) = Inr (tx_first t, length (tx_cells t))"
    "case w of Inl i \<Rightarrow> c = tx_cells t ! i \<and> carries_records c \<and> (\<exists>x. cell_body c = Records x)
      | Inr j \<Rightarrow> \<exists>p. cell_body c = Parity p \<and> decode_parity_payload p = Inr (tx_payload t j)"
    by (rule tx_wire_cell [OF sok w])
  obtain d0 n where e: "decoder_expire now d = (d0, n)" by fastforce
  have "stripes_ok d" using inv by (simp add: decoder_inv_def decoder_ok_def)
  then have "fd_completed d0 = fd_completed d" using decoder_expire_ok [OF _ e] by (simp add: evicts_def same_limits_def)
  then have "\<exists>out'. push_striped rs c (tx_wire t w) now (empty_output n) d0 = Some (d0, Inr out') \<and> fo_cells out' = []"
    using c(2,5,7) closed by (auto simp: push_striped_def Let_def empty_output_def)
  then show ?thesis using that [of d0] c(1,3,6) epoch e \<open>fd_completed d0 = fd_completed d\<close> closed by (auto simp: push_at_def)
qed


section \<open>Runs of the receiver\<close>

fun stripe_delivered :: "fec_answer \<Rightarrow> cell_v2 list" where
  "stripe_delivered (Pushed (Some (Inr out))) = fo_cells out"
| "stripe_delivered _ = []"

definition pushes :: "(bytes \<times> instant) list \<Rightarrow> fec_op list" where
  "pushes arrivals = map (\<lambda>(bs, now). FecPush bs now) arrivals"

definition delivered_of :: "stripe_key \<Rightarrow> fec_answer list \<Rightarrow> cell_v2 list" where
  "delivered_of k outs = filter (\<lambda>c. stripe_key_from_cell c = k) (concat (map stripe_delivered outs))"

definition budgeted :: "(bytes \<times> instant) list \<Rightarrow> fec_decoder \<Rightarrow> bool" where
  "budgeted arrivals d \<longleftrightarrow> fd_buffered_bytes d + sum_list (map (length \<circ> fst) arrivals) \<le> fd_maximum_buffered_bytes d \<and>
     length (fd_stripes d) + length arrivals \<le> fd_maximum_stripes d \<and>
     length (fd_completed_order d) + length arrivals \<le> fd_maximum_stripes d"

lemma budgeted_step:
  assumes "budgeted ((bs, now) # arrivals) d"
  shows "decoder_roomy (length bs) d"
    "grows (length bs) 1 1 d d' \<Longrightarrow> same_config d d' \<Longrightarrow> budgeted arrivals d'"
  using assms by (auto simp: budgeted_def decoder_roomy_def grows_def same_config_def)

definition seen :: "sent_stripe \<Rightarrow> nat set \<Rightarrow> nat set \<Rightarrow> bytes set" where
  "seen t D R = (!) (tx_wires t) ` D \<union> (!) (tx_parity t) ` R"

definition stripe_received :: "sent_stripe \<Rightarrow> instant \<Rightarrow> nat set \<Rightarrow> nat set \<Rightarrow> fec_decoder \<Rightarrow> cell_v2 list \<Rightarrow> bool" where
  "stripe_received t t0 D R d got \<longleftrightarrow> D \<subseteq> {..<length (tx_cells t)} \<and> R \<subseteq> {..<length (tx_recs t)} \<and> distinct got \<and>
     (if tx_key t \<in> fd_completed d then set got = set (tx_cells t)
      else open_for t D R t0 d \<and> set got = (!) (tx_cells t) ` D)"

lemma tx_cells_inject:
  assumes "sent_ok rs t" "i < length (tx_cells t)" "j < length (tx_cells t)" "tx_cells t ! i = tx_cells t ! j"
  shows "i = j"
  using assms tx_cell_seq [OF assms(1,2)] tx_cell_seq [OF assms(1,3)] tx_seq_inject [OF assms(1-3)] by simp

lemma tx_keys: "sent_ok rs t \<Longrightarrow> c \<in> set (tx_cells t) \<Longrightarrow> stripe_key_from_cell c = tx_key t"
  by (auto simp: in_set_conv_nth sent_ok_def data_sent_def)

lemma filter_tx_keys: "sent_ok rs t \<Longrightarrow> set xs \<subseteq> set (tx_cells t) \<Longrightarrow> filter (\<lambda>c. stripe_key_from_cell c = tx_key t) xs = xs"
  using tx_keys by (auto simp: filter_id_conv)

lemma missing_distinct:
  assumes sok: "sent_ok rs t"
  shows "distinct (missing_cells t D)" "set (missing_cells t D) = (!) (tx_cells t) ` ({..<length (tx_cells t)} - D)"
proof -
  have "inj_on ((!) (tx_cells t)) {..<length (tx_cells t)}" using tx_cells_inject [OF sok] by (auto intro: inj_onI)
  then show "distinct (missing_cells t D)" by (auto simp: missing_cells_def distinct_map elim: inj_on_subset)
  show "set (missing_cells t D) = (!) (tx_cells t) ` ({..<length (tx_cells t)} - D)" by (auto simp: missing_cells_def)
qed

lemma tx_cells_image: "(!) xs ` {..<length xs} = set xs"
  by (auto simp: in_set_conv_nth)

lemma received_own:
  assumes sok: "sent_ok rs t" and w: "tx_index t w" and inv: "decoder_inv d" and room: "decoder_roomy (length (tx_wire t w)) d"
    and rx: "stripe_received t t0 D R d got" and now: "t0 \<le> now" "now < t0 + fd_ttl d" and epoch: "sk_session_epoch (tx_key t) = fd_session_epoch d"
  obtains d' out' where "push_at rs (tx_wire t w) now d = Some (d', Inr out')"
    "stripe_received t t0 (with_data w D) (with_parity w R) d' (got @ filter (\<lambda>c. stripe_key_from_cell c = tx_key t) (fo_cells out'))"
proof (cases "tx_key t \<in> fd_completed d")
  case True
  obtain d' out' where "push_at rs (tx_wire t w) now d = Some (d', Inr out')" "fo_cells out' = []" "tx_key t \<in> fd_completed d'"
    by (rule push_closed [OF sok w inv True epoch])
  then show ?thesis using that rx w True by (cases w) (auto simp: stripe_received_def with_data_def with_parity_def)
next
  case False
  let ?n = "length (tx_cells t)"
  define D' where "D' = with_data w D"
  define R' where "R' = with_parity w R"
  have op: "open_for t D R t0 d" and got: "distinct got" "set got = (!) (tx_cells t) ` D" and D: "D \<subseteq> {..<?n}" "R \<subseteq> {..<length (tx_recs t)}"
    using rx False by (auto simp: stripe_received_def)
  obtain d' out' where p: "push_at rs (tx_wire t w) now d = Some (d', Inr out')"
    "fo_cells out' = fresh_cells t w D @ (if full t D' R' then missing_cells t D' else [])"
    "if full t D' R' then tx_key t \<in> fd_completed d' else open_for t D' R' t0 d'"
    unfolding D'_def R'_def by (rule push_own [OF sok w inv room op now epoch])
  have D': "D' \<subseteq> {..<?n}" "R' \<subseteq> {..<length (tx_recs t)}" using D w by (cases w; auto simp: D'_def R'_def with_data_def with_parity_def)+
  have fr: "distinct (got @ fresh_cells t w D)" "set (got @ fresh_cells t w D) = (!) (tx_cells t) ` D'"
  proof -
    have "tx_cells t ! i \<notin> set got" if "i < ?n" "i \<notin> D" for i
      using that D tx_cells_inject [OF sok that(1)] unfolding got(2) by blast
    then show "distinct (got @ fresh_cells t w D)" using w got(1) by (cases w) (auto simp: fresh_cells_def)
    show "set (got @ fresh_cells t w D) = (!) (tx_cells t) ` D'" using got(2) by (auto simp: fresh_cells_def D'_def with_data_def split: sum.splits)
  qed
  note ms = missing_distinct [OF sok, of D']
  have sub: "set (fo_cells out') \<subseteq> set (tx_cells t)"
    using w ms(2) p(2) by (cases w) (auto simp: fresh_cells_def split: if_splits)
  have disj: "(!) (tx_cells t) ` D' \<inter> (!) (tx_cells t) ` ({..<?n} - D') = {}" using D'(1) tx_cells_inject [OF sok] by blast
  have "stripe_received t t0 D' R' d' (got @ fo_cells out')"
  proof (cases "full t D' R'")
    case True
    then have "set (got @ fo_cells out') = (!) (tx_cells t) ` (D' \<union> ({..<?n} - D'))" unfolding p(2) using fr(2) ms(2) by auto
    also have "\<dots> = set (tx_cells t)" using D'(1) by (simp add: Un_absorb1 tx_cells_image)
    finally have "set (got @ fo_cells out') = set (tx_cells t)" .
    moreover have "distinct (got @ fo_cells out')" unfolding p(2) using True fr ms disj by auto
    ultimately show ?thesis using p(3) True D' by (simp add: stripe_received_def)
  next
    case nf: False
    then show ?thesis using p fr D' by (simp add: stripe_received_def open_for_def)
  qed
  then show ?thesis using that p(1) filter_tx_keys [OF sok sub] by (simp add: D'_def R'_def)
qed

lemma run_received:
  assumes sok: "sent_ok rs t" and "decoder_inv d" "budgeted arrivals d" "stripe_received t t0 D R d got"
    and "sk_session_epoch (tx_key t) = fd_session_epoch d"
    and "\<forall>(bs, now)\<in>set arrivals. t0 \<le> now \<and> now < t0 + fd_ttl d \<and>
      ((\<exists>w. tx_index t w \<and> bs = tx_wire t w) \<or> (\<forall>c. decode_cell bs = Inr c \<longrightarrow> stripe_key_from_cell c \<noteq> tx_key t))"
    and "run_ops (fec_step rs) (pushes arrivals) d = (d', outs)"
  shows "\<exists>D' R'. stripe_received t t0 D' R' d' (got @ delivered_of (tx_key t) outs) \<and> D \<subseteq> D' \<and> R \<subseteq> R' \<and>
    (\<forall>w. tx_index t w \<longrightarrow> tx_wire t w \<in> fst ` set arrivals \<longrightarrow> tx_wire t w \<in> seen t D' R')"
  using assms(2-)
proof (induction arrivals arbitrary: d D R got outs)
  case Nil
  then show ?case by (auto simp: pushes_def delivered_of_def)
next
  case (Cons a arrivals)
  obtain bs now where a: "a = (bs, now)" by fastforce
  have now: "t0 \<le> now" "now < t0 + fd_ttl d" using Cons.prems(5) by (auto simp: a)
  note b = budgeted_step [OF Cons.prems(2) [unfolded a]]
  obtain d1 r where p: "push_at rs bs now d = Some (d1, r)" "decoder_ok d1" "same_config d d1"
    using push_at_ok [of d rs bs now] Cons.prems(1) by (auto simp: decoder_inv_def)
  have inv1: "decoder_inv d1" by (rule decoder_inv_config [OF Cons.prems(1) p(2,3)])
  have fresh: "tx_key t \<notin> fd_completed d \<Longrightarrow> \<forall>s. map_of (fd_stripes d) (tx_key t) = Some s \<longrightarrow> now - ds_updated s < fd_ttl d"
    using Cons.prems(3) now by (auto simp: stripe_received_def open_for_def)
  note fr = push_frame [OF Cons.prems(1) b(1) p(1)]
  obtain D1 R1 where rx1: "stripe_received t t0 D1 R1 d1 (got @ filter (\<lambda>c. stripe_key_from_cell c = tx_key t) (stripe_delivered (Pushed (Some r))))"
    and sub: "D \<subseteq> D1" "R \<subseteq> R1" and own: "(\<exists>w. tx_index t w \<and> bs = tx_wire t w) \<longrightarrow> bs \<in> seen t D1 R1"
  proof (cases "\<exists>w. tx_index t w \<and> bs = tx_wire t w")
    case True
    then obtain w where w: "tx_index t w" "bs = tx_wire t w" by blast
    obtain d2 out2 where q: "push_at rs (tx_wire t w) now d = Some (d2, Inr out2)"
      "stripe_received t t0 (with_data w D) (with_parity w R) d2 (got @ filter (\<lambda>c. stripe_key_from_cell c = tx_key t) (fo_cells out2))"
      by (rule received_own [OF sok w(1) Cons.prems(1) b(1) [unfolded w(2)] Cons.prems(3) now Cons.prems(4)])
    have "bs \<in> seen t (with_data w D) (with_parity w R)" using w(2) by (cases w) (auto simp: seen_def with_data_def with_parity_def)
    moreover have "D \<subseteq> with_data w D" "R \<subseteq> with_parity w R" by (auto simp: with_data_def with_parity_def split: sum.splits)
    moreover have "d1 = d2" "r = Inr out2" using q(1) p(1) w(2) by simp_all
    ultimately show ?thesis using that [of "with_data w D" "with_parity w R"] q(2) by simp
  next
    case False
    then have foreign: "\<And>c. decode_cell bs = Inr c \<Longrightarrow> stripe_key_from_cell c \<noteq> tx_key t" using Cons.prems(5) by (auto simp: a)
    note f = fr(2) [OF foreign]
    have "filter (\<lambda>c. stripe_key_from_cell c = tx_key t) (stripe_delivered (Pushed (Some r))) = []"
      using f by (cases r) (auto simp: filter_empty_conv)
    moreover have "stripe_received t t0 D R d1 got" using Cons.prems(3) f fresh by (auto simp: stripe_received_def open_for_def)
    ultimately show ?thesis using that [of D R] False by auto
  qed
  obtain outs' where run: "run_ops (fec_step rs) (pushes arrivals) d1 = (d', outs')" "outs = Pushed (Some r) # outs'"
    using Cons.prems(6) p(1) by (auto simp: pushes_def a split: prod.splits)
  have cfg: "fd_ttl d1 = fd_ttl d" "fd_session_epoch d1 = fd_session_epoch d" using p(3) by (simp_all add: same_config_def)
  obtain D' R' where IH: "stripe_received t t0 D' R' d' ((got @ filter (\<lambda>c. stripe_key_from_cell c = tx_key t) (stripe_delivered (Pushed (Some r)))) @ delivered_of (tx_key t) outs')"
    "D1 \<subseteq> D'" "R1 \<subseteq> R'" "\<forall>w. tx_index t w \<longrightarrow> tx_wire t w \<in> fst ` set arrivals \<longrightarrow> tx_wire t w \<in> seen t D' R'"
    using Cons.IH [OF inv1 b(2) [OF fr(1) p(3)] rx1 _ _ run(1)] Cons.prems(4,5) cfg by auto
  have "seen t D1 R1 \<subseteq> seen t D' R'" using IH(2,3) by (auto simp: seen_def)
  then have "\<forall>w. tx_index t w \<longrightarrow> tx_wire t w \<in> fst ` set (a # arrivals) \<longrightarrow> tx_wire t w \<in> seen t D' R'"
    using own IH(4) by (auto simp: a)
  moreover have "stripe_received t t0 D' R' d' (got @ delivered_of (tx_key t) outs)" using IH(1) by (simp add: run(2) delivered_of_def)
  ultimately show ?case using sub IH(2,3) by blast
qed


section \<open>The encoder accepts every train that fits\<close>

lemma stripe_id_total: "2 \<le> n \<Longrightarrow> n \<le> 16 \<Longrightarrow> \<exists>sid. encode_stripe_id f n = Inr sid"
proof -
  have "unat f < 65536" using unat_less_length [of f] by simp
  then have "unat ((ucast f :: u32) + 1) = unat f + 1"
    by (simp add: unat_word_ariths unsigned_ucast_eq take_bit_nat_eq_self)
  moreover have "unat (mask 24 :: u32) = 2 ^ 24 - 1" by (simp add: mask_eq_exp_minus_1)
  ultimately have "(ucast f :: u32) + 1 \<le> STRIPE_SEQUENCE_MASK"
    using \<open>unat f < 65536\<close> by (simp add: stripe_mask word_le_nat_alt)
  then show "2 \<le> n \<Longrightarrow> n \<le> 16 \<Longrightarrow> \<exists>sid. encode_stripe_id f n = Inr sid"
    by (simp add: encode_stripe_id_def MAX_DATA_CELLS_def Let_def)
qed

lemma stamp_stripe_total:
  "\<forall>i<length cs. unat (cell_sequence (cs ! i)) = unat f + off + i \<Longrightarrow> stamp_stripe f sid off cs = Inr (map (stamped sid) cs)"
proof (induction cs arbitrary: off)
  case (Cons c cs)
  have "unat (cell_sequence c) = unat f + off" using Cons.prems by (metis add_0_right length_greater_0_conv list.distinct(1) nth_Cons_0)
  moreover have "\<forall>i<length cs. unat (cell_sequence (cs ! i)) = unat f + (off + 1) + i"
  proof (intro allI impI)
    fix i assume "i < length cs"
    then show "unat (cell_sequence (cs ! i)) = unat f + (off + 1) + i" using Cons.prems by (auto dest: spec [of _ "Suc i"])
  qed
  ultimately show ?case using Cons.IH [of "off + 1"] by (simp add: stamped_def)
qed simp

lemma systematic_length_total:
  assumes "carries_records c" "36 + length (encode_body (cell_body c)) \<le> u16_max"
  shows "\<exists>l. systematic_length c = Inr l"
proof -
  obtain ss where ss: "cell_body c = Records ss" using assms(1) by (cases "cell_body c") (auto simp: carries_records_def)
  have "a + length (concat (map encode_segment ss)) \<le> usize_max \<Longrightarrow> segments_wire_len a ss = Inr (a + length (concat (map encode_segment ss)))" for a
  proof (induction ss arbitrary: a)
    case (Cons s ss)
    have "segments_wire_len a (s # ss) = segments_wire_len (a + 16 + length (seg_metadata s) + length (seg_data s)) ss"
      using Cons.prems by (simp add: checked_add_def SEGMENT_HEADER_LEN_def)
    with Cons.IH [of "a + 16 + length (seg_metadata s) + length (seg_data s)"] Cons.prems show ?case by simp
  qed simp
  then show ?thesis using assms(2) ss
    by (simp add: systematic_length_def encoded_data_cell_len_def HEADER_LEN_def u16_max_def usize_max_def)
qed

lemma systematic_cell_total:
  assumes enc: "encode_into pm c = Inr w" and l: "systematic_length c = Inr l" and sb: "unat l \<le> sb"
  shows "systematic_cell pm sb c l = Inr (w, shard_of sb w)"
proof -
  have len: "length w = unat l" "36 \<le> length w" using enc systematic_length_Inr [OF l] by (auto simp: encode_into_Inr_iff)
  then have res: "resize_bytes sb w = w @ replicate (sb - length w) 0" using sb by (simp add: resize_bytes_def)
  have "\<exists>x. systematic_cell pm sb c l = Inr x"
    using enc len sb by (simp add: systematic_cell_def res normalize_routing_shim_def restore_routing_shim_def
        OVERLAY_HOPS_OFFSET_def OVERLAY_HOP_LIMIT_OFFSET_def Let_def)
  then obtain a b where x: "systematic_cell pm sb c l = Inr (a, b)" by auto
  with systematic_cell_Inr [OF x l sb] enc show ?thesis by simp
qed

lemma systematic_cells_total:
  "length cs = length ls \<Longrightarrow> (\<And>i. i < length cs \<Longrightarrow> systematic_cell pm sb (cs ! i) (ls ! i) = Inr (f i)) \<Longrightarrow>
    systematic_cells pm sb cs ls = Inr (map f [0..<length cs])"
proof (induction cs arbitrary: ls f)
  case (Cons c cs)
  then obtain l ls' where ls: "ls = l # ls'" "length cs = length ls'" by (cases ls) auto
  have "systematic_cells pm sb cs ls' = Inr (map (\<lambda>i. f (Suc i)) [0..<length cs])"
    using Cons.prems(2) [of "Suc _"] ls by (intro Cons.IH) simp_all
  moreover have "systematic_cell pm sb c l = Inr (f 0)" using Cons.prems(2) [of 0] ls by simp
  moreover have "map f [0..<length (c # cs)] = f 0 # map (\<lambda>i. f (Suc i)) [0..<length cs]"
    by (simp add: upt_conv_Cons map_Suc_upt [symmetric] del: upt_Suc)
  ultimately show ?case by (simp add: ls)
qed simp

lemma parity_wires_total:
  assumes "\<forall>r\<in>set rs. length r = sb" "n = length ls"
    and "\<And>j p. length p = 12 + 2 * n + sb \<Longrightarrow> \<exists>w. encode_into path (parity_cell ident sid j p) = Inr w"
  shows "\<exists>ws. parity_wires ident sid path n k f sb ls i rs = Inr ws"
  using assms(1)
proof (induction rs arbitrary: i)
  case (Cons r rs)
  let ?p = "PARITY_MAGIC @ put_u8 (word_of_nat n) @ put_u8 (word_of_nat k) @ put_u8 (word_of_nat i) @ put_u8 0 @ put_u16 f @
       put_u16 (word_of_nat sb) @ concat (map put_u16 ls) @ r"
  have "encode_parity_payload n k i f sb ls r = Inr ?p" using Cons.prems assms(2) by (simp add: encode_parity_payload_def)
  moreover have "length ?p = 12 + 2 * n + sb" using Cons.prems assms(2) by (simp add: PARITY_MAGIC_def length_concat sum_list_triv comp_def)
  ultimately show ?case using Cons.IH [of "i + 1"] Cons.prems assms(3) [of ?p i] by fastforce
qed simp

lemma protected_maximum:
  assumes "protected_cell_maximum path n = Inr pm"
  shows "pm = path - (49 + 2 * n)" "49 + 2 * n + 36 < path" "2 \<le> n" "n \<le> 16"
  using assms by (auto simp: protected_cell_maximum_def result_iff checked_add_def HEADER_LEN_def PARITY_FIXED_LEN_def ALIGNMENT_RESERVE_def
      MAX_DATA_CELLS_def split: option.splits if_splits)

definition fits :: "nat \<Rightarrow> traffic_class \<times> u32 \<times> u32 \<times> u64 \<times> u8 \<times> u8 \<Rightarrow> cell_v2 \<Rightarrow> bool" where
  "fits pm ident c \<longleftrightarrow> carries_records c \<and> fec_identity c = ident \<and> is_ok (encode_into pm c)"

lemma stamped_sel [simp]:
  "cell_body (stamped sid c) = cell_body c" "cell_sequence (stamped sid c) = cell_sequence c"
  "carries_records (stamped sid c) = carries_records c" "fec_identity (stamped sid c) = fec_identity c"
  "cell_stripe_id (stamped sid c) = sid" "cell_flags (stamped sid c) = cell_flags c"
  by (simp_all add: stamped_def carries_records_def fec_identity_def)

lemma encode_stamped:
  assumes "fits pm ident c" "pm \<le> m" "m \<le> MAX_CELL_BYTES"
  obtains w where "encode_into m (stamped sid c) = Inr w" "length w \<le> pm" "length w = 36 + length (encode_body (cell_body c))"
proof -
  obtain b where b: "encode_into pm c = Inr b" using assms by (auto simp: fits_def is_ok_iff)
  obtain ss where ss: "cell_body c = Records ss" using assms(1) by (cases "cell_body c") (auto simp: fits_def carries_records_def)
  have "validate_cell (stamped sid c) = Inr ()" using b ss
    by (simp add: encode_into_Inr_iff validate_cell_def validate_cell_header_def stamped_def)
  then have "encode_into m (stamped sid c) = Inr (encode_header (cell_flags c) (header_of (stamped sid c)) @ encode_body (cell_body c))"
    using b assms(2,3) by (auto simp: encode_into_Inr_iff)
  then show ?thesis using that b by (auto simp: encode_into_Inr_iff)
qed

lemma encode_parity_cell:
  assumes c: "fits pm ident c" and sid: "sid \<noteq> 0" and p: "p \<noteq> []" "36 + length p \<le> path" "path \<le> MAX_CELL_BYTES"
  shows "\<exists>w. encode_into path (parity_cell ident sid j p) = Inr w"
proof -
  have v: "validate_cell c = Inr ()" using c by (auto simp: fits_def is_ok_iff encode_into_Inr_iff)
  have "validate_cell_header c = Inr ()" using v by (auto simp: validate_cell_def result_iff)
  moreover have "fec_identity c = ident" using c by (simp add: fits_def)
  ultimately have "validate_cell_header (parity_cell ident sid j p) = Inr ()"
    by (auto simp: validate_cell_header_def parity_cell_def result_iff fec_identity_def)
  then have "validate_cell (parity_cell ident sid j p) = Inr ()" using sid p(1) by (simp add: validate_cell_def parity_cell_def split: prod.splits)
  moreover have "cell_body (parity_cell ident sid j p) = Parity p" by (simp add: parity_cell_def split: prod.splits)
  ultimately show ?thesis using p(2,3) by (simp add: encode_into_Inr_iff)
qed

lemma encode_stripe_total:
  assumes rs: "rs_corrects rs k" "0 < k" and pm: "protected_cell_maximum path N = Inr pm" and path: "path \<le> MAX_CELL_BYTES"
    and n: "2 \<le> length stripe" "length stripe \<le> N" and fit: "\<forall>c\<in>set stripe. fits pm ident c"
    and seq: "\<forall>i<length stripe. unat (cell_sequence (stripe ! i)) = unat (cell_sequence (hd stripe)) + i"
  obtains sid sys par where "encode_stripe_id (cell_sequence (hd stripe)) (length stripe) = Inr sid"
    "encode_stripe rs k pm path ident stripe = Inr (sys, par)" "length par = k" "list_all2 (\<lambda>c w. decode_cell w = Inr (stamped sid c)) stripe sys"
    "\<forall>w\<in>set (sys @ par). length w \<le> path"
proof -
  let ?n = "length stripe" let ?f = "cell_sequence (hd stripe)"
  note P = protected_maximum [OF pm]
  have n16: "?n \<le> 16" using n P by linarith
  obtain sid where sid: "encode_stripe_id ?f ?n = Inr sid" using stripe_id_total [OF n(1) n16] by blast
  note idr = stripe_id_roundtrip [OF sid]
  define cs where "cs = map (stamped sid) stripe"
  have st: "stamp_stripe ?f sid 0 stripe = Inr cs" unfolding cs_def using seq by (intro stamp_stripe_total) simp
  have pmm: "pm \<le> path" "pm \<le> MAX_CELL_BYTES" using P(1) path by linarith+
  have "\<forall>i<?n. \<exists>w l. encode_into pm (cs ! i) = Inr w \<and> length w \<le> pm \<and> systematic_length (cs ! i) = Inr l \<and> unat l = length w"
  proof (intro allI impI)
    fix i assume i: "i < ?n"
    then have f: "fits pm ident (stripe ! i)" using fit by simp
    obtain w where w: "encode_into pm (stamped sid (stripe ! i)) = Inr w" "length w \<le> pm" "length w = 36 + length (encode_body (cell_body (stripe ! i)))"
      by (rule encode_stamped [OF f le_refl pmm(2)])
    have "36 + length (encode_body (cell_body (stripe ! i))) \<le> u16_max" using w(2,3) pmm(2) by (simp add: MAX_CELL_BYTES_def u16_max_def)
    then obtain l where l: "systematic_length (stamped sid (stripe ! i)) = Inr l"
      using systematic_length_total [of "stamped sid (stripe ! i)"] f by (auto simp: fits_def)
    then have "unat l = length w" using systematic_length_Inr [OF l] w(3) by simp
    with w l i show "\<exists>w l. encode_into pm (cs ! i) = Inr w \<and> length w \<le> pm \<and> systematic_length (cs ! i) = Inr l \<and> unat l = length w"
      by (auto simp: cs_def)
  qed
  then obtain w l where wl: "\<And>i. i < ?n \<Longrightarrow> encode_into pm (cs ! i) = Inr (w i) \<and> length (w i) \<le> pm \<and> systematic_length (cs ! i) = Inr (l i) \<and> unat (l i) = length (w i)"
    by metis
  define ls where "ls = map l [0..<?n]"
  have ls: "mapR systematic_length cs = Inr ls" using wl by (intro list_all2_mapR) (simp add: list_all2_conv_all_nth cs_def ls_def)
  define sb where "sb = next_even (Max (unat ` set ls))"
  have n0: "0 < ?n" using n by linarith
  have in_ls: "l i \<in> set ls" if "i < ?n" for i using that by (simp add: ls_def)
  have ne: "set ls \<noteq> {}" using in_ls [OF n0] by auto
  have Mx: "Max (unat ` set ls) \<le> pm" using wl ne by (subst Max_le_iff) (auto simp: ls_def)
  have big: "unat (l i) \<le> sb" if "i < ?n" for i
  proof -
    have "unat (l i) \<le> Max (unat ` set ls)" using in_ls [OF that] by (intro Max_ge) auto
    then show ?thesis unfolding sb_def by (rule order_trans [OF _ next_even(2)])
  qed
  have sbm: "sb \<le> pm + 1" "even sb" using Mx by (simp_all add: sb_def next_even(1)) (simp add: next_even_def)
  have w36: "36 \<le> length (w i)" if "i < ?n" for i using wl [OF that] by (auto simp: encode_into_Inr_iff)
  have sb0: "0 < sb" using big [OF n0] w36 [OF n0] wl [OF n0] by linarith
  have fitp: "36 + (12 + 2 * ?n) + sb \<le> path" using sbm(1) P n(2) by linarith
  have xs: "systematic_cells pm sb cs ls = Inr (map (\<lambda>i. (w i, shard_of sb (w i))) [0..<?n])"
  proof -
    have "systematic_cell pm sb (cs ! i) (ls ! i) = Inr (w i, shard_of sb (w i))" if "i < length cs" for i
      using that wl [of i] big [of i] by (intro systematic_cell_total) (simp_all add: cs_def ls_def)
    from systematic_cells_total [of cs ls pm sb "\<lambda>i. (w i, shard_of sb (w i))", OF _ this] show ?thesis by (simp add: cs_def ls_def)
  qed
  have shl: "\<forall>x\<in>set (map snd (map (\<lambda>i. (w i, shard_of sb (w i))) [0..<?n])). length x = sb" using wl big by auto
  obtain recs where recs: "rs_supports rs ?n k sb" "rs_encode rs ?n k sb (map snd (map (\<lambda>i. (w i, shard_of sb (w i))) [0..<?n])) = Inr recs"
    "length recs = k" "\<forall>r\<in>set recs. length r = sb"
    using rs(1) [unfolded rs_corrects_def MAX_DATA_CELLS_def, rule_format,
        of ?n sb "map snd (map (\<lambda>i. (w i, shard_of sb (w i))) [0..<?n])"] rs(2) n(1) n16 sb0 sbm(2) shl by auto
  have "\<exists>ws. parity_wires ident sid path ?n k ?f sb ls 0 recs = Inr ws"
  proof (rule parity_wires_total [OF recs(4)])
    show "?n = length ls" by (simp add: ls_def)
    fix j p assume lp: "length (p :: bytes) = 12 + 2 * ?n + sb"
    have "fits pm ident (stripe ! 0)" using fit n0 by simp
    moreover have "p \<noteq> []" using lp by auto
    ultimately show "\<exists>w. encode_into path (parity_cell ident sid j p) = Inr w" using lp fitp path idr(2) by (intro encode_parity_cell) simp_all
  qed
  then obtain par where par: "parity_wires ident sid path ?n k ?f sb ls 0 recs = Inr par" by blast
  have "encode_stripe rs k pm path ident stripe = Inr (map w [0..<?n], par)"
    using sid st ls fitp recs par xs
    by (simp add: encode_stripe_def Let_def sb_def [symmetric] HEADER_LEN_def PARITY_FIXED_LEN_def comp_def mult.commute)
  moreover note pw = parity_wires_Inr [OF par]
  moreover have "list_all2 (\<lambda>c b. decode_cell b = Inr (stamped sid c)) stripe (map w [0..<?n])"
    using wl by (auto simp: list_all2_conv_all_nth cs_def intro!: cell_wire_max.dec_enc)
  moreover have "\<forall>x\<in>set (map w [0..<?n] @ par). length x \<le> path"
  proof
    fix x assume "x \<in> set (map w [0..<?n] @ par)"
    then show "length x \<le> path"
    proof (cases "x \<in> set par")
      case True
      then show ?thesis using pw by (auto simp: in_set_conv_nth encode_into_Inr_iff)
    next
      case False
      with \<open>x \<in> _\<close> show ?thesis using wl pmm by fastforce
    qed
  qed
  ultimately show ?thesis using that [OF sid] recs(3) by blast
qed


lemma chunks_concat: "0 < n \<Longrightarrow> concat (chunks n xs) = xs"
proof (induction n xs rule: chunks.induct)
  case (2 n x xs)
  then show ?case by (cases n) simp_all
qed simp

lemma chunks_bounds: "c \<in> set (chunks n xs) \<Longrightarrow> 0 < n \<Longrightarrow> c \<noteq> [] \<and> length c \<le> n \<and> set c \<subseteq> set xs"
proof (induction n xs rule: chunks.induct)
  case (2 n x xs)
  then show ?case using set_take_subset [of "n - 1" xs] set_drop_subset [of "n - 1" xs] by (cases n) auto
qed simp

text \<open>Consecutive sequence numbers.\<close>

definition consecutive :: "cell_v2 list \<Rightarrow> bool" where
  "consecutive cs \<longleftrightarrow> (\<forall>i<length cs. unat (cell_sequence (cs ! i)) = unat (cell_sequence (hd cs)) + i)"

lemma consecutive_take: "consecutive cs \<Longrightarrow> consecutive (take n cs)"
  by (cases "n = 0") (auto simp: consecutive_def hd_take)

lemma consecutive_drop: "consecutive cs \<Longrightarrow> consecutive (drop n cs)"
  by (auto simp: consecutive_def hd_drop_conv_nth)

lemma chunks_consecutive: "c \<in> set (chunks n xs) \<Longrightarrow> consecutive xs \<Longrightarrow> consecutive c"
proof (induction n xs rule: chunks.induct)
  case (2 n x xs)
  have "consecutive (take (Suc (n - 1)) (x # xs))" "consecutive (drop (Suc (n - 1)) (x # xs))"
    using 2(3) consecutive_take consecutive_drop by blast+
  then show ?case using 2 by auto
qed simp

text \<open>What the encoder has emitted for the Cells \<open>cs\<close>.\<close>

definition train_emitted :: "nat \<Rightarrow> cell_v2 list \<Rightarrow> encoded_train \<Rightarrow> bool" where
  "train_emitted path cs out \<longleftrightarrow> list_all2 (\<lambda>c w. \<exists>sid. decode_cell w = Inr (stamped sid c)) cs (et_systematic out) \<and>
     et_systematic out = map fst (filter (\<lambda>e. \<not> snd e) (et_ordered out)) \<and> et_parity out = map fst (filter snd (et_ordered out)) \<and>
     (\<forall>e\<in>set (et_ordered out). length (fst e) \<le> path)"

lemma emitted_unprotected:
  assumes "train_emitted path cs out" "fits pm ident c" "pm \<le> path" "path \<le> MAX_CELL_BYTES"
  shows "\<exists>out'. unprotected_cell path c out = Inr out' \<and> train_emitted path (cs @ [c]) out'"
proof -
  obtain w where w: "encode_into path (stamped 0 c) = Inr w" "length w \<le> pm" by (rule encode_stamped [OF assms(2-4)])
  have d: "decode_cell w = Inr (stamped 0 c)" by (rule cell_wire_max.dec_enc [OF w(1)])
  show ?thesis using assms(1,3) w d
    by (auto simp: unprotected_cell_def stamped_def train_emitted_def intro!: list_all2_appendI)
qed

lemma emitted_stripe:
  assumes "train_emitted path cs out" "list_all2 (\<lambda>c w. decode_cell w = Inr (stamped sid c)) stripe sys" "length par = k"
    "\<forall>w\<in>set (sys @ par). length w \<le> path"
  shows "train_emitted path (cs @ stripe) (emit_stripe k sys par out)"
proof -
  have "list_all2 (\<lambda>c w. \<exists>sid. decode_cell w = Inr (stamped sid c)) stripe sys"
    using assms(2) by (rule list.rel_mono_strong) blast
  moreover have "filter (\<lambda>e. \<not> snd e) (map (\<lambda>b. (b, True)) par) = []" "filter snd (map (\<lambda>b. (b, False)) sys) = []"
    "filter (\<lambda>e. \<not> snd e) (map (\<lambda>b. (b, False)) sys) = map (\<lambda>b. (b, False)) sys" "filter snd (map (\<lambda>b. (b, True)) par) = map (\<lambda>b. (b, True)) par"
    by (simp_all add: filter_empty_conv filter_id_conv)
  ultimately show ?thesis using assms(1,3,4)
    by (auto simp: train_emitted_def emit_stripe_def Let_def comp_def intro!: list_all2_appendI)
qed

lemma encode_stripes_total:
  assumes rs: "rs_corrects rs k" "0 < k" and pm: "protected_cell_maximum path N = Inr pm" and path: "path \<le> MAX_CELL_BYTES"
    and "\<forall>stripe\<in>set stripes. stripe \<noteq> [] \<and> length stripe \<le> N \<and> consecutive stripe \<and> (\<forall>c\<in>set stripe. fits pm ident c)"
    and "train_emitted path cs out"
  shows "\<exists>out'. encode_stripes rs k pm path ident stripes out = Inr out' \<and> train_emitted path (cs @ concat stripes) out'"
  using assms(5-)
proof (induction stripes arbitrary: cs out)
  case (Cons stripe stripes)
  have s: "stripe \<noteq> []" "length stripe \<le> N" "consecutive stripe" "\<forall>c\<in>set stripe. fits pm ident c" using Cons.prems(1) by auto
  have "\<exists>out1. (case stripe of [c] \<Rightarrow> unprotected_cell path c out
            | _ \<Rightarrow> bindR (encode_stripe rs k pm path ident stripe) (\<lambda>(systematic, parity). Inr (emit_stripe k systematic parity out))) = Inr out1 \<and>
      train_emitted path (cs @ stripe) out1"
  proof (cases "\<exists>c. stripe = [c]")
    case True
    then obtain c where c: "stripe = [c]" by blast
    have "pm \<le> path" using protected_maximum [OF pm] by linarith
    then show ?thesis using emitted_unprotected [OF Cons.prems(2) _ _ path, of pm ident c] s(4) c by simp
  next
    case False
    then have n: "2 \<le> length stripe" using s(1) by (cases stripe; cases "tl stripe") auto
    obtain sid sys par where e: "encode_stripe rs k pm path ident stripe = Inr (sys, par)" "length par = k"
      "list_all2 (\<lambda>c w. decode_cell w = Inr (stamped sid c)) stripe sys" "\<forall>w\<in>set (sys @ par). length w \<le> path"
      by (rule encode_stripe_total [OF rs pm path n s(2,4)]) (use s(3) in \<open>simp_all add: consecutive_def\<close>)
    from e(1) False s(1) emitted_stripe [OF Cons.prems(2) e(3,2,4)] show ?thesis by (auto split: list.splits)
  qed
  then obtain out1 where out1: "(case stripe of [c] \<Rightarrow> unprotected_cell path c out
            | _ \<Rightarrow> bindR (encode_stripe rs k pm path ident stripe) (\<lambda>(systematic, parity). Inr (emit_stripe k systematic parity out))) = Inr out1"
    "train_emitted path (cs @ stripe) out1" by blast
  from Cons.IH [OF _ out1(2)] Cons.prems(1) out1(1) show ?case by simp
qed simp


end
