(* ===== verification/FecProperties.thy ===== *)
theory FecProperties
  imports FecRecovery
begin

text \<open>
  The properties of Cell forward error correction, with an exclusive-or code that satisfies the promise made of
  the Reed-Solomon package for one parity Cell, so that each of them is applied at a concrete stripe.
\<close>

section \<open>A code with one recovery shard\<close>

text \<open>The exclusive-or code satisfies the promises for one recovery shard; the witnesses use it.\<close>

definition xor_sum :: "u8 list \<Rightarrow> u8" where
  "xor_sum xs = foldr (XOR) xs 0"

definition xor_code :: reed_solomon where
  "xor_code = \<lparr> rs_supports = (\<lambda>n k sb. True),
     rs_encode = (\<lambda>n k sb shards. Inr [map (\<lambda>b. xor_sum (map (\<lambda>s. s ! b) shards)) [0..<sb]]),
     rs_decode = (\<lambda>n k sb os got. Inr (map (\<lambda>i. (i, map (\<lambda>b. (case got of [] \<Rightarrow> 0 | e # _ \<Rightarrow> snd e ! b) XOR
         xor_sum (map (\<lambda>e. snd e ! b) os)) [0..<sb])) (filter (\<lambda>i. i \<notin> fst ` set os) [0..<n]))) \<rparr>"

lemma xor_sum_simps [simp]: "xor_sum [] = 0" "xor_sum (x # xs) = x XOR xor_sum xs"
  by (simp_all add: xor_sum_def)

lemma xor_sum_partition: "xor_sum (map f xs) = xor_sum (map f (filter P xs)) XOR xor_sum (map f (filter (\<lambda>x. \<not> P x) xs))"
  by (induction xs) (auto simp: ac_simps)

lemma xor_code_restores:
  assumes len: "length shards = n" "\<forall>x\<in>set shards. length x = sb"
  shows "rs_restores xor_code n 1 sb shards [map (\<lambda>b. xor_sum (map (\<lambda>s. s ! b) shards)) [0..<sb]]"
  unfolding rs_restores_def
proof (intro allI impI, elim conjE)
  fix P :: "nat \<Rightarrow> bool" and got :: "(nat \<times> bytes) list"
  let ?rec = "map (\<lambda>b. xor_sum (map (\<lambda>s. s ! b) shards)) [0..<sb]"
  let ?os = "map (\<lambda>i. (i, shards ! i)) (filter P [0..<n])" let ?ms = "filter (\<lambda>i. \<not> P i) [0..<n]"
  assume dist: "distinct (map fst got)" and got: "\<forall>e\<in>set got. fst e < 1 \<and> snd e = [?rec] ! fst e"
    and en: "n \<le> length (filter P [0..<n]) + length got"
  have ms: "filter (\<lambda>i. i \<notin> fst ` set ?os) [0..<n] = ?ms" by (auto simp: image_iff intro!: filter_cong)
  have "length (filter P [0..<n]) + length ?ms = n" using sum_length_filter_compl [of P "[0..<n]"] by simp
  with en have few: "length ?ms \<le> length got" by linarith
  have run: "rs_decode xor_code n 1 sb ?os got = Inr (map (\<lambda>i. (i, map (\<lambda>b. (case got of [] \<Rightarrow> 0 | e # _ \<Rightarrow> snd e ! b) XOR
         xor_sum (map (\<lambda>e. snd e ! b) ?os)) [0..<sb])) ?ms)" unfolding xor_code_def reed_solomon.select_convs ms ..
  show "rs_decode xor_code n 1 sb ?os got = Inr (map (\<lambda>i. (i, shards ! i)) ?ms)"
  proof (cases got)
    case Nil
    with few show ?thesis unfolding run by simp
  next
    case (Cons e es)
    then have "es = []" using dist got by (cases es) auto
    then have e: "got = [e]" "snd e = ?rec" using Cons got by auto
    have one: "map (\<lambda>b. ?rec ! b XOR xor_sum (map (\<lambda>e. snd e ! b) ?os)) [0..<sb] = shards ! i" if i: "?ms = [i]" for i
    proof (rule nth_equalityI)
      have "i < n" using i by (metis atLeastLessThan_iff filter_is_subset list.set_intros(1) set_upt subsetD)
      then have li: "length (shards ! i) = sb" using len by simp
      then show "length (map (\<lambda>b. ?rec ! b XOR xor_sum (map (\<lambda>e. snd e ! b) ?os)) [0..<sb]) = length (shards ! i)" by simp
      fix b assume b: "b < length (map (\<lambda>b. ?rec ! b XOR xor_sum (map (\<lambda>e. snd e ! b) ?os)) [0..<sb])"
      have "map (\<lambda>s. s ! b) shards = map (\<lambda>i. shards ! i ! b) [0..<n]" using len(1) by (intro nth_equalityI) simp_all
      then have "xor_sum (map (\<lambda>s. s ! b) shards) = xor_sum (map (\<lambda>i. shards ! i ! b) (filter P [0..<n])) XOR shards ! i ! b"
        using xor_sum_partition [of "\<lambda>i. shards ! i ! b" "[0..<n]" P] i by simp
      then show "map (\<lambda>b. ?rec ! b XOR xor_sum (map (\<lambda>e. snd e ! b) ?os)) [0..<sb] ! b = shards ! i ! b"
        using b by (simp add: comp_def ac_simps)
    qed
    consider "?ms = []" | i where "?ms = [i]" using few e(1) by (cases ?ms; cases "tl ?ms") auto
    then show ?thesis
    proof cases
      case 1
      then show ?thesis unfolding run unfolding 1 by simp
    next
      case 2
      then show ?thesis unfolding run unfolding 2 e(1) list.case e(2) list.map one [OF 2] by simp
    qed
  qed
qed

lemma xor_code_corrects: "rs_corrects xor_code 1"
proof -
  have "rs_supports xor_code n 1 sb \<and> (\<exists>recs. rs_encode xor_code n 1 sb shards = Inr recs \<and> length recs = 1 \<and>
      (\<forall>r\<in>set recs. length r = sb) \<and> rs_restores xor_code n 1 sb shards recs)"
    if "length shards = n" "\<forall>x\<in>set shards. length x = sb" for n sb shards
    using xor_code_restores [OF that] by (simp add: xor_code_def)
  then show ?thesis unfolding rs_corrects_def by blast
qed

section \<open>Properties\<close>

definition stripe_ref :: "u32 \<Rightarrow> cell_v2 list \<Rightarrow> stripe_key" where
  "stripe_ref sid stripe = stripe_key_from_cell (stamped sid (hd stripe))"

lemma seen_card:
  assumes "finite D" "finite R"
  shows "card (seen t D R) \<le> card D + card R"
proof -
  have "card (seen t D R) \<le> card ((!) (tx_wires t) ` D) + card ((!) (tx_parity t) ` R)" unfolding seen_def by (rule card_Un_le)
  also have "\<dots> \<le> card D + card R" using card_image_le [OF assms(1), of "(!) (tx_wires t)"] card_image_le [OF assms(2), of "(!) (tx_parity t)"] by (rule add_mono)
  finally show ?thesis .
qed

lemma received_all:
  assumes "stripe_received t t0 D R d got" "length (tx_cells t) \<le> card D + card R"
  shows "set got = set (tx_cells t)"
proof (cases "tx_key t \<in> fd_completed d")
  case True
  then show ?thesis using assms(1) by (simp add: stripe_received_def)
next
  case False
  have D: "D \<subseteq> {..<length (tx_cells t)}" and nf: "\<not> full t D R" and got: "set got = (!) (tx_cells t) ` D"
    using assms(1) False by (auto simp: stripe_received_def open_for_def)
  then have "R = {}" using assms(2) by (auto simp: full_def)
  then have "card D = length (tx_cells t)" using assms(2) card_mono [OF _ D] by simp
  then show ?thesis using got card_all_iff [OF D] tx_cells_image by metis
qed

text \<open>Three consecutive Cells of one train, for the witnesses: a protected pair and an unprotected tail.\<close>

definition demo_stripe_cells :: "cell_v2 list" where
  "demo_stripe_cells = [demo_cell, demo_cell\<lparr> cell_sequence := 1 \<rparr>]"

definition fec_demo_cells :: "cell_v2 list" where
  "fec_demo_cells = demo_stripe_cells @ [demo_cell\<lparr> cell_sequence := 2 \<rparr>]"

lemma demo_fits: "c \<in> set fec_demo_cells \<Longrightarrow> pm \<in> {1147, 1200} \<Longrightarrow> fits pm (fec_identity demo_cell) c"
  by (auto simp: fec_demo_cells_def demo_stripe_cells_def fits_def carries_records_def demo_cell_def fec_identity_def cell_eval wire_eval)

lemma demo_protected: "protected_cell_maximum 1200 2 = Inr 1147"
  by (simp add: protected_cell_maximum_def MAX_DATA_CELLS_def checked_add_def HEADER_LEN_def PARITY_FIXED_LEN_def
      ALIGNMENT_RESERVE_def usize_max_def)

lemma demo_consecutive: "consecutive demo_stripe_cells" "consecutive fec_demo_cells"
  by (auto simp: consecutive_def fec_demo_cells_def demo_stripe_cells_def demo_cell_def nth_Cons split: nat.splits)

text \<open>C30. Forward error correction recovers every stripe it promises to recover, under these conditions: the erasure
  code corrects up to \<open>k\<close> erasures (\<open>rs_corrects\<close>); the Cells of the stripe have sequences below 65535; the
  datagrams of the stripe arrive with one pair of hop counts \<open>h\<close> (which may differ from the sender's); the arrivals
  lie within one TTL window, are at most \<open>maximum_stripes\<close> many and hold at most \<open>maximum_bytes\<close> bytes in
  total; and no other datagram decodes to a Cell with the key of the stripe. Then, for any order and repetition of
  the stripe's datagrams, mixed with foreign or malformed ones, each data Cell is delivered at most once and
  unchanged, and once the number of distinct datagrams of the stripe received reaches the number of data Cells,
  all of them have been delivered.\<close>

theorem fec_recovers:
  assumes rs: "rs_corrects rs k" and k: "0 < k" "k \<le> MAX_PARITY_CELLS" and h: "shim_valid h"
    and enc: "encode_stripe rs k pm path ident stripe = Inr (sys, par)"
    and cells: "\<forall>c\<in>set stripe. carries_records c \<and> fec_identity c = ident \<and> unat (cell_sequence c) < u16_max"
    and sid: "encode_stripe_id (cell_sequence (hd stripe)) (length stripe) = Inr sid"
    and dec: "decoder_with_limits (cell_session_epoch (hd stripe)) ttl maximum_stripes maximum_bytes = Inr d"
    and limits: "length arrivals \<le> maximum_stripes" "sum_list (map (length \<circ> fst) arrivals) \<le> maximum_bytes" "maximum_bytes < usize_max"
    and times: "\<forall>(bs, now)\<in>set arrivals. t0 \<le> now \<and> now < t0 + ttl"
    and mixed: "\<forall>(bs, now)\<in>set arrivals. bs \<in> reshim h ` set (sys @ par) \<or>
      (\<forall>c. decode_cell bs = Inr c \<longrightarrow> stripe_key_from_cell c \<noteq> stripe_ref sid stripe)"
    and run: "run_ops (fec_step rs) (pushes arrivals) d = (d', outs)"
  shows "distinct (delivered_of (stripe_ref sid stripe) outs) \<and>
    set (delivered_of (stripe_ref sid stripe) outs) \<subseteq> (with_shim h \<circ> stamped sid) ` set stripe \<and>
    (length stripe \<le> card (fst ` set arrivals \<inter> reshim h ` set (sys @ par)) \<longrightarrow>
      set (delivered_of (stripe_ref sid stripe) outs) = (with_shim h \<circ> stamped sid) ` set stripe)"
proof -
  have k8: "k \<le> 8" using k by (simp add: MAX_PARITY_CELLS_def)
  obtain t sid' where sid': "encode_stripe_id (cell_sequence (hd stripe)) (length stripe) = Inr sid'" and sok: "sent_ok rs t"
    and t: "tx_wires t = map (reshim h) sys" "tx_parity t = map (reshim h) par" "tx_cells t = map (with_shim h \<circ> stamped sid') stripe"
    by (rule encode_stripe_sent [OF rs k(1) k8 h enc cells]) blast
  have ss: "sid' = sid" using sid sid' by simp
  note t = t [unfolded ss]
  have ne: "stripe \<noteq> []" using sok t(3) by (auto simp: sent_ok_def)
  then have hd: "hd (tx_cells t) = with_shim h (stamped sid (hd stripe))" "hd (tx_cells t) \<in> set (tx_cells t)"
    using t(3) by (simp_all add: hd_map)
  then have key: "tx_key t = stripe_ref sid stripe" using tx_keys [OF sok hd(2)] by (simp add: stripe_ref_def)
  have len: "length (tx_parity t) = length (tx_recs t)" "length (tx_wires t) = length (tx_cells t)" using sok by (simp_all add: sent_ok_def)
  have d: "fd_stripes d = []" "fd_completed d = {}" "fd_completed_order d = []" "fd_buffered_bytes d = 0" "fd_ttl d = ttl"
    "fd_maximum_stripes d = maximum_stripes" "fd_maximum_buffered_bytes d = maximum_bytes" "fd_session_epoch d = cell_session_epoch (hd stripe)"
    using dec by (auto simp: decoder_with_limits_def result_iff)
  have own: "bs \<in> reshim h ` set (sys @ par) \<longleftrightarrow> (\<exists>w. tx_index t w \<and> bs = tx_wire t w)" for bs
  proof -
    have "reshim h ` set (sys @ par) = set (tx_wires t) \<union> set (tx_parity t)" by (auto simp: t)
    also have "bs \<in> \<dots> \<longleftrightarrow> (\<exists>w. tx_index t w \<and> bs = tx_wire t w)"
      using len unfolding in_set_conv_nth Un_iff by (metis sum.exhaust tx_index.simps tx_wire.simps)
    finally show ?thesis .
  qed
  have rx: "stripe_received t t0 {} {} d []" using d by (simp add: stripe_received_def open_for_def full_def)
  have budget: "budgeted arrivals d" using limits d by (simp add: budgeted_def)
  have epoch: "sk_session_epoch (tx_key t) = fd_session_epoch d" using d by (simp add: key stripe_ref_def stripe_key_from_cell_def stamped_def)
  have arr: "\<forall>(bs, now)\<in>set arrivals. t0 \<le> now \<and> now < t0 + fd_ttl d \<and>
      ((\<exists>w. tx_index t w \<and> bs = tx_wire t w) \<or> (\<forall>c. decode_cell bs = Inr c \<longrightarrow> stripe_key_from_cell c \<noteq> tx_key t))"
    using times mixed unfolding d(5) key own by fast
  obtain D R where r: "stripe_received t t0 D R d' (delivered_of (tx_key t) outs)"
    and seen: "\<forall>w. tx_index t w \<longrightarrow> tx_wire t w \<in> fst ` set arrivals \<longrightarrow> tx_wire t w \<in> seen t D R"
    using run_received [OF sok decoder_new_inv [OF dec limits(3)] budget rx epoch arr run] by auto
  have cs: "set (tx_cells t) = (with_shim h \<circ> stamped sid) ` set stripe" using t(3) by simp
  have "set (delivered_of (tx_key t) outs) \<subseteq> set (tx_cells t)" "distinct (delivered_of (tx_key t) outs)"
    using r by (auto simp: stripe_received_def split: if_splits)
  moreover have "set (delivered_of (tx_key t) outs) = set (tx_cells t)"
    if many: "length stripe \<le> card (fst ` set arrivals \<inter> reshim h ` set (sys @ par))"
  proof -
    have fin: "finite D" "finite R" using r by (auto simp: stripe_received_def intro: finite_subset)
    have "fst ` set arrivals \<inter> reshim h ` set (sys @ par) \<subseteq> seen t D R"
    proof
      fix bs assume "bs \<in> fst ` set arrivals \<inter> reshim h ` set (sys @ par)"
      then have "bs \<in> fst ` set arrivals" "\<exists>w. tx_index t w \<and> bs = tx_wire t w" unfolding own [symmetric] Int_iff by simp_all
      then show "bs \<in> seen t D R" using seen by metis
    qed
    then have "card (fst ` set arrivals \<inter> reshim h ` set (sys @ par)) \<le> card (seen t D R)"
      using fin by (intro card_mono) (auto simp: seen_def)
    also note seen_card [OF fin]
    finally have "length (tx_cells t) \<le> card D + card R" using many t(3) by simp
    then show ?thesis by (rule received_all [OF r])
  qed
  ultimately show ?thesis unfolding key cs by blast
qed


theorem fec_recovers_witness:
  "\<exists>sys par sid d. encode_stripe xor_code 1 1147 1200 (fec_identity demo_cell) demo_stripe_cells = Inr (sys, par) \<and>
    decoder_with_limits 7 1000 8 100000 = Inr d \<and>
    set (delivered_of (stripe_ref sid demo_stripe_cells)
      (snd (run_ops (fec_step xor_code) (pushes [(reshim (2, 2) (par ! 0), 10), (reshim (2, 2) (sys ! 1), 20)]) d))) =
      (with_shim (2, 2) \<circ> stamped sid) ` set demo_stripe_cells"
proof -
  let ?h = "(2, 2) :: u8 \<times> u8" let ?id = "fec_identity demo_cell" let ?st = demo_stripe_cells
  have cells: "\<forall>c\<in>set ?st. carries_records c \<and> fec_identity c = ?id \<and> unat (cell_sequence c) < u16_max"
    by (simp add: demo_stripe_cells_def carries_records_def fec_identity_def demo_cell_def u16_max_def)
  have fits: "\<forall>c\<in>set ?st. fits 1147 ?id c" using demo_fits by (auto simp: fec_demo_cells_def)
  have n: "length ?st = 2" "hd ?st = demo_cell" by (simp_all add: demo_stripe_cells_def)
  obtain sid sys par where e: "encode_stripe_id (cell_sequence (hd ?st)) (length ?st) = Inr sid"
    "encode_stripe xor_code 1 1147 1200 ?id ?st = Inr (sys, par)" "length par = 1"
    "list_all2 (\<lambda>c w. decode_cell w = Inr (stamped sid c)) ?st sys" "\<forall>w\<in>set (sys @ par). length w \<le> 1200"
    by (rule encode_stripe_total [OF xor_code_corrects _ demo_protected _ _ _ fits])
      (use n demo_consecutive(1) in \<open>simp_all add: MAX_CELL_BYTES_def consecutive_def\<close>)
  have ls: "length sys = 2" using e(4) n by (simp add: list_all2_lengthD [symmetric])
  define d where "d = \<lparr> fd_session_epoch = 7, fd_ttl = 1000, fd_maximum_stripes = 8, fd_maximum_buffered_bytes = 100000,
    fd_stripes = [], fd_order = [], fd_completed = {}, fd_completed_order = [], fd_buffered_bytes = 0 \<rparr>"
  have d: "decoder_with_limits 7 1000 8 100000 = Inr d" by (simp add: decoder_with_limits_def d_def)
  have h: "shim_valid ?h" by (simp add: shim_valid_def)
  obtain t where t: "sent_ok xor_code t" "tx_wires t = map (reshim ?h) sys" "tx_parity t = map (reshim ?h) par"
    using encode_stripe_sent [OF xor_code_corrects _ _ h e(2) cells] by (metis one_le_numeral zero_less_one)
  let ?p = "reshim ?h (par ! 0)" let ?s = "reshim ?h (sys ! 1)"
  have "tx_parity t ! 0 = ?p" "tx_wires t ! 1 = ?s" using t e(3) ls by simp_all
  moreover have "1 < length (tx_cells t)" "0 < length (tx_recs t)" using t(1) ls e(3) unfolding t(2,3) sent_ok_def
    by (metis length_map t(2) one_less_numeral_iff semiring_norm(76), metis length_map t(3) zero_less_one)
  then have "parity_sent t 0" "data_sent t 1" using t(1) by (simp_all add: sent_ok_def)
  ultimately have "?p \<noteq> ?s" by (auto simp: parity_sent_def data_sent_def carries_records_def)
  moreover have "sys ! 1 \<in> set sys" "par ! 0 \<in> set par" using ls e(3) by simp_all
  ultimately have two: "fst ` set [(?p, 10 :: nat), (?s, 20)] \<inter> reshim ?h ` set (sys @ par) = {?p, ?s}" "card {?p, ?s} = 2" by auto
  obtain d' outs where run: "run_ops (fec_step xor_code) (pushes [(?p, 10), (?s, 20)]) d = (d', outs)" by fastforce
  have len: "length ?p \<le> 1200" "length ?s \<le> 1200" using e(5) ls e(3) by simp_all
  have ep: "cell_session_epoch demo_cell = 7" by (simp add: demo_cell_def)
  have "set (delivered_of (stripe_ref sid ?st) outs) = (with_shim ?h \<circ> stamped sid) ` set ?st"
    using fec_recovers [OF xor_code_corrects _ _ h e(2) cells e(1), of 1000 8 100000 d "[(?p, 10), (?s, 20)]" 0 d' outs] d run two len n ls e(3)
    by (auto simp: ep MAX_PARITY_CELLS_def usize_max_def)
  with e(2) d run show ?thesis by auto
qed

text \<open>C31. The protected Cell size leaves room for parity: with a supported geometry, every train of consecutive
  Cells that fit the protected maximum is accepted, every datagram produced respects the path
  maximum, and the systematic datagrams decode to the train's Cells in order, up to the stripe id.\<close>

theorem fec_encode_total:
  assumes rs: "rs_corrects rs (fg_parity_cells g)" and g: "geometry_validate g = Inr ()"
    and pm: "protected_cell_maximum path (fg_data_cells g) = Inr pm" and path: "path \<le> MAX_CELL_BYTES"
    and cells: "cells \<noteq> []" "consecutive cells" "\<forall>c\<in>set cells. fits pm (fec_identity (hd cells)) c"
  shows "\<exists>out. fec_encode rs g cells path = Inr out \<and>
    list_all2 (\<lambda>c w. \<exists>sid. decode_cell w = Inr (stamped sid c)) cells (et_systematic out) \<and>
    et_systematic out = map fst (filter (\<lambda>e. \<not> snd e) (et_ordered out)) \<and> et_parity out = map fst (filter snd (et_ordered out)) \<and>
    (\<forall>e\<in>set (et_ordered out). length (fst e) \<le> path)"
proof -
  let ?id = "fec_identity (hd cells)"
  note P = protected_maximum [OF pm]
  have guard: "list_all (\<lambda>c. carries_records c \<and> fec_identity c = ?id) cells" using cells(3) by (simp add: list_all_iff fits_def)
  have pp: "pm \<le> path" using P(1) by linarith
  have "\<exists>out. fec_encode rs g cells path = Inr out \<and> train_emitted path cells out"
  proof (cases "fg_parity_cells g = 0")
    case True
    have "\<forall>c\<in>set cells. \<exists>w. encode_into path c = Inr w \<and> length w \<le> path"
    proof
      fix c assume "c \<in> set cells"
      then obtain w where "encode_into path (stamped (cell_stripe_id c) c) = Inr w" "length w \<le> pm"
        using encode_stamped [OF _ pp path, of ?id c "cell_stripe_id c"] cells(3) by metis
      then show "\<exists>w. encode_into path c = Inr w \<and> length w \<le> path" using pp by (auto simp: stamped_def)
    qed
    then obtain f where f: "\<And>c. c \<in> set cells \<Longrightarrow> encode_into path c = Inr (f c) \<and> length (f c) \<le> path" by metis
    have run: "mapR (encode_into path) cells = Inr (map f cells)" using f by (intro list_all2_mapR) (simp add: list_all2_conv_all_nth)
    have dec: "decode_cell (f c) = Inr (stamped (cell_stripe_id c) c)" if "c \<in> set cells" for c
      using cell_wire_max.dec_enc [of path c "f c"] f [OF that] by (simp add: stamped_def)
    have "list_all2 (\<lambda>c w. \<exists>sid. decode_cell w = Inr (stamped sid c)) cells (map f cells)"
      using dec by (auto simp: list_all2_conv_all_nth)
    then show ?thesis using True guard cells(1) run f
      by (auto simp: fec_encode_def Let_def train_emitted_def encoded_train_default_def comp_def filter_id_conv filter_empty_conv)
  next
    case False
    let ?n = "fg_data_cells g"
    have n: "0 < ?n" using P(3) by linarith
    have "\<forall>stripe\<in>set (chunks ?n cells). stripe \<noteq> [] \<and> length stripe \<le> ?n \<and> consecutive stripe \<and> (\<forall>c\<in>set stripe. fits pm ?id c)"
      using chunks_bounds [OF _ n] chunks_consecutive [OF _ cells(2)] cells(3) by blast
    moreover have "train_emitted path [] encoded_train_default" by (simp add: train_emitted_def encoded_train_default_def)
    ultimately obtain out where "encode_stripes rs (fg_parity_cells g) pm path ?id (chunks ?n cells) encoded_train_default = Inr out"
      "train_emitted path ([] @ concat (chunks ?n cells)) out" using encode_stripes_total [OF rs _ pm path] False by blast
    then show ?thesis using False guard cells(1) pm chunks_concat [OF n, of cells] by (simp add: fec_encode_def Let_def)
  qed
  then show ?thesis by (simp add: train_emitted_def)
qed

theorem fec_encode_total_witness:
  "\<exists>out. fec_encode xor_code \<lparr> fg_data_cells = 2, fg_parity_cells = 1 \<rparr> fec_demo_cells 1200 = Inr out \<and>
    (\<forall>e\<in>set (et_ordered out). length (fst e) \<le> 1200)"
proof -
  have "geometry_validate \<lparr> fg_data_cells = 2, fg_parity_cells = 1 \<rparr> = Inr ()"
    by (simp add: geometry_validate_def MAX_DATA_CELLS_def MAX_PARITY_CELLS_def)
  moreover have "hd fec_demo_cells = demo_cell" "fec_demo_cells \<noteq> []" by (simp_all add: fec_demo_cells_def demo_stripe_cells_def)
  ultimately show ?thesis
    using fec_encode_total [of xor_code "\<lparr> fg_data_cells = 2, fg_parity_cells = 1 \<rparr>" 1200 1147 fec_demo_cells]
      xor_code_corrects demo_protected demo_consecutive(2) demo_fits [of _ 1147] by (auto simp: MAX_CELL_BYTES_def)
qed

text \<open>C32. The stripe decoder is bounded and always returns: in every run over every input, whatever the erasure
  code answers, its byte counter is the sum of what it buffers and within the limit in force, active
  and remembered stripes stay within the stripe limit, and no push runs forever.\<close>

theorem fec_decoder_bounds:
  assumes "decoder_with_limits epoch ttl stripes bytes = Inr d" and "bytes < usize_max" and "list_all limit_in_range ops"
    and "run_ops (fec_step rs) ops d = (d', outs)"
  shows "fd_buffered_bytes d' = (\<Sum>e\<leftarrow>fd_stripes d'. stripe_buffered (snd e)) \<and> fd_buffered_bytes d' \<le> fd_maximum_buffered_bytes d' \<and>
    length (fd_stripes d') \<le> fd_maximum_stripes d' \<and> card (fd_completed d') \<le> fd_maximum_stripes d' \<and> Pushed None \<notin> set outs"
proof -
  have r: "decoder_inv d'" "list_all2 returns ops outs"
    using fec_runs.run_inv [OF decoder_new_inv [OF assms(1,2)] assms(3,4)] by blast+
  have "card (fd_completed d') \<le> length (fd_completed_order d')"
    using r(1) card_length [of "fd_completed_order d'"] by (simp add: decoder_inv_def decoder_ok_def completed_ok_def)
  then have "card (fd_completed d') \<le> fd_maximum_stripes d'"
    using r(1) by (simp add: decoder_inv_def decoder_ok_def completed_ok_def)
  moreover have "Pushed None \<notin> set outs" using r(2) by (auto simp: list_all2_conv_all_nth in_set_conv_nth returns_def)
  ultimately show ?thesis using r(1) by (simp add: decoder_inv_def decoder_ok_def stripes_ok_def alist_sum_def comp_def)
qed

theorem fec_decoder_bounds_witness:
  "\<exists>d. decoder_with_limits 7 1000 1 64 = Inr d \<and>
    fd_buffered_bytes (fst (run_ops (fec_step xor_code) [FecPush demo_striped_bytes 5, FecSetMaximum 32, FecExpire 9] d)) \<le>
    fd_maximum_buffered_bytes (fst (run_ops (fec_step xor_code) [FecPush demo_striped_bytes 5, FecSetMaximum 32, FecExpire 9] d))"
proof -
  let ?ops = "[FecPush demo_striped_bytes 5, FecSetMaximum 32, FecExpire 9]"
  obtain d where d: "decoder_with_limits 7 1000 1 64 = Inr d" by (simp add: decoder_with_limits_def)
  obtain d' outs where run: "run_ops (fec_step xor_code) ?ops d = (d', outs)" by fastforce
  have "list_all limit_in_range ?ops" "(64 :: nat) < usize_max" by (simp_all add: usize_max_def)
  from fec_decoder_bounds [OF d this(2,1) run] d run show ?thesis by auto
qed

text \<open>A data Cell of a stripe of two, and a parity Cell of that stripe whose symbols are two bytes long.\<close>

definition short_stripe :: u32 where
  "short_stripe = 0x02000001"

definition short_payload :: bytes where
  "short_payload = [0x46, 0x50, 0x56, 0x32, 2, 1, 0, 0, 0, 0, 0, 2, 0, 1, 0, 1, 0, 0]"

definition short_data :: cell_v2 where
  "short_data = demo_cell\<lparr> cell_stripe_id := short_stripe \<rparr>"

definition short_parity :: cell_v2 where
  "short_parity = parity_cell (fec_identity demo_cell) short_stripe 0 short_payload"

definition short_data_bytes :: bytes where
  "short_data_bytes = encode_header 3 (header_of short_data) @ encode_body (cell_body short_data)"

definition short_parity_bytes :: bytes where
  "short_parity_bytes = encode_header 0 (header_of short_parity) @ short_payload"

lemma short_decodes: "decode_cell short_data_bytes = Inr short_data" "decode_cell short_parity_bytes = Inr short_parity"
proof -
  have v: "validate_cell short_data = Inr ()" "validate_cell short_parity = Inr ()"
    by (simp_all add: short_data_def short_parity_def parity_cell_def fec_identity_def demo_cell_def short_stripe_def short_payload_def cell_eval wire_eval)
  show "decode_cell short_data_bytes = Inr short_data"
    using v(1) by (simp add: decode_cell_Inr_iff short_data_bytes_def short_data_def demo_cell_def MAX_CELL_BYTES_def encode_segment_def)
  have "cell_flags short_parity = 0" "cell_body short_parity = Parity short_payload"
    by (simp_all add: short_parity_def parity_cell_def fec_identity_def)
  then show "decode_cell short_parity_bytes = Inr short_parity"
    using v(2) by (simp add: decode_cell_Inr_iff short_parity_bytes_def MAX_CELL_BYTES_def short_payload_def)
qed

definition short_payload_record :: parity_payload where
  "short_payload_record = \<lparr> pp_data_cells = 2, pp_parity_cells = 1, pp_recovery_index = 0, pp_first_sequence = 0,
     pp_symbol_bytes = 2, pp_lengths = [1, 1], pp_recovery = [0, 0] \<rparr>"

lemma short_shape: "decode_stripe_id short_stripe = Inr (0, 2)"
  by (simp add: decode_stripe_id_def short_stripe_def STRIPE_DATA_SHIFT_def STRIPE_SEQUENCE_MASK_def MAX_DATA_CELLS_def u16_max_def)

lemma short_record: "decode_parity_payload short_payload = Inr short_payload_record"
  by (simp add: decode_parity_payload_def short_payload_def short_payload_record_def PARITY_FIXED_LEN_def PARITY_MAGIC_def slice_def
      geometry_validate_def MAX_DATA_CELLS_def MAX_PARITY_CELLS_def get_u16_def nat_of_be_def Let_def)


definition short_decoder :: "nat \<Rightarrow> (stripe_key \<times> decode_stripe) list \<Rightarrow> (stripe_key \<times> instant) list \<Rightarrow> fec_decoder" where
  "short_decoder n es q = \<lparr> fd_session_epoch = 7, fd_ttl = 1000, fd_maximum_stripes = 8, fd_maximum_buffered_bytes = 100000,
    fd_stripes = es, fd_order = q, fd_completed = {}, fd_completed_order = [], fd_buffered_bytes = n \<rparr>"

definition short_state :: "parity_payload option \<Rightarrow> (u16 \<times> bytes) list \<Rightarrow> (nat \<times> bytes) list \<Rightarrow> u16 set \<Rightarrow> decode_stripe" where
  "short_state g os rs ds = \<lparr> ds_created = 10, ds_updated = 10, ds_geometry = g, ds_repair_shape = (0, 2), ds_routing_shim = (3, 1),
     ds_originals = os, ds_recoveries = rs, ds_delivered = ds, ds_repair_requested = False \<rparr>"

lemma short_decoder_sel [simp]:
  "fd_session_epoch (short_decoder n es q) = 7" "fd_ttl (short_decoder n es q) = 1000" "fd_maximum_stripes (short_decoder n es q) = 8"
  "fd_maximum_buffered_bytes (short_decoder n es q) = 100000" "fd_stripes (short_decoder n es q) = es" "fd_order (short_decoder n es q) = q"
  "fd_completed (short_decoder n es q) = {}" "fd_buffered_bytes (short_decoder n es q) = n"
  "set_stripe k s (short_decoder n es q) = short_decoder n (AList.update k s es) q"
  "(short_decoder n es q)\<lparr> fd_buffered_bytes := m \<rparr> = short_decoder m es q" "(short_decoder n es q)\<lparr> fd_order := q' \<rparr> = short_decoder n es q'"
  "(short_decoder n es q)\<lparr> fd_stripes := es' \<rparr> = short_decoder n es' q"
  by (simp_all add: short_decoder_def set_stripe_def)

lemma short_state_sel [simp]:
  "ds_updated (short_state g os rs ds) = 10" "ds_geometry (short_state g os rs ds) = g" "ds_routing_shim (short_state g os rs ds) = (3, 1)"
  "ds_originals (short_state g os rs ds) = os" "ds_recoveries (short_state g os rs ds) = rs" "ds_delivered (short_state g os rs ds) = ds"
  "(short_state g os rs ds)\<lparr> ds_originals := os', ds_delivered := ds' \<rparr> = short_state g os' rs ds'"
  "(short_state g os rs ds)\<lparr> ds_geometry := g' \<rparr> = short_state g' os rs ds" "(short_state g os rs ds)\<lparr> ds_recoveries := rs' \<rparr> = short_state g os rs' ds"
  "(short_state g os rs ds)\<lparr> ds_updated := 10 \<rparr> = short_state g os rs ds"
  by (simp_all add: short_state_def)

abbreviation short_key :: stripe_key where
  "short_key \<equiv> stripe_key_from_cell short_data"

lemma short_sel:
  "cell_session_epoch short_data = 7" "cell_stripe_id short_data = short_stripe" "cell_sequence short_data = 0" "carries_records short_data"
  "cell_overlay_hop_limit short_data = 3" "cell_overlay_hops short_data = 1" "cell_overlay_hop_limit short_parity = 3" "cell_overlay_hops short_parity = 1"
  "cell_session_epoch short_parity = 7" "cell_stripe_id short_parity = short_stripe" "\<not> carries_records short_parity"
  "cell_body short_parity = Parity short_payload"
  "stripe_key_from_cell short_parity = short_key" "sk_stripe_id short_key = short_stripe" "short_stripe \<noteq> 0" "length short_data_bytes = 56"
  by (simp_all add: short_data_def short_parity_def parity_cell_def fec_identity_def demo_cell_def carries_records_def stripe_key_from_cell_def
      short_stripe_def short_data_bytes_def encode_segment_def)

lemma short_reserve: "m + n \<le> 100000 \<Longrightarrow> reserve n short_key (short_decoder m es q) = Some (short_decoder m es q, Inr ())"
  by (simp add: reserve_def reserve_loop.simps sat_add_def usize_max_def)

lemma short_push_data:
  "\<exists>out. push_at rs short_data_bytes 10 (short_decoder 0 [] []) =
    Some (short_decoder 56 [(short_key, short_state None [(0, short_data_bytes)] [] {0})] [(short_key, 10), (short_key, 10)], Inr out)"
proof -
  have e: "decoder_expire 10 (short_decoder 0 [] []) = (short_decoder 0 [] [], 0)"
    by (simp add: decoder_expire_def decoder_expire_loop.simps)
  have ens: "ensure_stripe short_key 10 (3, 1) (short_decoder 0 [] []) =
      (short_decoder 0 [(short_key, short_state None [] [] {})] [(short_key, 10)], Inr ())"
    by (simp add: ensure_stripe_def evict_for_stripe.simps short_sel short_shape) (simp add: short_state_def)
  have w: "within_stripe (0, 2) 0" by (simp add: within_stripe_def u16_max_def)
  have adm: "admit_data short_key short_data short_data_bytes out (short_decoder 0 [(short_key, short_state None [] [] {})] [(short_key, 10)]) =
      Some (short_decoder 56 [(short_key, short_state None [(0, short_data_bytes)] [] {0})] [(short_key, 10)],
        Inr (out\<lparr> fo_cells := fo_cells out @ [short_data] \<rparr>))" for out
    by (simp add: admit_data_def short_sel short_reserve)
  obtain x where body: "cell_body short_data = Records x" by (simp add: short_data_def demo_cell_def)
  show ?thesis using e ens w adm short_shape short_decodes(1)
    by (simp add: push_at_def push_striped_def finish_push_def try_recover_def stripe_complete_def Let_def short_sel body)
qed

text \<open>Expanding a buffered data Cell that is longer than a symbol panics, whatever the others are.\<close>

lemma expand_original_panics: "expand_original n bs = Inl e \<Longrightarrow> \<exists>msg. e = Panic msg"
  by (auto simp: expand_original_def normalize_routing_shim_def split: if_splits)

lemma expand_originals_panics:
  assumes "\<forall>j\<in>set pre. stripe_sequence g j \<noteq> None" and "stripe_sequence g i = Some q"
    and "map_of (ds_originals s) q = Some original" and "pp_symbol_bytes g < length original"
  shows "\<exists>msg. expand_originals g s (pre @ i # post) = Inl (Panic msg)"
  using assms(1)
proof (induction pre)
  case Nil
  with assms(2-4) show ?case by (simp add: expand_original_def)
next
  case (Cons j pre)
  then obtain q' msg where "stripe_sequence g j = Some q'" "expand_originals g s (pre @ i # post) = Inl (Panic msg)" by auto
  then show ?case
    by (cases "map_of (ds_originals s) q'"; cases "expand_original (pp_symbol_bytes g) (the (map_of (ds_originals s) q'))")
      (auto dest: expand_original_panics)
qed

lemma try_recover_panics:
  assumes "map_of (fd_stripes d) key = Some s" and "ds_geometry s = Some g"
    and "present_originals g s < pp_data_cells g" and "pp_data_cells g \<le> present_originals g s + length (ds_recoveries s)"
    and "rs_supports rs (pp_data_cells g) (pp_parity_cells g) (pp_symbol_bytes g)"
    and i: "i < pp_data_cells g" "stripe_sequence g i = Some q"
    and "map_of (ds_originals s) q = Some original" and "pp_symbol_bytes g < length original"
  shows "\<exists>msg. try_recover rs key d = (d, Inl (Panic msg))"
proof -
  have split: "[0..<pp_data_cells g] = [0..<i] @ i # [Suc i..<pp_data_cells g]"
    using i(1) upt_add_eq_append [of 0 i "pp_data_cells g - i"] by (simp add: upt_conv_Cons)
  have "\<forall>j\<in>set [0..<i]. stripe_sequence g j \<noteq> None" using i(2) by (auto simp: stripe_sequence_def split: if_splits)
  from expand_originals_panics [OF this i(2) assms(8,9), of "[Suc i..<pp_data_cells g]"]
  obtain msg where "expand_originals g s [0..<pp_data_cells g] = Inl (Panic msg)" unfolding split by blast
  then show ?thesis using assms(1-5) by (simp add: try_recover_def)
qed

text \<open>C33. A parity Cell that passes every check stops the receiver when its symbols are shorter than a data Cell
  already buffered. Take any decoder state in which no stripe is due to expire and a stripe holds all its data
  Cells but one and no parity yet. Let a datagram arrive that decodes to a parity Cell of that stripe and session, with
  the stripe's hop counts, whose payload decodes to a record of the stripe's shape, which fits the byte budget and
  names a geometry the erasure code supports. If a buffered data Cell is longer than the record's symbol size, \<open>push_at\<close>
  panics: the record is never compared with the buffered Cells before \<open>try_recover\<close> copies them into symbols.\<close>

theorem fec_short_symbol_panics:
  assumes dec: "decode_cell bs = Inr c" "cell_body c = Parity payload" "decode_parity_payload payload = Inr g"
    and same: "cell_session_epoch c = fd_session_epoch d" "cell_stripe_id c \<noteq> 0"
      "decode_stripe_id (cell_stripe_id c) = Inr (pp_first_sequence g, pp_data_cells g)"
    and live: "decoder_expire now d = (d, 0)" "stripe_key_from_cell c \<notin> fd_completed d"
    and stripe: "map_of (fd_stripes d) (stripe_key_from_cell c) = Some s"
      "ds_routing_shim s = (cell_overlay_hop_limit c, cell_overlay_hops c)" "ds_geometry s = None" "ds_recoveries s = []"
    and room: "fd_buffered_bytes d + length (pp_recovery g) \<le> fd_maximum_buffered_bytes d" "fd_maximum_buffered_bytes d < usize_max"
    and missing: "Suc (present_originals g s) = pp_data_cells g"
    and rs: "rs_supports rs (pp_data_cells g) (pp_parity_cells g) (pp_symbol_bytes g)"
    and long: "i < pp_data_cells g" "stripe_sequence g i = Some q" "map_of (ds_originals s) q = Some original"
      "pp_symbol_bytes g < length original"
  shows "\<exists>d' msg. push_at rs bs now d = Some (d', Inl (Panic msg))"
proof -
  let ?k = "stripe_key_from_cell c"
  define s' where "s' = s\<lparr> ds_geometry := Some g, ds_recoveries := [(pp_recovery_index g, pp_recovery g)] \<rparr>"
  define d1 where "d1 = set_stripe ?k (s\<lparr> ds_geometry := Some g \<rparr>) d"
  define d2 where "d2 = (set_stripe ?k s' d1)\<lparr> fd_buffered_bytes := fd_buffered_bytes d1 + length (pp_recovery g) \<rparr>"
  have "sat_add (fd_buffered_bytes d1) (length (pp_recovery g)) \<le> fd_maximum_buffered_bytes d1"
    using room by (simp add: d1_def set_stripe_def sat_add_le_iff)
  then have "reserve (length (pp_recovery g)) ?k d1 = Some (d1, Inr ())"
    by (subst reserve_def, subst reserve_loop.simps) simp
  moreover have "map_of (fd_stripes d1) ?k = Some (s\<lparr> ds_geometry := Some g \<rparr>)" by (simp add: d1_def set_stripe_def update_conv')
  ultimately have adm: "admit_parity ?k (pp_first_sequence g, pp_data_cells g) payload out d =
      Some (d2, Inr (out\<lparr> fo_parity_received := 1 \<rparr>))" for out
    using dec(3) stripe by (simp add: admit_parity_def Let_def d1_def [symmetric] d2_def s'_def)
  have "map_of (fd_stripes d2) ?k = Some s'" by (simp add: d2_def set_stripe_def update_conv')
  moreover have "ds_originals s' = ds_originals s" by (simp add: s'_def)
  then have "present_originals g s' = present_originals g s" by (simp only: present_originals_def)
  ultimately obtain msg where rec: "try_recover rs ?k d2 = (d2, Inl (Panic msg))"
    using try_recover_panics [of d2 ?k s' g rs i q original] missing rs long by (auto simp: s'_def)
  have ens: "ensure_stripe ?k now (cell_overlay_hop_limit c, cell_overlay_hops c) d = (d, Inr ())"
    using stripe by (simp add: ensure_stripe_def)
  have "\<not> carries_records c" using dec(2) by (simp add: carries_records_def)
  then have "push_striped rs c bs now out d = Some (d2, Inl (Panic msg))" for out
    using same(3) live(2) ens adm rec dec(2) by (simp add: push_striped_def Let_def finish_push_def)
  then show ?thesis using dec(1) same(1,2) live(1) by (simp add: push_at_def Let_def)
qed

theorem fec_short_symbol_panics_witness:
  "\<exists>d out msg. decoder_with_limits 7 1000 8 100000 = Inr d \<and>
    snd (run_ops (fec_step xor_code) (pushes [(short_data_bytes, 10), (short_parity_bytes, 20)]) d) =
      [Pushed (Some (Inr out)), Pushed (Some (Inl (Panic msg)))]"
proof -
  let ?d0 = "short_decoder 0 [] []" and ?s = "short_state None [(0, short_data_bytes)] [] {0}"
  let ?d1 = "short_decoder 56 [(short_key, ?s)] [(short_key, 10), (short_key, 10)]"
  obtain out where p1: "push_at xor_code short_data_bytes 10 ?d0 = Some (?d1, Inr out)" using short_push_data by blast
  have e: "decoder_expire 20 ?d1 = (?d1, 0)" by (simp add: decoder_expire_def decoder_expire_loop.simps current_generation_def)
  have g: "pp_first_sequence short_payload_record = 0" "pp_data_cells short_payload_record = 2" "pp_parity_cells short_payload_record = 1"
    "pp_symbol_bytes short_payload_record = 2" "length (pp_recovery short_payload_record) = 2"
    "stripe_sequence short_payload_record 0 = Some 0" "stripe_sequence short_payload_record (Suc 0) = Some 1"
    by (simp_all add: short_payload_record_def stripe_sequence_def u16_max_def)
  have "present_originals short_payload_record ?s = 1" by (simp add: present_originals_def g upt_rec numeral_2_eq_2)
  moreover have "rs_supports xor_code 2 1 2" by (simp add: xor_code_def)
  ultimately obtain d' msg where p2: "push_at xor_code short_parity_bytes 20 ?d1 = Some (d', Inl (Panic msg))"
    using fec_short_symbol_panics [OF short_decodes(2) _ short_record, of ?d1 20 ?s xor_code 0 0 short_data_bytes] e
    by (auto simp: short_sel short_shape g usize_max_def)
  have "decoder_with_limits 7 1000 8 100000 = Inr ?d0" by (simp add: decoder_with_limits_def short_decoder_def)
  moreover have "snd (run_ops (fec_step xor_code) (pushes [(short_data_bytes, 10), (short_parity_bytes, 20)]) ?d0) =
      [Pushed (Some (Inr out)), Pushed (Some (Inl (Panic msg)))]"
    using p1 p2 by (simp add: pushes_def)
  ultimately show ?thesis by blast
qed

end
