(* ===== verification/Spec2Isabelle.thy ===== *)
theory Spec2Isabelle
  imports ReassemblyTable Scheduler TopologyProperties FecProperties
begin

text \<open>
  Verification library for the packet-train overlay of ironet, the modules under
  \<open>src/src/protocol/v2/\<close>.

  \<^bold>\<open>The program.\<close> IP packets read from a TUN device become records. The train builder packs records
  into Cells of at most one DATAGRAM and groups them into a packet train. The scheduler of each peer
  queues trains and hands quanta of Cells to the transport; error correction may add parity Cells to
  stripes of a train, and the sender keeps recent stripes to answer repair requests. Each relay looks
  the route label of a Cell up in the current data-plane snapshot, rewrites the two hop counters and
  forwards it. The receiver recovers lost Cells of a stripe, asks for what remains missing, and the
  reassembly table puts the records of concurrent trains together again. Snapshots are compiled from
  the authenticated topology and published by generation.

  \<^bold>\<open>How it is modelled.\<close> Wire bytes and the fixed-width fields are words; \<open>usize\<close> counters are natural
  numbers, with the saturating and checked operations of the source written out at 64 bits; instants and
  durations are nanosecond counts. A fallible function returns \<open>error + 'a\<close>, where \<open>Err\<close> is an error the
  source returns and \<open>Panic\<close> an index, slice or \<open>expect\<close> that would abort. Mutable objects are records
  passed through and returned; hash maps are association lists (\<open>Hash_Map\<close>), hash sets are sets, sorted
  vectors with binary search are lists (\<open>Vec\<close>). \<open>Prelude\<close> holds the vocabulary, \<open>Interfaces\<close> the
  contracts as locales: wire formats that round-trip or are canonical, duplicate filters, and
  step functions with an invariant, which give the statements about whole runs of operations. Every
  locale is interpreted on the operations below.

  \<^bold>\<open>The theories, in the order of the data path.\<close>

  \<^item> \<open>Cell\<close> (\<open>cell.rs\<close>): the Cell and its segments, validation, the contiguous and the split encoder, the
    decoders, and the in-place hop update. Decoding inverts encoding and accepts only encodings; the
    two encoders agree; a transit hop changes two bytes and the hop budget is spent exactly.
  \<^item> \<open>Train\<close> (\<open>train.rs\<close>): \<open>build_packet_train\<close>. The Cells fit, are numbered and flagged; the segments tile the
    records; on valid input only the Cell limit can be exceeded.
  \<^item> \<open>Reassembly\<close>, \<open>Delivery\<close>, \<open>ReassemblyTable\<close> (\<open>reassembly.rs\<close>): one train, the composition with the builder, and the
    table of concurrent trains with its tombstones, expiry, eviction and resizing. What is delivered is
    what was sent, in any order and with repetitions, complete trains deliver everything, repeated Cells
    are inert, memory is bounded in every run, eviction is least recently used, and a completed train
    stays closed until its tombstone expires or is trimmed.
  \<^item> \<open>Scheduler\<close> (\<open>scheduler.rs\<close>): admission, the latency order, deficit round robin over bulk flows, and the
    priority of \<open>pop\<close>. The counters and budgets are exact in every run, quanta respect the hard limits,
    nothing is lost, latency service follows tier and deadline, and bulk is served after a burst.
  \<^item> \<open>Feedback\<close> (\<open>feedback.rs\<close>, \<open>route_feedback.rs\<close>, \<open>cover.rs\<close>): the fixed-layout records with their legacy form, and
    cover padding. \<open>Repair\<close> (\<open>repair.rs\<close>): the repair records and the sender's cache, its bounds, its answers
    and its time to live.
  \<^item> \<open>Fec\<close>, \<open>FecRecovery\<close>, \<open>FecProperties\<close> (\<open>fec.rs\<close>): stripe encoder and stripe decoder. Every stripe within the
    promise of the erasure code is recovered; encoding is total on fitting trains; the decoder is
    bounded and returns on every input; and the inputs on which recovery panics.
  \<^item> \<open>Prefixes\<close>, \<open>Snapshot\<close>, \<open>SnapshotProperties\<close> (\<open>routing.rs\<close>): prefix index, data-plane snapshot, dispatch, the
    store of generations and the routing records. Lookup refines longest-prefix match, every
    disposition of a Cell is well formed, publication keeps trains in flight.
  \<^item> \<open>Topology\<close> and the theories named after it (\<open>routing.rs\<close>): the topology compiler. \<open>TopologyPaths\<close> proves the
    search for candidate paths, \<open>TopologyGraph\<close> relates the graph to the links, \<open>TopologyPlan\<close> gives the
    closed form of the label assignment, \<open>TopologyCompile\<close> says which topologies compile, \<open>TopologyJourney\<close> follows a
    Cell through the snapshots of the nodes, \<open>TopologyMesh\<close> joins them, and \<open>TopologyProperties\<close> states that the
    compiled snapshots deliver every Cell to the owner of its destination along a cheapest path.

  \<^bold>\<open>Code outside the repository.\<close> \<open>reed-solomon-simd\<close> is the record \<open>reed_solomon\<close> of the operations called, with
  \<open>rs_corrects\<close> as its documented promise for a positive number of recovery shards; an exclusive-or code
  satisfies it for one. \<open>ipnet\<close> is the record \<open>ipnet\<close> with \<open>ipnet_ok\<close>; addresses with a valid prefix length
  satisfy it. The iteration order of a hash map is a list order that no property depends on, except
  where the source breaks a tie by it.

  \<^bold>\<open>Loops and bounds.\<close> There is no fuel. Loops are structural recursion or have a termination proof, but for two:
  \<open>reserve_loop\<close> of the stripe decoder, which rotates a queue, and \<open>trace_back\<close> of the path search, which
  follows predecessors. They are partial functions into \<open>option\<close>, and both are proved to return in every
  reachable state. Budgets are assumed below \<open>usize::MAX\<close>, where a saturating sum cannot be told from a full
  budget. The compiler is shown to succeed on valid topologies of up to 128 nodes, whose at most four
  paths per ordered pair fit the 16-bit labels; that it returns holds for any number.

  \<^bold>\<open>Not modelled.\<close> The asynchronous composition over QUIC connections, timers and TUN queues
  (\<open>dataplane.rs\<close>, \<open>v2_runtime\<close>); the handshake (\<open>session.rs\<close>), which binds its records to TLS exporter secrets;
  the virtio segmentation offload (\<open>gso.rs\<close>), built on structures of the TUN package; the per-flow
  classifier and the inspection of IP headers (\<open>classifier.rs\<close>, \<open>packet.rs\<close>), which choose a class and a flow before a
  train is built; the tuners and policies, which compute with floating-point measurements or run
  WebAssembly; signed presence, enrolment, the daemon and the host network. Buffer pools recycle
  allocations and do not affect values. Statistics are kept where a modelled operation reads or
  returns them.
\<close>

end
